(* ===== verification/Prelude.thy ===== *)
theory Prelude
  imports Main "HOL-Library.Word" "HOL-Library.List_Lexorder" "HOL-Library.Multiset"
begin

unbundle bit_operations_syntax

section \<open>Shared types and lemmas\<close>

text \<open>
  What every component of the model of TYLSMDB shares: the machine integers and byte
  strings of the Rust code, its error type (\<^verbatim>\<open>src/src/error.rs\<close>) with results as
  sums, the sequencing of fallible calls (Rust's question-mark operator), the half-open and closed
  bounds of \<^verbatim>\<open>std::ops::Bound\<close>, and the generic lemmas on lists, options and
  words the component proofs use.

  Integers: \<^verbatim>\<open>u8\<close>, \<^verbatim>\<open>u32\<close> and \<^verbatim>\<open>u64\<close> are words of
  that width, so the casts \<^verbatim>\<open>as u8\<close> and \<^verbatim>\<open>as u32\<close> truncate and
  \<open>+\<close> wraps.  A \<^verbatim>\<open>usize\<close> is the length of something in memory and is a
  \<open>nat\<close>.  Byte strings are ordered lexicographically, byte by byte, which is what
  \<open>List_Lexorder\<close> gives for lists of words and \<^verbatim>\<open>Ord for [u8]\<close> is in Rust.
\<close>

type_synonym u8 = "8 word"
type_synonym u32 = "32 word"
type_synonym u64 = "64 word"
type_synonym bytes = "8 word list"

named_theorems codec_simps \<open>round trips and lengths of the encoders\<close>
named_theorems result_simps \<open>outcomes of sequenced fallible calls\<close>
named_theorems sorted_intros \<open>facts about sorted entry lists\<close>

subsection \<open>Errors and results\<close>

text \<open>
  \<^verbatim>\<open>std::io::Error\<close> is kept as its kind.  \<open>Panic\<close> is not a constructor of
  the Rust enum: it stands for a failed \<^verbatim>\<open>expect\<close>, an index out of range or another
  panic, so that a panicking branch of the code is a value of the model.
\<close>

datatype io_kind = NotFound | UnexpectedEof | OtherIo

datatype error =
    InvalidArgument string
  | Corruption string
  | Io io_kind
  | Closed
  | Unsupported string
  | TransactionConflict string
  | Panic string

type_synonym 'a result = "error + 'a"

primrec and_then :: "'a result \<Rightarrow> ('a \<Rightarrow> 'b result) \<Rightarrow> 'b result" where
  "and_then (Inl e) f = Inl e"
| "and_then (Inr x) f = f x"

lemma and_then_cong [fundef_cong]:
  "r = r' \<Longrightarrow> (\<And>x. r' = Inr x \<Longrightarrow> f x = g x) \<Longrightarrow> and_then r f = and_then r' g"
  by (cases r') auto

lemma and_then_eq_Inr [result_simps]:
  "and_then r f = Inr y \<longleftrightarrow> (\<exists>x. r = Inr x \<and> f x = Inr y)"
  by (cases r) auto

lemma and_then_eq_Inl [result_simps]:
  "and_then r f = Inl e \<longleftrightarrow> r = Inl e \<or> (\<exists>x. r = Inr x \<and> f x = Inl e)"
  by (cases r) auto

lemma and_then_assoc: "and_then (and_then r f) g = and_then r (\<lambda>x. and_then (f x) g)"
  by (cases r) auto

text \<open>\<^verbatim>\<open>Result::ok\<close>.\<close>

primrec result_ok :: "'a result \<Rightarrow> 'a option" where
  "result_ok (Inl e) = None"
| "result_ok (Inr x) = Some x"

subsection \<open>Bounds\<close>

datatype 'a bound = Included 'a | Excluded 'a | Unbounded

subsection \<open>Byte strings\<close>

lemma bytes_le_Nil [simp]: "(xs :: bytes) \<le> [] \<longleftrightarrow> xs = []"
  by (cases xs) auto

lemma u8_not_less_iff: "\<not> (b < (0x80 :: u8)) \<longleftrightarrow> bit b 7"
proof -
  have "b < 0x80 \<longleftrightarrow> drop_bit 7 b = 0"
  proof -
    have "drop_bit 7 b = 0 \<longleftrightarrow> unat (drop_bit 7 b) = 0"
      by (simp add: unat_eq_zero)
    also have "\<dots> \<longleftrightarrow> unat b div 128 = 0"
      by (simp add: unat_drop_bit_eq drop_bit_eq_div unat_div)
    also have "\<dots> \<longleftrightarrow> b < 0x80"
      by (simp add: word_less_nat_alt div_eq_0_iff)
    finally show ?thesis by blast
  qed
  moreover have "drop_bit 7 b = 0 \<longleftrightarrow> \<not> bit b 7"
  proof
    assume "drop_bit 7 b = 0"
    then have "bit (drop_bit 7 b) 0 = bit (0 :: u8) 0" by simp
    then show "\<not> bit b 7" by (simp add: bit_drop_bit_eq)
  next
    assume *: "\<not> bit b 7"
    show "drop_bit 7 b = 0"
    proof (rule bit_word_eqI)
      fix n assume "n < LENGTH(8)"
      then show "bit (drop_bit 7 b) n = bit (0 :: u8) n"
        using * by (cases n) (auto simp: bit_drop_bit_eq bit_word_of_int_iff dest: bit_imp_le_length)
    qed
  qed
  ultimately show ?thesis by blast
qed

lemma ucast_u64_u32 [simp]: "ucast (ucast (v :: u32) :: u64) = v"
  by (rule bit_word_eqI) (simp add: bit_ucast_iff)

lemma unat_u32_of_length [simp]: "n < 2 ^ 32 \<Longrightarrow> unat (word_of_nat n :: u32) = n"
  by (simp add: unsigned_of_nat take_bit_nat_eq_self)

lemma unat_u64_less [simp]: "unat (n :: u64) < 18446744073709551616"
  using unsigned_less [of n] by simp

subsection \<open>Lists\<close>

lemma dropWhile_filter_conv:
  "sorted_wrt (\<lambda>x y. P y \<longrightarrow> P x) xs \<Longrightarrow> dropWhile P xs = filter (\<lambda>x. \<not> P x) xs"
  by (induction xs) (auto simp: filter_id_conv)

lemma find_eq_filter: "find P xs = (case filter P xs of [] \<Rightarrow> None | x # _ \<Rightarrow> Some x)"
  by (induction xs) auto

text \<open>A list cut inside its middle part is a prefix of the whole.\<close>

lemma take_middle: "\<exists>j. pre @ take k mid = take j (pre @ mid @ post)"
  by (rule exI [of _ "length pre + min k (length mid)"]) (auto simp: min_def)

end
