(* ===== verification/Coding.thy ===== *)
theory Coding
  imports Prelude
begin

unbundle bit_operations_syntax

section \<open>Integer coding (util/coding.rs)\<close>

text \<open>
  The variable-length integers of \<^verbatim>\<open>src/src/util/coding.rs\<close> and the little-endian
  fixed-width integers of Rust's \<^verbatim>\<open>to_le_bytes\<close> and \<^verbatim>\<open>from_le_bytes\<close>.
  A decoder takes the remaining input (Rust's \<^verbatim>\<open>src: &mut &[u8]\<close>) and returns the
  value with the input left over.  The lemmas show that decoding inverts encoding whatever
  follows, bound the encoded length, and give the error of a truncated or over-long varint.
\<close>

type_synonym 'a decoder = "bytes \<Rightarrow> ('a \<times> bytes) result"

subsection \<open>Definitions\<close>

text \<open>A length cast \<^verbatim>\<open>as u32\<close>, which truncates.\<close>

abbreviation len_u32 :: "bytes \<Rightarrow> u32" where
  "len_u32 xs \<equiv> word_of_nat (length xs)"

definition require_non_empty :: "bytes \<Rightarrow> string \<Rightarrow> unit result" where
  "require_non_empty input context =
     (if input = [] then Inl (InvalidArgument (context @ '' must not be empty'')) else Inr ())"

function put_var_u64 :: "bytes \<Rightarrow> u64 \<Rightarrow> bytes" where
  "put_var_u64 dst v =
     (if v \<ge> 0x80
      then put_var_u64 (dst @ [ucast v OR 0x80]) (drop_bit 7 v)
      else dst @ [ucast v])"
  by pat_completeness auto
termination
proof (relation "measure (\<lambda>(dst, v). unat v)", goal_cases)
  case (2 dst v)
  then have "128 \<le> unat v"
    by (simp add: word_le_nat_alt)
  then show ?case
    by (simp add: unat_drop_bit_eq drop_bit_eq_div unat_div)
qed simp

declare put_var_u64.simps [simp del]

definition put_var_u32 :: "bytes \<Rightarrow> u32 \<Rightarrow> bytes" where
  "put_var_u32 dst value = put_var_u64 dst (ucast value)"

fun get_var_u64_from :: "nat \<Rightarrow> u64 \<Rightarrow> u64 decoder" where
  "get_var_u64_from shift result [] =
     Inl (Corruption (if shift < 64 then ''truncated varint'' else ''varint u64 overflow''))"
| "get_var_u64_from shift result (byte # rest) =
     (if shift < 64 then
        let result' = result OR push_bit shift (ucast (byte AND 0x7f))
        in if byte < 0x80 then Inr (result', rest)
           else get_var_u64_from (shift + 7) result' rest
      else Inl (Corruption ''varint u64 overflow''))"

definition get_var_u64 :: "u64 decoder" where
  "get_var_u64 src = get_var_u64_from 0 0 src"

definition get_var_u32 :: "u32 decoder" where
  "get_var_u32 src =
     and_then (get_var_u64 src) (\<lambda>(value, rest).
       if unat value < 2 ^ 32 then Inr (ucast value, rest)
       else Inl (Corruption ''varint u32 overflow''))"

definition take_bytes :: "nat \<Rightarrow> bytes decoder" where
  "take_bytes len src =
     (if length src < len then Inl (Corruption ''truncated byte slice'')
      else Inr (take len src, drop len src))"

text \<open>
  The loops \<^verbatim>\<open>for _ in 0..count\<close> of the decoders: decode \<open>n\<close> items and
  collect them, stopping at the first error.
\<close>

fun decode_count :: "'a decoder \<Rightarrow> nat \<Rightarrow> 'a list decoder" where
  "decode_count dec 0 src = Inr ([], src)"
| "decode_count dec (Suc n) src =
     and_then (dec src) (\<lambda>(x, rest).
       and_then (decode_count dec n rest) (\<lambda>(xs, rest'). Inr (x # xs, rest')))"

definition to_le_bytes :: "nat \<Rightarrow> 'a::len word \<Rightarrow> bytes" where
  "to_le_bytes n w = map (\<lambda>i. ucast (drop_bit (8 * i) w)) [0..<n]"

primrec from_le_bytes :: "bytes \<Rightarrow> 'a::len word" where
  "from_le_bytes [] = 0"
| "from_le_bytes (b # bs) = ucast b OR push_bit 8 (from_le_bytes bs)"

subsection \<open>Fixed-width integers\<close>

lemma length_to_le_bytes [simp]: "length (to_le_bytes n w) = n"
  by (simp add: to_le_bytes_def)

lemma to_le_bytes_Suc: "to_le_bytes (Suc n) w = ucast w # to_le_bytes n (drop_bit 8 w)"
proof -
  have "[0..<Suc n] = 0 # map Suc [0..<n]"
    by (simp add: map_Suc_upt upt_conv_Cons)
  then show ?thesis
    by (simp add: to_le_bytes_def o_def drop_bit_drop_bit add.commute)
qed

lemma bit_from_to_le_bytes:
  "bit (from_le_bytes (to_le_bytes n w) :: 'a::len word) k \<longleftrightarrow> k < 8 * n \<and> bit (w :: 'a word) k"
proof (induction n arbitrary: w k)
  case 0
  then show ?case by (simp add: to_le_bytes_def)
next
  case (Suc n)
  show ?case
  proof (cases "k < 8")
    case True
    then show ?thesis
      by (auto simp: to_le_bytes_Suc bit_or_iff bit_push_bit_iff bit_ucast_iff
          dest: bit_imp_le_length)
  next
    case False
    then show ?thesis
      by (auto simp: to_le_bytes_Suc bit_or_iff bit_push_bit_iff bit_ucast_iff Suc.IH
          bit_drop_bit_eq dest: bit_imp_le_length)
  qed
qed

lemma from_to_le_bytes [codec_simps, simp]:
  "LENGTH('a) \<le> 8 * n \<Longrightarrow> from_le_bytes (to_le_bytes n w) = (w :: 'a::len word)"
  by (rule bit_word_eqI) (simp add: bit_from_to_le_bytes)

subsection \<open>Variable-length integers\<close>

lemma put_var_u64_prepend: "put_var_u64 (pre @ dst) v = pre @ put_var_u64 dst v"
proof (induction dst v rule: put_var_u64.induct)
  case (1 dst v)
  show ?case
  proof (cases "v \<ge> 0x80")
    case True
    with 1 show ?thesis
      by (simp add: put_var_u64.simps [of dst v] put_var_u64.simps [of "pre @ dst" v])
  next
    case False
    then show ?thesis
      by (simp add: put_var_u64.simps [of dst v] put_var_u64.simps [of "pre @ dst" v])
  qed
qed

lemma put_var_u64_append: "NO_MATCH [] dst \<Longrightarrow> put_var_u64 dst v = dst @ put_var_u64 [] v"
  using put_var_u64_prepend [of dst "[]" v] by simp

lemma put_var_u64_small: "v < 0x80 \<Longrightarrow> put_var_u64 [] v = [ucast v]"
  by (simp add: put_var_u64.simps)

lemma put_var_u64_large:
  "v \<ge> 0x80 \<Longrightarrow> put_var_u64 [] v = (ucast v OR 0x80) # put_var_u64 [] (drop_bit 7 v)"
  using put_var_u64_prepend [of "[ucast v OR 0x80]" "[]" "drop_bit 7 v"]
  by (simp add: put_var_u64.simps [of "[]" v])

lemma continuation_byte: "\<not> (b OR 0x80 < (0x80 :: u8))"
  by (simp add: u8_not_less_iff bit_or_iff)

lemma and_0x7f: "(b :: u8) AND 0x7f = take_bit 7 b"
  by (simp add: take_bit_eq_mask mask_eq_exp_minus_1)

lemma bit_0x80: "bit (0x80 :: u8) n \<longleftrightarrow> n = 7"
proof -
  have "(0x80 :: u8) = push_bit 7 1" by simp
  then show ?thesis
    by (auto simp only: bit_push_bit_iff bit_1_iff) simp
qed

lemma varint_low_bits:
  "(ucast ((ucast v OR 0x80 :: u8) AND 0x7f) :: u64) = take_bit 7 v"
  unfolding and_0x7f
  by (rule bit_word_eqI) (auto simp only: bit_ucast_iff bit_or_iff bit_0x80 bit_take_bit_iff
      bit_imp_le_length, auto)

lemma varint_last_byte:
  assumes "v < 0x80"
  shows "(ucast (ucast v AND 0x7f :: u8) :: u64) = v"
proof -
  have "unat (take_bit 7 v) = unat v"
    using assms by (simp add: unsigned_take_bit_eq take_bit_nat_eq_self word_less_nat_alt)
  then have "take_bit 7 v = v"
    by (rule unsigned_word_eqI)
  moreover have "(ucast (take_bit 7 (ucast v :: u8)) :: u64) = take_bit 7 v"
    by (rule bit_word_eqI) (auto simp: bit_ucast_iff bit_take_bit_iff)
  ultimately show ?thesis
    by (simp add: and_0x7f)
qed

lemma varint_join:
  "push_bit s (take_bit 7 v) OR push_bit (s + 7) (drop_bit 7 v) = push_bit s (v :: u64)"
proof (rule bit_word_eqI)
  fix n assume "n < LENGTH(64)"
  show "bit (push_bit s (take_bit 7 v) OR push_bit (s + 7) (drop_bit 7 v)) n = bit (push_bit s v) n"
  proof (cases "s + 7 \<le> n")
    case True
    then have "7 + (n - (s + 7)) = n - s" by arith
    with True \<open>n < LENGTH(64)\<close> show ?thesis
      by (auto simp: bit_or_iff bit_push_bit_iff bit_take_bit_iff bit_drop_bit_eq)
  next
    case False
    with \<open>n < LENGTH(64)\<close> show ?thesis
      by (auto simp: bit_or_iff bit_push_bit_iff bit_take_bit_iff)
  qed
qed

lemma varint_step:
  assumes "s < 64" and "unat v < 2 ^ (64 - s)" and "\<not> v < (0x80 :: u64)"
  shows "s + 7 < 64 \<and> unat (drop_bit 7 v) < 2 ^ (64 - (s + 7)) \<and> unat (drop_bit 7 v) < unat v"
proof -
  have ge: "128 \<le> unat v"
    using assms(3) by (simp add: word_less_nat_alt)
  have "\<not> 64 - s \<le> 7"
  proof
    assume "64 - s \<le> 7"
    then have "2 ^ (64 - s) \<le> (2 :: nat) ^ 7" by (rule power_increasing) simp
    with ge assms(2) show False by simp
  qed
  then have s: "s + 7 < 64" by simp
  have dv: "unat (drop_bit 7 v) = unat v div 128"
    by (simp add: unat_drop_bit_eq drop_bit_eq_div unat_div)
  have "(2 :: nat) ^ (64 - s) = 2 ^ (64 - (s + 7)) * 128"
    using s power_add [of "2 :: nat" "64 - (s + 7)" 7] by simp
  with assms(2) have "unat (drop_bit 7 v) < 2 ^ (64 - (s + 7))"
    by (simp add: dv less_mult_imp_div_less)
  with s ge show ?thesis by (simp add: dv)
qed

lemma get_var_u64_from_put:
  assumes "s < 64" and "unat v < 2 ^ (64 - s)"
  shows "get_var_u64_from s r (put_var_u64 [] v @ rest) = Inr (r OR push_bit s v, rest)"
  using assms
proof (induction "unat v" arbitrary: s r v rule: less_induct)
  case less
  show ?case
  proof (cases "v < 0x80")
    case True
    then have "ucast v < (0x80 :: u8)"
      by (simp add: word_less_nat_alt unsigned_ucast_eq take_bit_nat_eq_self)
    with True less.prems show ?thesis
      by (simp add: put_var_u64_small varint_last_byte)
  next
    case False
    from varint_step [OF less.prems False] have s: "s + 7 < 64"
      and "unat (drop_bit 7 v) < 2 ^ (64 - (s + 7))" and "unat (drop_bit 7 v) < unat v"
      by simp_all
    then have IH: "get_var_u64_from (s + 7) r' (put_var_u64 [] (drop_bit 7 v) @ rest)
        = Inr (r' OR push_bit (s + 7) (drop_bit 7 v), rest)" for r'
      using less.hyps by blast
    from False less.prems(1) show ?thesis
      by (simp add: put_var_u64_large continuation_byte varint_low_bits IH or.assoc varint_join)
  qed
qed

lemma get_put_var_u64 [codec_simps]: "get_var_u64 (put_var_u64 [] v @ rest) = Inr (v, rest)"
  using get_var_u64_from_put [of 0 v 0 rest] unsigned_less [of v]
  by (simp add: get_var_u64_def)

lemma get_put_var_u32 [codec_simps]: "get_var_u32 (put_var_u32 [] v @ rest) = Inr (v, rest)"
proof -
  have "unat (ucast v :: u64) = unat v"
    by (simp add: unsigned_ucast_eq take_bit_nat_eq_self less_le_trans [OF unsigned_less])
  moreover have "unat v < 2 ^ 32"
    using unsigned_less [of v] by simp
  ultimately show ?thesis
    by (simp add: get_var_u32_def put_var_u32_def get_put_var_u64)
qed

lemma take_bytes_append [codec_simps]:
  "length xs = n \<Longrightarrow> take_bytes n (xs @ rest) = Inr (xs, rest)"
  by (simp add: take_bytes_def)


lemma take_one_byte [simp]: "take_bytes (Suc 0) (b # src) = Inr ([b], src)"
  by (simp add: take_bytes_def)

lemma take_no_bytes [simp]: "take_bytes 0 src = Inr ([], src)"
  by (simp add: take_bytes_def)

lemma put_var_u64_nonempty [simp]: "put_var_u64 [] v \<noteq> []"
  by (cases "v < 0x80") (simp_all add: put_var_u64_small put_var_u64_large)

lemma put_var_u32_nonempty [simp]: "put_var_u32 [] v \<noteq> []"
  by (simp add: put_var_u32_def)

lemma put_var_u32_append: "NO_MATCH [] dst \<Longrightarrow> put_var_u32 dst v = dst @ put_var_u32 [] v"
  by (simp add: put_var_u32_def put_var_u64_append)

lemmas put_var_append = put_var_u32_append put_var_u64_append

lemma length_put_var_u64:
  "unat v < 2 ^ (7 * Suc k) \<Longrightarrow> length (put_var_u64 [] v) \<le> Suc k"
proof (induction k arbitrary: v)
  case 0
  then show ?case by (simp add: put_var_u64_small word_less_nat_alt)
next
  case (Suc k)
  show ?case
  proof (cases "v < 0x80")
    case False
    have "(2 :: nat) ^ (7 * Suc (Suc k)) = 2 ^ (7 * Suc k) * 128"
      using power_add [of "2 :: nat" "7 * Suc k" 7] by (simp add: algebra_simps)
    with Suc.prems have "unat (drop_bit 7 v) < 2 ^ (7 * Suc k)"
      by (simp add: drop_bit_eq_div unat_div less_mult_imp_div_less)
    from Suc.IH [OF this] False show ?thesis
      by (simp add: put_var_u64_large)
  qed (simp add: put_var_u64_small)
qed

lemma length_put_var_u64_le: "length (put_var_u64 [] v) \<le> 10"
proof -
  have "unat v < 2 ^ 64" using unsigned_less [of v] by simp
  also have "\<dots> \<le> 2 ^ (7 * Suc 9)" by simp
  finally have "length (put_var_u64 [] v) \<le> Suc 9" by (rule length_put_var_u64)
  then show ?thesis by simp
qed

lemma get_var_u64_from_suffix:
  "get_var_u64_from s r src = Inr (v, rest) \<Longrightarrow> \<exists>pre. src = pre @ rest \<and> pre \<noteq> []"
proof (induction s r src rule: get_var_u64_from.induct)
  case (2 shift result byte rest')
  then show ?case
    by (cases "byte < 0x80") (auto simp: Let_def split: if_splits intro: exI [of _ "byte # _"])
qed simp

lemma get_var_u64_consumes:
  "get_var_u64 src = Inr (v, rest) \<Longrightarrow> \<exists>pre. src = pre @ rest \<and> pre \<noteq> []"
  by (simp add: get_var_u64_def get_var_u64_from_suffix)

lemma get_var_u32_consumes:
  "get_var_u32 src = Inr (v, rest) \<Longrightarrow> \<exists>pre. src = pre @ rest \<and> pre \<noteq> []"
  by (auto simp: get_var_u32_def result_simps dest: get_var_u64_consumes split: if_splits)

lemma take_bytes_eq: "take_bytes n src = Inr (xs, rest) \<Longrightarrow> src = xs @ rest \<and> length xs = n"
  by (auto simp: take_bytes_def split: if_splits)

lemma length_get_var_u64: "get_var_u64 src = Inr (v, rest) \<Longrightarrow> length rest < length src"
  by (auto dest: get_var_u64_consumes)

lemma length_get_var_u32: "get_var_u32 src = Inr (v, rest) \<Longrightarrow> length rest < length src"
  by (auto dest: get_var_u32_consumes)

lemma get_var_u64_from_truncated:
  assumes "s < 64" and "unat v < 2 ^ (64 - s)" and "n < length (put_var_u64 [] v)"
  shows "get_var_u64_from s r (take n (put_var_u64 [] v)) = Inl (Corruption ''truncated varint'')"
  using assms
proof (induction n arbitrary: s r v)
  case 0
  then show ?case by simp
next
  case (Suc n)
  show ?case
  proof (cases "v < 0x80")
    case True
    with Suc.prems show ?thesis by (simp add: put_var_u64_small)
  next
    case False
    have "s + 7 < 64 \<and> unat (drop_bit 7 v) < 2 ^ (64 - (s + 7))"
      using varint_step [OF Suc.prems(1,2) False] by simp
    with False Suc show ?thesis
      by (simp add: put_var_u64_large continuation_byte)
  qed
qed

subsection \<open>The contract of an encoder and its decoder\<close>

text \<open>
  Every encoder of the storage formats is self-delimiting: on a value in its domain the
  decoder returns exactly that value and leaves what follows untouched.  From that one law
  the encodings are injective and prefix-free, and a counted sequence of items decodes to
  the items.
\<close>

locale codec =
  fixes enc :: "'a \<Rightarrow> bytes" and dec :: "'a decoder" and encodable :: "'a \<Rightarrow> bool"
  assumes round_trip: "encodable x \<Longrightarrow> dec (enc x @ rest) = Inr (x, rest)"
begin

lemma prefix_free:
  assumes "encodable x" and "encodable y" and "enc x @ r = enc y @ s"
  shows "x = y \<and> r = s"
proof -
  have "dec (enc x @ r) = Inr (x, r)" and "dec (enc x @ r) = Inr (y, s)"
    using round_trip [OF assms(1), of r] round_trip [OF assms(2), of s]
    by (simp_all only: assms(3))
  then show ?thesis by simp
qed

lemma enc_inj: "encodable x \<Longrightarrow> encodable y \<Longrightarrow> enc x = enc y \<Longrightarrow> x = y"
  using prefix_free [of x y "[]" "[]"] by simp

lemma decode_count_concat:
  "list_all encodable xs \<Longrightarrow>
   decode_count dec (length xs) (concat (map enc xs) @ rest) = Inr (xs, rest)"
  by (induction xs) (simp_all add: round_trip)

end

text \<open>
  A decoder that stops where its item ends never looks at later bytes; then no proper
  prefix of an encoding decodes, which is what makes a torn record detectable.
\<close>

definition local_decoder :: "'a decoder \<Rightarrow> bool" where
  "local_decoder dec \<longleftrightarrow>
     (\<forall>src x rest more. dec src = Inr (x, rest) \<longrightarrow> dec (src @ more) = Inr (x, rest @ more))"

lemma local_decoderD:
  "local_decoder dec \<Longrightarrow> dec src = Inr (x, rest) \<Longrightarrow> dec (src @ more) = Inr (x, rest @ more)"
  by (simp add: local_decoder_def)

locale local_codec = codec +
  assumes local_dec: "local_decoder dec"
begin

lemma prefix_fails:
  assumes "encodable x" and "n < length (enc x)"
  shows "\<exists>e. dec (take n (enc x)) = Inl e"
proof (cases "dec (take n (enc x))")
  case (Inr yr)
  then obtain y r where "dec (take n (enc x)) = Inr (y, r)" by (cases yr) simp
  then have "dec (take n (enc x) @ drop n (enc x)) = Inr (y, r @ drop n (enc x))"
    by (rule local_decoderD [OF local_dec])
  moreover have "dec (enc x) = Inr (x, [])"
    using round_trip [OF assms(1), of "[]"] by simp
  ultimately have "(x, []) = (y, r @ drop n (enc x))"
    by (simp only: append_take_drop_id sum.inject)
  then have "length (enc x) \<le> n" by auto
  with assms(2) show ?thesis by simp
qed simp

end

lemma local_get_var_u64_from:
  "get_var_u64_from s r src = Inr (x, rest) \<Longrightarrow>
   get_var_u64_from s r (src @ more) = Inr (x, rest @ more)"
  by (induction s r src rule: get_var_u64_from.induct) (auto simp: Let_def split: if_splits)

lemma local_get_var_u64 [intro, simp]: "local_decoder get_var_u64"
  by (simp add: local_decoder_def get_var_u64_def local_get_var_u64_from)

lemma local_get_var_u32 [intro, simp]: "local_decoder get_var_u32"
  unfolding local_decoder_def get_var_u32_def
  by (auto simp: result_simps local_decoderD [OF local_get_var_u64] split: if_splits)

lemma local_take_bytes [intro, simp]: "local_decoder (take_bytes n)"
  by (auto simp: local_decoder_def take_bytes_def split: if_splits)

lemma local_and_then [intro]:
  assumes "local_decoder d" and "\<And>x. local_decoder (f x)"
  shows "local_decoder (\<lambda>src. and_then (d src) (\<lambda>(x, rest). f x rest))"
  unfolding local_decoder_def
  by (auto simp: result_simps local_decoderD [OF assms(1)] local_decoderD [OF assms(2)])

lemma local_Inr [intro, simp]: "local_decoder (\<lambda>src. Inr (x, src))"
  by (simp add: local_decoder_def)

lemma local_Inl [intro, simp]: "local_decoder (\<lambda>src. Inl e)"
  by (simp add: local_decoder_def)

lemma local_if [intro]:
  "local_decoder d \<Longrightarrow> local_decoder d' \<Longrightarrow> local_decoder (\<lambda>src. if b then d src else d' src)"
  by (simp add: local_decoder_def)

lemma local_case_list [intro]:
  "local_decoder d \<Longrightarrow> (\<And>b bs. local_decoder (f b bs)) \<Longrightarrow>
   local_decoder (\<lambda>src. case tb of [] \<Rightarrow> d src | b # bs \<Rightarrow> f b bs src)"
  by (cases tb) simp_all

lemmas local_intros =
  local_and_then local_if local_case_list local_Inl local_Inr local_take_bytes
  local_get_var_u32 local_get_var_u64

lemma local_decode_count [intro]:
  assumes "local_decoder dec"
  shows "local_decoder (decode_count dec n)"
proof (induction n)
  case (Suc n)
  have "local_decoder (\<lambda>src. and_then (dec src) (\<lambda>(x, rest).
      and_then (decode_count dec n rest) (\<lambda>(xs, rest'). Inr (x # xs, rest'))))"
    using assms Suc by (intro local_and_then local_Inr)
  then show ?case by (simp add: local_decoder_def)
qed (simp add: local_decoder_def)

interpretation var_u64: local_codec "put_var_u64 []" get_var_u64 "\<lambda>_. True"
  by unfold_locales (simp_all add: get_put_var_u64)

interpretation var_u32: local_codec "put_var_u32 []" get_var_u32 "\<lambda>_. True"
  by unfold_locales (simp_all add: get_put_var_u32)

subsection \<open>Properties\<close>

text \<open>
  Decoding a variable-length u64 inverts encoding it, whatever bytes follow, and the
  encoding takes between one and ten bytes.
\<close>

theorem var_u64_round_trip:
  "get_var_u64 (put_var_u64 [] v @ rest) = Inr (v, rest) \<and>
   1 \<le> length (put_var_u64 [] v) \<and> length (put_var_u64 [] v) \<le> 10"
  using get_put_var_u64 [of v rest] length_put_var_u64_le [of v]
  by (simp add: Suc_le_eq)

text \<open>
  Every proper prefix of an encoded u64 is rejected as a truncated varint.
\<close>

theorem var_u64_truncated:
  assumes "n < length (put_var_u64 [] v)"
  shows "get_var_u64 (take n (put_var_u64 [] v)) = Inl (Corruption ''truncated varint'')"
  using get_var_u64_from_truncated [of 0 v n 0] unsigned_less [of v] assms
  by (simp add: get_var_u64_def)

theorem var_u64_truncated_witness:
  "(1 :: nat) < length (put_var_u64 [] 300) \<and>
   get_var_u64 (take 1 (put_var_u64 [] 300)) = Inl (Corruption ''truncated varint'')"
proof -
  have len: "(1 :: nat) < length (put_var_u64 [] 300)"
    by (simp add: put_var_u64.simps)
  show ?thesis
    using len var_u64_truncated [OF len] by simp
qed


end
