(* ===== verification/Batch.thy ===== *)
theory Batch
  imports Coding
begin

section \<open>Write batches (batch.rs)\<close>

text \<open>
  \<^verbatim>\<open>src/src/batch.rs\<close>: a batch is the list of its records in order; its payload in
  the write-ahead log is the record count, the first sequence number and the records.
  The casts \<^verbatim>\<open>as u32\<close> of counts and lengths truncate, so the round trip is stated
  for batches whose counts and lengths fit (\<open>batch_encodable\<close>).
\<close>

subsection \<open>Definitions\<close>

datatype batch_record = BatchPut bytes bytes | BatchDelete bytes

record write_batch =
  records :: "batch_record list"

definition write_batch_new :: write_batch where
  "write_batch_new = \<lparr>records = []\<rparr>"

definition write_batch_put :: "write_batch \<Rightarrow> bytes \<Rightarrow> bytes \<Rightarrow> write_batch" where
  "write_batch_put b key val = b\<lparr>records := records b @ [BatchPut key val]\<rparr>"

definition write_batch_delete :: "write_batch \<Rightarrow> bytes \<Rightarrow> write_batch" where
  "write_batch_delete b key = b\<lparr>records := records b @ [BatchDelete key]\<rparr>"

definition write_batch_is_empty :: "write_batch \<Rightarrow> bool" where
  "write_batch_is_empty b = (records b = [])"

fun encode_batch_record :: "bytes \<Rightarrow> batch_record \<Rightarrow> bytes" where
  "encode_batch_record dst (BatchPut key val) =
     put_var_u32 (put_var_u32 (dst @ [1]) (len_u32 key) @ key) (len_u32 val) @ val"
| "encode_batch_record dst (BatchDelete key) =
     put_var_u32 (put_var_u32 (dst @ [2]) (len_u32 key) @ key) 0"

definition encode_with_sequence :: "write_batch \<Rightarrow> u64 \<Rightarrow> bytes" where
  "encode_with_sequence b start_sequence =
     foldl encode_batch_record
       (put_var_u64 (put_var_u32 [] (word_of_nat (length (records b)))) start_sequence)
       (records b)"

definition decode_batch_record :: "batch_record decoder" where
  "decode_batch_record src =
     and_then (take_bytes 1 src) (\<lambda>(tb, src).
     case tb of [] \<Rightarrow> Inl (Corruption ''missing value type'') | vt # _ \<Rightarrow>
     and_then (get_var_u32 src) (\<lambda>(key_len, src).
     and_then (take_bytes (unat key_len) src) (\<lambda>(key, src).
     and_then (get_var_u32 src) (\<lambda>(value_len, src).
     and_then (take_bytes (unat value_len) src) (\<lambda>(val, src).
       if vt = 1 then Inr (BatchPut key val, src)
       else if vt = 2 then
         if val \<noteq> [] then Inl (Corruption ''delete record must not carry a value'')
         else Inr (BatchDelete key, src)
       else Inl (Corruption ''unknown batch record type''))))))"

definition decode_payload :: "bytes \<Rightarrow> (u64 \<times> write_batch) result" where
  "decode_payload payload =
     and_then (get_var_u32 payload) (\<lambda>(count, src).
     and_then (get_var_u64 src) (\<lambda>(start_sequence, src).
     and_then (decode_count decode_batch_record (unat count) src) (\<lambda>(rs, src).
       if src \<noteq> [] then Inl (Corruption ''trailing batch payload bytes'')
       else Inr (start_sequence, \<lparr>records = rs\<rparr>))))"

fun record_encodable :: "batch_record \<Rightarrow> bool" where
  "record_encodable (BatchPut key val) = (length key < 2 ^ 32 \<and> length val < 2 ^ 32)"
| "record_encodable (BatchDelete key) = (length key < 2 ^ 32)"

definition batch_encodable :: "write_batch \<Rightarrow> bool" where
  "batch_encodable b = (length (records b) < 2 ^ 32 \<and> list_all record_encodable (records b))"

subsection \<open>Round trip\<close>

lemma encode_batch_record_append:
  "encode_batch_record dst r = dst @ encode_batch_record [] r"
  by (cases r) (simp_all add: put_var_append)

lemma encode_batch_record_nonempty [simp]: "encode_batch_record [] r \<noteq> []"
  by (cases r) (simp_all add: put_var_append)

lemma local_decode_batch_record [intro, simp]: "local_decoder decode_batch_record"
  unfolding decode_batch_record_def [abs_def] by (intro local_intros)

interpretation batch_record: local_codec "encode_batch_record []" decode_batch_record record_encodable
proof (unfold_locales, goal_cases)
  case (1 r rest)
  then show ?case
    by (cases r) (simp_all add: put_var_append decode_batch_record_def codec_simps)
qed (rule local_decode_batch_record)

lemma foldl_encode_batch_record:
  "foldl encode_batch_record dst rs = dst @ concat (map (encode_batch_record []) rs)"
proof (induction rs arbitrary: dst)
  case (Cons r rs)
  then show ?case
    by (simp add: encode_batch_record_append [of dst r])
qed simp

lemma encode_with_sequence_eq:
  "encode_with_sequence b seq =
     put_var_u32 [] (word_of_nat (length (records b))) @ put_var_u64 [] seq @
     concat (map (encode_batch_record []) (records b))"
  by (simp add: encode_with_sequence_def foldl_encode_batch_record put_var_append)

lemma decode_encode_payload:
  "batch_encodable b \<Longrightarrow> decode_payload (encode_with_sequence b seq) = Inr (seq, b)"
  using batch_record.decode_count_concat [of "records b" "[]"]
  by (simp add: decode_payload_def encode_with_sequence_eq codec_simps batch_encodable_def)

lemma encode_with_sequence_nonempty [simp]: "encode_with_sequence b seq \<noteq> []"
  by (simp add: encode_with_sequence_eq)

text \<open>The decoder of a whole payload, before its check that nothing is left over.\<close>

definition decode_batch :: "(u64 \<times> batch_record list) decoder" where
  "decode_batch src =
     and_then (get_var_u32 src) (\<lambda>(count, src).
     and_then (get_var_u64 src) (\<lambda>(start_sequence, src).
     and_then (decode_count decode_batch_record (unat count) src) (\<lambda>(rs, src).
       Inr ((start_sequence, rs), src))))"

lemma decode_payload_eq:
  "decode_payload payload = and_then (decode_batch payload) (\<lambda>((seq, rs), src).
     if src \<noteq> [] then Inl (Corruption ''trailing batch payload bytes'') else Inr (seq, \<lparr>records = rs\<rparr>))"
  by (auto simp: decode_payload_def decode_batch_def and_then_assoc intro!: and_then_cong)

lemma local_decode_batch [intro, simp]: "local_decoder decode_batch"
  unfolding decode_batch_def [abs_def]
  by (intro local_intros local_decode_count local_decode_batch_record)

lemma payload_prefix_fails:
  assumes "batch_encodable b" and "n < length (encode_with_sequence b seq)"
  shows "\<exists>e. decode_payload (take n (encode_with_sequence b seq)) = Inl e"
proof (cases "decode_payload (take n (encode_with_sequence b seq))")
  case (Inr r)
  let ?p = "encode_with_sequence b seq"
  from Inr obtain y where "decode_batch (take n ?p) = Inr (y, [])"
    by (auto simp: decode_payload_eq result_simps split: if_splits)
  then have "decode_batch (take n ?p @ drop n ?p) = Inr (y, [] @ drop n ?p)"
    by (rule local_decoderD [OF local_decode_batch])
  moreover have "decode_batch ?p = Inr ((seq, records b), [])"
    using decode_encode_payload [OF assms(1), of seq]
    by (auto simp: decode_payload_eq result_simps split: if_splits)
  ultimately have "drop n ?p = []" by simp
  with assms(2) show ?thesis by simp
qed simp

subsection \<open>Properties\<close>

text \<open>
  Decoding the payload of a batch gives back its first sequence number and the batch,
  record by record, for every batch whose record count and lengths fit 32 bits.
\<close>

theorem batch_payload_round_trip:
  assumes "batch_encodable b"
  shows "decode_payload (encode_with_sequence b seq) = Inr (seq, b)"
  using assms by (rule decode_encode_payload)

theorem batch_payload_round_trip_witness:
  "decode_payload (encode_with_sequence
     \<lparr>records = [BatchPut [1, 2] [3], BatchDelete [], BatchPut [] []]\<rparr> 300) =
   Inr (300, \<lparr>records = [BatchPut [1, 2] [3], BatchDelete [], BatchPut [] []]\<rparr>)"
  by (rule batch_payload_round_trip) (simp add: batch_encodable_def)

text \<open>
  A payload cut short anywhere is rejected; it never decodes as a shorter batch.
\<close>

theorem batch_payload_torn:
  assumes "batch_encodable b" and "n < length (encode_with_sequence b seq)"
  shows "\<exists>e. decode_payload (take n (encode_with_sequence b seq)) = Inl e"
  using assms by (rule payload_prefix_fails)

theorem batch_payload_torn_witness:
  "\<exists>e. decode_payload (take 2 (encode_with_sequence \<lparr>records = [BatchDelete [7]]\<rparr> 1)) = Inl e"
  by (rule batch_payload_torn) (simp_all add: batch_encodable_def encode_with_sequence_eq
      put_var_u32_def put_var_u64.simps)

end
