(* ===== verification/Keys.thy ===== *)
theory Keys
  imports Prelude
begin

section \<open>Internal keys (key/) and multi-version lookup\<close>

text \<open>
  \<^verbatim>\<open>src/src/key/internal_key.rs\<close> and \<^verbatim>\<open>comparator.rs\<close>: a version of a
  user key is an internal key (user key, sequence number, value type).  Its order decides
  every search of the engine: user keys ascending, sequence numbers descending, value type
  last.  The Rust struct is the datatype \<open>internal_key\<close> with the struct's field names as
  selectors, so that it can be an instance of \<open>linorder\<close>; the instance is proved from the
  comparison function the code has.

  The second half is the reference the storage components are compared with:
  \<open>lookup_at es k s\<close> is the value of the newest version of \<open>k\<close> in the entries
  \<open>es\<close> whose sequence number is at most \<open>s\<close>.
\<close>

subsection \<open>Comparison\<close>

datatype ordering = Less | Equal | Greater

definition ord_cmp :: "'a::linorder \<Rightarrow> 'a \<Rightarrow> ordering" where
  "ord_cmp a b = (if a < b then Less else if a = b then Equal else Greater)"

fun then_with :: "ordering \<Rightarrow> ordering \<Rightarrow> ordering" where
  "then_with Equal o2 = o2"
| "then_with o1 o2 = o1"

definition compare_user_key :: "bytes \<Rightarrow> bytes \<Rightarrow> ordering" where
  "compare_user_key left right = ord_cmp left right"

datatype value_type = TypePut | TypeDelete

fun value_type_u8 :: "value_type \<Rightarrow> u8" where
  "value_type_u8 TypePut = 1"
| "value_type_u8 TypeDelete = 2"

datatype internal_key =
  InternalKey (user_key: bytes) (sequence: u64) (value_type: value_type)

definition internal_key_cmp :: "internal_key \<Rightarrow> internal_key \<Rightarrow> ordering" where
  "internal_key_cmp self other =
     then_with (compare_user_key (user_key self) (user_key other))
       (then_with (ord_cmp (sequence other) (sequence self))
          (ord_cmp (value_type_u8 (value_type self)) (value_type_u8 (value_type other))))"

datatype value_record = Put bytes | Delete

type_synonym entry = "internal_key \<times> value_record"

fun into_visible_value :: "value_record \<Rightarrow> bytes option" where
  "into_visible_value (Put v) = Some v"
| "into_visible_value Delete = None"

fun record_type :: "value_record \<Rightarrow> value_type" where
  "record_type (Put v) = TypePut"
| "record_type Delete = TypeDelete"

subsection \<open>The order of internal keys\<close>

lemma ord_cmp_simps [simp]:
  "ord_cmp a b = Less \<longleftrightarrow> a < b"
  "ord_cmp a b = Equal \<longleftrightarrow> a = b"
  "ord_cmp a b = Greater \<longleftrightarrow> b < a"
  by (auto simp: ord_cmp_def)

lemma then_with_simps [simp]:
  "then_with o1 o2 = Less \<longleftrightarrow> o1 = Less \<or> o1 = Equal \<and> o2 = Less"
  "then_with o1 o2 = Equal \<longleftrightarrow> o1 = Equal \<and> o2 = Equal"
  "then_with o1 o2 = Greater \<longleftrightarrow> o1 = Greater \<or> o1 = Equal \<and> o2 = Greater"
  by (cases o1; simp)+

lemma value_type_u8_inject [simp]: "value_type_u8 a = value_type_u8 b \<longleftrightarrow> a = b"
  by (cases a; cases b) simp_all

instantiation internal_key :: linorder
begin

definition less_internal_key :: "internal_key \<Rightarrow> internal_key \<Rightarrow> bool" where
  "less_internal_key a b = (internal_key_cmp a b = Less)"

definition less_eq_internal_key :: "internal_key \<Rightarrow> internal_key \<Rightarrow> bool" where
  "less_eq_internal_key a b = (internal_key_cmp a b \<noteq> Greater)"

instance
proof
  fix x y z :: internal_key
  show "x < y \<longleftrightarrow> x \<le> y \<and> \<not> y \<le> x" and "x \<le> x"
    and "x \<le> y \<Longrightarrow> y \<le> z \<Longrightarrow> x \<le> z" and "x \<le> y \<Longrightarrow> y \<le> x \<Longrightarrow> x = y" and "x \<le> y \<or> y \<le> x"
    by (cases x; cases y; cases z;
        auto simp: less_internal_key_def less_eq_internal_key_def internal_key_cmp_def
          compare_user_key_def)+
qed

end

lemma internal_key_less_iff:
  "a < b \<longleftrightarrow> user_key a < user_key b \<or>
     user_key a = user_key b \<and> (sequence b < sequence a \<or>
       sequence a = sequence b \<and> value_type_u8 (value_type a) < value_type_u8 (value_type b))"
  by (auto simp: less_internal_key_def internal_key_cmp_def compare_user_key_def)

lemma internal_key_le_iff:
  "a \<le> b \<longleftrightarrow> user_key a < user_key b \<or>
     user_key a = user_key b \<and> (sequence b < sequence a \<or>
       sequence a = sequence b \<and> value_type_u8 (value_type a) \<le> value_type_u8 (value_type b))"
  by (auto simp: less_eq_internal_key_def internal_key_cmp_def compare_user_key_def)

lemma user_key_mono: "a \<le> b \<Longrightarrow> user_key a \<le> user_key b"
  by (auto simp: internal_key_le_iff)

lemma same_user_key_newer_first:
  "a \<le> b \<Longrightarrow> user_key a = user_key b \<Longrightarrow> sequence b \<le> sequence a"
  by (auto simp: internal_key_le_iff)

subsection \<open>Bounds on user keys\<close>

definition within_bounds :: "bytes \<Rightarrow> bytes bound \<Rightarrow> bytes bound \<Rightarrow> bool" where
  "within_bounds key lower upper =
     ((case lower of Included b \<Rightarrow> key \<ge> b | Excluded b \<Rightarrow> key > b | Unbounded \<Rightarrow> True) \<and>
      (case upper of Included b \<Rightarrow> key \<le> b | Excluded b \<Rightarrow> key < b | Unbounded \<Rightarrow> True))"

subsection \<open>Multi-version lookup: the reference\<close>

definition version_of :: "bytes \<Rightarrow> u64 \<Rightarrow> entry \<Rightarrow> bool" where
  "version_of k s e \<longleftrightarrow> user_key (fst e) = k \<and> sequence (fst e) \<le> s"

fun newer :: "entry \<Rightarrow> entry option \<Rightarrow> entry option" where
  "newer e None = Some e"
| "newer e (Some e') = (if sequence (fst e') > sequence (fst e) then Some e' else Some e)"

primrec newest :: "entry list \<Rightarrow> entry option" where
  "newest [] = None"
| "newest (e # es) = newer e (newest es)"

definition lookup_at :: "entry list \<Rightarrow> bytes \<Rightarrow> u64 \<Rightarrow> value_record option" where
  "lookup_at es k s = map_option snd (newest (filter (version_of k s) es))"

definition visible_value :: "value_record option \<Rightarrow> bytes option" where
  "visible_value r = Option.bind r into_visible_value"

text \<open>No two entries are the same version of the same key.\<close>

definition distinct_versions :: "entry set \<Rightarrow> bool" where
  "distinct_versions E \<longleftrightarrow>
     (\<forall>e\<in>E. \<forall>e'\<in>E. user_key (fst e) = user_key (fst e') \<and> sequence (fst e) = sequence (fst e')
        \<longrightarrow> e = e')"

abbreviation sorted_entries :: "entry list \<Rightarrow> bool" where
  "sorted_entries es \<equiv> sorted_wrt (<) (map fst es)"

lemma distinct_versionsD:
  "distinct_versions E \<Longrightarrow> e \<in> E \<Longrightarrow> e' \<in> E \<Longrightarrow> user_key (fst e) = user_key (fst e') \<Longrightarrow>
   sequence (fst e) = sequence (fst e') \<Longrightarrow> e = e'"
  by (simp add: distinct_versions_def)

lemma visible_value_simps [simp]:
  "visible_value None = None" "visible_value (Some (Put v)) = Some v"
  "visible_value (Some Delete) = None"
  by (simp_all add: visible_value_def)

lemma newer_not_None [simp]: "newer e r \<noteq> None"
  by (cases r) auto

lemma newest_None_iff [simp]: "newest es = None \<longleftrightarrow> es = []"
  by (cases es) auto

lemma newest_SomeD:
  "newest es = Some e \<Longrightarrow> e \<in> set es \<and> (\<forall>e'\<in>set es. sequence (fst e') \<le> sequence (fst e))"
proof (induction es arbitrary: e)
  case (Cons x es)
  then show ?case
    by (cases "newest es") (force split: if_splits)+
qed simp

lemma newest_append:
  "newest (xs @ ys) = (case newest xs of None \<Rightarrow> newest ys | Some e \<Rightarrow> newer e (newest ys))"
proof (induction xs)
  case (Cons x xs)
  then show ?case
    by (cases "newest xs"; cases "newest ys") auto
qed simp

lemma lookup_at_Nil [simp]: "lookup_at [] k s = None"
  by (simp add: lookup_at_def)

lemma lookup_at_None_iff: "lookup_at es k s = None \<longleftrightarrow> (\<forall>e\<in>set es. \<not> version_of k s e)"
  by (auto simp: lookup_at_def filter_empty_conv)

lemma lookup_at_SomeD:
  assumes "lookup_at es k s = Some v"
  obtains ik where "(ik, v) \<in> set es" and "version_of k s (ik, v)"
    and "\<And>e. e \<in> set es \<Longrightarrow> version_of k s e \<Longrightarrow> sequence (fst e) \<le> sequence ik"
  using assms newest_SomeD [of "filter (version_of k s) es"]
  by (fastforce simp: lookup_at_def)

text \<open>Where versions are distinct, the newest version is the value looked up.\<close>

lemma lookup_at_Some_iff:
  assumes "distinct_versions (set es)"
  shows "lookup_at es k s = Some v \<longleftrightarrow>
    (\<exists>ik. (ik, v) \<in> set es \<and> version_of k s (ik, v) \<and>
       (\<forall>e\<in>set es. version_of k s e \<longrightarrow> sequence (fst e) \<le> sequence ik))" (is "?l \<longleftrightarrow> ?r")
proof
  assume ?l
  then show ?r by (rule lookup_at_SomeD) blast
next
  assume ?r
  then obtain ik where ik: "(ik, v) \<in> set es" "version_of k s (ik, v)"
    and max: "\<And>e. e \<in> set es \<Longrightarrow> version_of k s e \<Longrightarrow> sequence (fst e) \<le> sequence ik"
    by blast
  from ik have "lookup_at es k s \<noteq> None" by (auto simp: lookup_at_None_iff)
  then obtain w where w: "lookup_at es k s = Some w" by blast
  then show ?l
  proof (rule lookup_at_SomeD)
    fix jk assume j: "(jk, w) \<in> set es" "version_of k s (jk, w)"
      and "\<And>e. e \<in> set es \<Longrightarrow> version_of k s e \<Longrightarrow> sequence (fst e) \<le> sequence jk"
    with ik max have "sequence jk = sequence ik" by (metis antisym fst_conv)
    with ik j have "(jk, w) = (ik, v)"
      by (intro distinct_versionsD [OF assms]) (simp_all add: version_of_def)
    with w show ?thesis by simp
  qed
qed

lemma distinct_versions_subset: "distinct_versions E \<Longrightarrow> F \<subseteq> E \<Longrightarrow> distinct_versions F"
  by (auto simp: distinct_versions_def)

lemma lookup_at_cong_set:
  assumes "distinct_versions (set es)" and "set es' = set es"
  shows "lookup_at es' k s = lookup_at es k s"
proof (cases "lookup_at es k s")
  case None
  with assms(2) show ?thesis by (metis lookup_at_None_iff)
next
  case (Some v)
  with lookup_at_Some_iff [of es k s v] lookup_at_Some_iff [of es' k s v] assms
  show ?thesis by simp
qed

text \<open>In a sorted list the newest visible version is the first one that matches.\<close>

lemma newest_sorted:
  "sorted_wrt (\<lambda>x y. sequence (fst y) \<le> sequence (fst x)) es \<Longrightarrow>
   newest es = (case es of [] \<Rightarrow> None | e # _ \<Rightarrow> Some e)"
proof (induction es)
  case (Cons e es)
  then show ?case
    by (cases es) (auto simp: not_less)
qed simp

lemma sorted_entries_le: "sorted_entries es \<Longrightarrow> sorted_wrt (\<lambda>x y. fst x \<le> fst y) es"
  unfolding sorted_wrt_map by (erule sorted_wrt_mono_rel [rotated]) simp

lemma lookup_at_sorted:
  assumes "sorted_wrt (\<lambda>x y. fst x \<le> fst y) es"
  shows "lookup_at es k s = map_option snd (find (version_of k s) es)"
proof -
  have "sorted_wrt (\<lambda>x y. fst x \<le> fst y) (filter (version_of k s) es)"
    using assms by (rule sorted_wrt_filter)
  then have "sorted_wrt (\<lambda>x y. sequence (fst y) \<le> sequence (fst x)) (filter (version_of k s) es)"
    by (rule sorted_wrt_mono_rel [rotated]) (auto simp: version_of_def same_user_key_newer_first)
  then have "newest (filter (version_of k s) es) = find (version_of k s) es"
    by (simp add: newest_sorted find_eq_filter)
  then show ?thesis by (simp add: lookup_at_def)
qed

text \<open>
  Layering: where every visible version in the first list is at least as new as every
  visible version in the second, the first list that has a version decides.
\<close>

lemma lookup_at_append:
  assumes "\<And>e e'. e \<in> set xs \<Longrightarrow> e' \<in> set ys \<Longrightarrow> version_of k s e \<Longrightarrow> version_of k s e' \<Longrightarrow>
    sequence (fst e') \<le> sequence (fst e)"
  shows "lookup_at (xs @ ys) k s =
    (case lookup_at xs k s of None \<Rightarrow> lookup_at ys k s | Some v \<Rightarrow> Some v)"
proof (cases "newest (filter (version_of k s) xs)")
  case None
  then show ?thesis by (simp add: lookup_at_def newest_append)
next
  case (Some e)
  show ?thesis
  proof (cases "newest (filter (version_of k s) ys)")
    case None
    with Some show ?thesis by (simp add: lookup_at_def newest_append)
  next
    case (Some e')
    then have "e' \<in> set ys" and "version_of k s e'"
      using newest_SomeD [of "filter (version_of k s) ys"] by auto
    moreover have "e \<in> set xs" and "version_of k s e"
      using newest_SomeD [OF \<open>newest (filter (version_of k s) xs) = Some e\<close>] by auto
    ultimately have "sequence (fst e') \<le> sequence (fst e)"
      using assms by blast
    with Some \<open>newest (filter (version_of k s) xs) = Some e\<close> show ?thesis
      by (cases e) (auto simp: lookup_at_def newest_append)
  qed
qed

subsection \<open>Range scans: the reference\<close>

text \<open>
  The rows a scan returns: for every user key within the bounds, in ascending order, the
  value of its newest visible version unless that version is a deletion.
\<close>

definition scan_rows :: "entry list \<Rightarrow> bytes bound \<Rightarrow> bytes bound \<Rightarrow> u64 \<Rightarrow> (bytes \<times> bytes) list" where
  "scan_rows es lower upper s =
     List.map_filter (\<lambda>k. map_option (Pair k) (visible_value (lookup_at es k s)))
       (filter (\<lambda>k. within_bounds k lower upper) (sorted_list_of_set (user_key ` fst ` set es)))"

lemma fst_set_map_filter_Pair:
  "fst ` set (List.map_filter (\<lambda>k. map_option (Pair k) (f k)) ks) \<subseteq> set ks"
  by (auto simp: map_filter_def)

lemma sorted_map_filter_Pair:
  "sorted_wrt (<) ks \<Longrightarrow> sorted_wrt (<) (map fst (List.map_filter (\<lambda>k. map_option (Pair k) (f k)) ks))"
proof (induction ks)
  case (Cons k ks)
  then show ?case
    using fst_set_map_filter_Pair [of f ks] by (auto simp: map_filter_simps split: option.splits)
qed (simp add: map_filter_simps)

lemma sorted_scan_rows: "sorted_wrt (<) (map fst (scan_rows es lower upper s))"
  unfolding scan_rows_def by (intro sorted_map_filter_Pair sorted_wrt_filter) simp

lemma set_scan_rows:
  "(k, v) \<in> set (scan_rows es lower upper s) \<longleftrightarrow>
     within_bounds k lower upper \<and> visible_value (lookup_at es k s) = Some v"
proof -
  have "k \<in> user_key ` fst ` set es" if "lookup_at es k s \<noteq> None"
    using that unfolding lookup_at_None_iff version_of_def by fastforce
  then have "k \<in> user_key ` fst ` set es" if "visible_value (lookup_at es k s) = Some v"
    using that by (cases "lookup_at es k s") auto
  then show ?thesis
    unfolding scan_rows_def map_filter_def by (auto simp del: image_image intro!: rev_image_eqI [of k])
qed

lemma sorted_rows_unique:
  fixes xs ys :: "('k::linorder \<times> 'v) list"
  assumes "sorted_wrt (<) (map fst xs)" and "sorted_wrt (<) (map fst ys)" and "set xs = set ys"
  shows "xs = ys"
  using assms
proof (induction xs arbitrary: ys)
  case (Cons x xs)
  then obtain y ys' where ys: "ys = y # ys'" by (cases ys) auto
  from Cons.prems have less: "\<And>e. e \<in> set xs \<Longrightarrow> fst x < fst e" "\<And>e. e \<in> set ys' \<Longrightarrow> fst y < fst e"
    by (auto simp: ys)
  from Cons.prems(3) have "x = y"
    using less by (metis insert_iff list.set(2) order_less_asym ys)
  moreover from this less Cons.prems(3) have "set xs = set ys'"
    by (intro set_eqI) (metis insert_iff list.set(2) order_less_irrefl ys)
  ultimately show ?case using Cons by (simp add: ys)
qed simp

lemma scan_rows_unique:
  assumes "sorted_wrt (<) (map fst rows)"
    and "\<And>k v. (k, v) \<in> set rows \<longleftrightarrow>
      within_bounds k lower upper \<and> visible_value (lookup_at es k s) = Some v"
  shows "rows = scan_rows es lower upper s"
  using assms(1) sorted_scan_rows
  by (rule sorted_rows_unique) (auto simp: assms(2) set_scan_rows)

lemma scan_rows_cong:
  "(\<And>k. lookup_at es k s = lookup_at es' k s) \<Longrightarrow> scan_rows es lower upper s = scan_rows es' lower upper s"
  by (rule scan_rows_unique) (simp_all add: sorted_scan_rows set_scan_rows)

lemma scan_rows_cong_set:
  "distinct_versions (set es) \<Longrightarrow> set es' = set es \<Longrightarrow> scan_rows es' lower upper s = scan_rows es lower upper s"
  by (rule scan_rows_cong) (rule lookup_at_cong_set)

end
