(* ===== verification/Externs.thy ===== *)
theory Externs
  imports Keys
begin

section \<open>Ordered maps and third-party code\<close>

text \<open>
  The standard library's \<^verbatim>\<open>BTreeMap\<close> is modelled as the list of its entries in
  key order.  Code that is not part of the repository is a parameter, collected in the
  record \<open>externs\<close>: the checksum of the crate \<^verbatim>\<open>crc32c\<close>, the codec of
  \<^verbatim>\<open>zstd\<close> and the concurrent ordered map \<^verbatim>\<open>SkipMap\<close> of
  \<^verbatim>\<open>crossbeam-skiplist\<close>, an abstract type with its operations.  What the engine
  relies on is documented behaviour of these crates, stated in the locale
  \<open>externals\<close>: decompression inverts compression, and a \<^verbatim>\<open>SkipMap\<close> is an
  ordered map.  Nothing is assumed of the checksum, nor of the text \<open>io_text\<close> of an
  error of the operating system.
\<close>

subsection \<open>Ordered maps as sorted lists\<close>

fun btree_insert :: "'k::linorder \<Rightarrow> 'v \<Rightarrow> ('k \<times> 'v) list \<Rightarrow> ('k \<times> 'v) list" where
  "btree_insert k v [] = [(k, v)]"
| "btree_insert k v ((a, b) # m) =
     (if k < a then (k, v) # (a, b) # m
      else if k = a then (k, v) # m
      else (a, b) # btree_insert k v m)"

definition btree_range_from :: "('k::linorder \<times> 'v) list \<Rightarrow> 'k \<Rightarrow> ('k \<times> 'v) list" where
  "btree_range_from m k = dropWhile (\<lambda>e. fst e < k) m"

fun btree_get :: "('k::linorder \<times> 'v) list \<Rightarrow> 'k \<Rightarrow> 'v option" where
  "btree_get [] k = None"
| "btree_get ((a, b) # m) k = (if k = a then Some b else btree_get m k)"

definition btree_remove :: "'k::linorder \<Rightarrow> ('k \<times> 'v) list \<Rightarrow> ('k \<times> 'v) list" where
  "btree_remove k m = filter (\<lambda>e. fst e \<noteq> k) m"

lemma keys_btree_insert: "set (map fst (btree_insert k v m)) = insert k (set (map fst m))"
  by (induction k v m rule: btree_insert.induct) auto

lemma sorted_btree_insert [sorted_intros]:
  "sorted_wrt (<) (map fst m) \<Longrightarrow> sorted_wrt (<) (map fst (btree_insert k v m))"
proof (induction k v m rule: btree_insert.induct)
  case (2 k v a b m)
  then have m: "sorted_wrt (<) (map fst m)" and a: "\<forall>x \<in> set (map fst m). a < x" by simp_all
  show ?case
  proof (cases "a < k")
    case False
    with m a show ?thesis by (cases "k = a") auto
  next
    case True
    then have "btree_insert k v ((a, b) # m) = (a, b) # btree_insert k v m" by auto
    moreover have "\<forall>x \<in> set (map fst (btree_insert k v m)). a < x"
      unfolding keys_btree_insert using a True by simp
    moreover from True 2 m have "sorted_wrt (<) (map fst (btree_insert k v m))" by force
    ultimately show ?thesis by simp
  qed
qed simp

lemma set_btree_insert:
  "sorted_wrt (<) (map fst m) \<Longrightarrow>
   set (btree_insert k v m) = insert (k, v) {e \<in> set m. fst e \<noteq> k}"
  by (induction k v m rule: btree_insert.induct) force+

lemma btree_insert_nonempty [simp]: "btree_insert k v m \<noteq> []"
  by (induction k v m rule: btree_insert.induct) auto

lemma sorted_wrt_filter_fst [sorted_intros]:
  "sorted_wrt (<) (map fst m) \<Longrightarrow> sorted_wrt (<) (map fst (filter P m))"
  by (induction m) auto

lemma btree_get_map_of: "btree_get m k = map_of m k"
  by (induction m k rule: btree_get.induct) auto

lemma map_of_btree_insert:
  "sorted_wrt (<) (map fst m) \<Longrightarrow> map_of (btree_insert k v m) = (map_of m)(k \<mapsto> v)"
  by (induction k v m rule: btree_insert.induct) (auto simp: fun_eq_iff)

subsection \<open>The contract of an ordered map of versions\<close>

locale sorted_map =
  fixes new :: 'm and ins :: "'m \<Rightarrow> internal_key \<Rightarrow> value_record \<Rightarrow> 'm"
    and iter :: "'m \<Rightarrow> entry list" and range_from :: "'m \<Rightarrow> internal_key \<Rightarrow> entry list"
    and len :: "'m \<Rightarrow> nat"
  assumes iter_new: "iter new = []"
    and iter_ins: "iter (ins m k v) = btree_insert k v (iter m)"
    and iter_range_from: "range_from m k = btree_range_from (iter m) k"
    and len_iter: "len m = length (iter m)"
begin

lemma sorted_ins: "sorted_entries (iter m) \<Longrightarrow> sorted_entries (iter (ins m k v))"
  by (simp add: iter_ins sorted_btree_insert)

lemma set_ins:
  "sorted_entries (iter m) \<Longrightarrow> set (iter (ins m k v)) = insert (k, v) {e \<in> set (iter m). fst e \<noteq> k}"
  by (simp add: iter_ins set_btree_insert)

lemma len_zero: "len m = 0 \<longleftrightarrow> iter m = []"
  by (simp add: len_iter)

end

interpretation btree_map: sorted_map "[]" "\<lambda>m k v. btree_insert k v m" "\<lambda>m. m" btree_range_from length
  by unfold_locales simp_all

subsection \<open>Third-party code\<close>

record 'm externs =
  crc32c :: "bytes \<Rightarrow> u32"
  zstd_encode_all :: "bytes \<Rightarrow> bytes result"
  zstd_decode_all :: "bytes \<Rightarrow> bytes result"
  skip_new :: 'm
  skip_insert :: "'m \<Rightarrow> internal_key \<Rightarrow> value_record \<Rightarrow> 'm"
  skip_iter :: "'m \<Rightarrow> entry list"
  skip_range_from :: "'m \<Rightarrow> internal_key \<Rightarrow> entry list"
  skip_len :: "'m \<Rightarrow> nat"
  io_text :: "io_kind \<Rightarrow> string"

locale externals =
  skip: sorted_map "skip_new X" "skip_insert X" "skip_iter X" "skip_range_from X" "skip_len X"
  for X :: "'m externs" +
  assumes zstd_round_trip: "zstd_encode_all X bs = Inr cs \<Longrightarrow> zstd_decode_all X cs = Inr bs"

text \<open>An instance: the ordered map of the standard library and no compression.\<close>

definition btree_externs :: "(bytes \<Rightarrow> u32) \<Rightarrow> entry list externs" where
  "btree_externs crc =
     \<lparr>crc32c = crc, zstd_encode_all = Inr, zstd_decode_all = Inr, skip_new = [],
      skip_insert = (\<lambda>m k v. btree_insert k v m), skip_iter = (\<lambda>m. m),
      skip_range_from = btree_range_from, skip_len = length, io_text = (\<lambda>_. ''io error'')\<rparr>"

interpretation btree_ext: externals "btree_externs crc" for crc
  by unfold_locales (simp_all add: btree_externs_def)

end
