(* ===== verification/Memtable.thy ===== *)
theory Memtable
  imports Externs
begin

section \<open>Memtables (memtable/)\<close>

text \<open>
  \<^verbatim>\<open>src/src/memtable/btree.rs\<close>, \<^verbatim>\<open>skiplist.rs\<close>,
  \<^verbatim>\<open>arena.rs\<close> and \<^verbatim>\<open>mod.rs\<close>: two implementations of the in-memory
  table of versions and the enum that dispatches to one of them.  The skip list lives in the
  third-party \<^verbatim>\<open>SkipMap\<close>, a parameter (\<open>externs\<close>); its arena keys and
  values (\<^verbatim>\<open>ArenaInternalKey\<close>, \<^verbatim>\<open>ArenaValueRecord\<close>) hold shared byte
  slices and are modelled by the values they stand for.

  The contract of a memtable is the locale \<open>version_table\<close>: inserting a version adds it to
  the sorted entries, and a point lookup finds the newest version that is visible.  Both
  implementations are shown to satisfy it, and so is the enum.
\<close>

subsection \<open>The ordered-map memtable\<close>

definition size_of_internal_key :: nat where
  \<comment> \<open>\<^verbatim>\<open>size_of::<InternalKey>()\<close> on a 64-bit target: a vector (24), a u64 (8), a tag, padded\<close>
  "size_of_internal_key = 40"

record btree_memtable =
  bt_map :: "entry list"
  bt_approximate_size :: nat

definition bt_new :: btree_memtable where
  "bt_new = \<lparr>bt_map = [], bt_approximate_size = 0\<rparr>"

definition bt_put :: "btree_memtable \<Rightarrow> u64 \<Rightarrow> bytes \<Rightarrow> bytes \<Rightarrow> btree_memtable" where
  "bt_put m seq key val =
     \<lparr>bt_map = btree_insert (InternalKey key seq TypePut) (Put val) (bt_map m),
      bt_approximate_size = bt_approximate_size m + length key + length val + size_of_internal_key\<rparr>"

definition bt_delete :: "btree_memtable \<Rightarrow> u64 \<Rightarrow> bytes \<Rightarrow> btree_memtable" where
  "bt_delete m seq key =
     \<lparr>bt_map = btree_insert (InternalKey key seq TypeDelete) Delete (bt_map m),
      bt_approximate_size = bt_approximate_size m + length key + size_of_internal_key\<rparr>"

fun get_from :: "bytes \<Rightarrow> entry list \<Rightarrow> value_record option" where
  "get_from key [] = None"
| "get_from key ((internal_key, val) # rest) =
     (case ord_cmp (user_key internal_key) key of
        Equal \<Rightarrow> Some val
      | Greater \<Rightarrow> None
      | Less \<Rightarrow> get_from key rest)"

definition bt_get :: "btree_memtable \<Rightarrow> bytes \<Rightarrow> u64 \<Rightarrow> value_record option" where
  "bt_get m key read_seq = get_from key (btree_range_from (bt_map m) (InternalKey key read_seq TypePut))"

fun scan_loop :: "bytes bound \<Rightarrow> bytes bound \<Rightarrow> u64 \<Rightarrow> bytes set \<Rightarrow> (bytes \<times> bytes) list \<Rightarrow>
  entry list \<Rightarrow> (bytes \<times> bytes) list" where
  "scan_loop lower upper read_seq seen rows [] = rows"
| "scan_loop lower upper read_seq seen rows ((internal_key, val) # entries) =
     (if sequence internal_key > read_seq then scan_loop lower upper read_seq seen rows entries
      else if \<not> within_bounds (user_key internal_key) lower upper
      then scan_loop lower upper read_seq seen rows entries
      else if user_key internal_key \<in> seen then scan_loop lower upper read_seq seen rows entries
      else scan_loop lower upper read_seq (insert (user_key internal_key) seen)
        (case val of Put v \<Rightarrow> rows @ [(user_key internal_key, v)] | Delete \<Rightarrow> rows) entries)"

definition bt_scan :: "btree_memtable \<Rightarrow> bytes bound \<Rightarrow> bytes bound \<Rightarrow> u64 \<Rightarrow> (bytes \<times> bytes) list" where
  "bt_scan m lower upper read_seq = scan_loop lower upper read_seq {} [] (bt_map m)"

definition bt_is_empty :: "btree_memtable \<Rightarrow> bool" where
  "bt_is_empty m = (bt_map m = [])"

definition bt_entries :: "btree_memtable \<Rightarrow> entry list" where
  "bt_entries m = bt_map m"

subsection \<open>The skip-list memtable\<close>

record arena =
  arena_chunks :: "bytes list"
  arena_size :: nat

definition arena_new :: arena where
  "arena_new = \<lparr>arena_chunks = [], arena_size = 0\<rparr>"

definition arena_allocate :: "arena \<Rightarrow> bytes \<Rightarrow> bytes \<times> arena" where
  "arena_allocate a bs =
     (bs, \<lparr>arena_chunks = arena_chunks a @ [bs], arena_size = arena_size a + length bs\<rparr>)"

record 'm skiplist_memtable =
  sk_map :: 'm
  sk_arena :: arena

definition sk_new :: "'m externs \<Rightarrow> 'm skiplist_memtable" where
  "sk_new X = \<lparr>sk_map = skip_new X, sk_arena = arena_new\<rparr>"

definition sk_put :: "'m externs \<Rightarrow> 'm skiplist_memtable \<Rightarrow> u64 \<Rightarrow> bytes \<Rightarrow> bytes \<Rightarrow> 'm skiplist_memtable" where
  "sk_put X m seq key val =
     (case arena_allocate (sk_arena m) key of (key, a) \<Rightarrow>
      case arena_allocate a val of (val, a) \<Rightarrow>
        \<lparr>sk_map = skip_insert X (sk_map m) (InternalKey key seq TypePut) (Put val), sk_arena = a\<rparr>)"

definition sk_delete :: "'m externs \<Rightarrow> 'm skiplist_memtable \<Rightarrow> u64 \<Rightarrow> bytes \<Rightarrow> 'm skiplist_memtable" where
  "sk_delete X m seq key =
     (case arena_allocate (sk_arena m) key of (key, a) \<Rightarrow>
        \<lparr>sk_map = skip_insert X (sk_map m) (InternalKey key seq TypeDelete) Delete, sk_arena = a\<rparr>)"

definition sk_get :: "'m externs \<Rightarrow> 'm skiplist_memtable \<Rightarrow> bytes \<Rightarrow> u64 \<Rightarrow> value_record option" where
  "sk_get X m key read_seq =
     get_from key (skip_range_from X (sk_map m) (InternalKey key read_seq TypePut))"

definition sk_entries :: "'m externs \<Rightarrow> 'm skiplist_memtable \<Rightarrow> entry list" where
  "sk_entries X m = skip_iter X (sk_map m)"

definition visible_scan :: "entry list \<Rightarrow> bytes bound \<Rightarrow> bytes bound \<Rightarrow> u64 \<Rightarrow> (bytes \<times> bytes) list" where
  "visible_scan entries lower upper read_seq = scan_loop lower upper read_seq {} [] entries"

definition sk_scan :: "'m externs \<Rightarrow> 'm skiplist_memtable \<Rightarrow> bytes bound \<Rightarrow> bytes bound \<Rightarrow> u64 \<Rightarrow>
  (bytes \<times> bytes) list" where
  "sk_scan X m lower upper read_seq = visible_scan (sk_entries X m) lower upper read_seq"

definition sk_approximate_size :: "'m externs \<Rightarrow> 'm skiplist_memtable \<Rightarrow> nat" where
  "sk_approximate_size X m = arena_size (sk_arena m) + skip_len X (sk_map m) * size_of_internal_key"

definition sk_is_empty :: "'m externs \<Rightarrow> 'm skiplist_memtable \<Rightarrow> bool" where
  "sk_is_empty X m = (skip_len X (sk_map m) = 0)"

subsection \<open>The enum\<close>

datatype memtable_kind = KindBTree | KindSkipList

datatype 'm memtable = BTree btree_memtable | SkipList "'m skiplist_memtable"

definition mem_new :: "'m externs \<Rightarrow> memtable_kind \<Rightarrow> 'm memtable" where
  "mem_new X kind = (case kind of KindBTree \<Rightarrow> BTree bt_new | KindSkipList \<Rightarrow> SkipList (sk_new X))"

fun mem_kind :: "'m memtable \<Rightarrow> memtable_kind" where
  "mem_kind (BTree t) = KindBTree"
| "mem_kind (SkipList t) = KindSkipList"

fun mem_put :: "'m externs \<Rightarrow> 'm memtable \<Rightarrow> u64 \<Rightarrow> bytes \<Rightarrow> bytes \<Rightarrow> 'm memtable" where
  "mem_put X (BTree t) seq key val = BTree (bt_put t seq key val)"
| "mem_put X (SkipList t) seq key val = SkipList (sk_put X t seq key val)"

fun mem_delete :: "'m externs \<Rightarrow> 'm memtable \<Rightarrow> u64 \<Rightarrow> bytes \<Rightarrow> 'm memtable" where
  "mem_delete X (BTree t) seq key = BTree (bt_delete t seq key)"
| "mem_delete X (SkipList t) seq key = SkipList (sk_delete X t seq key)"

fun mem_get :: "'m externs \<Rightarrow> 'm memtable \<Rightarrow> bytes \<Rightarrow> u64 \<Rightarrow> value_record option" where
  "mem_get X (BTree t) key read_seq = bt_get t key read_seq"
| "mem_get X (SkipList t) key read_seq = sk_get X t key read_seq"

fun mem_scan :: "'m externs \<Rightarrow> 'm memtable \<Rightarrow> bytes bound \<Rightarrow> bytes bound \<Rightarrow> u64 \<Rightarrow> (bytes \<times> bytes) list" where
  "mem_scan X (BTree t) lower upper read_seq = bt_scan t lower upper read_seq"
| "mem_scan X (SkipList t) lower upper read_seq = sk_scan X t lower upper read_seq"

fun mem_approximate_size :: "'m externs \<Rightarrow> 'm memtable \<Rightarrow> nat" where
  "mem_approximate_size X (BTree t) = bt_approximate_size t"
| "mem_approximate_size X (SkipList t) = sk_approximate_size X t"

fun mem_is_empty :: "'m externs \<Rightarrow> 'm memtable \<Rightarrow> bool" where
  "mem_is_empty X (BTree t) = bt_is_empty t"
| "mem_is_empty X (SkipList t) = sk_is_empty X t"

fun mem_entries :: "'m externs \<Rightarrow> 'm memtable \<Rightarrow> entry list" where
  "mem_entries X (BTree t) = bt_entries t"
| "mem_entries X (SkipList t) = sk_entries X t"

subsection \<open>Point lookups\<close>

lemma seek_key_less:
  "ik < InternalKey key s TypePut \<longleftrightarrow> user_key ik < key \<or> user_key ik = key \<and> s < sequence ik"
  by (cases "value_type ik") (auto simp: internal_key_less_iff)

lemma get_from_sorted:
  assumes "sorted_entries es" and "\<forall>e\<in>set es. key \<le> user_key (fst e)"
  shows "get_from key es = map_option snd (find (\<lambda>e. user_key (fst e) = key) es)"
  using assms
proof (induction key es rule: get_from.induct)
  case (2 key ik val rest)
  show ?case
  proof (cases "user_key ik = key")
    case False
    with 2 have "key < user_key ik" by auto
    moreover have "user_key ik \<le> user_key (fst e)" if "e \<in> set rest" for e
      using that 2(2) by (intro user_key_mono less_imp_le) (auto simp: image_iff)
    ultimately have "\<forall>e\<in>set rest. user_key (fst e) \<noteq> key" by force
    then have "find (\<lambda>e. user_key (fst e) = key) rest = None"
      by (auto simp: find_None_iff)
    with False \<open>key < user_key ik\<close> show ?thesis by (auto simp: ord_cmp_def)
  qed (simp add: ord_cmp_def)
qed simp

lemma seek_lookup:
  assumes "sorted_entries es"
  shows "get_from key (btree_range_from es (InternalKey key s TypePut)) = lookup_at es key s"
proof -
  let ?P = "\<lambda>e :: entry. fst e < InternalKey key s TypePut"
  have "sorted_wrt (\<lambda>x y. fst x < fst y) es"
    using assms by (simp add: sorted_wrt_map)
  then have drop: "btree_range_from es (InternalKey key s TypePut) = filter (\<lambda>e. \<not> ?P e) es"
    unfolding btree_range_from_def
    by (intro dropWhile_filter_conv) (auto elim: sorted_wrt_mono_rel [rotated])
  have "get_from key (filter (\<lambda>e. \<not> ?P e) es) =
      map_option snd (find (\<lambda>e. user_key (fst e) = key) (filter (\<lambda>e. \<not> ?P e) es))"
    using assms by (intro get_from_sorted sorted_intros) (auto simp: seek_key_less)
  also have "find (\<lambda>e. user_key (fst e) = key) (filter (\<lambda>e. \<not> ?P e) es) = find (version_of key s) es"
  proof -
    have "filter (\<lambda>e. user_key (fst e) = key) (filter (\<lambda>e. \<not> ?P e) es) = filter (version_of key s) es"
      by (auto simp: seek_key_less version_of_def intro!: filter_cong)
    then show ?thesis by (simp add: find_eq_filter)
  qed
  also have "map_option snd \<dots> = lookup_at es key s"
    using \<open>sorted_wrt (\<lambda>x y. fst x < fst y) es\<close>
    by (intro lookup_at_sorted [symmetric]) (auto elim: sorted_wrt_mono_rel [rotated])
  finally show ?thesis by (simp add: drop)
qed

subsection \<open>Scans\<close>

lemma scan_loop_append:
  "scan_loop lower upper s seen rows es = rows @ scan_loop lower upper s seen [] es"
proof (induction es arbitrary: seen rows)
  case (Cons e es)
  obtain ik val where e: "e = (ik, val)" by fastforce
  show ?case
    using Cons.IH [of "insert (user_key ik) seen" "rows @ [(user_key ik, v)]" for v]
      Cons.IH [of "insert (user_key ik) seen" "[(user_key ik, v)]" for v] Cons.IH [of seen rows]
      Cons.IH [of "insert (user_key ik) seen" rows]
    by (auto simp: e split: value_record.split)
qed simp

lemma fst_scan_loop:
  "fst ` set (scan_loop lower upper s seen [] es) \<subseteq> user_key ` fst ` set es - seen"
proof (induction es arbitrary: seen)
  case (Cons e es)
  obtain ik val where e: "e = (ik, val)" by fastforce
  show ?case
    using Cons.IH [of seen] Cons.IH [of "insert (user_key ik) seen"]
      scan_loop_append [of lower upper s "insert (user_key ik) seen" "[(user_key ik, v)]" es for v]
    by (auto simp: e split: value_record.split)
qed simp

lemma sorted_scan_loop:
  assumes "sorted_wrt (\<lambda>x y. fst x \<le> fst y) es"
  shows "sorted_wrt (<) (map fst (scan_loop lower upper s seen [] es))"
  using assms
proof (induction es arbitrary: seen)
  case (Cons e es)
  obtain ik val where e: "e = (ik, val)" by fastforce
  let ?rest = "scan_loop lower upper s (insert (user_key ik) seen) [] es"
  have "user_key ik < k" if "k \<in> fst ` set ?rest" for k
  proof -
    have "k \<in> user_key ` fst ` set es - insert (user_key ik) seen"
      using that by (rule subsetD [OF fst_scan_loop])
    then obtain e' where e': "e' \<in> set es" "k = user_key (fst e')" "k \<noteq> user_key ik" by auto
    with Cons.prems have "user_key ik \<le> user_key (fst e')"
      by (intro user_key_mono) (auto simp: e)
    with e' show ?thesis by simp
  qed
  with Cons show ?case
    using scan_loop_append [of lower upper s "insert (user_key ik) seen" "[(user_key ik, v)]" es for v]
    by (auto simp: e split: value_record.split)
qed simp

lemma mem_scan_loop:
  "(k, v) \<in> set (scan_loop lower upper s seen [] es) \<longleftrightarrow>
     k \<notin> seen \<and> within_bounds k lower upper \<and>
     map_option snd (find (version_of k s) es) = Some (Put v)"
proof (induction es arbitrary: seen)
  case (Cons e es)
  obtain ik val where e: "e = (ik, val)" by fastforce
  show ?case
    using Cons.IH [of seen] Cons.IH [of "insert (user_key ik) seen"]
      scan_loop_append [of lower upper s "insert (user_key ik) seen" "[(user_key ik, w)]" es for w]
    by (auto simp: e version_of_def split: value_record.split)
qed simp

lemma visible_value_Some_iff: "visible_value r = Some v \<longleftrightarrow> r = Some (Put v)"
  by (cases r; simp add: visible_value_def) (case_tac a; simp)

lemma scan_loop_sorted:
  assumes "sorted_wrt (\<lambda>x y. fst x \<le> fst y) es"
  shows "scan_loop lower upper s {} [] es = scan_rows es lower upper s"
  using sorted_scan_loop [OF assms]
  by (rule scan_rows_unique) (simp add: mem_scan_loop lookup_at_sorted assms visible_value_Some_iff)

lemma visible_scan_sorted:
  "sorted_entries es \<Longrightarrow> visible_scan es lower upper s = scan_rows es lower upper s"
  by (simp add: visible_scan_def scan_loop_sorted sorted_entries_le)

text \<open>Inserting a version newer than all others of its key changes exactly that key, from its sequence on.\<close>

lemma lookup_at_btree_insert:
  assumes "sorted_entries es"
    and "\<forall>e\<in>set es. user_key (fst e) = user_key ik \<longrightarrow> sequence (fst e) < sequence ik"
  shows "lookup_at (btree_insert ik r es) k s =
    (if k = user_key ik \<and> sequence ik \<le> s then Some r else lookup_at es k s)"
proof -
  have find: "map_option snd (find (version_of k s) (btree_insert ik r es)) =
    (if k = user_key ik \<and> sequence ik \<le> s then Some r else map_option snd (find (version_of k s) es))"
    using assms(2)
  proof (induction ik r es rule: btree_insert.induct)
    case (2 ik r a b m)
    show ?case
    proof (cases "a < ik")
      case True
      then have "version_of k s (a, b) \<Longrightarrow> \<not> (k = user_key ik \<and> sequence ik \<le> s)"
        using 2(2) by (auto simp: version_of_def internal_key_less_iff)
      with True 2 show ?thesis by auto
    next
      case False
      then show ?thesis using 2(2) by (auto simp: version_of_def)
    qed
  qed (simp add: version_of_def)
  show ?thesis
    using find sorted_btree_insert [OF assms(1)] assms(1) by (simp add: lookup_at_sorted sorted_entries_le)
qed

subsection \<open>The contract of a memtable\<close>

locale version_table =
  fixes new :: 't and put :: "'t \<Rightarrow> u64 \<Rightarrow> bytes \<Rightarrow> bytes \<Rightarrow> 't" and delete :: "'t \<Rightarrow> u64 \<Rightarrow> bytes \<Rightarrow> 't"
    and get :: "'t \<Rightarrow> bytes \<Rightarrow> u64 \<Rightarrow> value_record option"
    and scan :: "'t \<Rightarrow> bytes bound \<Rightarrow> bytes bound \<Rightarrow> u64 \<Rightarrow> (bytes \<times> bytes) list"
    and is_empty :: "'t \<Rightarrow> bool" and entries :: "'t \<Rightarrow> entry list"
  assumes entries_new: "entries new = []"
    and entries_put: "entries (put t seq key v) = btree_insert (InternalKey key seq TypePut) (Put v) (entries t)"
    and entries_delete: "entries (delete t seq key) = btree_insert (InternalKey key seq TypeDelete) Delete (entries t)"
    and get_entries: "sorted_entries (entries t) \<Longrightarrow> get t key s = lookup_at (entries t) key s"
    and scan_entries: "sorted_entries (entries t) \<Longrightarrow> scan t lower upper s = scan_rows (entries t) lower upper s"
    and empty_entries: "is_empty t \<longleftrightarrow> entries t = []"
begin

lemma sorted_new: "sorted_entries (entries new)"
  by (simp add: entries_new)

lemma sorted_put: "sorted_entries (entries t) \<Longrightarrow> sorted_entries (entries (put t seq key v))"
  by (simp add: entries_put sorted_btree_insert)

lemma sorted_delete: "sorted_entries (entries t) \<Longrightarrow> sorted_entries (entries (delete t seq key))"
  by (simp add: entries_delete sorted_btree_insert)

lemma get_new: "get new key s = None"
  by (simp add: get_entries entries_new)

lemma get_put:
  "sorted_entries (entries t) \<Longrightarrow>
   \<forall>e\<in>set (entries t). user_key (fst e) = key \<longrightarrow> sequence (fst e) < seq \<Longrightarrow>
   get (put t seq key v) k s = (if k = key \<and> seq \<le> s then Some (Put v) else get t k s)"
  by (simp add: get_entries sorted_put) (simp add: entries_put lookup_at_btree_insert)

lemma get_delete:
  "sorted_entries (entries t) \<Longrightarrow>
   \<forall>e\<in>set (entries t). user_key (fst e) = key \<longrightarrow> sequence (fst e) < seq \<Longrightarrow>
   get (delete t seq key) k s = (if k = key \<and> seq \<le> s then Some Delete else get t k s)"
  by (simp add: get_entries sorted_delete) (simp add: entries_delete lookup_at_btree_insert)

end

lemmas bt_defs = bt_new_def bt_put_def bt_delete_def bt_get_def bt_scan_def bt_is_empty_def bt_entries_def

interpretation btree: version_table bt_new bt_put bt_delete bt_get bt_scan bt_is_empty bt_entries
  by unfold_locales (simp_all add: bt_defs seek_lookup visible_scan_sorted visible_scan_def [symmetric])

lemmas sk_defs = sk_new_def sk_put_def sk_delete_def sk_get_def sk_scan_def sk_is_empty_def
  sk_entries_def arena_allocate_def

sublocale externals \<subseteq> skiplist: version_table "sk_new X" "sk_put X" "sk_delete X" "sk_get X"
  "sk_scan X" "sk_is_empty X" "sk_entries X"
  by unfold_locales
    (simp_all add: sk_defs skip.iter_new skip.iter_ins skip.iter_range_from skip.len_zero
      seek_lookup visible_scan_sorted)

sublocale externals \<subseteq> mem: version_table "mem_new X kind" "mem_put X" "mem_delete X" "mem_get X"
  "mem_scan X" "mem_is_empty X" "mem_entries X" for kind
proof
  fix t :: "'m memtable"
  show "mem_entries X (mem_new X kind) = []"
    by (cases kind) (simp_all add: mem_new_def btree.entries_new skiplist.entries_new)
  show "mem_is_empty X t \<longleftrightarrow> mem_entries X t = []"
    by (cases t) (simp_all add: btree.empty_entries skiplist.empty_entries)
  fix seq key v s lower upper
  show "mem_entries X (mem_put X t seq key v) = btree_insert (InternalKey key seq TypePut) (Put v) (mem_entries X t)"
    by (cases t) (simp_all add: btree.entries_put skiplist.entries_put)
  show "mem_entries X (mem_delete X t seq key) = btree_insert (InternalKey key seq TypeDelete) Delete (mem_entries X t)"
    by (cases t) (simp_all add: btree.entries_delete skiplist.entries_delete)
  assume "sorted_entries (mem_entries X t)"
  then show "mem_get X t key s = lookup_at (mem_entries X t) key s"
    and "mem_scan X t lower upper s = scan_rows (mem_entries X t) lower upper s"
    by (cases t; simp add: btree.get_entries btree.scan_entries skiplist.get_entries skiplist.scan_entries)+
qed

subsection \<open>Histories of writes\<close>

fun mem_write :: "'m externs \<Rightarrow> u64 \<times> bytes \<times> value_record \<Rightarrow> 'm memtable \<Rightarrow> 'm memtable" where
  "mem_write X (seq, key, Put v) t = mem_put X t seq key v"
| "mem_write X (seq, key, Delete) t = mem_delete X t seq key"

definition mem_run :: "'m externs \<Rightarrow> memtable_kind \<Rightarrow> (u64 \<times> bytes \<times> value_record) list \<Rightarrow> 'm memtable" where
  "mem_run X kind ws = fold (mem_write X) ws (mem_new X kind)"

fun write_entry :: "u64 \<times> bytes \<times> value_record \<Rightarrow> entry" where
  "write_entry (seq, key, r) = (InternalKey key seq (record_type r), r)"

context externals
begin

lemmas mem_get_entries = mem.get_entries

lemmas mem_scan_entries = mem.scan_entries

lemmas mem_empty_entries = mem.empty_entries

lemmas mem_entries_new = mem.entries_new

lemma entries_mem_write:
  "mem_entries X (mem_write X w t) = btree_insert (fst (write_entry w)) (snd (write_entry w)) (mem_entries X t)"
  by (cases "(X, w, t)" rule: mem_write.cases) (simp_all add: mem.entries_put mem.entries_delete)

lemma entries_fold_mem_write:
  "mem_entries X (fold (mem_write X) ws t) =
   fold (\<lambda>w. btree_insert (fst (write_entry w)) (snd (write_entry w))) ws (mem_entries X t)"
  by (induction ws arbitrary: t) (simp_all add: entries_mem_write)

lemma entries_mem_run:
  "mem_entries X (mem_run X kind ws) =
   fold (\<lambda>w. btree_insert (fst (write_entry w)) (snd (write_entry w))) ws []"
  by (simp add: mem_run_def entries_fold_mem_write mem.entries_new)

end

lemma sorted_fold_btree_insert [sorted_intros]:
  "sorted_wrt (<) (map fst es) \<Longrightarrow> sorted_wrt (<) (map fst (fold (\<lambda>w. btree_insert (f w) (g w)) ws es))"
  by (induction ws arbitrary: es) (simp_all add: sorted_btree_insert)

lemma set_fold_btree_insert:
  assumes "sorted_wrt (<) (map fst es)" and "distinct (map fst es @ map f ws)"
  shows "set (fold (\<lambda>w. btree_insert (f w) (g w)) ws es) = set es \<union> (\<lambda>w. (f w, g w)) ` set ws"
  using assms
proof (induction ws arbitrary: es)
  case (Cons w ws)
  then have set: "set (btree_insert (f w) (g w) es) = insert (f w, g w) (set es)"
    by (subst set_btree_insert) (auto simp: image_iff)
  have "distinct (map fst (btree_insert (f w) (g w) es))"
    using sorted_btree_insert [OF Cons.prems(1)] strict_sorted_iff by blast
  moreover have "fst ` set (btree_insert (f w) (g w) es) = insert (f w) (fst ` set es)"
    by (simp add: set)
  ultimately have "distinct (map fst (btree_insert (f w) (g w) es) @ map f ws)"
    using Cons.prems(2) by auto
  with Cons.IH [of "btree_insert (f w) (g w) es"] Cons.prems(1) show ?case
    by (auto simp: set sorted_btree_insert)
qed simp

lemma sequence_write_entry [simp]: "sequence (fst (write_entry w)) = fst w"
  by (cases w rule: write_entry.cases) simp

lemma distinct_versions_writes:
  assumes "distinct (map fst ws)"
  shows "distinct_versions (set (map write_entry ws))" and "distinct (map (fst \<circ> write_entry) ws)"
proof -
  have eq: "w = w'" if "w \<in> set ws" "w' \<in> set ws" "fst w = fst w'" for w w'
    using assms that by (simp add: distinct_map inj_on_def)
  show "distinct_versions (set (map write_entry ws))"
    by (auto simp: distinct_versions_def simp del: write_entry.simps dest: eq)
  have "distinct ws" using assms by (simp add: distinct_map)
  moreover have "inj_on (fst \<circ> write_entry) (set ws)"
    by (rule inj_onI) (metis comp_apply eq sequence_write_entry)
  ultimately show "distinct (map (fst \<circ> write_entry) ws)"
    by (simp add: distinct_map)
qed

text \<open>
  C31: after any history of puts and deletes whose sequence numbers are all different, a point
  lookup of either memtable at a read sequence returns the newest version written with at
  most that sequence, deletions included, and a scan returns exactly the visible rows within
  its bounds in ascending key order.
\<close>

theorem mem_history_correct:
  fixes X :: "'m externs"
  assumes "externals X" and "distinct (map fst ws)"
  shows "mem_get X (mem_run X kind ws) key s = lookup_at (map write_entry ws) key s \<and>
    mem_scan X (mem_run X kind ws) lower upper s = scan_rows (map write_entry ws) lower upper s"
proof -
  from assms(1) have X: "externals X" .
  let ?es = "mem_entries X (mem_run X kind ws)"
  have sorted: "sorted_entries ?es"
    by (simp add: externals.entries_mem_run [OF X] sorted_fold_btree_insert)
  have "set ?es = (\<lambda>w. (fst (write_entry w), snd (write_entry w))) ` set ws"
    using set_fold_btree_insert [of "[]" "fst \<circ> write_entry" ws "snd \<circ> write_entry"]
      distinct_versions_writes(2) [OF assms(2)]
    by (simp add: externals.entries_mem_run [OF X])
  then have "set ?es = set (map write_entry ws)" by simp
  then have lookup: "lookup_at ?es k s = lookup_at (map write_entry ws) k s" for k
    using distinct_versions_writes(1) [OF assms(2)] by (rule lookup_at_cong_set [rotated])
  then have "scan_rows ?es lower upper s = scan_rows (map write_entry ws) lower upper s"
    by (intro scan_rows_unique) (simp_all add: sorted_scan_rows set_scan_rows)
  with lookup sorted show ?thesis
    by (simp add: externals.mem_get_entries [OF X] externals.mem_scan_entries [OF X])
qed

theorem mem_history_correct_witness:
  "externals (btree_externs (\<lambda>_. 0)) \<and>
   mem_get (btree_externs (\<lambda>_. 0))
     (mem_run (btree_externs (\<lambda>_. 0)) KindSkipList [(1, [7], Put [1]), (3, [7], Delete), (2, [7], Put [2])]) [7] 2
   = Some (Put [2])"
proof -
  let ?X = "btree_externs (\<lambda>_. 0)" and ?ws = "[(1, [7], Put [1]), (3, [7], Delete), (2, [7], Put [2])]"
  have "lookup_at (map write_entry ?ws) [7] 2 = Some (Put [2])" by code_simp
  with mem_history_correct [of ?X ?ws KindSkipList "[7]" 2 Unbounded Unbounded]
  show ?thesis by (simp add: btree_ext.externals_axioms)
qed



end
