(* ===== verification/Env.thy ===== *)
theory Env
  imports Coding
begin

section \<open>The file-system boundary (env/)\<close>

text \<open>
  \<^verbatim>\<open>src/src/env/fs.rs\<close> and \<^verbatim>\<open>file.rs\<close>.  All storage goes through the
  trait \<^verbatim>\<open>Env\<close>; \<^verbatim>\<open>FsEnv\<close> implements it with \<^verbatim>\<open>std::fs\<close>.
  The state of the environment is the record \<open>env\<close>: the contents of the files, how much
  of each is durable, the directories that exist, and a list of injected faults, one for
  each coming call (as the fault-injecting environments of
  \<^verbatim>\<open>tests/crash_recovery.rs\<close> do): \<open>None\<close> lets the call succeed, \<open>Some k\<close>
  makes it fail, after \<open>k\<close> bytes for a write.  An empty list injects nothing.

  A call is a function of the environment that returns a result and the new environment.
  A handle opened for writing is its path: the engine holds one writer per file, and writes
  go to the end of the file in both of the modes it uses (truncate and append).  A handle
  opened for reading is a snapshot of the contents with a position, so a file that is
  removed stays readable through it, as on POSIX.  A \<^verbatim>\<open>read\<close> may return fewer
  bytes than asked for: \<open>read_chunk\<close> says how many it offers.
\<close>

subsection \<open>State and sequencing\<close>

type_synonym path = string

record env_file =
  file_content :: bytes
  file_synced :: nat

record env =
  env_files :: "path \<Rightarrow> env_file option"
  env_dirs :: "path list"
  env_faults :: "nat option list"
  read_chunk :: "nat \<Rightarrow> nat \<Rightarrow> nat"

type_synonym ('s, 'a) op = "'s \<Rightarrow> 'a result \<times> 's"

definition op_then :: "('s, 'a) op \<Rightarrow> ('a \<Rightarrow> ('s, 'b) op) \<Rightarrow> ('s, 'b) op" where
  "op_then m f = (\<lambda>s. case m s of (Inl e, s') \<Rightarrow> (Inl e, s') | (Inr x, s') \<Rightarrow> f x s')"

definition op_lift :: "'a result \<Rightarrow> ('s, 'a) op" where
  "op_lift r = (\<lambda>s. (r, s))"

record writable_file_options =
  opt_create :: bool
  opt_truncate :: bool
  opt_append :: bool
  opt_read :: bool

definition options_create :: writable_file_options where
  "options_create = \<lparr>opt_create = True, opt_truncate = True, opt_append = False, opt_read = False\<rparr>"

definition options_append :: writable_file_options where
  "options_append = \<lparr>opt_create = True, opt_truncate = False, opt_append = True, opt_read = True\<rparr>"

definition take_fault :: "env \<Rightarrow> nat option \<times> env" where
  "take_fault e = (case env_faults e of [] \<Rightarrow> (None, e) | f # fs \<Rightarrow> (f, e\<lparr>env_faults := fs\<rparr>))"

text \<open>A call that either fails with an I/O error and changes nothing, or runs.\<close>

definition faultable :: "(env, 'a) op \<Rightarrow> (env, 'a) op" where
  "faultable m e = (case take_fault e of (None, e') \<Rightarrow> m e' | (Some k, e') \<Rightarrow> (Inl (Io OtherIo), e'))"

subsection \<open>The calls of Env\<close>

definition set_file :: "path \<Rightarrow> env_file option \<Rightarrow> env \<Rightarrow> env" where
  "set_file p f e = e\<lparr>env_files := (env_files e)(p := f)\<rparr>"

definition env_exists :: "path \<Rightarrow> env \<Rightarrow> bool" where
  "env_exists p e = (p \<in> set (env_dirs e) \<or> env_files e p \<noteq> None)"

definition create_dir_all :: "path \<Rightarrow> (env, unit) op" where
  "create_dir_all p = faultable (\<lambda>e. (Inr (), e\<lparr>env_dirs := List.insert p (env_dirs e)\<rparr>))"

definition open_writable :: "path \<Rightarrow> writable_file_options \<Rightarrow> (env, path) op" where
  "open_writable p opts = faultable (\<lambda>e.
     case env_files e p of
       None \<Rightarrow> if opt_create opts then (Inr p, set_file p (Some \<lparr>file_content = [], file_synced = 0\<rparr>) e)
               else (Inl (Io NotFound), e)
     | Some f \<Rightarrow> if opt_truncate opts
               then (Inr p, set_file p (Some \<lparr>file_content = [], file_synced = 0\<rparr>) e)
               else (Inr p, e))"

definition append_bytes :: "path \<Rightarrow> bytes \<Rightarrow> env \<Rightarrow> env" where
  "append_bytes p bs e =
     set_file p (map_option (\<lambda>f. f\<lparr>file_content := file_content f @ bs\<rparr>) (env_files e p)) e"

definition write_all :: "path \<Rightarrow> bytes \<Rightarrow> (env, unit) op" where
  "write_all p bs e =
     (case take_fault e of
        (None, e') \<Rightarrow> (Inr (), append_bytes p bs e')
      | (Some k, e') \<Rightarrow> (Inl (Io OtherIo), append_bytes p (take k bs) e'))"

definition sync_all :: "path \<Rightarrow> (env, unit) op" where
  "sync_all p = faultable (\<lambda>e.
     (Inr (), set_file p (map_option (\<lambda>f. f\<lparr>file_synced := length (file_content f)\<rparr>) (env_files e p)) e))"

record readable_file =
  rf_content :: bytes
  rf_pos :: nat
  rf_chunk :: "nat \<Rightarrow> nat \<Rightarrow> nat"

definition open_readable :: "path \<Rightarrow> (env, readable_file) op" where
  "open_readable p = faultable (\<lambda>e.
     case env_files e p of
       None \<Rightarrow> (Inl (Io NotFound), e)
     | Some f \<Rightarrow> (Inr \<lparr>rf_content = file_content f, rf_pos = 0, rf_chunk = read_chunk e\<rparr>, e))"

text \<open>\<^verbatim>\<open>Read::read\<close>: at most \<open>len\<close> bytes, none only at the end of the file.\<close>

definition file_read :: "nat \<Rightarrow> readable_file \<Rightarrow> bytes \<times> readable_file" where
  "file_read len f =
     (let rest = drop (rf_pos f) (rf_content f);
          avail = min len (length rest);
          n = (if avail = 0 then 0 else max 1 (min avail (rf_chunk f (rf_pos f) len)))
      in (take n rest, f\<lparr>rf_pos := rf_pos f + n\<rparr>))"

definition file_read_exact :: "nat \<Rightarrow> readable_file \<Rightarrow> bytes result \<times> readable_file" where
  "file_read_exact len f =
     (let rest = drop (rf_pos f) (rf_content f)
      in if length rest < len
         then (Inl (Io UnexpectedEof), f\<lparr>rf_pos := max (rf_pos f) (length (rf_content f))\<rparr>)
         else (Inr (take len rest), f\<lparr>rf_pos := rf_pos f + len\<rparr>))"

definition file_seek_start :: "nat \<Rightarrow> readable_file \<Rightarrow> readable_file" where
  "file_seek_start n f = f\<lparr>rf_pos := n\<rparr>"

definition file_len :: "readable_file \<Rightarrow> nat" where
  "file_len f = length (rf_content f)"

definition env_rename :: "path \<Rightarrow> path \<Rightarrow> (env, unit) op" where
  "env_rename from to = faultable (\<lambda>e.
     case env_files e from of
       None \<Rightarrow> (Inl (Io NotFound), e)
     | Some f \<Rightarrow> (Inr (), set_file to (Some f) (set_file from None e)))"

definition metadata_len :: "path \<Rightarrow> (env, u64) op" where
  "metadata_len p = faultable (\<lambda>e.
     case env_files e p of
       None \<Rightarrow> (Inl (Io NotFound), e)
     | Some f \<Rightarrow> (Inr (word_of_nat (length (file_content f))), e))"

definition remove_file :: "path \<Rightarrow> (env, unit) op" where
  "remove_file p = faultable (\<lambda>e.
     case env_files e p of
       None \<Rightarrow> (Inl (Io NotFound), e)
     | Some f \<Rightarrow> (Inr (), set_file p None e))"

definition sync_directory :: "path \<Rightarrow> (env, unit) op" where
  "sync_directory p = faultable (\<lambda>e. (Inr (), e))"

subsection \<open>File names (env/file.rs)\<close>

text \<open>
  \<^verbatim>\<open>format!("{number:06}")\<close>: the decimal digits, padded with zeros to six.  A Rust
  string is the list of the bytes of its UTF-8 encoding, as \<open>char\<close>s.
\<close>

fun dec_digits :: "nat \<Rightarrow> string" where
  "dec_digits n = (if n < 10 then [char_of (48 + n)] else dec_digits (n div 10) @ [char_of (48 + n mod 10)])"

declare dec_digits.simps [simp del]

definition pad6 :: "nat \<Rightarrow> string" where
  "pad6 n = (let ds = dec_digits n in replicate (6 - length ds) CHR ''0'' @ ds)"

definition wal_file_name :: "u64 \<Rightarrow> string" where
  "wal_file_name number = pad6 (unat number) @ ''.wal''"

definition table_file_name :: "u64 \<Rightarrow> string" where
  "table_file_name number = pad6 (unat number) @ ''.sst''"

definition manifest_file_name :: "u64 \<Rightarrow> string" where
  "manifest_file_name number = ''MANIFEST-'' @ pad6 (unat number)"

text \<open>\<^verbatim>\<open>str::parse::<u64>\<close>: an optional plus sign, then digits, with overflow refused.\<close>

definition char_digit :: "char \<Rightarrow> nat option" where
  "char_digit c = (let d = of_char c in if 48 \<le> d \<and> d \<le> (57 :: nat) then Some (d - 48) else None)"

fun parse_digits :: "nat \<Rightarrow> string \<Rightarrow> nat option" where
  "parse_digits acc [] = Some acc"
| "parse_digits acc (c # cs) =
     (case char_digit c of None \<Rightarrow> None
      | Some d \<Rightarrow> if acc * 10 + d < 2 ^ 64 then parse_digits (acc * 10 + d) cs else None)"

fun parse_u64 :: "string \<Rightarrow> u64 option" where
  "parse_u64 [] = None"
| "parse_u64 (c # cs) =
     (if c = CHR ''+'' then if cs = [] then None else map_option word_of_nat (parse_digits 0 cs)
      else map_option word_of_nat (parse_digits 0 (c # cs)))"

definition strip_prefix :: "string \<Rightarrow> string \<Rightarrow> string option" where
  "strip_prefix pre s = (if take (length pre) s = pre then Some (drop (length pre) s) else None)"

definition parse_manifest_number :: "string \<Rightarrow> u64 option" where
  "parse_manifest_number name = Option.bind (strip_prefix ''MANIFEST-'' name) parse_u64"

definition path_join :: "path \<Rightarrow> string \<Rightarrow> path" where
  "path_join dir name = (if dir = [] \<or> last dir = CHR ''/'' then dir @ name else dir @ ''/'' @ name)"

subsection \<open>CURRENT\<close>

definition string_bytes :: "string \<Rightarrow> bytes" where
  "string_bytes s = map of_char s"

definition bytes_string :: "bytes \<Rightarrow> string" where
  "bytes_string bs = map (\<lambda>b. char_of (unat b)) bs"

definition utf8_cont :: "u8 \<Rightarrow> bool" where
  "utf8_cont b \<longleftrightarrow> 0x80 \<le> b \<and> b \<le> 0xBF"

fun utf8_valid :: "bytes \<Rightarrow> bool" where
  "utf8_valid [] = True"
| "utf8_valid (a # bs) =
     (if a < 0x80 then utf8_valid bs
      else if 0xC2 \<le> a \<and> a \<le> 0xDF then
        (case bs of b # bs \<Rightarrow> utf8_cont b \<and> utf8_valid bs | _ \<Rightarrow> False)
      else if 0xE0 \<le> a \<and> a \<le> 0xEF then
        (case bs of b # c # bs \<Rightarrow> utf8_cont b \<and> utf8_cont c \<and>
           (a = 0xE0 \<longrightarrow> 0xA0 \<le> b) \<and> (a = 0xED \<longrightarrow> b \<le> 0x9F) \<and> utf8_valid bs | _ \<Rightarrow> False)
      else if 0xF0 \<le> a \<and> a \<le> 0xF4 then
        (case bs of b # c # d # bs \<Rightarrow> utf8_cont b \<and> utf8_cont c \<and> utf8_cont d \<and>
           (a = 0xF0 \<longrightarrow> 0x90 \<le> b) \<and> (a = 0xF4 \<longrightarrow> b \<le> 0x8F) \<and> utf8_valid bs | _ \<Rightarrow> False)
      else False)"

definition read_to_string :: "path \<Rightarrow> (env, string) op" where
  "read_to_string p = faultable (\<lambda>e.
     case env_files e p of
       None \<Rightarrow> (Inl (Io NotFound), e)
     | Some f \<Rightarrow> if utf8_valid (file_content f) then (Inr (bytes_string (file_content f)), e)
               else (Inl (Io OtherIo), e))"

definition set_current_with_env :: "path \<Rightarrow> string \<Rightarrow> (env, unit) op" where
  "set_current_with_env db_path manifest_name =
     (let tmp_path = path_join db_path ''CURRENT.tmp'';
          current_path = path_join db_path ''CURRENT''
      in op_then (open_writable tmp_path options_create) (\<lambda>file.
         op_then (write_all file (string_bytes manifest_name)) (\<lambda>_.
         op_then (write_all file (string_bytes [char_of (10 :: nat)])) (\<lambda>_.
         op_then (sync_all file) (\<lambda>_.
         op_then (env_rename tmp_path current_path) (\<lambda>_.
           sync_directory db_path))))))"

definition trim_line_end :: "string \<Rightarrow> string" where
  "trim_line_end s = rev (dropWhile (\<lambda>c. c = char_of (13 :: nat) \<or> c = char_of (10 :: nat)) (rev s))"

definition read_current_with_env :: "path \<Rightarrow> (env, string) op" where
  "read_current_with_env db_path =
     op_then (read_to_string (path_join db_path ''CURRENT'')) (\<lambda>current.
       let manifest_name = trim_line_end current
       in if manifest_name = [] then op_lift (Inl (Corruption ''CURRENT is empty''))
          else op_lift (Inr manifest_name))"

subsection \<open>Sequencing and faults\<close>

named_theorems op_simps \<open>outcomes of sequenced environment calls\<close>

lemma op_then_Inr [op_simps]: "m s = (Inr x, s') \<Longrightarrow> op_then m f s = f x s'"
  by (simp add: op_then_def)

lemma op_then_Inl [op_simps]: "m s = (Inl e, s') \<Longrightarrow> op_then m f s = (Inl e, s')"
  by (simp add: op_then_def)

lemma op_lift_apply [op_simps]: "op_lift r s = (r, s)"
  by (simp add: op_lift_def)

lemma take_fault_none [simp]: "env_faults e = [] \<Longrightarrow> take_fault e = (None, e)"
  by (simp add: take_fault_def)

lemma faultable_none [simp]: "env_faults e = [] \<Longrightarrow> faultable m e = m e"
  by (simp add: faultable_def)

lemma take_fault_files: "take_fault e = (f, e') \<Longrightarrow> env_files e' = env_files e"
  by (auto simp: take_fault_def split: list.splits)

lemma set_file_sel [simp]:
  "env_files (set_file p f e) = (env_files e)(p := f)"
  "env_dirs (set_file p f e) = env_dirs e"
  "env_faults (set_file p f e) = env_faults e"
  "read_chunk (set_file p f e) = read_chunk e"
  by (simp_all add: set_file_def)

lemma append_bytes_sel [simp]:
  "env_files (append_bytes p bs e) =
     (env_files e)(p := map_option (\<lambda>f. f\<lparr>file_content := file_content f @ bs\<rparr>) (env_files e p))"
  "env_faults (append_bytes p bs e) = env_faults e"
  by (simp_all add: append_bytes_def)

lemma op_thenE:
  assumes "op_then m f s = (r, s'')"
  obtains (fail) e where "m s = (Inl e, s'')" and "r = Inl e"
  | (ok) x s' where "m s = (Inr x, s')" and "f x s' = (r, s'')"
  using assms by (auto simp: op_then_def split: prod.splits sum.splits)

lemma op_then_eq_Inr:
  "op_then m f s = (Inr y, s'') \<longleftrightarrow> (\<exists>x s'. m s = (Inr x, s') \<and> f x s' = (Inr y, s''))"
  by (auto simp: op_then_def split: prod.splits sum.splits)

lemma op_then_eq_Inr_prod:
  "op_then m (\<lambda>(x, y). f x y) s = (Inr z, s'') \<longleftrightarrow>
   (\<exists>x y s'. m s = (Inr (x, y), s') \<and> f x y s' = (Inr z, s''))"
  by (auto simp: op_then_eq_Inr)

lemma op_lift_eq_Inr: "op_lift r s = (Inr y, s') \<longleftrightarrow> r = Inr y \<and> s' = s"
  by (auto simp: op_lift_def)

lemma op_then_lift: "op_then (op_lift (Inr x)) f = f x"
  by (simp add: op_then_def op_lift_def fun_eq_iff)

lemmas op_Inr_iffs = op_then_eq_Inr op_lift_eq_Inr

text \<open>What each call does to the files, whether or not a fault is injected.\<close>

definition empty_file :: env_file where
  "empty_file = \<lparr>file_content = [], file_synced = 0\<rparr>"

definition extend_file :: "bytes \<Rightarrow> env_file \<Rightarrow> env_file" where
  "extend_file bs f = f\<lparr>file_content := file_content f @ bs\<rparr>"

definition synced_file :: "env_file \<Rightarrow> env_file" where
  "synced_file f = f\<lparr>file_synced := length (file_content f)\<rparr>"

lemma file_update_sel [simp]:
  "file_content empty_file = []" "file_synced empty_file = 0"
  "file_content (extend_file bs f) = file_content f @ bs"
  "file_synced (extend_file bs f) = file_synced f"
  "file_content (synced_file f) = file_content f"
  "file_synced (synced_file f) = length (file_content f)"
  by (simp_all add: empty_file_def extend_file_def synced_file_def)

lemma extend_file_twice [simp]:
  "map_option (extend_file b) (map_option (extend_file a) x) = map_option (extend_file (a @ b)) x"
  by (cases x) (simp_all add: extend_file_def)

lemmas op_outcome_simps = faultable_def open_writable_def write_all_def sync_all_def
  env_rename_def sync_directory_def open_readable_def metadata_len_def remove_file_def
  empty_file_def [symmetric] extend_file_def [symmetric] synced_file_def [symmetric]

lemma open_writable_create:
  "open_writable p options_create e = (Inr h, e') \<Longrightarrow>
   h = p \<and> env_files e' = (env_files e)(p := Some empty_file)"
  by (auto simp: op_outcome_simps options_create_def split: prod.splits option.splits
      dest!: take_fault_files)

lemma open_writable_append:
  "open_writable p options_append e = (Inr h, e') \<Longrightarrow>
   h = p \<and> env_files e' = (env_files e)(p := Some (case env_files e p of None \<Rightarrow> empty_file | Some f \<Rightarrow> f))"
  by (auto simp: op_outcome_simps options_append_def split: prod.splits option.splits
      dest!: take_fault_files)

lemma open_writable_fail: "open_writable p opts e = (Inl x, e') \<Longrightarrow> env_files e' = env_files e"
  by (auto simp: op_outcome_simps split: prod.splits option.splits if_splits dest!: take_fault_files)

lemma write_all_ok:
  "write_all p bs e = (Inr u, e') \<Longrightarrow>
   env_files e' = (env_files e)(p := map_option (extend_file bs) (env_files e p))"
  by (auto simp: op_outcome_simps split: prod.splits option.splits dest!: take_fault_files)

lemma write_all_fail:
  "write_all p bs e = (Inl x, e') \<Longrightarrow>
   \<exists>k. env_files e' = (env_files e)(p := map_option (extend_file (take k bs)) (env_files e p))"
  by (auto simp: op_outcome_simps split: prod.splits option.splits dest!: take_fault_files)

lemma sync_all_ok:
  "sync_all p e = (Inr u, e') \<Longrightarrow>
   env_files e' = (env_files e)(p := map_option synced_file (env_files e p))"
  by (auto simp: op_outcome_simps split: prod.splits option.splits dest!: take_fault_files)

lemma sync_all_fail: "sync_all p e = (Inl x, e') \<Longrightarrow> env_files e' = env_files e"
  by (auto simp: op_outcome_simps split: prod.splits option.splits dest!: take_fault_files)

lemma env_rename_ok:
  "env_rename from to e = (Inr u, e') \<Longrightarrow>
   env_files e' = (env_files e)(from := None, to := env_files e from)"
  by (auto simp: op_outcome_simps split: prod.splits option.splits dest!: take_fault_files)

lemma env_rename_fail: "env_rename from to e = (Inl x, e') \<Longrightarrow> env_files e' = env_files e"
  by (auto simp: op_outcome_simps split: prod.splits option.splits dest!: take_fault_files)

lemma sync_directory_files: "sync_directory p e = (r, e') \<Longrightarrow> env_files e' = env_files e"
  by (auto simp: op_outcome_simps split: prod.splits option.splits dest!: take_fault_files)

lemmas env_outcomes = open_writable_create open_writable_append open_writable_fail
  write_all_ok write_all_fail sync_all_ok sync_all_fail env_rename_ok env_rename_fail
  sync_directory_files

subsection \<open>File names\<close>

lemma dec_digits_chars: "c \<in> set (dec_digits n) \<Longrightarrow> \<exists>d<10. c = char_of (48 + d :: nat)"
proof (induction n rule: dec_digits.induct)
  case (1 n)
  show ?case
  proof (cases "n < 10")
    case True
    with "1.prems" show ?thesis by (auto simp: dec_digits.simps [of n])
  next
    case False
    then have "c \<in> set (dec_digits (n div 10)) \<or> c = char_of (48 + n mod 10)"
      using "1.prems" by (auto simp: dec_digits.simps [of n])
    moreover have "n mod 10 < 10" by simp
    ultimately show ?thesis using False "1.IH" by blast
  qed
qed

lemma char_digit_char_of [simp]: "d < 10 \<Longrightarrow> char_digit (char_of (48 + d :: nat)) = Some d"
  by (simp add: char_digit_def Let_def of_char_of)

lemma parse_digits_append:
  "parse_digits acc (xs @ ys) = Option.bind (parse_digits acc xs) (\<lambda>a. parse_digits a ys)"
  by (induction acc xs rule: parse_digits.induct) (auto split: option.splits)

lemma parse_dec_digits: "n < 2 ^ 64 \<Longrightarrow> parse_digits 0 (dec_digits n) = Some n"
proof (induction n rule: dec_digits.induct)
  case (1 n)
  show ?case
  proof (cases "n < 10")
    case True
    then show ?thesis by (simp add: dec_digits.simps [of n])
  next
    case False
    moreover from False 1 have "parse_digits 0 (dec_digits (n div 10)) = Some (n div 10)"
      by simp
    moreover have "n div 10 * 10 + n mod 10 = n" by simp
    ultimately show ?thesis
      using "1.prems" by (simp add: dec_digits.simps [of n] parse_digits_append)
  qed
qed

lemma parse_digits_zeros: "parse_digits 0 (replicate k CHR ''0'' @ ds) = parse_digits 0 ds"
proof (induction k)
  case (Suc k)
  have "char_digit CHR ''0'' = Some 0" by code_simp
  with Suc show ?case by simp
qed simp

lemma parse_pad6: "n < 2 ^ 64 \<Longrightarrow> parse_digits 0 (pad6 n) = Some n"
  by (simp add: pad6_def Let_def parse_digits_zeros parse_dec_digits)

lemma pad6_inj: "m < 2 ^ 64 \<Longrightarrow> n < 2 ^ 64 \<Longrightarrow> pad6 m = pad6 n \<longleftrightarrow> m = n"
  by (metis option.inject parse_pad6)

lemma table_file_name_inj [simp]: "table_file_name m = table_file_name n \<longleftrightarrow> m = n"
  by (simp add: table_file_name_def pad6_inj word_unat_eq_iff)

lemma wal_file_name_inj [simp]: "wal_file_name m = wal_file_name n \<longleftrightarrow> m = n"
  by (simp add: wal_file_name_def pad6_inj word_unat_eq_iff)

lemma wal_not_table [simp]: "wal_file_name m \<noteq> table_file_name n" "table_file_name n \<noteq> wal_file_name m"
proof -
  have "last (wal_file_name m) \<noteq> last (table_file_name n)"
    by (simp add: wal_file_name_def table_file_name_def)
  then show "wal_file_name m \<noteq> table_file_name n" "table_file_name n \<noteq> wal_file_name m" by auto
qed

lemma path_join_inj [simp]: "path_join d m = path_join d n \<longleftrightarrow> m = n"
  by (simp add: path_join_def)

lemma pad6_nonempty [simp]: "pad6 n \<noteq> []"
  by (simp add: pad6_def Let_def dec_digits.simps [of n])

lemma pad6_chars: "c \<in> set (pad6 n) \<Longrightarrow> \<exists>d<10. c = char_of (48 + d :: nat)"
proof -
  assume "c \<in> set (pad6 n)"
  then have "c = CHR ''0'' \<or> c \<in> set (dec_digits n)"
    by (auto simp: pad6_def Let_def)
  moreover have "CHR ''0'' = char_of (48 + 0 :: nat)" by code_simp
  ultimately show ?thesis
    using dec_digits_chars by (metis zero_less_numeral)
qed

lemma parse_manifest_file_name: "parse_manifest_number (manifest_file_name n) = Some n"
proof -
  obtain c cs where p: "pad6 (unat n) = c # cs" by (cases "pad6 (unat n)") auto
  have "c \<noteq> CHR ''+''"
  proof
    assume "c = CHR ''+''"
    with p pad6_chars [of c "unat n"] obtain d where "d < 10" "CHR ''+'' = char_of (48 + d :: nat)"
      by auto
    then have "char_digit CHR ''+'' = Some d" by simp
    moreover have "char_digit CHR ''+'' = None" by code_simp
    ultimately show False by simp
  qed
  moreover have "parse_digits 0 (c # cs) = Some (unat n)"
    using parse_pad6 [of "unat n"] by (simp add: p [symmetric] del: parse_digits.simps)
  ultimately show ?thesis
    by (simp add: parse_manifest_number_def manifest_file_name_def strip_prefix_def p
        del: parse_digits.simps)
qed

subsection \<open>CURRENT\<close>

lemma unat_of_char: "unat (of_char c :: u8) = of_char c"
proof -
  have "unat (of_char c :: u8) = unat (of_nat (of_char c) :: u8)"
    by (simp only: of_nat_of_char)
  also have "\<dots> = of_char c mod 2 ^ LENGTH(8)"
    by (simp only: unat_of_nat)
  finally show ?thesis by simp
qed

lemma bytes_string_bytes [simp]: "bytes_string (string_bytes s) = s"
  by (simp add: bytes_string_def string_bytes_def o_def unat_of_char)

definition ascii_line :: "string \<Rightarrow> bool" where
  "ascii_line s \<longleftrightarrow> s \<noteq> [] \<and> list_all (\<lambda>c. 13 < (of_char c :: nat) \<and> of_char c < (128 :: nat)) s"

lemma utf8_valid_ascii: "\<forall>b \<in> set bs. b < 0x80 \<Longrightarrow> utf8_valid bs"
  by (induction bs) auto

lemma ascii_line_utf8: "ascii_line s \<Longrightarrow> utf8_valid (string_bytes (s @ [char_of (10 :: nat)]))"
  by (rule utf8_valid_ascii)
    (auto simp: ascii_line_def string_bytes_def list_all_iff word_less_nat_alt unat_of_char)

lemma trim_ascii_line: "ascii_line s \<Longrightarrow> trim_line_end (s @ [char_of (10 :: nat)]) = s"
proof -
  assume a: "ascii_line s"
  then obtain c cs where "rev s = c # cs" by (cases "rev s") (auto simp: ascii_line_def)
  moreover from this have "c \<in> set s" by (metis list.set_intros(1) set_rev)
  with a have "13 < (of_char c :: nat)" by (simp add: ascii_line_def list_all_iff)
  then have "c \<noteq> char_of (13 :: nat)" "c \<noteq> char_of (10 :: nat)" by auto
  ultimately show ?thesis
    by (simp add: trim_line_end_def rev_swap)
qed

lemma ascii_manifest_name: "ascii_line (manifest_file_name n)"
proof -
  have "list_all (\<lambda>c. 13 < (of_char c :: nat) \<and> of_char c < (128 :: nat)) (pad6 (unat n))"
    by (auto simp: list_all_iff dest!: pad6_chars)
  then show ?thesis
    by (simp add: ascii_line_def manifest_file_name_def)
qed

lemma current_paths [simp]:
  "path_join d ''CURRENT.tmp'' \<noteq> path_join d ''CURRENT''"
  "path_join d ''CURRENT'' \<noteq> path_join d ''CURRENT.tmp''"
  by simp_all

lemma string_bytes_append: "string_bytes (a @ b) = string_bytes a @ string_bytes b"
  by (simp add: string_bytes_def)

text \<open>
  Whatever call of \<open>set_current_with_env\<close> fails, \<^verbatim>\<open>CURRENT\<close> is what it was or
  the complete new line, never a part of it; every other file but the temporary one is
  untouched.
\<close>

lemma set_current_cases:
  assumes "set_current_with_env d name e = (r, e')"
  shows "(env_files e' (path_join d ''CURRENT'') = env_files e (path_join d ''CURRENT'') \<and> r \<noteq> Inr () \<or>
      env_files e' (path_join d ''CURRENT'') =
        Some (synced_file (extend_file (string_bytes (name @ [char_of (10 :: nat)])) empty_file))) \<and>
    (\<forall>p. p \<noteq> path_join d ''CURRENT'' \<longrightarrow> p \<noteq> path_join d ''CURRENT.tmp'' \<longrightarrow> env_files e' p = env_files e p)"
  using assms unfolding set_current_with_env_def Let_def
  by (elim op_thenE)
    (auto dest!: env_outcomes simp: string_bytes_append extend_file_def)

end
