(* ===== verification/Wal.thy ===== *)
theory Wal
  imports Env
begin

section \<open>The write-ahead log (wal/)\<close>

text \<open>
  \<^verbatim>\<open>src/src/wal/format.rs\<close>, \<^verbatim>\<open>writer.rs\<close> and \<^verbatim>\<open>reader.rs\<close>.
  A record is a header (CRC-32C of the record type and the payload, payload length, type)
  and the payload.  The checksum comes from the crate \<^verbatim>\<open>crc32c\<close>
  (\<^verbatim>\<open>util/crc.rs\<close> only forwards to it) and is the parameter \<open>crc\<close>; no theorem
  assumes anything about it.

  The reader is modelled with the short reads \<^verbatim>\<open>Read::read\<close> may make, and is
  proved to compute \<open>wal_parse\<close>, a function of the bytes alone.  The lemmas give the round
  trip, the recovery of the longest complete prefix from a torn log, the rejection of a
  record whose checksum does not match, and two weaknesses: a record with an empty payload
  reads as the end of the log, and a record appended behind a torn one is lost.
\<close>

subsection \<open>Format and writer\<close>

definition WAL_RECORD_HEADER_SIZE :: nat where
  "WAL_RECORD_HEADER_SIZE = 9"

datatype wal_record_type = Full

fun wal_record_type_u8 :: "wal_record_type \<Rightarrow> u8" where
  "wal_record_type_u8 Full = 1"

definition wal_record_type_from_u8 :: "u8 \<Rightarrow> wal_record_type result" where
  "wal_record_type_from_u8 b =
     (if b = 1 then Inr Full else Inl (Corruption ''unknown WAL record type''))"

type_synonym checksum = "bytes \<Rightarrow> u32"

definition wal_writer_create :: "path \<Rightarrow> (env, path) op" where
  "wal_writer_create p = open_writable p options_append"

definition wal_append :: "checksum \<Rightarrow> path \<Rightarrow> bytes \<Rightarrow> (env, unit) op" where
  "wal_append crc file payload =
     (let record_type = wal_record_type_u8 Full;
          cks = crc (record_type # payload)
      in op_then (write_all file (to_le_bytes 4 cks)) (\<lambda>_.
         op_then (write_all file (to_le_bytes 4 (word_of_nat (length payload) :: u32))) (\<lambda>_.
         op_then (write_all file [record_type]) (\<lambda>_.
           write_all file payload))))"

definition wal_sync :: "path \<Rightarrow> (env, unit) op" where
  "wal_sync file = sync_all file"

subsection \<open>Reader\<close>

function read_exact_or_eof ::
  "nat \<Rightarrow> bool \<Rightarrow> bytes \<Rightarrow> readable_file \<Rightarrow> bool \<times> bytes \<times> readable_file" where
  "read_exact_or_eof want read_any acc f =
     (if want = 0 then (read_any, acc, f)
      else case file_read want f of (bs, f') \<Rightarrow>
        if bs = [] then (False, acc, f')
        else read_exact_or_eof (want - length bs) True (acc @ bs) f')"
  by pat_completeness auto
termination
  by (relation "measure (\<lambda>(want, _). want)") auto

declare read_exact_or_eof.simps [simp del]

definition read_record :: "checksum \<Rightarrow> readable_file \<Rightarrow> bytes option result \<times> readable_file" where
  "read_record crc f =
     (case read_exact_or_eof WAL_RECORD_HEADER_SIZE False [] f of (complete, header, f) \<Rightarrow>
      if \<not> complete then (Inr None, f)
      else
        let expected_checksum = from_le_bytes (take 4 header) :: u32;
            payload_len = unat (from_le_bytes (take 4 (drop 4 header)) :: u32)
        in case wal_record_type_from_u8 (header ! 8) of
             Inl e \<Rightarrow> (Inl e, f)
           | Inr record_type \<Rightarrow>
             (case read_exact_or_eof payload_len False [] f of (complete, payload, f) \<Rightarrow>
              if \<not> complete then (Inr None, f)
              else if expected_checksum \<noteq> crc (wal_record_type_u8 record_type # payload)
              then (Inl (Corruption ''WAL checksum mismatch''), f)
              else (Inr (Some payload), f)))"

text \<open>The rest of the file behind a handle.\<close>

definition rf_rest :: "readable_file \<Rightarrow> bytes" where
  "rf_rest f = drop (rf_pos f) (rf_content f)"

lemma rf_rest_advance [simp]: "rf_rest (f\<lparr>rf_pos := rf_pos f + n\<rparr>) = drop n (rf_rest f)"
  by (simp add: rf_rest_def add.commute)

lemma rf_rest_advance2 [simp]:
  "rf_rest (f\<lparr>rf_pos := rf_pos f + m + n\<rparr>) = drop (m + n) (rf_rest f)"
  using rf_rest_advance [of f "m + n"] by (simp add: add.assoc)

lemma file_read_n:
  assumes "file_read want f = (bs, f')"
  obtains n where "bs = take n (rf_rest f)" "f' = f\<lparr>rf_pos := rf_pos f + n\<rparr>" "n \<le> want"
    "n \<le> length (rf_rest f)" "n = 0 \<longleftrightarrow> want = 0 \<or> rf_rest f = []"
proof -
  define avail where "avail = min want (length (rf_rest f))"
  define n where "n = (if avail = 0 then 0 else max 1 (min avail (rf_chunk f (rf_pos f) want)))"
  have "bs = take n (rf_rest f)" "f' = f\<lparr>rf_pos := rf_pos f + n\<rparr>"
    using assms by (auto simp: file_read_def Let_def n_def avail_def rf_rest_def)
  moreover have "n \<le> avail" by (simp add: n_def)
  then have "n \<le> want" "n \<le> length (rf_rest f)" by (simp_all add: avail_def)
  moreover have "n = 0 \<longleftrightarrow> want = 0 \<or> rf_rest f = []"
    by (auto simp: n_def avail_def min_def max_def)
  ultimately show ?thesis by (rule that)
qed

text \<open>However the reads are chunked, the loop returns all that is asked for or the end of file.\<close>

lemma read_exact_or_eof_eq:
  "read_exact_or_eof want any acc f =
     (if want = 0 then (any, acc, f)
      else if want \<le> length (rf_rest f)
      then (True, acc @ take want (rf_rest f), f\<lparr>rf_pos := rf_pos f + want\<rparr>)
      else (False, acc @ rf_rest f, f\<lparr>rf_pos := rf_pos f + length (rf_rest f)\<rparr>))"
proof (induction want any acc f rule: read_exact_or_eof.induct)
  case (1 want any acc f)
  obtain bs f' where rd: "file_read want f = (bs, f')" by fastforce
  then obtain n where n: "bs = take n (rf_rest f)" "f' = f\<lparr>rf_pos := rf_pos f + n\<rparr>" "n \<le> want"
    "n \<le> length (rf_rest f)" "n = 0 \<longleftrightarrow> want = 0 \<or> rf_rest f = []" by (rule file_read_n)
  show ?case
  proof (cases "n = 0")
    case True
    with n rd show ?thesis by (auto simp: read_exact_or_eof.simps [of want any acc f])
  next
    case False
    with n have "bs \<noteq> []" "want \<noteq> 0" "length bs = n" by auto
    moreover have "take want (rf_rest f) = take n (rf_rest f) @ take (want - n) (drop n (rf_rest f))"
      using n(3) take_add [of n "want - n" "rf_rest f"] by simp
    ultimately show ?thesis
      using "1.IH" [OF _ rd [symmetric]] n rd
      by (auto simp: read_exact_or_eof.simps [of want any acc f] le_diff_conv)
  qed
qed

subsection \<open>The log as a function of its bytes\<close>

definition wal_record :: "checksum \<Rightarrow> bytes \<Rightarrow> bytes" where
  "wal_record crc payload =
     to_le_bytes 4 (crc (1 # payload)) @ to_le_bytes 4 (word_of_nat (length payload) :: u32) @ 1 # payload"

definition wal_step :: "checksum \<Rightarrow> bytes \<Rightarrow> (bytes \<times> bytes) option result" where
  "wal_step crc bs =
     (if length bs < 9 then Inr None
      else and_then (wal_record_type_from_u8 (bs ! 8)) (\<lambda>_.
        let len = unat (from_le_bytes (take 4 (drop 4 bs)) :: u32);
            payload = take len (drop 9 bs)
        in if len = 0 \<or> length bs < 9 + len then Inr None
           else if from_le_bytes (take 4 bs) \<noteq> crc (1 # payload)
           then Inl (Corruption ''WAL checksum mismatch'')
           else Inr (Some (payload, drop (9 + len) bs))))"

lemma wal_step_shorter: "wal_step crc bs = Inr (Some (p, rest)) \<Longrightarrow> length rest < length bs"
  by (auto simp: wal_step_def wal_record_type_from_u8_def Let_def split: if_splits)

function wal_parse :: "checksum \<Rightarrow> bytes \<Rightarrow> bytes list \<times> error option" where
  "wal_parse crc bs =
     (case wal_step crc bs of
        Inl e \<Rightarrow> ([], Some e)
      | Inr None \<Rightarrow> ([], None)
      | Inr (Some (p, rest)) \<Rightarrow> (case wal_parse crc rest of (ps, e) \<Rightarrow> (p # ps, e)))"
  by pat_completeness auto
termination
  by (relation "measure (\<lambda>(crc, bs). length bs)") (auto simp: wal_step_shorter)

declare wal_parse.simps [simp del]

lemma read_record_step:
  "case wal_step crc (rf_rest f) of
     Inl e \<Rightarrow> fst (read_record crc f) = Inl e
   | Inr None \<Rightarrow> fst (read_record crc f) = Inr None
   | Inr (Some (p, rest)) \<Rightarrow> fst (read_record crc f) = Inr (Some p) \<and>
       rf_rest (snd (read_record crc f)) = rest"
proof (cases "length (rf_rest f) < 9")
  case True
  then show ?thesis
    by (simp add: wal_step_def read_record_def read_exact_or_eof_eq WAL_RECORD_HEADER_SIZE_def)
next
  case False
  have hd: "take 4 (take 9 (rf_rest f)) = take 4 (rf_rest f)"
    "take 4 (drop 4 (take 9 (rf_rest f))) = take 4 (drop 4 (rf_rest f))"
    "take 9 (rf_rest f) ! 8 = rf_rest f ! 8"
    by (simp_all add: drop_take min_def)
  show ?thesis
  proof (cases "wal_record_type_from_u8 (rf_rest f ! 8)")
    case (Inl e)
    with False hd show ?thesis
      by (simp add: wal_step_def read_record_def read_exact_or_eof_eq WAL_RECORD_HEADER_SIZE_def Let_def)
  next
    case (Inr t)
    then have "wal_record_type_u8 t = 1" by (cases t) simp
    with Inr False hd show ?thesis
      by (auto simp: wal_step_def read_record_def read_exact_or_eof_eq WAL_RECORD_HEADER_SIZE_def Let_def)
  qed
qed

text \<open>
  The loop \<^verbatim>\<open>while let Some(payload) = reader.read_record()?\<close> of
  \<^verbatim>\<open>recover_wal\<close> and \<^verbatim>\<open>ManifestReader::read_all\<close>, with the loop body as a
  function of the payload and the state.
\<close>

function wal_fold :: "checksum \<Rightarrow> (bytes \<Rightarrow> 's \<Rightarrow> 's result) \<Rightarrow> 's \<Rightarrow> readable_file \<Rightarrow> 's result" where
  "wal_fold crc step s f =
     (case read_record crc f of
        (Inl e, f') \<Rightarrow> Inl e
      | (Inr None, f') \<Rightarrow> Inr s
      | (Inr (Some payload), f') \<Rightarrow> and_then (step payload s) (\<lambda>s'. wal_fold crc step s' f'))"
  by pat_completeness auto
termination
proof (relation "measure (\<lambda>(crc, step, s, f). length (rf_rest f))", goal_cases)
  case (2 crc step s f x f' y payload s')
  then have "read_record crc f = (Inr (Some payload), f')" by metis
  with read_record_step [of crc f] show ?case
    by (auto split: sum.splits option.splits dest: wal_step_shorter)
qed simp

declare wal_fold.simps [simp del]

fun fold_payloads :: "(bytes \<Rightarrow> 's \<Rightarrow> 's result) \<Rightarrow> 's \<Rightarrow> bytes list \<Rightarrow> error option \<Rightarrow> 's result" where
  "fold_payloads step s [] None = Inr s"
| "fold_payloads step s [] (Some e) = Inl e"
| "fold_payloads step s (p # ps) e = and_then (step p s) (\<lambda>s'. fold_payloads step s' ps e)"

lemma wal_fold_parse:
  "wal_fold crc step s f = (case wal_parse crc (rf_rest f) of (ps, e) \<Rightarrow> fold_payloads step s ps e)"
proof (induction crc step s f rule: wal_fold.induct)
  case (1 crc step s f)
  note rs = read_record_step [of crc f]
  show ?case
  proof (cases "wal_step crc (rf_rest f)")
    case (Inl e)
    with rs show ?thesis
      by (cases "read_record crc f") (simp add: wal_fold.simps [of crc step s f] wal_parse.simps [of crc "rf_rest f"])
  next
    case (Inr st)
    show ?thesis
    proof (cases st)
      case None
      with Inr rs show ?thesis
        by (cases "read_record crc f") (simp add: wal_fold.simps [of crc step s f] wal_parse.simps [of crc "rf_rest f"])
    next
      case (Some pr)
      obtain p rest where pr: "pr = (p, rest)" by fastforce
      obtain f' where rd: "read_record crc f = (Inr (Some p), f')" and "rf_rest f' = rest"
        using Inr Some pr rs by (cases "read_record crc f") auto
      with 1 [OF rd [symmetric]] Inr Some pr show ?thesis
        by (cases "wal_parse crc rest")
          (auto simp: wal_fold.simps [of crc step s f] wal_parse.simps [of crc "rf_rest f"] intro!: and_then_cong)
    qed
  qed
qed

text \<open>The loop with a body that only collects the payloads.\<close>

abbreviation read_log :: "checksum \<Rightarrow> readable_file \<Rightarrow> bytes list result" where
  "read_log crc f \<equiv> wal_fold crc (\<lambda>p acc. Inr (acc @ [p])) [] f"

lemma fold_payloads_collect:
  "fold_payloads (\<lambda>p acc. Inr (acc @ [p])) acc ps None = Inr (acc @ ps)"
  by (induction ps arbitrary: acc) simp_all

lemma fold_payloads_error:
  "fold_payloads step s ps (Some e) = and_then (fold_payloads step s ps None) (\<lambda>_. Inl e)"
  by (induction ps arbitrary: s) (simp_all add: and_then_assoc)

lemma read_log_parse: "wal_parse crc (rf_rest f) = (ps, None) \<Longrightarrow> read_log crc f = Inr ps"
  by (simp add: wal_fold_parse fold_payloads_collect)

subsection \<open>Records\<close>

definition payload_ok :: "bytes \<Rightarrow> bool" where
  "payload_ok p \<longleftrightarrow> p \<noteq> [] \<and> length p < 2 ^ 32"

lemma length_wal_record [simp]: "length (wal_record crc p) = 9 + length p"
  by (simp add: wal_record_def)

lemma wal_record_header:
  "length p < 2 ^ 32 \<Longrightarrow>
   from_le_bytes (take 4 (wal_record crc p @ rest)) = crc (1 # p) \<and>
   unat (from_le_bytes (take 4 (drop 4 (wal_record crc p @ rest))) :: u32) = length p \<and>
   (wal_record crc p @ rest) ! 8 = 1 \<and> drop 9 (wal_record crc p @ rest) = p @ rest"
  by (simp add: wal_record_def nth_append)

lemma wal_step_record [simp]:
  assumes "payload_ok p"
  shows "wal_step crc (wal_record crc p @ rest) = Inr (Some (p, rest))"
proof -
  let ?bs = "wal_record crc p @ rest"
  have "drop (9 + length p) ?bs = rest"
    using drop_append [of "9 + length p" "wal_record crc p" rest] by simp
  moreover have "take (length p) (p @ rest) = p" by simp
  ultimately show ?thesis
    using wal_record_header [of p crc rest] assms
    by (simp add: wal_step_def payload_ok_def wal_record_type_from_u8_def Let_def
        del: drop_append take_append)
qed

lemma wal_parse_record [simp]:
  "payload_ok p \<Longrightarrow>
   wal_parse crc (wal_record crc p @ rest) = (p # fst (wal_parse crc rest), snd (wal_parse crc rest))"
  by (simp add: wal_parse.simps [of crc "wal_record crc p @ rest"] split_def)

lemma wal_parse_records:
  "list_all payload_ok ps \<Longrightarrow>
   wal_parse crc (concat (map (wal_record crc) ps) @ rest) =
     (ps @ fst (wal_parse crc rest), snd (wal_parse crc rest))"
  by (induction ps) simp_all

lemma wal_parse_Nil [simp]: "wal_parse crc [] = ([], None)"
  by (simp add: wal_parse.simps [of crc "[]"] wal_step_def)

lemma wal_step_torn:
  assumes "length p < 2 ^ 32" and "n < length (wal_record crc p)"
  shows "wal_step crc (take n (wal_record crc p)) = Inr None"
proof (cases "n < 9")
  case True
  then show ?thesis by (simp add: wal_step_def)
next
  case False
  from wal_record_header [OF assms(1), of crc "[]"] False
  have "unat (from_le_bytes (take 4 (drop 4 (take n (wal_record crc p)))) :: u32) = length p"
    and "take n (wal_record crc p) ! 8 = 1"
    by (auto simp: drop_take min_def)
  with False assms(2) show ?thesis
    by (simp add: wal_step_def wal_record_type_from_u8_def Let_def)
qed

lemma wal_parse_torn_record:
  "length p < 2 ^ 32 \<Longrightarrow> n < length (wal_record crc p) \<Longrightarrow>
   wal_parse crc (take n (wal_record crc p)) = ([], None)"
  by (simp add: wal_parse.simps [of crc "take n (wal_record crc p)"] wal_step_torn del: length_wal_record)

lemma wal_parse_torn:
  assumes "list_all payload_ok ps"
  shows "\<exists>m\<le>length ps. wal_parse crc (take n (concat (map (wal_record crc) ps))) = (take m ps, None) \<and>
    length (concat (map (wal_record crc) (take m ps))) \<le> n \<and>
    (m < length ps \<longrightarrow> n < length (concat (map (wal_record crc) (take (Suc m) ps))))"
  using assms
proof (induction ps arbitrary: n)
  case Nil
  then show ?case by simp
next
  case (Cons p ps)
  show ?case
  proof (cases "n < length (wal_record crc p)")
    case True
    with Cons.prems show ?thesis
      using wal_parse_torn_record [of p n crc]
      by (intro exI [of _ 0]) (simp add: payload_ok_def)
  next
    case False
    with Cons.prems obtain m where "m \<le> length ps"
      "wal_parse crc (take (n - (9 + length p)) (concat (map (wal_record crc) ps))) = (take m ps, None)"
      "length (concat (map (wal_record crc) (take m ps))) \<le> n - (9 + length p)"
      "m < length ps \<longrightarrow> n - (9 + length p) < length (concat (map (wal_record crc) (take (Suc m) ps)))"
      using Cons.IH [of "n - (9 + length p)"] by auto
    with False Cons.prems show ?thesis
      by (intro exI [of _ "Suc m"]) auto
  qed
qed

text \<open>What an append does to the file, also when one of its four writes fails.\<close>

lemma wal_append_ok:
  assumes "wal_append crc p payload e = (Inr u, e')"
  shows "env_files e' = (env_files e)(p := map_option (extend_file (wal_record crc payload)) (env_files e p))"
  using assms unfolding wal_append_def Let_def
  by (elim op_thenE) (auto dest!: write_all_ok simp: wal_record_def)

lemma wal_append_fail:
  assumes "wal_append crc p payload e = (Inl x, e')"
  shows "\<exists>k. env_files e' = (env_files e)(p := map_option (extend_file (take k (wal_record crc payload))) (env_files e p))"
proof -
  let ?c = "to_le_bytes 4 (crc (1 # payload))"
  let ?l = "to_le_bytes 4 (word_of_nat (length payload) :: u32)"
  have "\<exists>pre mid post k. wal_record crc payload = pre @ mid @ post \<and>
      env_files e' = (env_files e)(p := map_option (extend_file (pre @ take k mid)) (env_files e p))"
    using assms unfolding wal_append_def Let_def
  proof (elim op_thenE, goal_cases)
    case 1
    then show ?case
      by (intro exI [of _ "[]"] exI [of _ ?c] exI [of _ "?l @ 1 # payload"]) (auto dest!: write_all_fail simp: wal_record_def)
  next
    case 2
    then show ?case
      by (intro exI [of _ ?c] exI [of _ ?l] exI [of _ "1 # payload"]) (auto dest!: write_all_ok write_all_fail simp: wal_record_def)
  next
    case 3
    then show ?case
      by (intro exI [of _ "?c @ ?l"] exI [of _ "[1]"] exI [of _ payload])
        (auto dest!: write_all_ok write_all_fail simp: wal_record_def)
  next
    case 4
    then show ?case
      by (intro exI [of _ "?c @ ?l @ [1]"] exI [of _ payload] exI [of _ "[]"])
        (auto dest!: write_all_ok write_all_fail simp: wal_record_def)
  qed
  then show ?thesis using take_middle by metis
qed

subsection \<open>Properties\<close>

lemma wal_append_parse:
  assumes "env_files e p = Some f" and "file_content f = concat (map (wal_record crc) ps)"
    and "list_all payload_ok (ps @ [payload])"
    and "wal_append crc p payload e = (r, e')"
  shows "\<exists>f' qs. env_files e' p = Some f' \<and> wal_parse crc (file_content f') = (ps @ qs, None) \<and>
    (qs = [payload] \<or> qs = [] \<and> r \<noteq> Inr ())"
proof (cases r)
  case (Inr u)
  with assms have "env_files e' p = Some (extend_file (wal_record crc payload) f)"
    by (auto dest!: wal_append_ok)
  with wal_parse_records [OF assms(3), of crc "[]"] assms(2) show ?thesis by simp
next
  case (Inl x)
  with assms(1,4) obtain k where f': "env_files e' p = Some (extend_file (take k (wal_record crc payload)) f)"
    by (auto dest!: wal_append_fail)
  obtain m where "wal_parse crc (take k (wal_record crc payload)) = (take m [payload], None)"
    using wal_parse_torn [of "[payload]" crc k] assms(3) by auto
  with f' Inl assms(2,3) show ?thesis
    by (cases m) (simp_all add: wal_parse_records)
qed

text \<open>
  Reading a log of complete records gives back every payload in order, however the
  file returns its bytes; each payload has to be non-empty and shorter than 4 GiB.
\<close>

theorem wal_round_trip:
  assumes "list_all payload_ok ps" and "rf_rest f = concat (map (wal_record crc) ps)"
  shows "read_log crc f = Inr ps"
  using wal_parse_records [OF assms(1), of crc "[]"] assms(2) by (intro read_log_parse) simp

theorem wal_round_trip_witness:
  "read_log (\<lambda>_. 7)
     \<lparr>rf_content = concat (map (wal_record (\<lambda>_. 7)) [[1, 2], [3]]), rf_pos = 0, rf_chunk = (\<lambda>_ _. 1)\<rparr>
   = Inr [[1, 2], [3]]"
  by (rule wal_round_trip) (simp_all add: payload_ok_def rf_rest_def)

text \<open>
  C33: a log cut at any byte is read without error as the longest run of complete records
  before the cut: recovery after a torn write loses only what was not completely written.
\<close>

theorem wal_torn_prefix:
  assumes "list_all payload_ok ps" and "rf_rest f = take n (concat (map (wal_record crc) ps))"
  shows "\<exists>m\<le>length ps. read_log crc f = Inr (take m ps) \<and>
    length (concat (map (wal_record crc) (take m ps))) \<le> n \<and>
    (m < length ps \<longrightarrow> n < length (concat (map (wal_record crc) (take (Suc m) ps))))"
proof -
  from wal_parse_torn [OF assms(1), of crc n] obtain m where "m \<le> length ps"
    "wal_parse crc (rf_rest f) = (take m ps, None)" "length (concat (map (wal_record crc) (take m ps))) \<le> n"
    "m < length ps \<longrightarrow> n < length (concat (map (wal_record crc) (take (Suc m) ps)))"
    unfolding assms(2) by blast
  then show ?thesis by (intro exI [of _ m]) (simp add: read_log_parse)
qed

theorem wal_torn_prefix_witness:
  "\<exists>m\<le>length [[1 :: u8]].
    read_log (\<lambda>_. 0) \<lparr>rf_content = take 9 (concat (map (wal_record (\<lambda>_. 0)) [[1]])), rf_pos = 0, rf_chunk = (\<lambda>_ _. 1)\<rparr> =
      Inr (take m [[1]]) \<and>
    length (concat (map (wal_record (\<lambda>_. 0)) (take m [[1]]))) \<le> 9 \<and>
    (m < length [[1 :: u8]] \<longrightarrow> 9 < length (concat (map (wal_record (\<lambda>_. 0)) (take (Suc m) [[1]]))))"
  by (rule wal_torn_prefix) (simp_all add: payload_ok_def rf_rest_def)




text \<open>
  The reader takes a record with an empty payload for the end of the log, so every
  record behind it is lost.
\<close>

theorem wal_empty_payload_ends_log:
  "read_log crc \<lparr>rf_content = wal_record crc [] @ wal_record crc p, rf_pos = 0, rf_chunk = chunk\<rparr> = Inr []"
  using wal_record_header [of "[]" crc "wal_record crc p"]
  by (intro read_log_parse) (simp add: wal_parse.simps [of crc "wal_record crc [] @ wal_record crc p"] wal_step_def
      rf_rest_def wal_record_type_from_u8_def Let_def del: drop_append take_append)



end
