(* ===== verification/Bloom.thy ===== *)
theory Bloom
  imports Coding
begin

unbundle bit_operations_syntax

section \<open>Bloom filters (util/bloom.rs, table/filter.rs)\<close>

text \<open>
  The Bloom filter every table carries in its properties block: its hash, the builder, the
  decoder, the membership test, and \<^verbatim>\<open>TableFilter\<close> on top of it.  Hash arithmetic
  is on 32-bit words as in the code.  The membership test indexes the decoded bit array
  without a check of its own, so it can panic on a filter whose bit count is too large;
  the model returns \<open>Panic\<close> there, and the theorem shows that a filter the builder wrote
  neither panics nor denies a key it was built from.
\<close>

subsection \<open>Definitions\<close>

definition DEFAULT_BITS_PER_KEY :: nat where
  "DEFAULT_BITS_PER_KEY = 10"

record bloom_filter =
  bf_bits :: bytes
  bf_bit_len :: nat
  bf_probes :: u32

definition bloom_hash :: "bytes \<Rightarrow> u32" where
  "bloom_hash key = fold (\<lambda>byte hash. (hash XOR ucast byte) * 16777619) key 2166136261"

definition bloom_from_bytes :: "bytes \<Rightarrow> bloom_filter option" where
  "bloom_from_bytes bs =
     (if bs = [] then None
      else case get_var_u32 (butlast bs) of
        Inl e \<Rightarrow> None
      | Inr (bit_len, src) \<Rightarrow>
          Some \<lparr>bf_bits = src, bf_bit_len = unat bit_len, bf_probes = max (ucast (last bs)) 1\<rparr>)"

definition bloom_bit_pos :: "u32 \<Rightarrow> nat \<Rightarrow> u32 \<Rightarrow> nat" where
  "bloom_bit_pos hash bit_len probe = unat (hash + probe * word_rotr 17 hash) mod bit_len"

fun probe_loop :: "bloom_filter \<Rightarrow> u32 \<Rightarrow> u32 list \<Rightarrow> bool result" where
  "probe_loop f hash [] = Inr True"
| "probe_loop f hash (probe # probes) =
     (let bit_pos = bloom_bit_pos hash (bf_bit_len f) probe in
      if bit_pos div 8 \<ge> length (bf_bits f) then Inl (Panic ''index out of bounds'')
      else if (bf_bits f ! (bit_pos div 8)) AND push_bit (bit_pos mod 8) 1 = 0 then Inr False
      else probe_loop f hash probes)"

definition bloom_may_contain :: "bloom_filter \<Rightarrow> bytes \<Rightarrow> bool result" where
  "bloom_may_contain f key =
     (if bf_bit_len f = 0 then Inr True
      else probe_loop f (bloom_hash key) (map word_of_nat [0..<unat (bf_probes f)]))"

definition bloom_probes :: nat where
  \<comment> \<open>\<^verbatim>\<open>((10 as f64) * 0.69).round() as u32\<close>, clamped to 1..30\<close>
  "bloom_probes = min (max 7 1) 30"

definition set_bit_at :: "nat \<Rightarrow> bytes \<Rightarrow> bytes" where
  "set_bit_at bit_pos bits =
     bits[bit_pos div 8 := (bits ! (bit_pos div 8)) OR push_bit (bit_pos mod 8) 1]"

definition bloom_add_key :: "nat \<Rightarrow> bytes \<Rightarrow> bytes \<Rightarrow> bytes" where
  "bloom_add_key bit_len key bits =
     (let hash = bloom_hash key in
      fold (\<lambda>probe. set_bit_at (bloom_bit_pos hash bit_len probe)) (map word_of_nat [0..<bloom_probes]) bits)"

definition build_bloom_filter :: "bytes list \<Rightarrow> bytes" where
  "build_bloom_filter keys =
     (if keys = [] then []
      else
        let bit_len = max (length keys * DEFAULT_BITS_PER_KEY) 64;
            byte_len = (bit_len + 7) div 8;
            bits = fold (bloom_add_key bit_len) keys (replicate byte_len 0)
        in put_var_u32 [] (word_of_nat bit_len) @ bits @ [word_of_nat bloom_probes])"

type_synonym table_filter = "bloom_filter option"

definition filter_from_keys :: "bytes list \<Rightarrow> bytes" where
  "filter_from_keys keys = build_bloom_filter keys"

definition filter_decode :: "bytes \<Rightarrow> table_filter" where
  "filter_decode bs = bloom_from_bytes bs"

definition filter_may_contain :: "table_filter \<Rightarrow> bytes \<Rightarrow> bool result" where
  "filter_may_contain tf key = (case tf of None \<Rightarrow> Inr True | Some f \<Rightarrow> bloom_may_contain f key)"

subsection \<open>Bits\<close>

definition bit_at :: "bytes \<Rightarrow> nat \<Rightarrow> bool" where
  "bit_at bits p \<longleftrightarrow> p div 8 < length bits \<and> bit (bits ! (p div 8)) (p mod 8)"

lemma test_bit_u8: "i < 8 \<Longrightarrow> (b :: u8) AND 2 ^ i = 0 \<longleftrightarrow> \<not> bit b i"
  by (simp add: bit_iff_and_push_bit_not_eq_0)

lemma length_set_bit_at [simp]: "length (set_bit_at p bits) = length bits"
  by (simp add: set_bit_at_def)

lemma bit_at_set_bit_at:
  assumes "p div 8 < length bits"
  shows "bit_at (set_bit_at p bits) q \<longleftrightarrow> q = p \<or> bit_at bits q"
proof (cases "q div 8 = p div 8")
  case True
  then have "q mod 8 = p mod 8 \<longleftrightarrow> q = p" by (metis div_mult_mod_eq)
  moreover have "bit (b OR push_bit i (1 :: u8)) j \<longleftrightarrow> bit b j \<or> j = i" if "i < 8" for b i j
    using that by (auto simp: bit_or_iff bit_exp_iff)
  ultimately show ?thesis
    using assms True by (auto simp: bit_at_def set_bit_at_def)
qed (auto simp: bit_at_def set_bit_at_def)

lemma length_fold_set_bit_at [simp]:
  "length (fold (\<lambda>x. set_bit_at (f x)) xs bits) = length bits"
  by (induction xs arbitrary: bits) simp_all

lemma bit_at_fold_set_bit_at:
  "\<forall>x. f x div 8 < length bits \<Longrightarrow>
   bit_at (fold (\<lambda>x. set_bit_at (f x)) xs bits) q \<longleftrightarrow> q \<in> f ` set xs \<or> bit_at bits q"
  by (induction xs arbitrary: bits) (auto simp: bit_at_set_bit_at)

lemma bloom_bit_pos_less:
  assumes "0 < bit_len" and "bit_len \<le> 8 * n"
  shows "bloom_bit_pos h bit_len probe div 8 < n"
proof -
  have "bloom_bit_pos h bit_len probe < bit_len"
    using assms(1) by (simp add: bloom_bit_pos_def)
  with assms(2) show ?thesis by linarith
qed

text \<open>Evaluated on integers, which have a binary representation.\<close>

lemma bloom_bit_pos_code [code]:
  "bloom_bit_pos h n p = nat (uint (h + p * word_rotr 17 h) mod int n)"
  by (simp add: bloom_bit_pos_def nat_mod_distrib nat_uint_eq)

lemma length_bloom_add_key [simp]: "length (bloom_add_key bit_len key bits) = length bits"
  by (simp add: bloom_add_key_def Let_def)

lemma length_fold_bloom_add_key [simp]:
  "length (fold (bloom_add_key bit_len) keys bits) = length bits"
  by (induction keys arbitrary: bits) simp_all

lemma bit_at_bloom_add_keys:
  assumes "0 < bit_len" and "bit_len \<le> 8 * length bits"
  shows "bit_at (fold (bloom_add_key bit_len) keys bits) q \<longleftrightarrow>
    (\<exists>key\<in>set keys. \<exists>probe\<in>set (map word_of_nat [0..<bloom_probes]).
       q = bloom_bit_pos (bloom_hash key) bit_len probe) \<or> bit_at bits q"
  using assms(2)
proof (induction keys arbitrary: bits)
  case (Cons key keys)
  have "\<forall>x. bloom_bit_pos (bloom_hash key) bit_len x div 8 < length bits"
    using bloom_bit_pos_less assms(1) Cons.prems by blast
  from bit_at_fold_set_bit_at [OF this, of "map word_of_nat [0..<bloom_probes]" q] Cons
  show ?case by (auto simp: bloom_add_key_def Let_def)
qed simp

lemma probe_loop_True:
  "\<forall>probe\<in>set probes. bit_at (bf_bits f) (bloom_bit_pos hash (bf_bit_len f) probe) \<Longrightarrow>
   probe_loop f hash probes = Inr True"
  by (induction probes) (simp_all add: bit_at_def test_bit_u8 Let_def)

text \<open>The test of a well-formed filter always answers.\<close>

lemma probe_loop_total:
  "0 < bf_bit_len f \<Longrightarrow> bf_bit_len f \<le> 8 * length (bf_bits f) \<Longrightarrow> \<exists>b. probe_loop f hash probes = Inr b"
  using bloom_bit_pos_less [of "bf_bit_len f" "length (bf_bits f)" hash]
  by (induction probes) (auto simp: Let_def not_le)

lemma from_bytes_build:
  assumes "keys \<noteq> []" and "length keys * DEFAULT_BITS_PER_KEY < 2 ^ 32"
  shows "bloom_from_bytes (build_bloom_filter keys) =
    Some \<lparr>bf_bits = fold (bloom_add_key (max (length keys * DEFAULT_BITS_PER_KEY) 64)) keys
            (replicate ((max (length keys * DEFAULT_BITS_PER_KEY) 64 + 7) div 8) 0),
          bf_bit_len = max (length keys * DEFAULT_BITS_PER_KEY) 64, bf_probes = 7\<rparr>"
  using assms
  by (simp add: build_bloom_filter_def bloom_from_bytes_def Let_def get_put_var_u32 butlast_append
      bloom_probes_def max_def word_le_nat_alt)

lemma filter_total:
  assumes "length keys * DEFAULT_BITS_PER_KEY < 2 ^ 32"
  shows "\<exists>b. filter_may_contain (filter_decode (filter_from_keys keys)) key = Inr b"
proof (cases "keys = []")
  case True
  then show ?thesis
    by (auto simp: filter_may_contain_def filter_decode_def filter_from_keys_def build_bloom_filter_def
        bloom_from_bytes_def)
next
  case False
  let ?n = "max (length keys * DEFAULT_BITS_PER_KEY) 64"
  have "?n \<le> 8 * ((?n + 7) div 8)" by linarith
  then show ?thesis
    using False assms probe_loop_total
    by (simp add: filter_may_contain_def filter_decode_def filter_from_keys_def from_bytes_build
        bloom_may_contain_def)
qed

lemma filter_member:
  assumes "key \<in> set keys" and "length keys * DEFAULT_BITS_PER_KEY < 2 ^ 32"
  shows "filter_may_contain (filter_decode (filter_from_keys keys)) key = Inr True"
proof -
  from assms(1) have "keys \<noteq> []" by auto
  let ?n = "max (length keys * DEFAULT_BITS_PER_KEY) 64"
  let ?bits = "fold (bloom_add_key ?n) keys (replicate ((?n + 7) div 8) 0)"
  have "0 < ?n" by simp
  moreover have "?n \<le> 8 * length (replicate ((?n + 7) div 8) (0 :: u8))"
    unfolding length_replicate by linarith
  ultimately have bit: "bit_at ?bits q \<longleftrightarrow> (\<exists>key\<in>set keys. \<exists>probe\<in>set (map word_of_nat [0..<bloom_probes]).
      q = bloom_bit_pos (bloom_hash key) ?n probe) \<or> bit_at (replicate ((?n + 7) div 8) 0) q" for q
    by (rule bit_at_bloom_add_keys)
  have "probe_loop \<lparr>bf_bits = ?bits, bf_bit_len = ?n, bf_probes = 7\<rparr> (bloom_hash key)
      (map word_of_nat [0..<7]) = Inr True"
    by (rule probe_loop_True) (use assms(1) bit in \<open>auto simp: bloom_probes_def\<close>)
  then show ?thesis
    using assms(2) \<open>keys \<noteq> []\<close>
    by (simp add: filter_may_contain_def filter_decode_def filter_from_keys_def from_bytes_build
        bloom_may_contain_def)
qed

text \<open>
  C36: the filter a table is written with never denies a key of the table: for every key it
  was built from, decoding the filter and testing the key answers True and never indexes
  outside the bit array.  An empty filter admits every key.
\<close>

theorem bloom_no_false_negative:
  assumes "key \<in> set keys" and "length keys * DEFAULT_BITS_PER_KEY < 2 ^ 32"
  shows "filter_may_contain (filter_decode (filter_from_keys keys)) key = Inr True \<and>
    filter_may_contain (filter_decode (filter_from_keys [])) key = Inr True"
  using filter_member [OF assms]
  by (simp add: filter_may_contain_def filter_decode_def filter_from_keys_def build_bloom_filter_def
      bloom_from_bytes_def)

theorem bloom_no_false_negative_witness:
  "filter_may_contain (filter_decode (filter_from_keys [[1], [2, 3]])) [2, 3] = Inr True"
  using bloom_no_false_negative [of "[2, 3]" "[[1], [2, 3]]"] by (simp add: DEFAULT_BITS_PER_KEY_def)

end
