(* ===== verification/Table_Format.thy ===== *)
theory Table_Format
  imports Coding Keys
begin

section \<open>The format of tables (table/format.rs, table/properties.rs)\<close>

text \<open>
  \<^verbatim>\<open>src/src/table/format.rs\<close>, \<^verbatim>\<open>properties.rs\<close> and the index codec of
  \<^verbatim>\<open>builder.rs\<close> and \<^verbatim>\<open>reader.rs\<close>: block handles, internal keys, the
  footer, the properties block and the index block.  Each encoder and decoder pair is an
  instance of the codec contract on the values whose lengths fit 32 bits.
\<close>

subsection \<open>Definitions\<close>

definition TABLE_MAGIC :: u64 where
  "TABLE_MAGIC = 0x54594c534d444201"

definition FOOTER_SIZE :: nat where
  "FOOTER_SIZE = 40"

definition BLOCK_TRAILER_SIZE :: nat where
  "BLOCK_TRAILER_SIZE = 5"

datatype compression_type = NoCompression | Zstd

fun compression_u8 :: "compression_type \<Rightarrow> u8" where
  "compression_u8 NoCompression = 0"
| "compression_u8 Zstd = 1"

definition compression_from_u8 :: "u8 \<Rightarrow> compression_type result" where
  "compression_from_u8 v =
     (if v = 0 then Inr NoCompression
      else if v = 1 then Inr Zstd
      else Inl (Corruption ''unknown block compression type''))"

record block_handle =
  bh_offset :: u64
  bh_size :: u64

definition encode_fixed :: "block_handle \<Rightarrow> bytes \<Rightarrow> bytes" where
  "encode_fixed h dst = dst @ to_le_bytes 8 (bh_offset h) @ to_le_bytes 8 (bh_size h)"

definition decode_fixed :: "bytes \<Rightarrow> block_handle result" where
  "decode_fixed src =
     (if length src \<noteq> 16 then Inl (Corruption ''invalid block handle length'')
      else Inr \<lparr>bh_offset = from_le_bytes (take 8 src), bh_size = from_le_bytes (take 8 (drop 8 src))\<rparr>)"

definition encode_internal_key :: "internal_key \<Rightarrow> bytes \<Rightarrow> bytes" where
  "encode_internal_key key dst =
     put_var_u64 (put_var_u32 dst (len_u32 (user_key key)) @ user_key key) (sequence key)
       @ [value_type_u8 (value_type key)]"

definition decode_value_type :: "u8 \<Rightarrow> value_type result" where
  "decode_value_type v =
     (if v = 1 then Inr TypePut
      else if v = 2 then Inr TypeDelete
      else Inl (Corruption ''unknown value type''))"

definition decode_internal_key :: "internal_key decoder" where
  "decode_internal_key src =
     and_then (get_var_u32 src) (\<lambda>(key_len, src).
     and_then (take_bytes (unat key_len) src) (\<lambda>(user_key, src).
     and_then (get_var_u64 src) (\<lambda>(sequence, src).
     and_then (take_bytes 1 src) (\<lambda>(tb, src).
     case tb of [] \<Rightarrow> Inl (Panic ''value type'') | vt # _ \<Rightarrow>
     and_then (decode_value_type vt) (\<lambda>value_type.
       Inr (InternalKey user_key sequence value_type, src))))))"

definition encode_footer :: "block_handle \<Rightarrow> block_handle \<Rightarrow> bytes" where
  "encode_footer properties index =
     encode_fixed index (encode_fixed properties []) @ to_le_bytes 8 TABLE_MAGIC"

definition decode_footer :: "bytes \<Rightarrow> (block_handle \<times> block_handle) result" where
  "decode_footer src =
     (if length src \<noteq> FOOTER_SIZE then Inl (Corruption ''invalid table footer length'')
      else
        and_then (decode_fixed (take 16 src)) (\<lambda>properties.
        and_then (decode_fixed (take 16 (drop 16 src))) (\<lambda>index.
          if (from_le_bytes (take 8 (drop 32 src)) :: u64) \<noteq> TABLE_MAGIC
          then Inl (Corruption ''invalid table magic'')
          else Inr (properties, index))))"

record table_properties =
  num_entries :: u64
  smallest_key :: "internal_key option"
  largest_key :: "internal_key option"
  filter_bytes :: bytes

fun encode_optional_key :: "internal_key option \<Rightarrow> bytes \<Rightarrow> bytes" where
  "encode_optional_key (Some key) dst = encode_internal_key key (dst @ [1])"
| "encode_optional_key None dst = dst @ [0]"

fun decode_optional_key :: "internal_key option decoder" where
  "decode_optional_key [] = Inr (None, [])"
| "decode_optional_key (tag # src) =
     (if tag = 0 then Inr (None, src)
      else and_then (decode_internal_key src) (\<lambda>(key, src). Inr (Some key, src)))"

definition properties_encode :: "table_properties \<Rightarrow> bytes" where
  "properties_encode p =
     (let dst = put_var_u64 [] (num_entries p);
          dst = encode_optional_key (smallest_key p) dst;
          dst = encode_optional_key (largest_key p) dst
      in put_var_u32 dst (len_u32 (filter_bytes p)) @ filter_bytes p)"

definition properties_decode :: "bytes \<Rightarrow> table_properties result" where
  "properties_decode bs =
     and_then (get_var_u64 bs) (\<lambda>(n, src).
     and_then (decode_optional_key src) (\<lambda>(smallest, src).
     and_then (decode_optional_key src) (\<lambda>(largest, src).
     and_then (if src = [] then Inr []
               else and_then (get_var_u32 src) (\<lambda>(filter_len, src).
                    and_then (take_bytes (unat filter_len) src) (\<lambda>(filter, src). Inr filter))) (\<lambda>filter.
       Inr \<lparr>num_entries = n, smallest_key = smallest, largest_key = largest, filter_bytes = filter\<rparr>))))"

record index_entry =
  first_key :: internal_key
  last_key :: internal_key
  ie_handle :: block_handle

definition encode_index_entry :: "bytes \<Rightarrow> index_entry \<Rightarrow> bytes" where
  "encode_index_entry dst entry =
     (let dst = encode_internal_key (first_key entry) dst;
          dst = encode_internal_key (last_key entry) dst
      in put_var_u64 (put_var_u64 dst (bh_offset (ie_handle entry))) (bh_size (ie_handle entry)))"

definition encode_index_entries :: "index_entry list \<Rightarrow> bytes" where
  "encode_index_entries entries =
     foldl encode_index_entry (put_var_u32 [] (word_of_nat (length entries))) entries"

definition decode_index_entry :: "index_entry decoder" where
  "decode_index_entry src =
     and_then (decode_internal_key src) (\<lambda>(fk, src).
     and_then (decode_internal_key src) (\<lambda>(lk, src).
     and_then (get_var_u64 src) (\<lambda>(offset, src).
     and_then (get_var_u64 src) (\<lambda>(size, src).
       Inr (\<lparr>first_key = fk, last_key = lk, ie_handle = \<lparr>bh_offset = offset, bh_size = size\<rparr>\<rparr>, src)))))"

definition decode_index_entries :: "bytes \<Rightarrow> index_entry list result" where
  "decode_index_entries bs =
     and_then (get_var_u32 bs) (\<lambda>(count, src).
     and_then (decode_count decode_index_entry (unat count) src) (\<lambda>(entries, src).
       if src \<noteq> [] then Inl (Corruption ''trailing index bytes'') else Inr entries))"

subsection \<open>Values that can be encoded\<close>

definition key_encodable :: "internal_key \<Rightarrow> bool" where
  "key_encodable ik \<longleftrightarrow> length (user_key ik) < 2 ^ 32"

definition index_encodable :: "index_entry \<Rightarrow> bool" where
  "index_encodable e \<longleftrightarrow> key_encodable (first_key e) \<and> key_encodable (last_key e)"

definition properties_encodable :: "table_properties \<Rightarrow> bool" where
  "properties_encodable p \<longleftrightarrow>
     pred_option key_encodable (smallest_key p) \<and> pred_option key_encodable (largest_key p) \<and>
     length (filter_bytes p) < 2 ^ 32"

subsection \<open>Codecs\<close>

lemma encode_internal_key_append:
  "NO_MATCH [] dst \<Longrightarrow> encode_internal_key k dst = dst @ encode_internal_key k []"
  by (simp add: encode_internal_key_def put_var_append)

lemma encode_optional_key_append:
  "NO_MATCH [] dst \<Longrightarrow> encode_optional_key ko dst = dst @ encode_optional_key ko []"
  by (cases ko) (simp_all add: encode_internal_key_append)

lemma encode_index_entry_append:
  "encode_index_entry dst e = dst @ encode_index_entry [] e"
  by (simp add: encode_index_entry_def Let_def encode_internal_key_append put_var_append)

lemma decode_value_type_u8 [simp]: "decode_value_type (value_type_u8 t) = Inr t"
  by (cases t) (simp_all add: decode_value_type_def)

interpretation internal_key: codec "\<lambda>k. encode_internal_key k []" decode_internal_key key_encodable
  by unfold_locales
    (simp add: encode_internal_key_def decode_internal_key_def put_var_append codec_simps key_encodable_def)

interpretation optional_key: codec "\<lambda>k. encode_optional_key k []" decode_optional_key "pred_option key_encodable"
proof
  fix ko rest assume "pred_option key_encodable ko"
  then show "decode_optional_key (encode_optional_key ko [] @ rest) = Inr (ko, rest)"
    by (cases ko) (simp_all add: encode_internal_key_append internal_key.round_trip)
qed

interpretation index_entry: codec "encode_index_entry []" decode_index_entry index_encodable
  by unfold_locales
    (simp add: encode_index_entry_def decode_index_entry_def Let_def encode_internal_key_append put_var_append
      internal_key.round_trip codec_simps index_encodable_def)

lemma encode_index_entries_eq:
  "encode_index_entries es = put_var_u32 [] (word_of_nat (length es)) @ concat (map (encode_index_entry []) es)"
proof -
  have "foldl encode_index_entry dst es = dst @ concat (map (encode_index_entry []) es)" for dst
  proof (induction es arbitrary: dst)
    case (Cons e es)
    then show ?case by (simp add: encode_index_entry_append [of dst e])
  qed simp
  then show ?thesis by (simp add: encode_index_entries_def)
qed

lemma decode_encode_index [codec_simps]:
  "length es < 2 ^ 32 \<Longrightarrow> list_all index_encodable es \<Longrightarrow>
   decode_index_entries (encode_index_entries es) = Inr es"
  using index_entry.decode_count_concat [of es "[]"]
  by (simp add: decode_index_entries_def encode_index_entries_eq codec_simps)

lemma decode_encode_properties [codec_simps]:
  "properties_encodable p \<Longrightarrow> properties_decode (properties_encode p) = Inr p"
  by (simp add: properties_encode_def properties_decode_def Let_def put_var_append codec_simps
      encode_optional_key_append optional_key.round_trip properties_encodable_def
      take_bytes_append [where rest = "[]", simplified])

lemma length_encode_footer [simp]: "length (encode_footer p i) = FOOTER_SIZE"
  by (simp add: encode_footer_def encode_fixed_def FOOTER_SIZE_def)

lemma decode_encode_footer [codec_simps]: "decode_footer (encode_footer p i) = Inr (p, i)"
  by (simp add: decode_footer_def) (simp add: encode_footer_def encode_fixed_def decode_fixed_def)

lemma compression_from_to_u8 [simp]: "compression_from_u8 (compression_u8 c) = Inr c"
  by (cases c) (simp_all add: compression_from_u8_def)

text \<open>
  The fixed and the variable part of a table's metadata survive a round trip: the footer
  for every pair of handles, and the properties block and the index block for every value
  whose lengths fit 32 bits.
\<close>

theorem table_metadata_round_trip:
  assumes "properties_encodable p" and "length es < 2 ^ 32" and "list_all index_encodable es"
  shows "decode_footer (encode_footer h i) = Inr (h, i) \<and>
    properties_decode (properties_encode p) = Inr p \<and>
    decode_index_entries (encode_index_entries es) = Inr es"
  using assms by (simp add: codec_simps)

theorem table_metadata_round_trip_witness:
  "properties_decode (properties_encode
     \<lparr>num_entries = 3, smallest_key = Some (InternalKey [1] 7 TypePut), largest_key = None, filter_bytes = [9]\<rparr>) =
   Inr \<lparr>num_entries = 3, smallest_key = Some (InternalKey [1] 7 TypePut), largest_key = None, filter_bytes = [9]\<rparr>"
proof -
  let ?p = "\<lparr>num_entries = 3, smallest_key = Some (InternalKey [1] 7 TypePut), largest_key = None, filter_bytes = [9]\<rparr>"
  have "properties_encodable ?p" by (simp add: properties_encodable_def key_encodable_def)
  from table_metadata_round_trip [OF this, of "[]"] show ?thesis by simp
qed

end
