(* ===== verification/Block.thy ===== *)
theory Block
  imports Table_Format
begin

section \<open>Data blocks (table/block_builder.rs, block.rs, block_iterator.rs)\<close>

text \<open>
  A data block holds entries with prefix-compressed user keys: every entry stores the length
  it shares with the key before it, except at a restart point, where it shares nothing.
  Behind the entries come the restart offsets and their count.  The decoder reads all
  entries into memory; the iterator walks over them.

  An entry is written with the value type of its record, not with the value type of its
  key, so the round trip is stated for entries where the two agree (\<open>entry_ok\<close>), which
  every memtable entry satisfies.
\<close>

subsection \<open>The builder\<close>

record block_builder =
  bb_data :: bytes
  bb_restarts :: "u32 list"
  bb_last_user_key :: bytes
  bb_entry_count :: nat
  bb_restart_interval :: nat

definition block_builder_new :: "nat \<Rightarrow> block_builder" where
  "block_builder_new restart_interval =
     \<lparr>bb_data = [], bb_restarts = [], bb_last_user_key = [], bb_entry_count = 0,
      bb_restart_interval = max restart_interval 1\<rparr>"

fun shared_prefix_len :: "bytes \<Rightarrow> bytes \<Rightarrow> nat" where
  "shared_prefix_len (l # left) (r # right) = (if l = r then Suc (shared_prefix_len left right) else 0)"
| "shared_prefix_len left right = 0"

definition block_add :: "block_builder \<Rightarrow> internal_key \<Rightarrow> value_record \<Rightarrow> block_builder" where
  "block_add b key val =
     (let restart = (bb_restart_interval b dvd bb_entry_count b);
          restarts = (if restart then bb_restarts b @ [len_u32 (bb_data b)] else bb_restarts b);
          shared_len = (if restart then 0 else shared_prefix_len (bb_last_user_key b) (user_key key));
          unshared = drop shared_len (user_key key);
          (vt, value_bytes) = (case val of Put v \<Rightarrow> (TypePut, v) | Delete \<Rightarrow> (TypeDelete, []));
          data = put_var_u32 (bb_data b) (word_of_nat shared_len);
          data = put_var_u32 data (len_u32 unshared);
          data = put_var_u32 data (len_u32 value_bytes);
          data = put_var_u64 (data @ [value_type_u8 vt]) (sequence key);
          data = data @ unshared @ value_bytes
      in b\<lparr>bb_data := data, bb_restarts := restarts, bb_last_user_key := user_key key,
           bb_entry_count := bb_entry_count b + 1\<rparr>)"

definition block_builder_is_empty :: "block_builder \<Rightarrow> bool" where
  "block_builder_is_empty b = (bb_entry_count b = 0)"

definition block_approximate_size :: "block_builder \<Rightarrow> nat" where
  "block_approximate_size b = length (bb_data b) + length (bb_restarts b) * 4 + 4"

definition block_finish :: "block_builder \<Rightarrow> bytes" where
  "block_finish b =
     (let restarts = (if bb_restarts b = [] then [0] else bb_restarts b)
      in bb_data b @ concat (map (to_le_bytes 4) restarts) @
         to_le_bytes 4 (word_of_nat (length restarts) :: u32))"

subsection \<open>The decoder\<close>

function decode_entries :: "bytes \<Rightarrow> bytes \<Rightarrow> entry list result" where
  "decode_entries last_user_key src =
     (if src = [] then Inr []
      else
        and_then (get_var_u32 src) (\<lambda>(shared_len, src1).
        and_then (get_var_u32 src1) (\<lambda>(unshared_len, src2).
        and_then (get_var_u32 src2) (\<lambda>(value_len, src3).
        and_then (take_bytes 1 src3) (\<lambda>(tb, src4).
        and_then (case tb of [] \<Rightarrow> Inl (Panic ''type'') | vt # _ \<Rightarrow> decode_value_type vt) (\<lambda>vt.
        and_then (get_var_u64 src4) (\<lambda>(seq, src5).
        if unat shared_len > length last_user_key
        then Inl (Corruption ''block entry shared prefix is too long'')
        else
          and_then (take_bytes (unat unshared_len) src5) (\<lambda>(unshared, src6).
          and_then (take_bytes (unat value_len) src6) (\<lambda>(val, src7).
          let user_key = take (unat shared_len) last_user_key @ unshared in
          and_then (case vt of
              TypePut \<Rightarrow> Inr (Put val)
            | TypeDelete \<Rightarrow>
                if val \<noteq> [] then Inl (Corruption ''delete block entry carries value bytes'')
                else Inr Delete) (\<lambda>record.
          and_then (decode_entries user_key src7) (\<lambda>entries.
            Inr ((InternalKey user_key seq vt, record) # entries))))))))))))"
  by pat_completeness auto
termination
  by (relation "measure (\<lambda>(k, src). length src)")
    (auto dest!: length_get_var_u32 length_get_var_u64 take_bytes_eq)

declare decode_entries.simps [simp del]

definition block_decode :: "bytes \<Rightarrow> entry list result" where
  "block_decode bs =
     (if length bs < 4 then Inl (Corruption ''block missing restart count'')
      else
        let restart_count_pos = length bs - 4;
            restart_count = unat (from_le_bytes (drop restart_count_pos bs) :: u32);
            restart_bytes = restart_count * 4
        in if restart_bytes \<ge> 2 ^ 64 then Inl (Corruption ''restart count overflow'')
           else if restart_count_pos < restart_bytes then Inl (Corruption ''invalid restart section'')
           else decode_entries [] (take (restart_count_pos - restart_bytes) bs))"

subsection \<open>The iterator\<close>

record block_iterator =
  bi_entries :: "entry list"
  bi_index :: nat

definition block_iter_new :: "bytes \<Rightarrow> block_iterator result" where
  "block_iter_new bs = and_then (block_decode bs) (\<lambda>es. Inr \<lparr>bi_entries = es, bi_index = 0\<rparr>)"

definition block_iter_seek_to_first :: "block_iterator \<Rightarrow> block_iterator" where
  "block_iter_seek_to_first it = it\<lparr>bi_index := 0\<rparr>"

text \<open>
  \<^verbatim>\<open>partition_point\<close> of the standard library: on a slice that is partitioned by the
  predicate, the index of the first element that does not satisfy it.
\<close>

definition partition_point :: "('a \<Rightarrow> bool) \<Rightarrow> 'a list \<Rightarrow> nat" where
  "partition_point P xs = length (takeWhile P xs)"

definition block_iter_seek :: "block_iterator \<Rightarrow> internal_key \<Rightarrow> block_iterator" where
  "block_iter_seek it target =
     it\<lparr>bi_index := min (partition_point (\<lambda>e. fst e < target) (bi_entries it)) (length (bi_entries it))\<rparr>"

definition block_iter_next :: "block_iterator \<Rightarrow> block_iterator" where
  "block_iter_next it =
     (if bi_index it < length (bi_entries it) then it\<lparr>bi_index := bi_index it + 1\<rparr> else it)"

definition block_iter_is_valid :: "block_iterator \<Rightarrow> bool" where
  "block_iter_is_valid it = (bi_index it < length (bi_entries it))"

definition block_iter_key :: "block_iterator \<Rightarrow> internal_key option" where
  "block_iter_key it =
     (if bi_index it < length (bi_entries it) then Some (fst (bi_entries it ! bi_index it)) else None)"

definition block_iter_value :: "block_iterator \<Rightarrow> value_record option" where
  "block_iter_value it =
     (if bi_index it < length (bi_entries it) then Some (snd (bi_entries it ! bi_index it)) else None)"

subsection \<open>Round trip\<close>

fun record_bytes :: "value_record \<Rightarrow> bytes" where
  "record_bytes (Put v) = v"
| "record_bytes Delete = []"

definition entry_ok :: "entry \<Rightarrow> bool" where
  "entry_ok e \<longleftrightarrow> value_type (fst e) = record_type (snd e) \<and>
     length (user_key (fst e)) < 2 ^ 32 \<and> length (record_bytes (snd e)) < 2 ^ 32"

definition add_all :: "block_builder \<Rightarrow> entry list \<Rightarrow> block_builder" where
  "add_all b es = fold (\<lambda>(key, val) b. block_add b key val) es b"

definition encode_entry :: "nat \<Rightarrow> internal_key \<Rightarrow> value_record \<Rightarrow> bytes" where
  "encode_entry shared_len key val =
     put_var_u32 [] (word_of_nat shared_len) @ put_var_u32 [] (len_u32 (drop shared_len (user_key key))) @
     put_var_u32 [] (len_u32 (record_bytes val)) @ [value_type_u8 (record_type val)] @
     put_var_u64 [] (sequence key) @ drop shared_len (user_key key) @ record_bytes val"

lemma shared_prefix_len_le: "shared_prefix_len xs ys \<le> length xs" "shared_prefix_len xs ys \<le> length ys"
  by (induction xs ys rule: shared_prefix_len.induct) auto

lemma take_shared_prefix_len: "take (shared_prefix_len xs ys) xs = take (shared_prefix_len xs ys) ys"
  by (induction xs ys rule: shared_prefix_len.induct) auto

lemma block_add_data:
  obtains n where "bb_data (block_add b key val) = bb_data b @ encode_entry n key val"
    and "n \<le> length (bb_last_user_key b)" and "n \<le> length (user_key key)"
    and "take n (bb_last_user_key b) = take n (user_key key)"
proof
  let ?n = "if bb_restart_interval b dvd bb_entry_count b then 0
    else shared_prefix_len (bb_last_user_key b) (user_key key)"
  show "bb_data (block_add b key val) = bb_data b @ encode_entry ?n key val"
    by (cases val) (simp_all add: block_add_def encode_entry_def Let_def put_var_append)
  show "?n \<le> length (bb_last_user_key b)" "?n \<le> length (user_key key)"
    by (simp_all add: shared_prefix_len_le)
  show "take ?n (bb_last_user_key b) = take ?n (user_key key)"
    by (auto intro: take_shared_prefix_len)
qed

lemma decode_encode_entry:
  assumes "entry_ok (key, val)" and "n \<le> length lst" and "n \<le> length (user_key key)"
    and "take n lst = take n (user_key key)"
  shows "decode_entries lst (encode_entry n key val @ rest) =
    and_then (decode_entries (user_key key) rest) (\<lambda>es. Inr ((key, val) # es))"
proof -
  obtain u where u: "drop n (user_key key) = u" and "length u < 2 ^ 32"
    using assms(1) by (auto simp: entry_ok_def)
  moreover have uk: "take n lst @ u = user_key key"
    using assms(4) u by (metis append_take_drop_id)
  moreover have "encode_entry n key val @ rest \<noteq> []" by (simp add: encode_entry_def)
  moreover have "InternalKey (user_key key) (sequence key) (record_type val) = key"
    using assms(1) by (cases key) (simp add: entry_ok_def)
  moreover have "n < 2 ^ 32" "length (record_bytes val) < 2 ^ 32"
    using assms by (auto simp: entry_ok_def)
  ultimately show ?thesis
    using assms(2)
    by (subst decode_entries.simps)
      (cases val; simp add: encode_entry_def codec_simps decode_value_type_def)
qed

lemma decode_add_all:
  "list_all entry_ok es \<Longrightarrow>
   \<exists>enc. bb_data (add_all b es) = bb_data b @ enc \<and> decode_entries (bb_last_user_key b) enc = Inr es"
proof (induction es arbitrary: b)
  case Nil
  show ?case by (simp add: add_all_def decode_entries.simps)
next
  case (Cons e es)
  obtain key val where e: "e = (key, val)" by fastforce
  have last: "bb_last_user_key (block_add b key val) = user_key key"
    by (simp add: block_add_def Let_def split: prod.split)
  obtain n where n: "bb_data (block_add b key val) = bb_data b @ encode_entry n key val"
    "n \<le> length (bb_last_user_key b)" "n \<le> length (user_key key)"
    "take n (bb_last_user_key b) = take n (user_key key)"
    by (rule block_add_data)
  from Cons.IH [of "block_add b key val"] Cons.prems
  obtain enc where enc: "bb_data (add_all (block_add b key val) es) = bb_data (block_add b key val) @ enc"
    "decode_entries (user_key key) enc = Inr es" by (auto simp: last)
  have "decode_entries (bb_last_user_key b) (encode_entry n key val @ enc) = Inr ((key, val) # es)"
    using Cons.prems n enc by (simp add: decode_encode_entry e)
  with n enc show ?case by (auto simp: add_all_def e)
qed

lemma length_restarts_add_all: "length (bb_restarts (add_all b es)) \<le> length (bb_restarts b) + length es"
proof (induction es arbitrary: b)
  case (Cons e es)
  obtain key val where e: "e = (key, val)" by fastforce
  have "length (bb_restarts (block_add b key val)) \<le> length (bb_restarts b) + 1"
    by (simp add: block_add_def Let_def split: prod.split)
  with Cons [of "block_add b key val"] show ?case by (simp add: e add_all_def)
qed (simp add: add_all_def)

lemma length_concat_le_bytes [simp]: "length (concat (map (to_le_bytes 4) ws)) = 4 * length ws"
  by (induction ws) simp_all

text \<open>Behind the data, the decoder finds the restart section and drops it.\<close>

lemma block_decode_finish:
  assumes "length (bb_restarts b) < 2 ^ 32"
  shows "block_decode (block_finish b) = decode_entries [] (bb_data b)"
proof -
  let ?rs = "if bb_restarts b = [] then [0] else bb_restarts b"
  let ?count = "to_le_bytes 4 (word_of_nat (length ?rs) :: u32)"
  have "length ?rs < 2 ^ 32" using assms by simp
  moreover have "block_finish b = (bb_data b @ concat (map (to_le_bytes 4) ?rs)) @ ?count"
    by (simp add: block_finish_def Let_def)
  moreover have "length (concat (map (to_le_bytes 4) ?rs)) = 4 * length ?rs"
    by (rule length_concat_le_bytes)
  ultimately show ?thesis
    unfolding block_decode_def Let_def by simp
qed

lemma block_round_trip_lemma:
  assumes "list_all entry_ok es" and "length es < 2 ^ 32"
  shows "block_decode (block_finish (add_all (block_builder_new n) es)) = Inr es"
proof -
  have "length (bb_restarts (add_all (block_builder_new n) es)) < 2 ^ 32"
    using length_restarts_add_all [of "block_builder_new n" es] assms(2)
    by (simp add: block_builder_new_def)
  moreover have "decode_entries [] (bb_data (add_all (block_builder_new n) es)) = Inr es"
    using decode_add_all [OF assms(1), of "block_builder_new n"] by (auto simp: block_builder_new_def)
  ultimately show ?thesis by (simp add: block_decode_finish)
qed

text \<open>
  Decoding a block the builder wrote gives back its entries, keys rebuilt from their
  shared prefixes, for every restart interval and every list of entries of less than four
  gibibytes each whose key and record agree on the value type.
\<close>

theorem block_round_trip:
  assumes "list_all entry_ok es" and "length es < 2 ^ 32"
  shows "block_decode (block_finish (add_all (block_builder_new n) es)) = Inr es"
  using assms by (rule block_round_trip_lemma)

theorem block_round_trip_witness:
  "block_decode (block_finish (add_all (block_builder_new 2)
     [(InternalKey [1, 2] 9 TypePut, Put [5]), (InternalKey [1, 2] 8 TypeDelete, Delete),
      (InternalKey [1, 3] 7 TypePut, Put [])])) =
   Inr [(InternalKey [1, 2] 9 TypePut, Put [5]), (InternalKey [1, 2] 8 TypeDelete, Delete),
      (InternalKey [1, 3] 7 TypePut, Put [])]"
  by (rule block_round_trip) (simp_all add: entry_ok_def)

subsection \<open>Seeking\<close>

lemma partition_point_le: "partition_point P xs \<le> length xs"
  by (simp add: partition_point_def length_takeWhile_le)

lemma drop_partition_point: "drop (partition_point P xs) xs = dropWhile P xs"
  by (simp add: partition_point_def dropWhile_eq_drop)

definition block_iter_rest :: "block_iterator \<Rightarrow> entry list" where
  "block_iter_rest it = drop (bi_index it) (bi_entries it)"

lemma block_iter_rest_nonempty: "bi_index it < length (bi_entries it) \<Longrightarrow>
  block_iter_rest it = (bi_entries it ! bi_index it) # block_iter_rest (block_iter_next it)"
  by (simp add: block_iter_rest_def block_iter_next_def Cons_nth_drop_Suc)

text \<open>
  The block iterator walks the entries of its block: a seek leaves exactly the entries
  from the target on (the entries not smaller than it, when the block is sorted), the
  iterator is valid while entries are left, shows the first of them, and a step drops it.
\<close>

theorem block_iter_correct:
  "block_iter_rest (block_iter_seek_to_first it) = bi_entries it \<and>
   block_iter_rest (block_iter_seek it target) = dropWhile (\<lambda>e. fst e < target) (bi_entries it) \<and>
   block_iter_is_valid it = (block_iter_rest it \<noteq> []) \<and>
   block_iter_key it = (case block_iter_rest it of [] \<Rightarrow> None | e # _ \<Rightarrow> Some (fst e)) \<and>
   block_iter_value it = (case block_iter_rest it of [] \<Rightarrow> None | e # _ \<Rightarrow> Some (snd e)) \<and>
   block_iter_rest (block_iter_next it) = tl (block_iter_rest it)"
proof (cases "bi_index it < length (bi_entries it)")
  case True
  then show ?thesis
    by (simp add: block_iter_rest_nonempty block_iter_is_valid_def block_iter_key_def block_iter_value_def)
      (simp add: block_iter_rest_def block_iter_seek_def block_iter_seek_to_first_def min_absorb1
        partition_point_le drop_partition_point)
next
  case False
  then show ?thesis
    by (simp add: block_iter_rest_def block_iter_is_valid_def block_iter_key_def block_iter_value_def
        block_iter_seek_def block_iter_seek_to_first_def block_iter_next_def min_absorb1
        partition_point_le drop_partition_point)
qed

end
