(* ===== verification/Cache.thy ===== *)
theory Cache
  imports Keys
begin

section \<open>The block cache (cache/block_cache.rs)\<close>

text \<open>
  \<^verbatim>\<open>src/src/cache/block_cache.rs\<close>: decoded blocks by table number and block offset,
  bounded in number.  A Rust \<^verbatim>\<open>HashMap\<close> is the list of its entries; its iteration
  order is unspecified, so the entry a full cache evicts (the first key the iterator yields)
  is chosen by the field \<open>bc_pick\<close>, about which nothing is assumed.  The operations
  shared with the table cache (\<^verbatim>\<open>cache/table_cache.rs\<close>) come first.
\<close>

subsection \<open>Bounded hash maps\<close>

definition hash_insert :: "'k \<Rightarrow> 'v \<Rightarrow> ('k \<times> 'v) list \<Rightarrow> ('k \<times> 'v) list" where
  "hash_insert k v m = (k, v) # filter (\<lambda>e. fst e \<noteq> k) m"

definition evict_if_full :: "('k list \<Rightarrow> nat) \<Rightarrow> nat \<Rightarrow> ('k \<times> 'v) list \<Rightarrow> ('k \<times> 'v) list" where
  "evict_if_full pick max_entries m =
     (if length m \<ge> max_entries \<and> m \<noteq> []
      then let key = fst (m ! (pick (map fst m) mod length m)) in filter (\<lambda>e. fst e \<noteq> key) m
      else m)"

lemma map_of_filter_key: "map_of (filter (\<lambda>e. fst e \<noteq> k) m) a = (if a = k then None else map_of m a)"
  by (induction m) auto

lemma map_of_hash_insert: "map_of (hash_insert k v m) = (map_of m)(k \<mapsto> v)"
  by (auto simp: hash_insert_def map_of_filter_key)

lemma map_of_evict: "map_of (evict_if_full pick n m) k = Some v \<Longrightarrow> map_of m k = Some v"
  by (auto simp: evict_if_full_def Let_def map_of_filter_key split: if_splits)

lemma length_evict_insert:
  assumes "length m \<le> n" and "0 < n"
  shows "length (hash_insert k v (evict_if_full pick n m)) \<le> n"
proof -
  have "length (evict_if_full pick n m) < n"
  proof (cases "n \<le> length m")
    case True
    with assms have "m \<noteq> []" by auto
    let ?i = "pick (map fst m) mod length m"
    have "m ! ?i \<in> set m" using \<open>m \<noteq> []\<close> by (simp add: nth_mem)
    then have "length (filter (\<lambda>e. fst e \<noteq> fst (m ! ?i)) m) < length m"
      by (intro length_filter_less [of "m ! ?i"]) auto
    with True assms \<open>m \<noteq> []\<close> show ?thesis by (simp add: evict_if_full_def Let_def)
  qed (simp add: evict_if_full_def)
  moreover have "length (filter P xs) \<le> length xs" for P :: "'a \<times> 'b \<Rightarrow> bool" and xs
    by (rule length_filter_le)
  ultimately show ?thesis
    unfolding hash_insert_def by (metis Suc_leI length_Cons order_le_less_trans)
qed

subsection \<open>BlockCache\<close>

record cache_stats =
  stat_hits :: u64
  stat_misses :: u64

record block_cache =
  bc_blocks :: "((u64 \<times> u64) \<times> entry list) list"
  bc_max_entries :: nat
  bc_stats :: cache_stats
  bc_pick :: "(u64 \<times> u64) list \<Rightarrow> nat"

definition block_cache_new :: "((u64 \<times> u64) list \<Rightarrow> nat) \<Rightarrow> nat \<Rightarrow> block_cache" where
  "block_cache_new pick capacity_bytes =
     \<lparr>bc_blocks = [], bc_max_entries = max (capacity_bytes div 4096) 1,
      bc_stats = \<lparr>stat_hits = 0, stat_misses = 0\<rparr>, bc_pick = pick\<rparr>"

definition block_cache_get :: "u64 \<Rightarrow> u64 \<Rightarrow> block_cache \<Rightarrow> entry list option \<times> block_cache" where
  "block_cache_get table_number block_offset c =
     (let block = map_of (bc_blocks c) (table_number, block_offset);
          stats = bc_stats c
      in (block, c\<lparr>bc_stats :=
            if block \<noteq> None then stats\<lparr>stat_hits := stat_hits stats + 1\<rparr>
            else stats\<lparr>stat_misses := stat_misses stats + 1\<rparr>\<rparr>))"

definition block_cache_insert :: "u64 \<Rightarrow> u64 \<Rightarrow> entry list \<Rightarrow> block_cache \<Rightarrow> block_cache" where
  "block_cache_insert table_number block_offset block c =
     c\<lparr>bc_blocks := hash_insert (table_number, block_offset) block
         (evict_if_full (bc_pick c) (bc_max_entries c) (bc_blocks c))\<rparr>"

definition block_cache_ok :: "block_cache \<Rightarrow> bool" where
  "block_cache_ok c \<longleftrightarrow> 0 < bc_max_entries c \<and> length (bc_blocks c) \<le> bc_max_entries c"

text \<open>
  The block cache never holds more blocks than its capacity, a block just inserted is
  found, and every block it returns afterwards was returned before or is the one inserted:
  an eviction can lose a block but never mixes blocks up.
\<close>

theorem block_cache_correct:
  assumes "block_cache_ok c"
  shows "block_cache_ok (block_cache_new pick n) \<and>
    block_cache_ok (snd (block_cache_get t off c)) \<and>
    block_cache_ok (block_cache_insert t off blk c) \<and>
    fst (block_cache_get t off (block_cache_insert t off blk c)) = Some blk \<and>
    (fst (block_cache_get t' off' (block_cache_insert t off blk c)) = Some blk' \<longrightarrow>
       (t', off') = (t, off) \<and> blk' = blk \<or> fst (block_cache_get t' off' c) = Some blk')"
  using assms length_evict_insert [of "bc_blocks c" "bc_max_entries c"]
  by (auto simp: block_cache_ok_def block_cache_new_def block_cache_get_def block_cache_insert_def
      Let_def map_of_hash_insert split: if_splits dest: map_of_evict)

theorem block_cache_correct_witness:
  "fst (block_cache_get 1 2 (block_cache_insert 1 2 [] (block_cache_new (\<lambda>_. 0) 0))) = Some []"
proof -
  have "block_cache_ok (block_cache_new (\<lambda>_. 0) 0)"
    by (simp add: block_cache_ok_def block_cache_new_def)
  from block_cache_correct [OF this, of "\<lambda>_. 0" 0 1 2 "[]" 1 2 "[]"] show ?thesis by simp
qed

end
