(* ===== verification/SSTable.thy ===== *)
theory SSTable
  imports Env Externs Bloom Block Cache
begin

section \<open>Sorted tables (table/builder.rs, table/reader.rs, cache/table_cache.rs)\<close>

text \<open>
  \<^verbatim>\<open>SSTableBuilder\<close> writes a table file: data blocks, the properties block with the
  Bloom filter, the index block and the footer, each block behind its compression tag and
  checksum.  \<^verbatim>\<open>SSTableReader\<close> opens it, looks a key up, lists all entries, and
  caches decoded blocks; \<^verbatim>\<open>TableCache\<close> keeps open readers.

  The predicate \<open>table_file\<close> says that the bytes of a file are a table with given
  entries.  The builder is shown to establish it whenever it succeeds, and the reader to
  answer from it exactly what the entries say, with and without the block cache.
\<close>

subsection \<open>The builder\<close>

record sstable_builder =
  sb_path :: path
  sb_offset :: u64
  sb_block_size :: nat
  sb_current_block :: block_builder
  sb_current_block_first_key :: "internal_key option"
  sb_index_entries :: "index_entry list"
  sb_smallest_key :: "internal_key option"
  sb_largest_key :: "internal_key option"
  sb_filter_keys :: "bytes list"
  sb_num_entries :: u64
  sb_compression :: compression_type

definition builder_create_with_env :: "path \<Rightarrow> nat \<Rightarrow> compression_type \<Rightarrow> (env, sstable_builder) op" where
  "builder_create_with_env p block_size compression =
     op_then (open_writable p options_create) (\<lambda>file. op_lift (Inr
       \<lparr>sb_path = file, sb_offset = 0, sb_block_size = max block_size 1,
        sb_current_block = block_builder_new 16, sb_current_block_first_key = None,
        sb_index_entries = [], sb_smallest_key = None, sb_largest_key = None, sb_filter_keys = [],
        sb_num_entries = 0, sb_compression = compression\<rparr>))"

definition compress_block :: "'m externs \<Rightarrow> bytes \<Rightarrow> compression_type \<Rightarrow> bytes result" where
  "compress_block X block compression =
     (case compression of NoCompression \<Rightarrow> Inr block | Zstd \<Rightarrow> zstd_encode_all X block)"

definition write_block :: "'m externs \<Rightarrow> sstable_builder \<Rightarrow> bytes \<Rightarrow> (env, block_handle \<times> sstable_builder) op" where
  "write_block X b block =
     op_then (op_lift (compress_block X block (sb_compression b))) (\<lambda>block.
     let handle = \<lparr>bh_offset = sb_offset b, bh_size = word_of_nat (length block)\<rparr>;
         compression = compression_u8 (sb_compression b);
         cks = crc32c X (compression # block)
     in op_then (write_all (sb_path b) block) (\<lambda>_.
        op_then (write_all (sb_path b) [compression]) (\<lambda>_.
        op_then (write_all (sb_path b) (to_le_bytes 4 cks)) (\<lambda>_.
          op_lift (Inr (handle,
            b\<lparr>sb_offset := sb_offset b + word_of_nat (length block) + word_of_nat BLOCK_TRAILER_SIZE\<rparr>))))))"

definition flush_current_block :: "'m externs \<Rightarrow> sstable_builder \<Rightarrow> (env, sstable_builder) op" where
  "flush_current_block X b =
     (if block_builder_is_empty (sb_current_block b) then op_lift (Inr b)
      else case sb_current_block_first_key b of
        None \<Rightarrow> op_lift (Inl (Panic ''non-empty block has first key''))
      | Some fk \<Rightarrow>
        (case sb_largest_key b of
           None \<Rightarrow> op_lift (Inl (Panic ''non-empty table has largest''))
         | Some lk \<Rightarrow>
           let block = block_finish (sb_current_block b);
               b = b\<lparr>sb_current_block_first_key := None, sb_current_block := block_builder_new 16\<rparr>
           in op_then (write_block X b block) (\<lambda>(handle, b).
                op_lift (Inr (b\<lparr>sb_index_entries := sb_index_entries b @
                  [\<lparr>first_key = fk, last_key = lk, ie_handle = handle\<rparr>]\<rparr>)))))"

definition builder_add :: "'m externs \<Rightarrow> sstable_builder \<Rightarrow> internal_key \<Rightarrow> value_record \<Rightarrow> (env, sstable_builder) op" where
  "builder_add X b key val =
     (let b = b\<lparr>sb_current_block_first_key :=
                  (case sb_current_block_first_key b of None \<Rightarrow> Some key | Some k \<Rightarrow> Some k),
                sb_smallest_key := (case sb_smallest_key b of None \<Rightarrow> Some key | Some k \<Rightarrow> Some k),
                sb_largest_key := Some key,
                sb_filter_keys := sb_filter_keys b @ [user_key key],
                sb_current_block := block_add (sb_current_block b) key val,
                sb_num_entries := sb_num_entries b + 1\<rparr>
      in if block_approximate_size (sb_current_block b) \<ge> sb_block_size b
         then flush_current_block X b else op_lift (Inr b))"

definition builder_finish :: "'m externs \<Rightarrow> sstable_builder \<Rightarrow> (env, unit) op" where
  "builder_finish X b =
     op_then (flush_current_block X b) (\<lambda>b.
     let properties = \<lparr>num_entries = sb_num_entries b, smallest_key = sb_smallest_key b,
           largest_key = sb_largest_key b, filter_bytes = filter_from_keys (sb_filter_keys b)\<rparr>
     in op_then (write_block X b (properties_encode properties)) (\<lambda>(properties_handle, b).
        op_then (write_block X b (encode_index_entries (sb_index_entries b))) (\<lambda>(index_handle, b).
        op_then (write_all (sb_path b) (encode_footer properties_handle index_handle)) (\<lambda>_.
          sync_all (sb_path b)))))"

text \<open>The loop of the callers: add every entry, stop at the first error.\<close>

fun builder_add_all :: "'m externs \<Rightarrow> sstable_builder \<Rightarrow> entry list \<Rightarrow> (env, sstable_builder) op" where
  "builder_add_all X b [] = op_lift (Inr b)"
| "builder_add_all X b ((key, val) # es) =
     op_then (builder_add X b key val) (\<lambda>b. builder_add_all X b es)"

definition build_table :: "'m externs \<Rightarrow> path \<Rightarrow> nat \<Rightarrow> compression_type \<Rightarrow> entry list \<Rightarrow> (env, unit) op" where
  "build_table X p block_size compression es =
     op_then (builder_create_with_env p block_size compression) (\<lambda>b.
     op_then (builder_add_all X b es) (\<lambda>b. builder_finish X b))"

subsection \<open>The reader\<close>

record sstable_reader =
  rd_path :: path
  rd_index :: "index_entry list"
  rd_properties :: table_properties
  rd_filter :: table_filter

definition read_block :: "'m externs \<Rightarrow> block_handle \<Rightarrow> (readable_file, bytes) op" where
  "read_block X handle =
     op_then (\<lambda>file. (Inr (), file_seek_start (unat (bh_offset handle)) file)) (\<lambda>_.
     op_then (file_read_exact (unat (bh_size handle))) (\<lambda>block.
     op_then (file_read_exact BLOCK_TRAILER_SIZE) (\<lambda>trailer.
       op_lift (and_then (compression_from_u8 (trailer ! 0)) (\<lambda>compression.
         let expected = from_le_bytes (take 4 (drop 1 trailer));
             actual = crc32c X (trailer ! 0 # block)
         in if expected \<noteq> actual then Inl (Corruption ''SSTable block checksum mismatch'')
            else (case compression of NoCompression \<Rightarrow> Inr block | Zstd \<Rightarrow> zstd_decode_all X block))))))"

definition reader_open_file :: "'m externs \<Rightarrow> path \<Rightarrow> (readable_file, sstable_reader) op" where
  "reader_open_file X p =
     op_then (file_read_exact FOOTER_SIZE) (\<lambda>footer.
     op_then (op_lift (decode_footer footer)) (\<lambda>(properties_handle, index_handle).
     op_then (read_block X properties_handle) (\<lambda>properties_block.
     op_then (op_lift (properties_decode properties_block)) (\<lambda>properties.
     op_then (read_block X index_handle) (\<lambda>index_block.
     op_then (op_lift (decode_index_entries index_block)) (\<lambda>index.
       op_lift (Inr \<lparr>rd_path = p, rd_index = index, rd_properties = properties,
         rd_filter = filter_decode (filter_bytes properties)\<rparr>)))))))"

definition reader_open_with_env :: "'m externs \<Rightarrow> path \<Rightarrow> (env, sstable_reader) op" where
  "reader_open_with_env X p =
     op_then (open_readable p) (\<lambda>file.
       let len = file_len file in
       if len < FOOTER_SIZE then op_lift (Inl (Corruption ''SSTable is too small''))
       else op_lift (fst (reader_open_file X p (file_seek_start (len - FOOTER_SIZE) file))))"

definition reader_smallest_key :: "sstable_reader \<Rightarrow> internal_key option" where
  "reader_smallest_key rd = smallest_key (rd_properties rd)"

definition reader_largest_key :: "sstable_reader \<Rightarrow> internal_key option" where
  "reader_largest_key rd = largest_key (rd_properties rd)"

definition might_contain :: "sstable_reader \<Rightarrow> bytes \<Rightarrow> bool result" where
  "might_contain rd key = filter_may_contain (rd_filter rd) key"

text \<open>
  A block cache is passed as \<^verbatim>\<open>Option<&BlockCache>\<close>; it is shared and mutable, so it is
  part of the state next to the open file.
\<close>

definition read_decoded_block :: "'m externs \<Rightarrow> index_entry \<Rightarrow> u64 \<Rightarrow> bool \<Rightarrow>
  (readable_file \<times> block_cache option, entry list) op" where
  "read_decoded_block X index table_number fill_cache = (\<lambda>(file, cache).
     case (if fill_cache then
             (case cache of None \<Rightarrow> (None, cache)
              | Some c \<Rightarrow> (case block_cache_get table_number (bh_offset (ie_handle index)) c of
                            (found, c) \<Rightarrow> (found, Some c)))
           else (None, cache)) of
       (Some block, cache) \<Rightarrow> (Inr block, (file, cache))
     | (None, cache) \<Rightarrow>
         (case read_block X (ie_handle index) file of
            (Inl e, file) \<Rightarrow> (Inl e, (file, cache))
          | (Inr block_bytes, file) \<Rightarrow>
            (case block_decode block_bytes of
               Inl e \<Rightarrow> (Inl e, (file, cache))
             | Inr block \<Rightarrow>
                 (Inr block, (file,
                    if fill_cache
                    then map_option (block_cache_insert table_number (bh_offset (ie_handle index)) block) cache
                    else cache)))))"

definition index_may_contain_user_key :: "index_entry \<Rightarrow> bytes \<Rightarrow> bool" where
  "index_may_contain_user_key index key \<longleftrightarrow>
     key \<ge> user_key (first_key index) \<and> key \<le> user_key (last_key index)"

fun get_in_blocks :: "'m externs \<Rightarrow> index_entry list \<Rightarrow> bytes \<Rightarrow> u64 \<Rightarrow> u64 \<Rightarrow> bool \<Rightarrow>
  (readable_file \<times> block_cache option, value_record option) op" where
  "get_in_blocks X [] key read_seq table_number fill_cache = op_lift (Inr None)"
| "get_in_blocks X (index # rest) key read_seq table_number fill_cache =
     (if \<not> index_may_contain_user_key index key
      then get_in_blocks X rest key read_seq table_number fill_cache
      else op_then (read_decoded_block X index table_number fill_cache) (\<lambda>block.
        case find (\<lambda>e. user_key (fst e) = key \<and> sequence (fst e) \<le> read_seq) block of
          Some (_, val) \<Rightarrow> op_lift (Inr (Some val))
        | None \<Rightarrow> get_in_blocks X rest key read_seq table_number fill_cache))"

text \<open>Run an operation on an open file and the cache inside the environment.\<close>

definition with_file :: "path \<Rightarrow> (readable_file \<times> block_cache option, 'a) op \<Rightarrow>
  (env \<times> block_cache option, 'a) op" where
  "with_file p m = (\<lambda>(e, cache).
     case open_readable p e of
       (Inl err, e) \<Rightarrow> (Inl err, (e, cache))
     | (Inr file, e) \<Rightarrow> (case m (file, cache) of (r, (_, cache)) \<Rightarrow> (r, (e, cache))))"

definition get_with_cache :: "'m externs \<Rightarrow> sstable_reader \<Rightarrow> bytes \<Rightarrow> u64 \<Rightarrow> u64 \<Rightarrow> bool \<Rightarrow>
  (env \<times> block_cache option, value_record option) op" where
  "get_with_cache X rd key read_seq table_number fill_cache =
     op_then (op_lift (might_contain rd key)) (\<lambda>may.
       if \<not> may then op_lift (Inr None)
       else with_file (rd_path rd) (get_in_blocks X (rd_index rd) key read_seq table_number fill_cache))"

fun entries_in_blocks :: "'m externs \<Rightarrow> index_entry list \<Rightarrow> u64 \<Rightarrow> bool \<Rightarrow>
  (readable_file \<times> block_cache option, entry list) op" where
  "entries_in_blocks X [] table_number fill_cache = op_lift (Inr [])"
| "entries_in_blocks X (index # rest) table_number fill_cache =
     op_then (read_decoded_block X index table_number fill_cache) (\<lambda>block.
     op_then (entries_in_blocks X rest table_number fill_cache) (\<lambda>entries.
       op_lift (Inr (block @ entries))))"

definition entries_with_cache :: "'m externs \<Rightarrow> sstable_reader \<Rightarrow> u64 \<Rightarrow> bool \<Rightarrow>
  (env \<times> block_cache option, entry list) op" where
  "entries_with_cache X rd table_number fill_cache =
     with_file (rd_path rd) (entries_in_blocks X (rd_index rd) table_number fill_cache)"

definition reader_get :: "'m externs \<Rightarrow> sstable_reader \<Rightarrow> bytes \<Rightarrow> u64 \<Rightarrow> (env, value_record option) op" where
  "reader_get X rd key read_seq e =
     (case get_with_cache X rd key read_seq 0 False (e, None) of (r, (e, _)) \<Rightarrow> (r, e))"

definition reader_entries :: "'m externs \<Rightarrow> sstable_reader \<Rightarrow> (env, entry list) op" where
  "reader_entries X rd e = (case entries_with_cache X rd 0 True (e, None) of (r, (e, _)) \<Rightarrow> (r, e))"

subsection \<open>The table cache\<close>

record table_cache =
  tc_tables :: "(u64 \<times> sstable_reader) list"
  tc_max_entries :: nat
  tc_pick :: "u64 list \<Rightarrow> nat"

definition table_cache_new_with_env :: "(u64 list \<Rightarrow> nat) \<Rightarrow> nat \<Rightarrow> table_cache" where
  "table_cache_new_with_env pick max_entries =
     \<lparr>tc_tables = [], tc_max_entries = max max_entries 1, tc_pick = pick\<rparr>"

definition get_or_open :: "'m externs \<Rightarrow> u64 \<Rightarrow> path \<Rightarrow> (env \<times> table_cache, sstable_reader) op" where
  "get_or_open X number p = (\<lambda>(e, tc).
     case map_of (tc_tables tc) number of
       Some rd \<Rightarrow> (Inr rd, (e, tc))
     | None \<Rightarrow>
         (case reader_open_with_env X p e of
            (Inl err, e) \<Rightarrow> (Inl err, (e, tc))
          | (Inr rd, e) \<Rightarrow>
              (Inr rd, (e, tc\<lparr>tc_tables := hash_insert number rd
                 (evict_if_full (tc_pick tc) (tc_max_entries tc) (tc_tables tc))\<rparr>))))"

subsection \<open>Reading blocks from bytes\<close>

definition block_at :: "'m externs \<Rightarrow> bytes \<Rightarrow> block_handle \<Rightarrow> bytes result" where
  "block_at X c h =
     (let off = unat (bh_offset h); size = unat (bh_size h);
          block = take size (drop off c); trailer = take BLOCK_TRAILER_SIZE (drop (off + size) c)
      in if length c < off + size + BLOCK_TRAILER_SIZE then Inl (Io UnexpectedEof)
         else and_then (compression_from_u8 (trailer ! 0)) (\<lambda>compression.
           if from_le_bytes (take 4 (drop 1 trailer)) \<noteq> crc32c X (trailer ! 0 # block)
           then Inl (Corruption ''SSTable block checksum mismatch'')
           else (case compression of NoCompression \<Rightarrow> Inr block | Zstd \<Rightarrow> zstd_decode_all X block)))"

lemma read_block_outcome:
  "\<exists>f'. read_block X h f = (block_at X (rf_content f) h, f') \<and> rf_content f' = rf_content f"
proof -
  define off where "off = unat (bh_offset h)"
  define size where "size = unat (bh_size h)"
  define c where "c = rf_content f"
  note defs = read_block_def block_at_def op_then_def file_seek_start_def file_read_exact_def
    op_lift_def Let_def off_def [symmetric] size_def [symmetric] c_def [symmetric]
  consider "length c - off < size" | "size \<le> length c - off" "length c - (off + size) < BLOCK_TRAILER_SIZE"
    | "size \<le> length c - off" "BLOCK_TRAILER_SIZE \<le> length c - (off + size)" by linarith
  then show ?thesis
  proof cases
    case 1
    then have "length c < off + size + BLOCK_TRAILER_SIZE" by linarith
    with 1 show ?thesis by (simp add: defs)
  next
    case 2
    then have "length c < off + size + BLOCK_TRAILER_SIZE" by linarith
    with 2 show ?thesis by (simp add: defs)
  next
    case 3
    moreover have "0 < BLOCK_TRAILER_SIZE" by (simp add: BLOCK_TRAILER_SIZE_def)
    ultimately have "\<not> length c < off + size + BLOCK_TRAILER_SIZE" by linarith
    with 3 show ?thesis by (simp add: defs)
  qed
qed

lemma block_at_append:
  assumes "block_at X c h = Inr b"
  shows "block_at X (c @ d) h = Inr b"
proof -
  from assms have "unat (bh_offset h) + unat (bh_size h) + BLOCK_TRAILER_SIZE \<le> length c"
    by (auto simp: block_at_def Let_def split: if_splits)
  moreover from this have eqs: "take (unat (bh_size h)) (drop (unat (bh_offset h)) (c @ d)) =
      take (unat (bh_size h)) (drop (unat (bh_offset h)) c)"
    "take BLOCK_TRAILER_SIZE (drop (unat (bh_offset h) + unat (bh_size h)) (c @ d)) =
      take BLOCK_TRAILER_SIZE (drop (unat (bh_offset h) + unat (bh_size h)) c)"
    by auto
  ultimately have "block_at X (c @ d) h = block_at X c h"
    unfolding block_at_def Let_def eqs by simp
  with assms show ?thesis by simp
qed

lemma block_at_inside:
  "block_at X c h = Inr b \<Longrightarrow> unat (bh_offset h) < length c"
  by (auto simp: block_at_def Let_def BLOCK_TRAILER_SIZE_def split: if_splits)

definition block_image :: "'m externs \<Rightarrow> compression_type \<Rightarrow> bytes \<Rightarrow> bytes" where
  "block_image X cm z = z @ compression_u8 cm # to_le_bytes 4 (crc32c X (compression_u8 cm # z))"

lemma length_block_image: "length (block_image X cm z) = length z + BLOCK_TRAILER_SIZE"
  by (simp add: block_image_def BLOCK_TRAILER_SIZE_def)

context externals
begin

lemma block_at_image:
  assumes "compress_block X blk cm = Inr z" and "length (c @ block_image X cm z) < 2 ^ 64"
  shows "block_at X (c @ block_image X cm z @ d)
    \<lparr>bh_offset = word_of_nat (length c), bh_size = word_of_nat (length z)\<rparr> = Inr blk"
proof -
  have len: "unat (word_of_nat (length c) :: u64) = length c" "unat (word_of_nat (length z) :: u64) = length z"
    using assms(2) by (simp_all add: length_block_image unsigned_of_nat take_bit_nat_eq_self)
  have "take 4 (to_le_bytes 4 w @ d) = to_le_bytes 4 (w :: u32)" for w by simp
  then show ?thesis
    using assms(1) zstd_round_trip
    by (cases cm)
      (simp_all add: block_at_def len Let_def length_block_image block_image_def BLOCK_TRAILER_SIZE_def
        compress_block_def compression_from_u8_def)
qed

end

subsection \<open>The builder writes a table\<close>

definition opt_hd :: "'a list \<Rightarrow> 'a option" where
  "opt_hd xs = (case xs of [] \<Rightarrow> None | x # _ \<Rightarrow> Some x)"

definition opt_last :: "'a list \<Rightarrow> 'a option" where
  "opt_last xs = (if xs = [] then None else Some (last xs))"

lemma opt_simps [simp]:
  "opt_hd [] = None" "opt_hd (x # xs) = Some x" "opt_last [] = None" "opt_last [x] = Some x"
  by (simp_all add: opt_hd_def opt_last_def)

lemma opt_hd_append: "opt_hd (xs @ ys) = (case opt_hd xs of None \<Rightarrow> opt_hd ys | Some y \<Rightarrow> Some y)"
  by (cases xs) simp_all

lemma opt_last_append: "opt_last (xs @ ys) = (case opt_last ys of None \<Rightarrow> opt_last xs | Some y \<Rightarrow> Some y)"
  by (simp add: opt_last_def)

definition content_of :: "env \<Rightarrow> path \<Rightarrow> bytes option" where
  "content_of e p = map_option file_content (env_files e p)"

text \<open>An index entry describes a block of the file.\<close>

definition block_entry :: "'m externs \<Rightarrow> bytes \<Rightarrow> index_entry \<Rightarrow> entry list \<Rightarrow> bool" where
  "block_entry X c ie blk \<longleftrightarrow> blk \<noteq> [] \<and> first_key ie = fst (hd blk) \<and> last_key ie = fst (last blk) \<and>
     and_then (block_at X c (ie_handle ie)) block_decode = Inr blk"

definition properties_of :: "entry list \<Rightarrow> table_properties" where
  "properties_of es =
     \<lparr>num_entries = word_of_nat (length es), smallest_key = map_option fst (opt_hd es),
      largest_key = map_option fst (opt_last es),
      filter_bytes = filter_from_keys (map (user_key \<circ> fst) es)\<rparr>"

definition index_offsets :: "index_entry list \<Rightarrow> u64 list" where
  "index_offsets idx = map (\<lambda>ie. bh_offset (ie_handle ie)) idx"

text \<open>The bytes of a file are a table with the entries.\<close>

definition table_with :: "'m externs \<Rightarrow> bytes \<Rightarrow> entry list \<Rightarrow> index_entry list \<Rightarrow> entry list list \<Rightarrow> bool" where
  "table_with X c es idx blks \<longleftrightarrow>
     (\<exists>ph ih. FOOTER_SIZE \<le> length c \<and>
       decode_footer (drop (length c - FOOTER_SIZE) c) = Inr (ph, ih) \<and>
       and_then (block_at X c ph) properties_decode = Inr (properties_of es) \<and>
       and_then (block_at X c ih) decode_index_entries = Inr idx) \<and>
     list_all2 (block_entry X c) idx blks \<and> concat blks = es \<and> distinct (index_offsets idx)"

definition table_file :: "'m externs \<Rightarrow> bytes \<Rightarrow> entry list \<Rightarrow> bool" where
  "table_file X c es \<longleftrightarrow> (\<exists>idx blks. table_with X c es idx blks)"

text \<open>The invariant of the builder, over the bytes written and the entries added so far.\<close>

definition builder_inv :: "'m externs \<Rightarrow> sstable_builder \<Rightarrow> bytes \<Rightarrow> entry list \<Rightarrow> entry list list \<Rightarrow> entry list \<Rightarrow> bool" where
  "builder_inv X b c es blks pending \<longleftrightarrow>
     es = concat blks @ pending \<and> list_all (\<lambda>blk. blk \<noteq> []) blks \<and>
     (length c < 2 ^ 64 \<longrightarrow>
        list_all2 (block_entry X c) (sb_index_entries b) blks \<and> distinct (index_offsets (sb_index_entries b))) \<and>
     sb_current_block b = add_all (block_builder_new 16) pending \<and>
     sb_current_block_first_key b = map_option fst (opt_hd pending) \<and>
     sb_smallest_key b = map_option fst (opt_hd es) \<and> sb_largest_key b = map_option fst (opt_last es) \<and>
     sb_filter_keys b = map (user_key \<circ> fst) es \<and> sb_num_entries b = word_of_nat (length es) \<and>
     sb_offset b = word_of_nat (length c)"

lemma bb_entry_count_add_all: "bb_entry_count (add_all b es) = bb_entry_count b + length es"
proof (induction es arbitrary: b)
  case (Cons e es)
  obtain key val where e: "e = (key, val)" by fastforce
  have "bb_entry_count (block_add b key val) = bb_entry_count b + 1"
    by (simp add: block_add_def Let_def split: prod.split)
  with Cons [of "block_add b key val"] show ?case by (simp add: e add_all_def)
qed (simp add: add_all_def)

lemma block_is_empty_add_all [simp]:
  "block_builder_is_empty (add_all (block_builder_new n) es) \<longleftrightarrow> es = []"
  by (simp add: block_builder_is_empty_def bb_entry_count_add_all) (simp add: block_builder_new_def)

lemma add_all_snoc: "block_add (add_all b es) key val = add_all b (es @ [(key, val)])"
  by (simp add: add_all_def)

lemma content_of_write_all:
  "write_all p bs e = (Inr u, e') \<Longrightarrow> content_of e p = Some c \<Longrightarrow> content_of e' p = Some (c @ bs)"
  by (auto simp: content_of_def dest!: write_all_ok)

lemma write_block_outcome:
  assumes "write_block X b blk e = (Inr (h, b'), e')" and "content_of e (sb_path b) = Some c"
  obtains z where "compress_block X blk (sb_compression b) = Inr z"
    and "content_of e' (sb_path b) = Some (c @ block_image X (sb_compression b) z)"
    and "h = \<lparr>bh_offset = sb_offset b, bh_size = word_of_nat (length z)\<rparr>"
    and "b' = b\<lparr>sb_offset := sb_offset b + word_of_nat (length (block_image X (sb_compression b) z))\<rparr>"
proof -
  let ?cm = "sb_compression b" and ?p = "sb_path b"
  from assms(1) obtain z e1 e2 u1 u2 u3 where z: "compress_block X blk ?cm = Inr z"
    and w: "write_all ?p z e = (Inr u1, e1)" "write_all ?p [compression_u8 ?cm] e1 = (Inr u2, e2)"
      "write_all ?p (to_le_bytes 4 (crc32c X (compression_u8 ?cm # z))) e2 = (Inr u3, e')"
    and hb: "h = \<lparr>bh_offset = sb_offset b, bh_size = word_of_nat (length z)\<rparr>"
      "b' = b\<lparr>sb_offset := sb_offset b + word_of_nat (length z) + word_of_nat BLOCK_TRAILER_SIZE\<rparr>"
    unfolding write_block_def Let_def op_Inr_iffs by blast
  have "content_of e' ?p = Some (c @ block_image X ?cm z)"
    using content_of_write_all [OF w(3) content_of_write_all [OF w(2) content_of_write_all [OF w(1) assms(2)]]]
    by (simp add: block_image_def)
  with z hb show ?thesis
    by (intro that) (simp_all add: length_block_image add.assoc)
qed

lemma block_entry_append:
  "block_entry X c ie blk \<Longrightarrow> block_entry X (c @ d) ie blk"
  by (auto simp: block_entry_def result_simps block_at_append)

lemma block_entries_append:
  "list_all2 (block_entry X c) idx blks \<Longrightarrow> list_all2 (block_entry X (c @ d)) idx blks"
  by (erule list_all2_mono) (rule block_entry_append)

lemma index_offsets_inside:
  assumes "list_all2 (block_entry X c) idx blks" and "off \<in> set (index_offsets idx)"
  shows "unat off < length c"
proof -
  from assms(2) obtain ie where "ie \<in> set idx" and off: "off = bh_offset (ie_handle ie)"
    by (auto simp: index_offsets_def)
  with assms(1) obtain blk where "block_entry X c ie blk"
    by (auto simp: list_all2_conv_all_nth in_set_conv_nth)
  then show ?thesis
    by (auto simp: off block_entry_def result_simps dest: block_at_inside)
qed

lemma flush_empty_block:
  "builder_inv X b c es blks [] \<Longrightarrow> flush_current_block X b = op_lift (Inr b)"
  by (simp add: flush_current_block_def builder_inv_def)

context externals
begin

lemma flush_block_inv:
  assumes inv: "builder_inv X b c es blks pending" and "pending \<noteq> []"
    and ok: "list_all entry_ok es" "length es < 2 ^ 32"
    and run: "flush_current_block X b e = (Inr b', e')" and c: "content_of e (sb_path b) = Some c"
  obtains d where "content_of e' (sb_path b) = Some (c @ d)" and "builder_inv X b' (c @ d) es (blks @ [pending]) []"
    and "sb_path b' = sb_path b" and "sb_compression b' = sb_compression b" and "sb_block_size b' = sb_block_size b"
proof -
  let ?b = "b\<lparr>sb_current_block_first_key := None, sb_current_block := block_builder_new 16\<rparr>"
  let ?blk = "block_finish (add_all (block_builder_new 16) pending)"
  from inv \<open>pending \<noteq> []\<close> have es: "es = concat blks @ pending" "es \<noteq> []"
    and first: "sb_current_block_first_key b = Some (fst (hd pending))"
    and largest: "sb_largest_key b = Some (fst (last pending))"
    and cur: "sb_current_block b = add_all (block_builder_new 16) pending"
    by (auto simp: builder_inv_def opt_hd_def opt_last_def split: list.splits)
  from run obtain h b1 where w: "write_block X ?b ?blk e = (Inr (h, b1), e')"
    and b': "b' = b1\<lparr>sb_index_entries := sb_index_entries b1 @
      [\<lparr>first_key = fst (hd pending), last_key = fst (last pending), ie_handle = h\<rparr>]\<rparr>"
    using \<open>pending \<noteq> []\<close>
    by (auto simp: flush_current_block_def first largest cur Let_def op_Inr_iffs)
  have "content_of e (sb_path ?b) = Some c" using c by simp
  from write_block_outcome [OF w this]
  obtain z where z: "compress_block X ?blk (sb_compression b) = Inr z"
    and c': "content_of e' (sb_path b) = Some (c @ block_image X (sb_compression b) z)"
    and h: "h = \<lparr>bh_offset = sb_offset b, bh_size = word_of_nat (length z)\<rparr>"
    and b1: "b1 = ?b\<lparr>sb_offset := sb_offset b + word_of_nat (length (block_image X (sb_compression b) z))\<rparr>"
    by auto
  let ?d = "block_image X (sb_compression b) z"
  let ?ie = "\<lparr>first_key = fst (hd pending), last_key = fst (last pending), ie_handle = h\<rparr>"
  have off: "sb_offset b = word_of_nat (length c)" using inv by (simp add: builder_inv_def)
  have entry: "block_entry X (c @ ?d) ?ie pending" and dist: "bh_offset h \<notin> set (index_offsets (sb_index_entries b))"
    if len: "length (c @ ?d) < 2 ^ 64"
  proof -
    have "block_at X (c @ ?d) h = Inr ?blk"
      using block_at_image [OF z len, of "[]"] by (simp add: h off)
    moreover have "block_decode ?blk = Inr pending"
      using ok by (intro block_round_trip_lemma) (simp_all add: es)
    ultimately show "block_entry X (c @ ?d) ?ie pending"
      using \<open>pending \<noteq> []\<close> by (simp add: block_entry_def)
    have "unat (bh_offset h) = length c"
      using len by (simp add: h off unsigned_of_nat take_bit_nat_eq_self)
    moreover have "list_all2 (block_entry X c) (sb_index_entries b) blks"
      using inv len by (simp add: builder_inv_def)
    ultimately show "bh_offset h \<notin> set (index_offsets (sb_index_entries b))"
      using index_offsets_inside by fastforce
  qed
  have "builder_inv X b' (c @ ?d) es (blks @ [pending]) []"
    using inv \<open>pending \<noteq> []\<close> entry dist
    by (auto simp: builder_inv_def b' b1 add_all_def index_offsets_def
        intro!: list_all2_appendI intro: block_entries_append)
  with c' show ?thesis
    by (intro that [of ?d]) (simp_all add: b' b1)
qed

lemma builder_add_inv:
  assumes inv: "builder_inv X b c es blks pending"
    and ok: "list_all entry_ok (es @ [(key, val)])" "length (es @ [(key, val)]) < 2 ^ 32"
    and run: "builder_add X b key val e = (Inr b', e')" and c: "content_of e (sb_path b) = Some c"
  obtains d blks' pending' where "content_of e' (sb_path b) = Some (c @ d)"
    and "builder_inv X b' (c @ d) (es @ [(key, val)]) blks' pending'"
    and "sb_path b' = sb_path b" and "sb_compression b' = sb_compression b"
proof -
  define b1 where "b1 = b\<lparr>sb_current_block_first_key :=
      (case sb_current_block_first_key b of None \<Rightarrow> Some key | Some k \<Rightarrow> Some k),
    sb_smallest_key := (case sb_smallest_key b of None \<Rightarrow> Some key | Some k \<Rightarrow> Some k),
    sb_largest_key := Some key, sb_filter_keys := sb_filter_keys b @ [user_key key],
    sb_current_block := block_add (sb_current_block b) key val, sb_num_entries := sb_num_entries b + 1\<rparr>"
  have inv1: "builder_inv X b1 c (es @ [(key, val)]) blks (pending @ [(key, val)])"
    using inv by (auto simp: builder_inv_def b1_def add_all_snoc opt_hd_append opt_last_append
        split: option.splits)
  have c1: "content_of e (sb_path b1) = Some c" using c by (simp add: b1_def)
  show ?thesis
  proof (cases "block_approximate_size (sb_current_block b1) \<ge> sb_block_size b1")
    case True
    with run have "flush_current_block X b1 e = (Inr b', e')"
      by (simp add: builder_add_def Let_def b1_def)
    from flush_block_inv [OF inv1 _ ok this c1] that show ?thesis
      by (auto simp: b1_def)
  next
    case False
    with run have "b' = b1" "e' = e"
      by (simp_all add: builder_add_def Let_def b1_def op_lift_def)
    with inv1 c that [of "[]"] show ?thesis by (simp add: b1_def)
  qed
qed

lemma builder_add_all_inv:
  assumes "builder_inv X b c es blks pending"
    and "list_all entry_ok (es @ new)" and "length (es @ new) < 2 ^ 32"
    and "builder_add_all X b new e = (Inr b', e')" and "content_of e (sb_path b) = Some c"
  shows "\<exists>d blks' pending'. content_of e' (sb_path b) = Some (c @ d) \<and>
    builder_inv X b' (c @ d) (es @ new) blks' pending' \<and> sb_path b' = sb_path b \<and>
    sb_compression b' = sb_compression b"
  using assms
proof (induction new arbitrary: b c es blks pending e)
  case Nil
  then show ?case by (auto simp: op_lift_def intro!: exI [of _ "[]"] exI [of _ blks] exI [of _ pending])
next
  case (Cons x new)
  obtain key val where x: "x = (key, val)" by fastforce
  from Cons.prems(4) obtain b1 e1 where add: "builder_add X b key val e = (Inr b1, e1)"
    and rest: "builder_add_all X b1 new e1 = (Inr b', e')" by (auto simp: x op_Inr_iffs)
  have ok: "list_all entry_ok (es @ [(key, val)])" "length (es @ [(key, val)]) < 2 ^ 32"
    using Cons.prems(2,3) by (simp_all add: x)
  from builder_add_inv [OF Cons.prems(1) ok add Cons.prems(5)]
  obtain d blks1 pending1 where 1: "content_of e1 (sb_path b) = Some (c @ d)"
    "builder_inv X b1 (c @ d) (es @ [(key, val)]) blks1 pending1"
    "sb_path b1 = sb_path b" "sb_compression b1 = sb_compression b" by metis
  from Cons.IH [OF 1(2) _ _ rest] Cons.prems(2,3) 1 obtain d' blks' pending' where
    "content_of e' (sb_path b) = Some ((c @ d) @ d')"
    "builder_inv X b' ((c @ d) @ d') ((es @ [(key, val)]) @ new) blks' pending'"
    "sb_path b' = sb_path b" "sb_compression b' = sb_compression b" by (auto simp: x)
  then show ?case by (intro exI [of _ "d @ d'"] exI [of _ blks'] exI [of _ pending']) (simp add: x)
qed

end

lemma length_concat_nonempty: "list_all (\<lambda>xs. xs \<noteq> []) xss \<Longrightarrow> length xss \<le> length (concat xss)"
proof (induction xss)
  case (Cons xs xss)
  then show ?case by (cases xs) auto
qed simp

lemma length_filter_from_keys:
  "length keys * DEFAULT_BITS_PER_KEY < 2 ^ 32 \<Longrightarrow> length (filter_from_keys keys) < 2 ^ 32"
proof -
  assume keys: "length keys * DEFAULT_BITS_PER_KEY < 2 ^ 32"
  let ?n = "max (length keys * DEFAULT_BITS_PER_KEY) 64"
  have "length (filter_from_keys keys) \<le> 10 + (?n + 7) div 8 + 1"
    using length_put_var_u64_le
    by (simp add: filter_from_keys_def build_bloom_filter_def Let_def put_var_u32_def)
  also have "\<dots> < 2 ^ 32" using keys by simp
  finally show ?thesis .
qed

lemma properties_encodable_of:
  assumes "list_all entry_ok es" and "length es * DEFAULT_BITS_PER_KEY < 2 ^ 32"
  shows "properties_encodable (properties_of es)"
proof -
  have "key_encodable (fst e)" if "e \<in> set es" for e
    using that assms(1) by (auto simp: list_all_iff entry_ok_def key_encodable_def)
  then show ?thesis
    using assms(2) length_filter_from_keys [of "map (user_key \<circ> fst) es"]
    by (auto simp: properties_encodable_def properties_of_def opt_hd_def opt_last_def split: list.split)
qed

lemma index_encodable_of:
  assumes "list_all2 (block_entry X c) idx blks" and "list_all entry_ok (concat blks)"
  shows "list_all index_encodable idx"
  using assms
proof (induction idx blks rule: list_all2_induct)
  case (Cons ie idx blk blks)
  then have "hd blk \<in> set blk" "last blk \<in> set blk" "\<forall>e\<in>set blk. entry_ok e"
    by (simp_all add: block_entry_def list_all_iff)
  then have "entry_ok (hd blk)" "entry_ok (last blk)" by blast+
  with Cons show ?case
    by (simp add: index_encodable_def block_entry_def entry_ok_def key_encodable_def)
qed simp

lemma content_of_sync: "sync_all p e = (Inr u, e') \<Longrightarrow> content_of e' p = content_of e p"
  by (auto simp: content_of_def option.map_comp o_def dest!: sync_all_ok)

context externals
begin

text \<open>The blocks written last: properties and index, both readable in the finished file.\<close>

lemma write_block_read:
  assumes "write_block X b blk e = (Inr (h, b'), e')" and "content_of e (sb_path b) = Some c"
    and "sb_offset b = word_of_nat (length c)"
  obtains d where "content_of e' (sb_path b) = Some (c @ d)"
    and "\<And>d'. length (c @ d) < 2 ^ 64 \<Longrightarrow> block_at X (c @ d @ d') h = Inr blk"
    and "b' = b\<lparr>sb_offset := word_of_nat (length (c @ d))\<rparr>"
proof (rule write_block_outcome [OF assms(1,2)])
  fix z
  assume z: "compress_block X blk (sb_compression b) = Inr z"
    and c': "content_of e' (sb_path b) = Some (c @ block_image X (sb_compression b) z)"
    and "h = \<lparr>bh_offset = sb_offset b, bh_size = word_of_nat (length z)\<rparr>"
      "b' = b\<lparr>sb_offset := sb_offset b + word_of_nat (length (block_image X (sb_compression b) z))\<rparr>"
  with assms(3) block_at_image [OF z] show ?thesis
    by (intro that [OF c']) simp_all
qed

lemma flush_inv:
  assumes inv: "builder_inv X b c es blks pending"
    and ok: "list_all entry_ok es" "length es < 2 ^ 32"
    and run: "flush_current_block X b e = (Inr b', e')" and c: "content_of e (sb_path b) = Some c"
  obtains c' blks' where "content_of e' (sb_path b) = Some c'" and "builder_inv X b' c' es blks' []"
    and "sb_path b' = sb_path b"
proof (cases "pending = []")
  case True
  then have "b' = b" "e' = e"
    using flush_empty_block [of X b c es blks] inv run by (simp_all add: op_lift_def)
  with True that inv c show ?thesis by simp
next
  case False
  show ?thesis by (rule flush_block_inv [OF inv False ok run c]) (rule that)
qed

end

lemma builder_finish_steps:
  assumes "builder_finish X b e = (Inr u, e')"
  obtains b1 e1 h2 b2 e2 h3 b3 e3 e4 u4 where "flush_current_block X b e = (Inr b1, e1)"
    and "write_block X b1 (properties_encode \<lparr>num_entries = sb_num_entries b1, smallest_key = sb_smallest_key b1,
      largest_key = sb_largest_key b1, filter_bytes = filter_from_keys (sb_filter_keys b1)\<rparr>) e1 = (Inr (h2, b2), e2)"
    and "write_block X b2 (encode_index_entries (sb_index_entries b2)) e2 = (Inr (h3, b3), e3)"
    and "write_all (sb_path b3) (encode_footer h2 h3) e3 = (Inr u4, e4)"
    and "sync_all (sb_path b3) e4 = (Inr u, e')"
proof -
  from assms obtain b1 e1 where 1: "flush_current_block X b e = (Inr b1, e1)"
    and r1: "op_then (write_block X b1 (properties_encode \<lparr>num_entries = sb_num_entries b1,
        smallest_key = sb_smallest_key b1, largest_key = sb_largest_key b1,
        filter_bytes = filter_from_keys (sb_filter_keys b1)\<rparr>)) (\<lambda>(properties_handle, b).
        op_then (write_block X b (encode_index_entries (sb_index_entries b))) (\<lambda>(index_handle, b).
        op_then (write_all (sb_path b) (encode_footer properties_handle index_handle)) (\<lambda>_.
          sync_all (sb_path b)))) e1 = (Inr u, e')"
    unfolding builder_finish_def Let_def op_then_eq_Inr [of "flush_current_block X b"] by blast
  from r1 obtain h2 b2 e2 where
    2: "write_block X b1 (properties_encode \<lparr>num_entries = sb_num_entries b1, smallest_key = sb_smallest_key b1,
      largest_key = sb_largest_key b1, filter_bytes = filter_from_keys (sb_filter_keys b1)\<rparr>) e1 = (Inr (h2, b2), e2)"
    and r2: "op_then (write_block X b2 (encode_index_entries (sb_index_entries b2))) (\<lambda>(index_handle, b).
        op_then (write_all (sb_path b) (encode_footer h2 index_handle)) (\<lambda>_. sync_all (sb_path b))) e2 = (Inr u, e')"
    unfolding op_then_eq_Inr_prod [of "write_block X b1 _"] by blast
  from r2 show ?thesis
    unfolding op_then_eq_Inr_prod [of "write_block X b2 _"] op_then_eq_Inr [of "write_all _ _"]
    using that [OF 1 2] by blast
qed

context externals
begin

lemma finish_table_with:
  assumes inv: "builder_inv X b c es blks []"
    and ok: "list_all entry_ok es" "length es * DEFAULT_BITS_PER_KEY < 2 ^ 32"
    and bound: "length (c @ d2 @ d3 @ encode_footer h2 h3) < 2 ^ 64"
    and h2: "block_at X (c @ d2 @ d3 @ encode_footer h2 h3) h2 = Inr (properties_encode (properties_of es))"
    and h3: "block_at X (c @ d2 @ d3 @ encode_footer h2 h3) h3 = Inr (encode_index_entries (sb_index_entries b))"
  shows "table_file X (c @ d2 @ d3 @ encode_footer h2 h3) es"
proof -
  let ?c = "c @ d2 @ d3 @ encode_footer h2 h3"
  from inv bound have blocks: "list_all2 (block_entry X c) (sb_index_entries b) blks"
    and dist: "distinct (index_offsets (sb_index_entries b))" and es: "concat blks = es"
    and nonempty: "list_all (\<lambda>blk. blk \<noteq> []) blks"
    by (simp_all add: builder_inv_def)
  have "length (sb_index_entries b) < 2 ^ 32"
    using list_all2_lengthD [OF blocks] length_concat_nonempty [OF nonempty] ok(2)
    by (simp add: es DEFAULT_BITS_PER_KEY_def)
  then have "decode_index_entries (encode_index_entries (sb_index_entries b)) = Inr (sb_index_entries b)"
    using index_encodable_of [OF blocks] ok(1) by (simp add: es decode_encode_index)
  moreover have "decode_footer (drop (length ?c - FOOTER_SIZE) ?c) = Inr (h2, h3)"
    by (simp add: decode_encode_footer)
  moreover have "FOOTER_SIZE \<le> length ?c" by simp
  moreover have "properties_decode (properties_encode (properties_of es)) = Inr (properties_of es)"
    using properties_encodable_of [OF ok] by (rule decode_encode_properties)
  moreover have "list_all2 (block_entry X ?c) (sb_index_entries b) blks"
    by (rule block_entries_append [OF blocks])
  ultimately have "table_with X ?c es (sb_index_entries b) blks"
    unfolding table_with_def h2 h3 using h2 h3 es dist by (intro conjI exI [of _ h2] exI [of _ h3]) simp_all
  then show ?thesis by (auto simp: table_file_def)
qed

lemma builder_finish_file:
  assumes inv: "builder_inv X b c es blks pending"
    and ok: "list_all entry_ok es" "length es * DEFAULT_BITS_PER_KEY < 2 ^ 32"
    and run: "builder_finish X b e = (Inr u, e')" and c: "content_of e (sb_path b) = Some c"
    and len: "\<And>c'. content_of e' (sb_path b) = Some c' \<Longrightarrow> length c' < 2 ^ 64"
  shows "\<exists>c'. content_of e' (sb_path b) = Some c' \<and> table_file X c' es"
proof (rule builder_finish_steps [OF run])
  fix b1 e1 h2 b2 e2 h3 b3 e3 e4 u4
  assume 1: "flush_current_block X b e = (Inr b1, e1)"
    and 2: "write_block X b1 (properties_encode \<lparr>num_entries = sb_num_entries b1, smallest_key = sb_smallest_key b1,
      largest_key = sb_largest_key b1, filter_bytes = filter_from_keys (sb_filter_keys b1)\<rparr>) e1 = (Inr (h2, b2), e2)"
    and 3: "write_block X b2 (encode_index_entries (sb_index_entries b2)) e2 = (Inr (h3, b3), e3)"
    and 4: "write_all (sb_path b3) (encode_footer h2 h3) e3 = (Inr u4, e4)"
    and 5: "sync_all (sb_path b3) e4 = (Inr u, e')"
  have "length es < 2 ^ 32" using ok(2) by (simp add: DEFAULT_BITS_PER_KEY_def)
  from flush_inv [OF inv ok(1) this 1 c] obtain c1 blks1 where c1: "content_of e1 (sb_path b1) = Some c1"
    and inv1: "builder_inv X b1 c1 es blks1 []" and p1: "sb_path b1 = sb_path b" by metis
  from inv1 have off: "sb_offset b1 = word_of_nat (length c1)" by (simp add: builder_inv_def)
  have props: "\<lparr>num_entries = sb_num_entries b1, smallest_key = sb_smallest_key b1,
      largest_key = sb_largest_key b1, filter_bytes = filter_from_keys (sb_filter_keys b1)\<rparr> = properties_of es"
    using inv1 by (simp add: builder_inv_def properties_of_def)
  from write_block_read [OF 2 c1 off] obtain d2 where c2: "content_of e2 (sb_path b1) = Some (c1 @ d2)"
    and read2: "\<And>d'. length (c1 @ d2) < 2 ^ 64 \<Longrightarrow> block_at X (c1 @ d2 @ d') h2 = Inr (properties_encode (properties_of es))"
    and b2: "b2 = b1\<lparr>sb_offset := word_of_nat (length (c1 @ d2))\<rparr>" unfolding props by metis
  from c2 have "content_of e2 (sb_path b2) = Some (c1 @ d2)" "sb_offset b2 = word_of_nat (length (c1 @ d2))"
    by (simp_all add: b2)
  from write_block_read [OF 3 this] obtain d3 where c3: "content_of e3 (sb_path b2) = Some ((c1 @ d2) @ d3)"
    and read3: "\<And>d'. length ((c1 @ d2) @ d3) < 2 ^ 64 \<Longrightarrow>
      block_at X ((c1 @ d2) @ d3 @ d') h3 = Inr (encode_index_entries (sb_index_entries b2))"
    and b3: "b3 = b2\<lparr>sb_offset := word_of_nat (length ((c1 @ d2) @ d3))\<rparr>" by metis
  let ?c = "c1 @ d2 @ d3 @ encode_footer h2 h3"
  have c': "content_of e' (sb_path b) = Some ?c"
    using content_of_sync [OF 5] content_of_write_all [OF 4] c3 by (simp add: b3 b2 p1)
  have bound: "length ?c < 2 ^ 64" using len [OF c'] .
  have "table_file X ?c es"
    using inv1 ok bound
  proof (rule finish_table_with)
    show "block_at X ?c h2 = Inr (properties_encode (properties_of es))"
      using bound by (intro read2) simp
    show "block_at X ?c h3 = Inr (encode_index_entries (sb_index_entries b1))"
      using read3 [of "encode_footer h2 h3"] bound by (simp add: b2)
  qed
  with c' show ?thesis by blast
qed

lemma build_table_file:
  assumes ok: "list_all entry_ok es" "length es * DEFAULT_BITS_PER_KEY < 2 ^ 32"
    and run: "build_table X p block_size cm es e = (Inr u, e')"
    and len: "\<And>c. content_of e' p = Some c \<Longrightarrow> length c < 2 ^ 64"
  shows "\<exists>c. content_of e' p = Some c \<and> table_file X c es"
proof -
  from run obtain b e1 b2 e2 where create: "builder_create_with_env p block_size cm e = (Inr b, e1)"
    and add: "builder_add_all X b es e1 = (Inr b2, e2)" and fin: "builder_finish X b2 e2 = (Inr u, e')"
    unfolding build_table_def op_then_eq_Inr by blast
  from create have b: "sb_path b = p" and e1: "content_of e1 p = Some []"
    and inv: "builder_inv X b [] [] [] []"
    by (auto simp: builder_create_with_env_def op_Inr_iffs content_of_def builder_inv_def add_all_def
        index_offsets_def dest!: open_writable_create)
  have "length es < 2 ^ 32" using ok(2) by (simp add: DEFAULT_BITS_PER_KEY_def)
  with builder_add_all_inv [OF inv _ _ add] ok(1) e1 obtain c blks pending where
    c: "content_of e2 p = Some c" and inv2: "builder_inv X b2 c es blks pending" and b2: "sb_path b2 = p"
    by (auto simp: b)
  from builder_finish_file [OF inv2 ok fin] c len show ?thesis by (simp add: b2)
qed

end

text \<open>A builder that finished has synced its file.\<close>

definition durable :: "env \<Rightarrow> path \<Rightarrow> bool" where
  "durable e p \<longleftrightarrow> (\<forall>f. env_files e p = Some f \<longrightarrow> file_synced f = length (file_content f))"

lemma write_block_path: "write_block X b blk e = (Inr (h, b'), e') \<Longrightarrow> sb_path b' = sb_path b"
  by (auto simp: write_block_def Let_def op_Inr_iffs)

lemma flush_path: "flush_current_block X b e = (Inr b', e') \<Longrightarrow> sb_path b' = sb_path b"
  by (auto simp: flush_current_block_def Let_def op_lift_eq_Inr op_then_eq_Inr_prod
      split: if_splits option.splits dest!: write_block_path)

lemma builder_finish_durable: "builder_finish X b e = (Inr u, e') \<Longrightarrow> durable e' (sb_path b)"
  by (elim builder_finish_steps)
    (auto simp: durable_def dest!: flush_path write_block_path sync_all_ok)

lemma builder_add_all_path: "builder_add_all X b es e = (Inr b', e') \<Longrightarrow> sb_path b' = sb_path b"
proof (induction es arbitrary: b e)
  case (Cons x es)
  obtain key val where x: "x = (key, val)" by fastforce
  from Cons.prems obtain b1 e1 where add: "builder_add X b key val e = (Inr b1, e1)"
    and rest: "builder_add_all X b1 es e1 = (Inr b', e')" by (auto simp: x op_then_eq_Inr)
  from add have "sb_path b1 = sb_path b"
    by (auto simp: builder_add_def Let_def op_lift_eq_Inr split: if_splits dest!: flush_path)
  with Cons.IH [OF rest] show ?case by simp
qed (simp add: op_lift_eq_Inr)

lemma build_table_durable:
  assumes "build_table X p block_size cm es e = (Inr u, e')"
  shows "durable e' p"
proof -
  from assms obtain b e1 b2 e2 where create: "builder_create_with_env p block_size cm e = (Inr b, e1)"
    and add: "builder_add_all X b es e1 = (Inr b2, e2)" and fin: "builder_finish X b2 e2 = (Inr u, e')"
    unfolding build_table_def op_then_eq_Inr by blast
  from create have "sb_path b = p"
    by (auto simp: builder_create_with_env_def op_Inr_iffs dest!: open_writable_create)
  with builder_finish_durable [OF fin] builder_add_all_path [OF add] show ?thesis by simp
qed

subsection \<open>The reader answers from the entries\<close>

definition reader_for :: "entry list \<Rightarrow> index_entry list \<Rightarrow> path \<Rightarrow> sstable_reader" where
  "reader_for es idx p =
     \<lparr>rd_path = p, rd_index = idx, rd_properties = properties_of es,
      rd_filter = filter_decode (filter_bytes (properties_of es))\<rparr>"

lemma open_readable_outcome:
  assumes "open_readable p e = (r, e')" and "content_of e p = Some c"
  shows "env_files e' = env_files e \<and>
    (r = Inl (Io OtherIo) \<and> env_faults e \<noteq> [] \<or> (\<exists>f. r = Inr f \<and> rf_content f = c)) \<and>
    (env_faults e = [] \<longrightarrow> e' = e)"
  using assms
  by (auto simp: open_readable_def faultable_def content_of_def take_fault_def split: option.splits prod.splits list.splits)

lemma read_block_content:
  "block_at X (rf_content f) h = r \<Longrightarrow> \<exists>f'. read_block X h f = (r, f') \<and> rf_content f' = rf_content f"
  using read_block_outcome [of X h f] by auto

lemma reader_open_file_outcome:
  assumes t: "table_with X c es idx blks" and f: "rf_content f = c"
  shows "FOOTER_SIZE \<le> file_len f \<and>
    fst (reader_open_file X p (file_seek_start (file_len f - FOOTER_SIZE) f)) = Inr (reader_for es idx p)"
proof -
  from t obtain ph ih pb ib where len: "FOOTER_SIZE \<le> length c"
    and footer: "decode_footer (drop (length c - FOOTER_SIZE) c) = Inr (ph, ih)"
    and p: "block_at X c ph = Inr pb" "properties_decode pb = Inr (properties_of es)"
    and i: "block_at X c ih = Inr ib" "decode_index_entries ib = Inr idx"
    by (auto simp: table_with_def result_simps)
  define f1 where "f1 = f\<lparr>rf_pos := length c - FOOTER_SIZE + FOOTER_SIZE\<rparr>"
  have read: "file_read_exact FOOTER_SIZE (file_seek_start (file_len f - FOOTER_SIZE) f) =
      (Inr (drop (length c - FOOTER_SIZE) c), f1)"
    using len f by (simp add: file_read_exact_def file_seek_start_def file_len_def f1_def)
  have "rf_content f1 = c" using f by (simp add: f1_def)
  with read_block_content [of X f1 ph] p obtain f2 where f2: "read_block X ph f1 = (Inr pb, f2)" "rf_content f2 = c"
    by auto
  with read_block_content [of X f2 ih] i obtain f3 where "read_block X ih f2 = (Inr ib, f3)" by auto
  with len f read footer p i f2 show ?thesis
    by (simp add: reader_open_file_def file_len_def op_then_def op_lift_def reader_for_def)
qed

lemma reader_open_outcome:
  assumes t: "table_with X c es idx blks" and c: "content_of e p = Some c"
    and run: "reader_open_with_env X p e = (r, e')"
  shows "env_files e' = env_files e \<and>
    (r = Inl (Io OtherIo) \<and> env_faults e \<noteq> [] \<or> r = Inr (reader_for es idx p)) \<and>
    (env_faults e = [] \<longrightarrow> e' = e)"
proof -
  obtain r1 e1 where o: "open_readable p e = (r1, e1)" by fastforce
  from open_readable_outcome [OF this c] consider
    "r1 = Inl (Io OtherIo)" "env_faults e \<noteq> []" "env_files e1 = env_files e"
    | f where "r1 = Inr f" "rf_content f = c" "env_files e1 = env_files e" "env_faults e = [] \<longrightarrow> e1 = e"
    by auto
  then show ?thesis
  proof cases
    case 1
    with o run show ?thesis by (auto simp: reader_open_with_env_def op_then_def)
  next
    case 2
    with o run reader_open_file_outcome [OF t 2(2), of p] show ?thesis
      by (auto simp: reader_open_with_env_def op_then_def op_lift_def Let_def)
  qed
qed

text \<open>
  A block cache is coherent with the tables that are open (contents and index by table
  number) when every cached block belongs to one of them and is what reading it from the
  file would give.
\<close>

type_synonym tables = "u64 \<Rightarrow> (bytes \<times> index_entry list) option"

definition cache_coherent :: "'m externs \<Rightarrow> tables \<Rightarrow> block_cache option \<Rightarrow> bool" where
  "cache_coherent X tabs cache \<longleftrightarrow>
     (\<forall>bc t c idx ie blk. cache = Some bc \<longrightarrow> tabs t = Some (c, idx) \<longrightarrow> ie \<in> set idx \<longrightarrow>
        map_of (bc_blocks bc) (t, bh_offset (ie_handle ie)) = Some blk \<longrightarrow>
        and_then (block_at X c (ie_handle ie)) block_decode = Inr blk) \<and>
     (\<forall>bc t off. cache = Some bc \<longrightarrow> map_of (bc_blocks bc) (t, off) \<noteq> None \<longrightarrow> tabs t \<noteq> None)"

lemma cache_coherent_None [simp]: "cache_coherent X tabs None"
  by (simp add: cache_coherent_def)

lemma cache_coherentD:
  "cache_coherent X tabs (Some bc) \<Longrightarrow> tabs t = Some (c, idx) \<Longrightarrow> ie \<in> set idx \<Longrightarrow>
   map_of (bc_blocks bc) (t, bh_offset (ie_handle ie)) = Some blk \<Longrightarrow>
   and_then (block_at X c (ie_handle ie)) block_decode = Inr blk"
  unfolding cache_coherent_def by blast

lemma cache_coherent_tabs:
  assumes "cache_coherent X tabs (Some bc)" and "map_of (bc_blocks bc) (t, off) = Some b"
  shows "tabs t \<noteq> None"
proof -
  have "map_of (bc_blocks bc) (t, off) \<noteq> None \<longrightarrow> tabs t \<noteq> None"
    using assms(1) unfolding cache_coherent_def by blast
  with assms(2) show ?thesis by simp
qed

lemma cache_coherent_stats:
  "bc_blocks bc' = bc_blocks bc \<Longrightarrow> cache_coherent X tabs (Some bc) \<Longrightarrow> cache_coherent X tabs (Some bc')"
  by (simp add: cache_coherent_def)

lemma index_offset_inj:
  "distinct (index_offsets idx) \<Longrightarrow> ie \<in> set idx \<Longrightarrow> ie' \<in> set idx \<Longrightarrow>
   bh_offset (ie_handle ie) = bh_offset (ie_handle ie') \<Longrightarrow> ie = ie'"
  by (auto simp: index_offsets_def distinct_map dest: inj_onD)

lemma cache_coherent_insert:
  assumes coh: "cache_coherent X tabs (Some bc)" and t: "tabs t = Some (c, idx)" and ie: "ie \<in> set idx"
    and dist: "distinct (index_offsets idx)"
    and blk: "and_then (block_at X c (ie_handle ie)) block_decode = Inr blk"
  shows "cache_coherent X tabs (Some (block_cache_insert t (bh_offset (ie_handle ie)) blk bc))"
  unfolding cache_coherent_def
proof (intro conjI allI impI; (simp only: option.inject)?)
  fix bc' t' off
  assume ins: "block_cache_insert t (bh_offset (ie_handle ie)) blk bc = bc'" "map_of (bc_blocks bc') (t', off) \<noteq> None"
  then obtain b where "map_of (bc_blocks bc') (t', off) = Some b" by blast
  with ins(1) have "t' = t \<or> map_of (bc_blocks bc) (t', off) = Some b"
    by (auto simp: block_cache_insert_def map_of_hash_insert split: if_splits dest: map_of_evict)
  with cache_coherent_tabs [OF coh, of t' off b] t show "tabs t' \<noteq> None" by auto
next
  fix bc' t' c' idx' ie' blk'
  assume bc': "block_cache_insert t (bh_offset (ie_handle ie)) blk bc = bc'"
    and t': "tabs t' = Some (c', idx')" and ie': "ie' \<in> set idx'"
    and get: "map_of (bc_blocks bc') (t', bh_offset (ie_handle ie')) = Some blk'"
  show "and_then (block_at X c' (ie_handle ie')) block_decode = Inr blk'"
  proof (cases "(t', bh_offset (ie_handle ie')) = (t, bh_offset (ie_handle ie))")
    case True
    with t t' ie ie' dist have "ie' = ie" "c' = c" by (auto dest: index_offset_inj)
    with get True blk bc' show ?thesis
      by (auto simp: block_cache_insert_def map_of_hash_insert)
  next
    case False
    with get bc' have "map_of (bc_blocks bc) (t', bh_offset (ie_handle ie')) = Some blk'"
      by (auto simp: block_cache_insert_def map_of_hash_insert split: if_splits dest: map_of_evict)
    with coh t' ie' show ?thesis by (auto dest: cache_coherentD)
  qed
qed

text \<open>Reading a block, from the cache or the file, gives the block and keeps the cache coherent.\<close>

lemma read_decoded_block_outcome:
  assumes coh: "cache_coherent X tabs cache" and t: "tabs t = Some (rf_content f, idx)"
    and ie: "ie \<in> set idx" and dist: "distinct (index_offsets idx)"
    and blk: "and_then (block_at X (rf_content f) (ie_handle ie)) block_decode = Inr blk"
  shows "\<exists>f' cache'. read_decoded_block X ie t fill (f, cache) = (Inr blk, (f', cache')) \<and>
    rf_content f' = rf_content f \<and> cache_coherent X tabs cache'"
proof -
  from blk obtain bs where bs: "block_at X (rf_content f) (ie_handle ie) = Inr bs" "block_decode bs = Inr blk"
    by (auto simp: result_simps)
  from read_block_content [OF bs(1)] obtain f' where f': "read_block X (ie_handle ie) f = (Inr bs, f')"
    "rf_content f' = rf_content f" by blast
  show ?thesis
  proof (cases "fill \<and> cache \<noteq> None")
    case False
    with f' bs coh show ?thesis by (cases cache) (auto simp: read_decoded_block_def)
  next
    case True
    then obtain bc where bc: "cache = Some bc" by blast
    obtain found bc1 where g: "block_cache_get t (bh_offset (ie_handle ie)) bc = (found, bc1)" by fastforce
    then have found: "found = map_of (bc_blocks bc) (t, bh_offset (ie_handle ie))"
      and coh1: "cache_coherent X tabs (Some bc1)"
      using coh by (auto simp: block_cache_get_def Let_def bc intro: cache_coherent_stats [of _ bc])
    show ?thesis
    proof (cases found)
      case None
      have "cache_coherent X tabs (Some (block_cache_insert t (bh_offset (ie_handle ie)) blk bc1))"
        by (rule cache_coherent_insert [OF coh1 t ie dist blk])
      with True None g f' bs show ?thesis by (simp add: read_decoded_block_def bc)
    next
      case (Some blk')
      then have "and_then (block_at X (rf_content f) (ie_handle ie)) block_decode = Inr blk'"
        using cache_coherentD [OF coh [unfolded bc] t ie] found by simp
      with blk have "blk' = blk" by simp
      with True Some g coh1 show ?thesis by (simp add: read_decoded_block_def bc)
    qed
  qed
qed

lemma block_key_range:
  assumes "sorted_entries blk" and "e \<in> set blk"
  shows "user_key (fst (hd blk)) \<le> user_key (fst e) \<and> user_key (fst e) \<le> user_key (fst (last blk))"
proof
  show "user_key (fst (hd blk)) \<le> user_key (fst e)"
    using assms by (cases blk) (auto intro!: user_key_mono intro: less_imp_le)
  show "user_key (fst e) \<le> user_key (fst (last blk))"
    using assms by (cases blk rule: rev_cases) (auto simp: sorted_wrt_append intro!: user_key_mono intro: less_imp_le)
qed

lemma find_outside_block:
  assumes "sorted_entries blk" and "block_entry X c ie blk" and "\<not> index_may_contain_user_key ie key"
  shows "find (version_of key s) blk = None"
  using assms block_key_range [OF assms(1)]
  by (force simp: find_None_iff version_of_def index_may_contain_user_key_def block_entry_def)

lemma find_append: "find P (xs @ ys) = (case find P xs of None \<Rightarrow> find P ys | Some x \<Rightarrow> Some x)"
  by (induction xs) auto

lemma version_of_eta: "(\<lambda>e. user_key (fst e) = key \<and> sequence (fst e) \<le> s) = version_of key s"
  by (auto simp: version_of_def)

lemma get_in_blocks_outcome:
  assumes "list_all2 (block_entry X c) idx' blks" and "set idx' \<subseteq> set idx" and "list_all sorted_entries blks"
    and "cache_coherent X tabs cache" and "tabs t = Some (c, idx)" and "distinct (index_offsets idx)"
    and "rf_content f = c"
  shows "\<exists>f' cache'. get_in_blocks X idx' key s t fill (f, cache) =
      (Inr (map_option snd (find (version_of key s) (concat blks))), (f', cache')) \<and> cache_coherent X tabs cache'"
  using assms
proof (induction idx' blks arbitrary: f cache rule: list_all2_induct)
  case Nil
  then show ?case by (auto simp: op_lift_def)
next
  case (Cons ie idx' blk blks)
  show ?case
  proof (cases "index_may_contain_user_key ie key")
    case False
    with Cons find_outside_block [of blk X c ie key s] show ?thesis by (simp add: find_append)
  next
    case True
    have "and_then (block_at X (rf_content f) (ie_handle ie)) block_decode = Inr blk"
      using Cons.hyps(1) Cons.prems(6) by (simp add: block_entry_def)
    with Cons.prems obtain f1 cache1 where
      rd: "read_decoded_block X ie t fill (f, cache) = (Inr blk, (f1, cache1))"
      "rf_content f1 = rf_content f" "cache_coherent X tabs cache1"
      using read_decoded_block_outcome [of X tabs cache t f idx ie blk fill] by auto
    show ?thesis
    proof (cases "find (version_of key s) blk")
      case None
      with Cons.IH [of cache1 f1] Cons.prems rd True show ?thesis
        by (simp add: find_append version_of_eta op_then_def)
    next
      case (Some e)
      with rd True show ?thesis
        by (cases e) (simp add: find_append version_of_eta op_then_def op_lift_def)
    qed
  qed
qed

lemma entries_in_blocks_outcome:
  assumes "list_all2 (block_entry X c) idx' blks" and "set idx' \<subseteq> set idx"
    and "cache_coherent X tabs cache" and "tabs t = Some (c, idx)" and "distinct (index_offsets idx)"
    and "rf_content f = c"
  shows "\<exists>f' cache'. entries_in_blocks X idx' t fill (f, cache) =
      (Inr (concat blks), (f', cache')) \<and> cache_coherent X tabs cache'"
  using assms
proof (induction idx' blks arbitrary: f cache rule: list_all2_induct)
  case Nil
  then show ?case by (auto simp: op_lift_def)
next
  case (Cons ie idx' blk blks)
  have "and_then (block_at X (rf_content f) (ie_handle ie)) block_decode = Inr blk"
    using Cons.hyps(1) Cons.prems(5) by (simp add: block_entry_def)
  with Cons.prems obtain f1 cache1 where
    rd: "read_decoded_block X ie t fill (f, cache) = (Inr blk, (f1, cache1))"
    "rf_content f1 = rf_content f" "cache_coherent X tabs cache1"
    using read_decoded_block_outcome [of X tabs cache t f idx ie blk fill] by auto
  with Cons.IH [of cache1 f1] Cons.prems show ?case by (auto simp: op_then_def op_lift_def)
qed

lemma sorted_concat_blocks: "sorted_entries (concat blks) \<Longrightarrow> list_all sorted_entries blks"
  by (induction blks) (auto simp: sorted_wrt_append)

lemma might_contain_cases:
  assumes "length es * DEFAULT_BITS_PER_KEY < 2 ^ 32"
  shows "might_contain (reader_for es idx p) key = Inr True \<or>
    might_contain (reader_for es idx p) key = Inr False \<and> lookup_at es key s = None"
proof -
  have mc: "might_contain (reader_for es idx p) key =
      filter_may_contain (filter_decode (filter_from_keys (map (user_key \<circ> fst) es))) key"
    by (simp add: might_contain_def reader_for_def properties_of_def)
  show ?thesis
  proof (cases "key \<in> set (map (user_key \<circ> fst) es)")
    case True
    then show ?thesis using filter_member [OF True] assms by (simp add: mc)
  next
    case False
    then have "lookup_at es key s = None"
      by (auto simp: lookup_at_None_iff version_of_def)
    moreover obtain b where "might_contain (reader_for es idx p) key = Inr b"
      using filter_total [of "map (user_key \<circ> fst) es" key] assms by (auto simp: mc)
    ultimately show ?thesis by (cases b) simp_all
  qed
qed

lemma with_file_outcome:
  assumes c: "content_of e p = Some c" and run: "with_file p m (e, cache) = (r, (e', cache'))"
    and coh: "cache_coherent X tabs cache"
    and m: "\<And>f. rf_content f = c \<Longrightarrow>
      \<exists>f' cache'. m (f, cache) = (Inr x, (f', cache')) \<and> cache_coherent X tabs cache'"
  shows "env_files e' = env_files e \<and> cache_coherent X tabs cache' \<and>
    (r = Inr x \<or> r = Inl (Io OtherIo) \<and> env_faults e \<noteq> []) \<and> (env_faults e = [] \<longrightarrow> e' = e)"
proof -
  obtain r1 e1 where o: "open_readable p e = (r1, e1)" by fastforce
  from open_readable_outcome [OF this c] consider
    "r1 = Inl (Io OtherIo)" "env_faults e \<noteq> []" "env_files e1 = env_files e"
    | f where "r1 = Inr f" "rf_content f = c" "env_files e1 = env_files e" "env_faults e = [] \<longrightarrow> e1 = e"
    by auto
  then show ?thesis
  proof cases
    case 1
    with o run coh show ?thesis by (auto simp: with_file_def)
  next
    case 2
    from m [OF 2(2)] obtain f' cache2 where "m (f, cache) = (Inr x, (f', cache2))" "cache_coherent X tabs cache2"
      by blast
    with 2 o run show ?thesis by (auto simp: with_file_def)
  qed
qed

lemma get_with_cache_outcome:
  assumes t: "table_with X c es idx blks" and sorted: "sorted_entries es"
    and few: "length es * DEFAULT_BITS_PER_KEY < 2 ^ 32" and c: "content_of e p = Some c"
    and coh: "cache_coherent X tabs cache" and tab: "tabs n = Some (c, idx)"
    and run: "get_with_cache X (reader_for es idx p) key s n fill (e, cache) = (r, (e', cache'))"
  shows "env_files e' = env_files e \<and> cache_coherent X tabs cache' \<and>
    (r = Inr (lookup_at es key s) \<or> r = Inl (Io OtherIo) \<and> env_faults e \<noteq> []) \<and> (env_faults e = [] \<longrightarrow> e' = e)"
proof -
  have blocks: "list_all2 (block_entry X c) idx blks" and es: "concat blks = es"
    and dist: "distinct (index_offsets idx)" using t by (simp_all add: table_with_def)
  consider "might_contain (reader_for es idx p) key = Inr True"
    | "might_contain (reader_for es idx p) key = Inr False" "lookup_at es key s = None"
    using might_contain_cases [OF few, of idx p key s] by (elim disjE) auto
  then show ?thesis
  proof cases
    case 1
    then have run': "with_file p (get_in_blocks X idx key s n fill) (e, cache) = (r, (e', cache'))"
      using run by (simp add: get_with_cache_def op_then_def op_lift_def reader_for_def)
    have "lookup_at es key s = map_option snd (find (version_of key s) (concat blks))"
      using sorted by (simp add: lookup_at_sorted sorted_entries_le es)
    moreover have "list_all sorted_entries blks"
      using sorted es sorted_concat_blocks by blast
    ultimately show ?thesis
      using get_in_blocks_outcome [OF blocks subset_refl _ coh tab dist]
      by (intro with_file_outcome [OF c run' coh]) simp
  next
    case 2
    with run coh show ?thesis by (auto simp: get_with_cache_def op_then_def op_lift_def)
  qed
qed

lemma entries_with_cache_outcome:
  assumes t: "table_with X c es idx blks" and c: "content_of e p = Some c"
    and coh: "cache_coherent X tabs cache" and tab: "tabs n = Some (c, idx)"
    and run: "entries_with_cache X (reader_for es idx p) n fill (e, cache) = (r, (e', cache'))"
  shows "env_files e' = env_files e \<and> cache_coherent X tabs cache' \<and>
    (r = Inr es \<or> r = Inl (Io OtherIo) \<and> env_faults e \<noteq> []) \<and> (env_faults e = [] \<longrightarrow> e' = e)"
proof -
  have blocks: "list_all2 (block_entry X c) idx blks" and es: "concat blks = es"
    and dist: "distinct (index_offsets idx)" using t by (simp_all add: table_with_def)
  from run have run': "with_file p (entries_in_blocks X idx n fill) (e, cache) = (r, (e', cache'))"
    by (simp add: entries_with_cache_def reader_for_def)
  show ?thesis
    by (rule with_file_outcome [OF c run' coh])
      (use entries_in_blocks_outcome [OF blocks _ coh tab dist] es in simp)
qed

subsection \<open>Properties\<close>

text \<open>
  C21: a table build that succeeds leaves a complete and synced table file with exactly the
  entries added, for every block size and both compression modes, whatever faults other
  calls met.
\<close>

theorem sstable_build_correct:
  fixes X :: "'m externs"
  assumes "externals X" and "list_all entry_ok es" and "length es * DEFAULT_BITS_PER_KEY < 2 ^ 32"
    and "build_table X p block_size cm es e = (Inr u, e')"
    and "\<And>c. content_of e' p = Some c \<Longrightarrow> length c < 2 ^ 64"
  shows "\<exists>f. env_files e' p = Some f \<and> table_file X (file_content f) es \<and>
    file_synced f = length (file_content f)"
  using externals.build_table_file [OF assms] build_table_durable [OF assms(4)]
  by (auto simp: content_of_def durable_def)

definition demo_env :: env where
  "demo_env = \<lparr>env_files = (\<lambda>_. None), env_dirs = [], env_faults = [], read_chunk = (\<lambda>_ n. n)\<rparr>"

definition demo_entries :: "entry list" where
  "demo_entries = [(InternalKey [1] 5 TypePut, Put [7])]"

definition demo_externs :: "entry list externs" where
  "demo_externs = btree_externs (\<lambda>bs. word_of_nat (length bs))"

definition demo_build :: "unit result \<times> env" where
  "demo_build = build_table demo_externs ''t'' 4096 NoCompression demo_entries demo_env"

lemma demo_build_ok:
  "fst demo_build = Inr () \<and> env_faults (snd demo_build) = [] \<and>
   (case content_of (snd demo_build) ''t'' of None \<Rightarrow> False | Some c \<Rightarrow> length c < 200)"
  by code_simp

lemma demo_ok:
  "externals demo_externs" "list_all entry_ok demo_entries" "sorted_entries demo_entries"
  "length demo_entries * DEFAULT_BITS_PER_KEY < 2 ^ 32"
  "build_table demo_externs ''t'' 4096 NoCompression demo_entries demo_env = (Inr (), snd demo_build)"
  "\<And>c. content_of (snd demo_build) ''t'' = Some c \<Longrightarrow> length c < 2 ^ 64"
  using demo_build_ok prod.collapse [of demo_build]
  by (auto simp: demo_externs_def btree_ext.externals_axioms demo_entries_def entry_ok_def
      DEFAULT_BITS_PER_KEY_def demo_build_def split: option.splits)

theorem sstable_build_correct_witness:
  "\<exists>f. env_files (snd demo_build) ''t'' = Some f \<and>
     table_file demo_externs (file_content f) demo_entries \<and> file_synced f = length (file_content f)"
  by (rule sstable_build_correct [OF demo_ok(1,2,4,5,6)])

text \<open>
  C20: opening and reading a table file gives what the entries say: a point lookup returns
  the newest version visible at the read sequence, the listing returns all entries in order,
  and the reader's smallest and largest keys are those of the first and last entry.
\<close>

theorem sstable_read_correct:
  assumes "table_file X c es" and "sorted_entries es" and "length es * DEFAULT_BITS_PER_KEY < 2 ^ 32"
    and "content_of e p = Some c" and "env_faults e = []"
  shows "\<exists>rd. reader_open_with_env X p e = (Inr rd, e) \<and>
    reader_get X rd key s e = (Inr (lookup_at es key s), e) \<and> reader_entries X rd e = (Inr es, e) \<and>
    reader_smallest_key rd = map_option fst (opt_hd es) \<and> reader_largest_key rd = map_option fst (opt_last es)"
proof -
  from assms(1) obtain idx blks where t: "table_with X c es idx blks" by (auto simp: table_file_def)
  let ?rd = "reader_for es idx p" and ?tabs = "\<lambda>_. Some (c, idx)"
  have "reader_open_with_env X p e = (Inr ?rd, e)"
    using reader_open_outcome [OF t assms(4)] assms(5) by (cases "reader_open_with_env X p e") auto
  moreover obtain r e1 c1 where g: "get_with_cache X ?rd key s 0 False (e, None) = (r, (e1, c1))"
    by (metis surj_pair)
  then have "reader_get X ?rd key s e = (Inr (lookup_at es key s), e)"
    using get_with_cache_outcome [OF t assms(2-4) _ _ g, of ?tabs] assms(5) by (simp add: reader_get_def)
  moreover obtain r' e2 c2 where "entries_with_cache X ?rd 0 True (e, None) = (r', (e2, c2))"
    by (metis surj_pair)
  then have "reader_entries X ?rd e = (Inr es, e)"
    using entries_with_cache_outcome [OF t assms(4), of ?tabs None 0 True r' e2 c2] assms(5)
    by (simp add: reader_entries_def)
  ultimately show ?thesis
    by (intro exI [of _ ?rd])
      (simp add: reader_for_def reader_smallest_key_def reader_largest_key_def properties_of_def)
qed

theorem sstable_read_correct_witness:
  "\<exists>rd. reader_open_with_env demo_externs ''t'' (snd demo_build) = (Inr rd, snd demo_build) \<and>
     reader_get demo_externs rd [1] 9 (snd demo_build) = (Inr (Some (Put [7])), snd demo_build)"
proof -
  obtain c where c: "content_of (snd demo_build) ''t'' = Some c" "table_file demo_externs c demo_entries"
    using externals.build_table_file [OF demo_ok(1,2,4,5,6)] by blast
  have "lookup_at demo_entries [1] 9 = Some (Put [7])" by code_simp
  with sstable_read_correct [OF c(2) demo_ok(3,4) c(1), of "[1]" 9] demo_build_ok show ?thesis by auto
qed

end
