(* ===== verification/Iterators.thy ===== *)
theory Iterators
  imports Env Memtable Block
begin

section \<open>Iterators (iterator/)\<close>

text \<open>
  \<^verbatim>\<open>src/src/iterator/\<close>: the trait \<^verbatim>\<open>StorageIterator\<close> is the record
  \<open>storage_iterator\<close> of its operations (the vtable of a trait object); an operation that
  can fail or that touches shared state (the block cache) threads that state \<open>'s\<close>.
  \<^verbatim>\<open>EntryIterator\<close>, \<^verbatim>\<open>MergeIterator\<close>, \<^verbatim>\<open>TwoMergeIterator\<close>
  and \<^verbatim>\<open>ConcatIterator\<close> implement it; \<^verbatim>\<open>DBIterator\<close> turns a stream of
  versions into visible rows.  Children of different types in one list of trait objects are
  a sum type (\<open>sum_iter\<close>).  An iterator whose operation returned an error is not used
  again, so no iterator is returned with an error.

  The contract is the locale \<open>iterating\<close>: an iterator stands for the entries it has left
  (\<open>rest\<close>) among all its entries (\<open>all\<close>), sorted by key.  Merging is the stable sort
  of all the children's entries, and \<^verbatim>\<open>DBIterator\<close> collects exactly the rows a scan
  should return.
\<close>

subsection \<open>The trait\<close>

record ('i, 's) storage_iterator =
  si_is_valid :: "'i \<Rightarrow> bool"
  si_key :: "'i \<Rightarrow> internal_key result"
  si_value :: "'i \<Rightarrow> value_record result"
  si_next :: "'i \<Rightarrow> ('s, 'i) op"
  si_seek :: "internal_key \<Rightarrow> 'i \<Rightarrow> ('s, 'i) op"

subsection \<open>EntryIterator\<close>

record entry_iterator =
  ei_entries :: "entry list"
  ei_index :: nat

definition entry_iter_new :: "entry list \<Rightarrow> entry_iterator" where
  "entry_iter_new entries = \<lparr>ei_entries = sort_key fst entries, ei_index = 0\<rparr>"

definition entry_iter_is_valid :: "entry_iterator \<Rightarrow> bool" where
  "entry_iter_is_valid it = (ei_index it < length (ei_entries it))"

definition entry_iter_key :: "entry_iterator \<Rightarrow> internal_key result" where
  "entry_iter_key it =
     (if ei_index it < length (ei_entries it) then Inr (fst (ei_entries it ! ei_index it))
      else Inl (Panic ''index out of bounds''))"

definition entry_iter_value :: "entry_iterator \<Rightarrow> value_record result" where
  "entry_iter_value it =
     (if ei_index it < length (ei_entries it) then Inr (snd (ei_entries it ! ei_index it))
      else Inl (Panic ''index out of bounds''))"

definition entry_iter_next :: "entry_iterator \<Rightarrow> ('s, entry_iterator) op" where
  "entry_iter_next it =
     op_lift (Inr (if ei_index it < length (ei_entries it) then it\<lparr>ei_index := ei_index it + 1\<rparr> else it))"

definition entry_iter_seek :: "internal_key \<Rightarrow> entry_iterator \<Rightarrow> ('s, entry_iterator) op" where
  "entry_iter_seek key it =
     op_lift (Inr (it\<lparr>ei_index := partition_point (\<lambda>e. fst e < key) (ei_entries it)\<rparr>))"

definition entry_iter :: "(entry_iterator, 's) storage_iterator" where
  "entry_iter = \<lparr>si_is_valid = entry_iter_is_valid, si_key = entry_iter_key, si_value = entry_iter_value,
     si_next = entry_iter_next, si_seek = entry_iter_seek\<rparr>"

subsection \<open>MergeIterator and TwoMergeIterator\<close>

record 'i merge_iterator =
  mi_children :: "'i list"
  mi_current :: "nat option"

definition better_child :: "nat \<times> internal_key \<Rightarrow> nat \<times> internal_key \<Rightarrow> nat \<times> internal_key" where
  "better_child best cand =
     (if then_with (internal_key_cmp (snd best) (snd cand)) (ord_cmp (fst best) (fst cand)) = Greater
      then cand else best)"

fun pick_min :: "('i, 's) storage_iterator \<Rightarrow> nat \<Rightarrow> 'i list \<Rightarrow> (nat \<times> internal_key) option \<Rightarrow>
  (nat \<times> internal_key) option result" where
  "pick_min it index [] best = Inr best"
| "pick_min it index (child # children) best =
     (if \<not> si_is_valid it child then pick_min it (index + 1) children best
      else and_then (si_key it child) (\<lambda>key.
        pick_min it (index + 1) children
          (case best of None \<Rightarrow> Some (index, key) | Some b \<Rightarrow> Some (better_child b (index, key)))))"

definition pick_current :: "('i, 's) storage_iterator \<Rightarrow> 'i list \<Rightarrow> 'i merge_iterator result" where
  "pick_current it children =
     and_then (pick_min it 0 children None) (\<lambda>best.
       Inr \<lparr>mi_children = children, mi_current = map_option fst best\<rparr>)"

definition merge_iter_new :: "('i, 's) storage_iterator \<Rightarrow> 'i list \<Rightarrow> 'i merge_iterator result" where
  "merge_iter_new it children = pick_current it children"

definition merge_is_valid :: "'i merge_iterator \<Rightarrow> bool" where
  "merge_is_valid m = (mi_current m \<noteq> None)"

definition current_child :: "'i merge_iterator \<Rightarrow> 'i result" where
  "current_child m =
     (case mi_current m of
        None \<Rightarrow> Inl (Panic ''valid merge iterator'')
      | Some i \<Rightarrow> if i < length (mi_children m) then Inr (mi_children m ! i)
                 else Inl (Panic ''index out of bounds''))"

definition merge_key :: "('i, 's) storage_iterator \<Rightarrow> 'i merge_iterator \<Rightarrow> internal_key result" where
  "merge_key it m = and_then (current_child m) (si_key it)"

definition merge_value :: "('i, 's) storage_iterator \<Rightarrow> 'i merge_iterator \<Rightarrow> value_record result" where
  "merge_value it m = and_then (current_child m) (si_value it)"

definition merge_next :: "('i, 's) storage_iterator \<Rightarrow> 'i merge_iterator \<Rightarrow> ('s, 'i merge_iterator) op" where
  "merge_next it m =
     (case mi_current m of
        None \<Rightarrow> op_lift (pick_current it (mi_children m))
      | Some i \<Rightarrow>
          op_then (op_lift (current_child m)) (\<lambda>child.
          op_then (si_next it child) (\<lambda>child.
            op_lift (pick_current it ((mi_children m)[i := child])))))"

fun seek_children :: "('i, 's) storage_iterator \<Rightarrow> internal_key \<Rightarrow> 'i list \<Rightarrow> ('s, 'i list) op" where
  "seek_children it key [] = op_lift (Inr [])"
| "seek_children it key (child # children) =
     op_then (si_seek it key child) (\<lambda>child.
     op_then (seek_children it key children) (\<lambda>children. op_lift (Inr (child # children))))"

definition merge_seek :: "('i, 's) storage_iterator \<Rightarrow> internal_key \<Rightarrow> 'i merge_iterator \<Rightarrow> ('s, 'i merge_iterator) op" where
  "merge_seek it key m =
     op_then (seek_children it key (mi_children m)) (\<lambda>children. op_lift (pick_current it children))"

definition merge_iter :: "('i, 's) storage_iterator \<Rightarrow> ('i merge_iterator, 's) storage_iterator" where
  "merge_iter it = \<lparr>si_is_valid = merge_is_valid, si_key = merge_key it, si_value = merge_value it,
     si_next = merge_next it, si_seek = merge_seek it\<rparr>"

definition two_merge_iter_new :: "('i, 's) storage_iterator \<Rightarrow> 'i \<Rightarrow> 'i \<Rightarrow> 'i merge_iterator result" where
  "two_merge_iter_new it left right = merge_iter_new it [left, right]"

subsection \<open>ConcatIterator\<close>

record 'i concat_iterator =
  ci_children :: "'i list"
  ci_current :: nat

function skip_empty :: "('i, 's) storage_iterator \<Rightarrow> 'i concat_iterator \<Rightarrow> 'i concat_iterator" where
  "skip_empty it c =
     (if ci_current c < length (ci_children c) \<and> \<not> si_is_valid it (ci_children c ! ci_current c)
      then skip_empty it (c\<lparr>ci_current := ci_current c + 1\<rparr>) else c)"
  by pat_completeness auto
termination
  by (relation "measure (\<lambda>(it, c). length (ci_children c) - ci_current c)") auto

declare skip_empty.simps [simp del]

definition concat_iter_new :: "('i, 's) storage_iterator \<Rightarrow> 'i list \<Rightarrow> 'i concat_iterator" where
  "concat_iter_new it children = skip_empty it \<lparr>ci_children = children, ci_current = 0\<rparr>"

definition concat_is_valid :: "('i, 's) storage_iterator \<Rightarrow> 'i concat_iterator \<Rightarrow> bool" where
  "concat_is_valid it c =
     (ci_current c < length (ci_children c) \<and> si_is_valid it (ci_children c ! ci_current c))"

definition concat_key :: "('i, 's) storage_iterator \<Rightarrow> 'i concat_iterator \<Rightarrow> internal_key result" where
  "concat_key it c =
     (if ci_current c < length (ci_children c) then si_key it (ci_children c ! ci_current c)
      else Inl (Panic ''index out of bounds''))"

definition concat_value :: "('i, 's) storage_iterator \<Rightarrow> 'i concat_iterator \<Rightarrow> value_record result" where
  "concat_value it c =
     (if ci_current c < length (ci_children c) then si_value it (ci_children c ! ci_current c)
      else Inl (Panic ''index out of bounds''))"

definition concat_next :: "('i, 's) storage_iterator \<Rightarrow> 'i concat_iterator \<Rightarrow> ('s, 'i concat_iterator) op" where
  "concat_next it c =
     (if ci_current c < length (ci_children c)
      then op_then (si_next it (ci_children c ! ci_current c)) (\<lambda>child.
        op_lift (Inr (skip_empty it (c\<lparr>ci_children := (ci_children c)[ci_current c := child]\<rparr>))))
      else op_lift (Inr c))"

fun concat_seek_from :: "('i, 's) storage_iterator \<Rightarrow> internal_key \<Rightarrow> nat \<Rightarrow> 'i list \<Rightarrow> ('s, 'i list \<times> nat) op" where
  "concat_seek_from it key index [] = op_lift (Inr ([], index))"
| "concat_seek_from it key index (child # children) =
     op_then (si_seek it key child) (\<lambda>child.
       if si_is_valid it child then op_lift (Inr (child # children, index))
       else op_then (concat_seek_from it key (index + 1) children) (\<lambda>(children, current).
         op_lift (Inr (child # children, current))))"

definition concat_seek :: "('i, 's) storage_iterator \<Rightarrow> internal_key \<Rightarrow> 'i concat_iterator \<Rightarrow> ('s, 'i concat_iterator) op" where
  "concat_seek it key c =
     op_then (concat_seek_from it key 0 (ci_children c)) (\<lambda>(children, current).
       op_lift (Inr \<lparr>ci_children = children, ci_current = current\<rparr>))"

definition concat_iter :: "('i, 's) storage_iterator \<Rightarrow> ('i concat_iterator, 's) storage_iterator" where
  "concat_iter it = \<lparr>si_is_valid = concat_is_valid it, si_key = concat_key it, si_value = concat_value it,
     si_next = concat_next it, si_seek = concat_seek it\<rparr>"

subsection \<open>Children of two types\<close>

definition sum_iter :: "('i, 's) storage_iterator \<Rightarrow> ('j, 's) storage_iterator \<Rightarrow> ('i + 'j, 's) storage_iterator" where
  "sum_iter l r =
     \<lparr>si_is_valid = case_sum (si_is_valid l) (si_is_valid r),
      si_key = case_sum (si_key l) (si_key r),
      si_value = case_sum (si_value l) (si_value r),
      si_next = case_sum (\<lambda>i. op_then (si_next l i) (\<lambda>i. op_lift (Inr (Inl i))))
                         (\<lambda>j. op_then (si_next r j) (\<lambda>j. op_lift (Inr (Inr j)))),
      si_seek = (\<lambda>key. case_sum (\<lambda>i. op_then (si_seek l key i) (\<lambda>i. op_lift (Inr (Inl i))))
                         (\<lambda>j. op_then (si_seek r key j) (\<lambda>j. op_lift (Inr (Inr j)))))\<rparr>"

subsection \<open>DBIterator\<close>

record 'i db_iterator =
  di_inner :: 'i
  di_lower :: "bytes bound"
  di_upper :: "bytes bound"
  di_read_seq :: u64
  di_seen :: "bytes set"
  di_current :: "(bytes \<times> bytes) option"

definition lower_bound_seek_key :: "bytes bound \<Rightarrow> internal_key option" where
  "lower_bound_seek_key lower =
     (case lower of
        Included key \<Rightarrow> Some (InternalKey key (- 1) TypePut)
      | Excluded key \<Rightarrow> Some (InternalKey key 0 TypeDelete)
      | Unbounded \<Rightarrow> None)"

definition seek_to_lower_bound :: "('i, 's) storage_iterator \<Rightarrow> 'i db_iterator \<Rightarrow> ('s, 'i db_iterator) op" where
  "seek_to_lower_bound it d =
     (case lower_bound_seek_key (di_lower d) of
        None \<Rightarrow> op_lift (Inr d)
      | Some target \<Rightarrow> op_then (si_seek it target (di_inner d)) (\<lambda>inner. op_lift (Inr (d\<lparr>di_inner := inner\<rparr>))))"

text \<open>
  The loop of \<^verbatim>\<open>advance_to_next_visible\<close> ends because the iterator below runs out of
  entries; nothing bounds it in the code, so the model runs it with fuel and returns
  \<open>None\<close> when that is used up.  The lemmas show that fuel above the number of entries left
  is enough.
\<close>

fun advance_loop :: "('i, 's) storage_iterator \<Rightarrow> nat \<Rightarrow> 'i db_iterator \<Rightarrow> 's \<Rightarrow> ('i db_iterator result \<times> 's) option" where
  "advance_loop it 0 d s = None"
| "advance_loop it (Suc fuel) d s =
     (if \<not> si_is_valid it (di_inner d) then Some (Inr d, s)
      else case (si_key it (di_inner d), si_value it (di_inner d)) of
        (Inl e, _) \<Rightarrow> Some (Inl e, s)
      | (_, Inl e) \<Rightarrow> Some (Inl e, s)
      | (Inr internal_key, Inr val) \<Rightarrow>
        (case si_next it (di_inner d) s of
           (Inl e, s) \<Rightarrow> Some (Inl e, s)
         | (Inr inner, s) \<Rightarrow>
             let d = d\<lparr>di_inner := inner\<rparr> in
             if sequence internal_key > di_read_seq d then advance_loop it fuel d s
             else if \<not> within_bounds (user_key internal_key) (di_lower d) (di_upper d)
             then advance_loop it fuel d s
             else if user_key internal_key \<in> di_seen d then advance_loop it fuel d s
             else
               let d = d\<lparr>di_seen := insert (user_key internal_key) (di_seen d)\<rparr> in
               case val of
                 Put v \<Rightarrow> Some (Inr (d\<lparr>di_current := Some (user_key internal_key, v)\<rparr>), s)
               | Delete \<Rightarrow> advance_loop it fuel d s))"

definition advance_to_next_visible :: "('i, 's) storage_iterator \<Rightarrow> nat \<Rightarrow> 'i db_iterator \<Rightarrow> 's \<Rightarrow>
  ('i db_iterator result \<times> 's) option" where
  "advance_to_next_visible it fuel d s = advance_loop it fuel (d\<lparr>di_current := None\<rparr>) s"

definition db_iter_try_new :: "('i, 's) storage_iterator \<Rightarrow> nat \<Rightarrow> 'i \<Rightarrow> bytes bound \<Rightarrow> bytes bound \<Rightarrow> u64 \<Rightarrow> 's \<Rightarrow>
  ('i db_iterator result \<times> 's) option" where
  "db_iter_try_new it fuel inner lower upper read_seq s =
     (let d = \<lparr>di_inner = inner, di_lower = lower, di_upper = upper, di_read_seq = read_seq,
                di_seen = {}, di_current = None\<rparr> in
      case seek_to_lower_bound it d s of
        (Inl e, s) \<Rightarrow> Some (Inl e, s)
      | (Inr d, s) \<Rightarrow> advance_to_next_visible it fuel d s)"

definition db_iter_is_valid :: "'i db_iterator \<Rightarrow> bool" where
  "db_iter_is_valid d = (di_current d \<noteq> None)"

definition db_iter_next :: "('i, 's) storage_iterator \<Rightarrow> nat \<Rightarrow> 'i db_iterator \<Rightarrow> 's \<Rightarrow>
  ('i db_iterator result \<times> 's) option" where
  "db_iter_next it fuel d s =
     (if di_current d \<noteq> None then advance_to_next_visible it fuel d s else Some (Inr d, s))"

fun db_iter_collect :: "('i, 's) storage_iterator \<Rightarrow> nat \<Rightarrow> (bytes \<times> bytes) list \<Rightarrow> 'i db_iterator \<Rightarrow> 's \<Rightarrow>
  ((bytes \<times> bytes) list result \<times> 's) option" where
  "db_iter_collect it 0 rows d s = None"
| "db_iter_collect it (Suc fuel) rows d s =
     (case di_current d of
        None \<Rightarrow> Some (Inr rows, s)
      | Some row \<Rightarrow>
        (case db_iter_next it fuel d s of
           None \<Rightarrow> None
         | Some (Inl e, s) \<Rightarrow> Some (Inl e, s)
         | Some (Inr d, s) \<Rightarrow> db_iter_collect it fuel (rows @ [row]) d s))"

subsection \<open>The contract of an iterator\<close>

abbreviation ordered :: "entry list \<Rightarrow> bool" where
  "ordered es \<equiv> sorted_wrt (\<lambda>x y. fst x \<le> fst y) es"

locale iterating =
  fixes it :: "('i, 's) storage_iterator" and ok :: "'i \<Rightarrow> bool" and I :: "'s \<Rightarrow> bool"
    and rest :: "'i \<Rightarrow> entry list" and all :: "'i \<Rightarrow> entry list"
  assumes valid: "ok i \<Longrightarrow> si_is_valid it i \<longleftrightarrow> rest i \<noteq> []"
    and key_value: "ok i \<Longrightarrow> rest i = e # es \<Longrightarrow> si_key it i = Inr (fst e) \<and> si_value it i = Inr (snd e)"
    and next_step: "ok i \<Longrightarrow> I s \<Longrightarrow>
      \<exists>i' s'. si_next it i s = (Inr i', s') \<and> ok i' \<and> I s' \<and> rest i' = tl (rest i) \<and> all i' = all i"
    and seek_step: "ok i \<Longrightarrow> I s \<Longrightarrow>
      \<exists>i' s'. si_seek it k i s = (Inr i', s') \<and> ok i' \<and> I s' \<and>
        rest i' = dropWhile (\<lambda>e. fst e < k) (all i) \<and> all i' = all i"
    and ordered_all: "ok i \<Longrightarrow> ordered (all i)"
    and ordered_rest: "ok i \<Longrightarrow> ordered (rest i)"

definition entry_rest :: "entry_iterator \<Rightarrow> entry list" where
  "entry_rest it = drop (ei_index it) (ei_entries it)"

lemma ordered_sort_key: "ordered (sort_key fst es)"
  using sorted_sort_key [of fst es] by (simp add: sorted_map)

lemmas entry_iter_defs = entry_iter_def entry_iter_is_valid_def entry_iter_key_def entry_iter_value_def
  entry_iter_next_def entry_iter_seek_def entry_rest_def

interpretation entry_it: iterating entry_iter "\<lambda>i. ordered (ei_entries i)" I entry_rest ei_entries
  for I :: "'s \<Rightarrow> bool"
proof unfold_locales
  fix i e es assume "entry_rest i = e # es"
  moreover from this have "ei_index i < length (ei_entries i)"
    by (metis drop_all entry_rest_def leI list.discI)
  ultimately have "ei_entries i ! ei_index i = e"
    by (metis Cons_nth_drop_Suc entry_rest_def list.inject)
  with \<open>ei_index i < length (ei_entries i)\<close>
  show "si_key (entry_iter :: (entry_iterator, 's) storage_iterator) i = Inr (fst e) \<and>
      si_value (entry_iter :: (entry_iterator, 's) storage_iterator) i = Inr (snd e)"
    by (simp add: entry_iter_defs)
qed (auto simp: entry_iter_defs op_lift_def drop_partition_point drop_Suc tl_drop sorted_wrt_drop)

lemma entry_iter_new_ok: "ordered (ei_entries (entry_iter_new es))"
  by (simp add: entry_iter_new_def ordered_sort_key)

subsection \<open>Merging is a stable sort\<close>

lemma insort_key_least: "\<forall>y\<in>set ys. f x \<le> f y \<Longrightarrow> insort_key f x ys = x # ys"
  by (cases ys) auto

lemma foldr_insort_key_Cons:
  "\<forall>a\<in>set as. f e < f a \<Longrightarrow> foldr (insort_key f) as (e # L) = e # foldr (insort_key f) as L"
  by (induction as) (auto simp: not_le)

lemma sort_key_least:
  assumes "\<forall>a\<in>set as. f e < f a" and "\<forall>b\<in>set bs. f e \<le> f b"
  shows "sort_key f (as @ e # bs) = e # sort_key f (as @ bs)"
proof -
  have "insort_key f e (foldr (insort_key f) bs []) = e # foldr (insort_key f) bs []"
    using assms(2) by (intro insort_key_least) (simp flip: sort_key_def)
  then show ?thesis
    by (simp add: sort_key_def foldr_insort_key_Cons assms(1))
qed

lemma concat_list_update:
  "i < length xss \<Longrightarrow> concat (xss[i := xs]) = concat (take i xss) @ xs @ concat (drop (Suc i) xss)"
  by (simp add: upd_conv_take_nth_drop)

lemma concat_split:
  "i < length xss \<Longrightarrow> concat xss = concat (take i xss) @ xss ! i @ concat (drop (Suc i) xss)"
  using concat_list_update [of i xss "xss ! i"] by simp

text \<open>The first entry of the least child is the first of the merge; dropping it leaves the rest.\<close>

lemma merge_pick:
  assumes "i < length xss" and "xss ! i = e # es" and "ordered (xss ! i)"
    and before: "\<And>j x. j < i \<Longrightarrow> x \<in> set (xss ! j) \<Longrightarrow> fst e < fst x"
    and after: "\<And>j x. j < length xss \<Longrightarrow> x \<in> set (xss ! j) \<Longrightarrow> fst e \<le> fst x"
  shows "sort_key fst (concat xss) = e # sort_key fst (concat (xss[i := es]))"
proof -
  have "fst e < fst a" if a: "a \<in> set (concat (take i xss))" for a
  proof -
    from a obtain ys where "ys \<in> set (take i xss)" "a \<in> set ys" by auto
    moreover from this(1) obtain j where "j < i" "ys = xss ! j"
      by (auto simp: in_set_conv_nth)
    ultimately show ?thesis using before by blast
  qed
  moreover have "fst e \<le> fst b" if b: "b \<in> set (es @ concat (drop (Suc i) xss))" for b
  proof (cases "b \<in> set es")
    case True
    then show ?thesis using after [OF assms(1)] assms(2) by simp
  next
    case False
    with b obtain ys where "ys \<in> set xss" "b \<in> set ys" by (auto dest: in_set_dropD)
    then show ?thesis using after by (metis in_set_conv_nth)
  qed
  ultimately show ?thesis
    using assms(1,2) sort_key_least [of "concat (take i xss)" fst e "es @ concat (drop (Suc i) xss)"]
    by (simp add: concat_list_update concat_split [of i xss])
qed

subsection \<open>The child MergeIterator picks\<close>

definition child_le :: "nat \<times> internal_key \<Rightarrow> nat \<times> internal_key \<Rightarrow> bool" where
  "child_le a b \<longleftrightarrow> snd a < snd b \<or> snd a = snd b \<and> fst a \<le> fst b"

lemma internal_key_cmp_simps:
  "internal_key_cmp a b = Less \<longleftrightarrow> a < b" "internal_key_cmp a b = Greater \<longleftrightarrow> b < a"
  "internal_key_cmp a b = Equal \<longleftrightarrow> a = b"
proof -
  show "internal_key_cmp a b = Less \<longleftrightarrow> a < b" by (simp add: less_internal_key_def)
  show "internal_key_cmp a b = Greater \<longleftrightarrow> b < a"
    by (simp add: less_eq_internal_key_def not_le [symmetric])
  then show "internal_key_cmp a b = Equal \<longleftrightarrow> a = b"
    by (metis less_internal_key_def linorder_neq_iff ordering.exhaust ordering.distinct(1,3,5) order_less_irrefl)
qed

lemma better_child_eq: "better_child a b = (if child_le a b then a else b)"
  by (auto simp: better_child_def child_le_def internal_key_cmp_simps)

lemma child_le_trans: "child_le a b \<Longrightarrow> child_le b c \<Longrightarrow> child_le a c"
  by (auto simp: child_le_def)

lemma child_le_total: "child_le a b \<or> child_le b a"
  by (auto simp: child_le_def)

lemma child_le_refl [simp]: "child_le a a"
  by (simp add: child_le_def)

fun best_of :: "nat \<Rightarrow> entry list list \<Rightarrow> (nat \<times> internal_key) option \<Rightarrow> (nat \<times> internal_key) option" where
  "best_of n [] b = b"
| "best_of n ([] # xss) b = best_of (n + 1) xss b"
| "best_of n ((e # es) # xss) b =
     best_of (n + 1) xss (case b of None \<Rightarrow> Some (n, fst e) | Some b \<Rightarrow> Some (better_child b (n, fst e)))"

text \<open>The best is one of the candidates and not greater than any of them.\<close>

definition candidates :: "nat \<Rightarrow> entry list list \<Rightarrow> (nat \<times> internal_key) set" where
  "candidates n xss = {(n + j, fst e) |j e es. j < length xss \<and> xss ! j = e # es}"

lemma candidates_Cons:
  "candidates n (xs # xss) =
     (case xs of [] \<Rightarrow> {} | e # _ \<Rightarrow> {(n, fst e)}) \<union> candidates (n + 1) xss"
proof -
  have "candidates n (xs # xss) = {(n, fst e) |e es. xs = e # es} \<union> candidates (n + 1) xss"
    by (fastforce simp: candidates_def less_Suc_eq_0_disj)
  then show ?thesis by (auto split: list.split)
qed

lemma best_of_least:
  "case best_of n xss b of
     None \<Rightarrow> set_option b \<union> candidates n xss = {}
   | Some c \<Rightarrow> c \<in> set_option b \<union> candidates n xss \<and> (\<forall>d\<in>set_option b \<union> candidates n xss. child_le c d)"
proof (induction n xss b rule: best_of.induct)
  case (1 n b)
  then show ?case by (cases b) (auto simp: candidates_def)
next
  case (2 n xss b)
  then show ?case by (auto simp: candidates_Cons split: option.splits)
next
  case (3 n e es xss b)
  let ?b = "case b of None \<Rightarrow> Some (n, fst e) | Some b \<Rightarrow> Some (better_child b (n, fst e))"
  obtain b' where b': "?b = Some b'" "b' \<in> set_option b \<union> {(n, fst e)}"
    "\<forall>d\<in>set_option b \<union> {(n, fst e)}. child_le b' d"
  proof (cases b)
    case (Some a)
    then show ?thesis
      using child_le_total [of a "(n, fst e)"]
      by (cases "child_le a (n, fst e)") (auto simp: better_child_eq intro: that)
  qed (auto intro: that)
  from 3 b'(1) obtain c where c: "best_of (n + 1) xss ?b = Some c" "c = b' \<or> c \<in> candidates (n + 1) xss"
    "child_le c b'" "\<forall>d\<in>candidates (n + 1) xss. child_le c d"
    by (cases "best_of (n + 1) xss ?b") auto
  then have "\<forall>d\<in>set_option b \<union> {(n, fst e)} \<union> candidates (n + 1) xss. child_le c d"
    using b'(3) child_le_trans by blast
  with c(1,2) b'(2) show ?case
    by (auto simp: candidates_Cons)
qed

subsection \<open>MergeIterator keeps the contract\<close>

definition merge_rest :: "('i \<Rightarrow> entry list) \<Rightarrow> 'i merge_iterator \<Rightarrow> entry list" where
  "merge_rest rest m = sort_key fst (concat (map rest (mi_children m)))"

definition merge_ok :: "('i, 's) storage_iterator \<Rightarrow> ('i \<Rightarrow> bool) \<Rightarrow> 'i merge_iterator \<Rightarrow> bool" where
  "merge_ok it ok m \<longleftrightarrow> list_all ok (mi_children m) \<and> pick_current it (mi_children m) = Inr m"

lemma dropWhile_sort_key_concat:
  assumes "\<And>xs. xs \<in> set xss \<Longrightarrow> ordered xs"
  shows "sort_key fst (concat (map (dropWhile (\<lambda>e. fst e < k)) xss)) =
    dropWhile (\<lambda>e. fst e < k) (sort_key fst (concat xss))"
proof -
  have drop: "dropWhile (\<lambda>e. fst e < k) es = filter (\<lambda>e. \<not> fst e < k) es" if "ordered es" for es :: "entry list"
    by (rule dropWhile_filter_conv) (rule sorted_wrt_mono_rel [OF _ that], auto)
  have "map (dropWhile (\<lambda>e. fst e < k)) xss = map (filter (\<lambda>e. \<not> fst e < k)) xss"
    using assms drop by simp
  then have "concat (map (dropWhile (\<lambda>e. fst e < k)) xss) = filter (\<lambda>e. \<not> fst e < k) (concat xss)"
    by (simp only: filter_concat)
  then show ?thesis
    by (simp only: drop [OF ordered_sort_key] filter_sort)
qed

context iterating
begin

lemma pick_min_best:
  "list_all ok cs \<Longrightarrow> pick_min it n cs b = Inr (best_of n (map rest cs) b)"
proof (induction cs arbitrary: n b)
  case (Cons c cs)
  then show ?case
    using valid [of c] key_value [of c] by (cases "rest c") auto
qed simp

lemma pick_current_ok:
  assumes "list_all ok cs"
  obtains m where "pick_current it cs = Inr m" and "merge_ok it ok m" and "mi_children m = cs"
proof -
  let ?m = "\<lparr>mi_children = cs, mi_current = map_option fst (best_of 0 (map rest cs) None)\<rparr>"
  have "pick_current it cs = Inr ?m" by (simp add: pick_current_def pick_min_best [OF assms])
  with assms that [of ?m] show ?thesis by (simp add: merge_ok_def)
qed

lemma merge_current:
  assumes "merge_ok it ok m"
  shows "case mi_current m of
      None \<Rightarrow> merge_rest rest m = []
    | Some i \<Rightarrow> i < length (mi_children m) \<and> (\<exists>e es. rest (mi_children m ! i) = e # es \<and>
        merge_rest rest m = e # sort_key fst (concat ((map rest (mi_children m))[i := es])))"
proof -
  let ?cs = "mi_children m" and ?xss = "map rest (mi_children m)"
  from assms have ok: "list_all ok ?cs" by (simp add: merge_ok_def)
  have cur: "mi_current m = map_option fst (best_of 0 ?xss None)"
    using assms pick_min_best [OF ok] by (cases m) (auto simp: merge_ok_def pick_current_def)
  note least = best_of_least [where n = 0 and xss = ?xss and b = None]
  show ?thesis
  proof (cases "best_of 0 ?xss None")
    case None
    with least have "candidates 0 ?xss = {}" by simp
    then have "rest c = []" if "c \<in> set ?cs" for c
      using that by (cases "rest c") (auto simp: candidates_def in_set_conv_nth)
    then have "concat ?xss = []" by simp
    then have "merge_rest rest m = []" by (simp only: merge_rest_def sort_key_simps)
    with None cur show ?thesis by simp
  next
    case (Some c)
    with least have "c \<in> candidates 0 ?xss" and le: "\<And>d. d \<in> candidates 0 ?xss \<Longrightarrow> child_le c d"
      by simp_all
    then obtain i e es where c: "c = (i, fst e)" and i: "i < length ?cs" "rest (?cs ! i) = e # es"
      by (auto simp: candidates_def)
    have ord: "ordered (?xss ! j)" if "j < length ?cs" for j
      using that ok by (simp add: ordered_rest list_all_length)
    have hd: "child_le (i, fst e) (j, fst x)" if "j < length ?cs" "?xss ! j = x # xs" for j x xs
      using that unfolding c [symmetric] by (cases x) (auto simp: candidates_def intro!: le)
    have elem: "fst e \<le> fst x \<and> (j < i \<longrightarrow> fst e < fst x)" if j: "j < length ?cs" and x: "x \<in> set (?xss ! j)" for j x
    proof -
      obtain y ys where y: "?xss ! j = y # ys" using x by (cases "?xss ! j") auto
      with ord [OF j] x have "fst y \<le> fst x" by auto
      with hd [OF j y] show ?thesis by (auto simp: child_le_def)
    qed
    have "sort_key fst (concat ?xss) = e # sort_key fst (concat (?xss[i := es]))"
    proof (rule merge_pick)
      show "j < i \<Longrightarrow> x \<in> set (?xss ! j) \<Longrightarrow> fst e < fst x" for j x
        using elem [of j x] i(1) by auto
    qed (use i elem ord [OF i(1)] in auto)
    with Some c i cur show ?thesis by (auto simp: merge_rest_def)
  qed
qed

lemma seek_children_ok:
  assumes "list_all ok cs" and "I s"
  shows "\<exists>cs' s'. seek_children it k cs s = (Inr cs', s') \<and> list_all ok cs' \<and> I s' \<and>
    map rest cs' = map (dropWhile (\<lambda>e. fst e < k)) (map all cs) \<and> map all cs' = map all cs"
  using assms
proof (induction cs arbitrary: s)
  case Nil
  then show ?case by (simp add: op_lift_def)
next
  case (Cons c cs)
  from Cons.prems seek_step [of c s k] obtain c' s1 where c': "si_seek it k c s = (Inr c', s1)" "ok c'" "I s1"
    "rest c' = dropWhile (\<lambda>e. fst e < k) (all c)" "all c' = all c" by auto
  with Cons.IH [of s1] Cons.prems obtain cs' s' where "seek_children it k cs s1 = (Inr cs', s')" "list_all ok cs'"
    "I s'" "map rest cs' = map (dropWhile (\<lambda>e. fst e < k)) (map all cs)" "map all cs' = map all cs" by auto
  with c' show ?case by (simp add: op_then_def op_lift_def)
qed

lemma merge_iterating: "iterating (merge_iter it) (merge_ok it ok) I (merge_rest rest) (merge_rest all)"
proof unfold_locales
  fix m s k assume m: "merge_ok it ok m"
  let ?cs = "mi_children m"
  from m have ok: "list_all ok ?cs" by (simp add: merge_ok_def)
  show "si_is_valid (merge_iter it) m \<longleftrightarrow> merge_rest rest m \<noteq> []"
    using merge_current [OF m] by (auto simp: merge_iter_def merge_is_valid_def split: option.splits)
  show "si_key (merge_iter it) m = Inr (fst e) \<and> si_value (merge_iter it) m = Inr (snd e)"
    if "merge_rest rest m = e # es" for e es
  proof -
    from that merge_current [OF m] obtain i es' where i: "mi_current m = Some i" "i < length ?cs"
      "rest (?cs ! i) = e # es'" by (auto split: option.splits)
    with ok have "ok (?cs ! i)" by (simp add: list_all_length)
    from key_value [OF this i(3)] i show ?thesis
      by (simp add: merge_iter_def merge_key_def merge_value_def current_child_def)
  qed
  show "ordered (merge_rest all m)" "ordered (merge_rest rest m)"
    by (simp_all add: merge_rest_def ordered_sort_key)
  assume s: "I s"
  show "\<exists>i' s'. si_next (merge_iter it) m s = (Inr i', s') \<and> merge_ok it ok i' \<and> I s' \<and>
      merge_rest rest i' = tl (merge_rest rest m) \<and> merge_rest all i' = merge_rest all m"
  proof (cases "mi_current m")
    case None
    with m s merge_current [OF m] show ?thesis
      by (auto simp: merge_iter_def merge_next_def op_lift_def merge_ok_def)
  next
    case (Some i)
    with merge_current [OF m] obtain e es where i: "i < length ?cs" "rest (?cs ! i) = e # es"
      and tl: "tl (merge_rest rest m) = sort_key fst (concat ((map rest ?cs)[i := es]))" by auto
    with ok have "ok (?cs ! i)" by (simp add: list_all_length)
    from next_step [OF this s] i obtain c s' where c: "si_next it (?cs ! i) s = (Inr c, s')" "ok c" "I s'"
      "rest c = es" "all c = all (?cs ! i)" by auto
    have "list_all ok (?cs[i := c])"
      using ok c(2) by (auto simp: list_all_iff dest!: set_update_subset_insert [THEN subsetD])
    from pick_current_ok [OF this] obtain m' where "pick_current it (?cs[i := c]) = Inr m'" "merge_ok it ok m'"
      "mi_children m' = ?cs[i := c]" by metis
    moreover have "(map all ?cs)[i := all (?cs ! i)] = map all ?cs"
      using i(1) by (simp add: list_update_same_conv)
    ultimately show ?thesis
      using Some i c tl
      by (auto simp: merge_iter_def merge_next_def current_child_def op_then_def op_lift_def merge_rest_def map_update)
  qed
  from seek_children_ok [OF ok s, of k] obtain cs' s' where cs': "seek_children it k ?cs s = (Inr cs', s')"
    "list_all ok cs'" "I s'" "map rest cs' = map (dropWhile (\<lambda>e. fst e < k)) (map all ?cs)"
    "map all cs' = map all ?cs" by metis
  from pick_current_ok [OF cs'(2)] obtain m' where m': "pick_current it cs' = Inr m'" "merge_ok it ok m'"
    "mi_children m' = cs'" by metis
  have "merge_rest rest m' = dropWhile (\<lambda>e. fst e < k) (merge_rest all m)"
    unfolding merge_rest_def m'(3) cs'(4)
    by (rule dropWhile_sort_key_concat) (use ok ordered_all in \<open>auto simp: list_all_iff\<close>)
  with cs' m' show "\<exists>i' s'. si_seek (merge_iter it) k m s = (Inr i', s') \<and> merge_ok it ok i' \<and> I s' \<and>
      merge_rest rest i' = dropWhile (\<lambda>e. fst e < k) (merge_rest all m) \<and> merge_rest all i' = merge_rest all m"
    by (auto simp: merge_iter_def merge_seek_def op_then_def op_lift_def merge_rest_def)
qed

end

text \<open>Children of two types: each keeps its own contract over the shared state.\<close>

locale two_iterating =
  l: iterating l okl I restl alll + r: iterating r okr I restr allr
  for l :: "('i, 's) storage_iterator" and okl I restl alll
    and r :: "('j, 's) storage_iterator" and okr restr allr
begin

lemma sum_iterating:
  "iterating (sum_iter l r) (case_sum okl okr) I (case_sum restl restr) (case_sum alll allr)"
proof unfold_locales
  fix c :: "'i + 'j" and s k assume c: "case_sum okl okr c"
  show "si_is_valid (sum_iter l r) c \<longleftrightarrow> case_sum restl restr c \<noteq> []"
    using c by (cases c) (simp_all add: sum_iter_def l.valid r.valid)
  show "si_key (sum_iter l r) c = Inr (fst e) \<and> si_value (sum_iter l r) c = Inr (snd e)"
    if "case_sum restl restr c = e # es" for e es
    using that c l.key_value r.key_value by (cases c) (auto simp: sum_iter_def)
  show "ordered (case_sum alll allr c)" "ordered (case_sum restl restr c)"
    using c l.ordered_all r.ordered_all l.ordered_rest r.ordered_rest by (cases c; simp)+
  assume s: "I s"
  show "\<exists>i' s'. si_next (sum_iter l r) c s = (Inr i', s') \<and> case_sum okl okr i' \<and> I s' \<and>
      case_sum restl restr i' = tl (case_sum restl restr c) \<and> case_sum alll allr i' = case_sum alll allr c"
    using c l.next_step [OF _ s] r.next_step [OF _ s]
    by (cases c) (fastforce simp: sum_iter_def op_then_def op_lift_def)+
  show "\<exists>i' s'. si_seek (sum_iter l r) k c s = (Inr i', s') \<and> case_sum okl okr i' \<and> I s' \<and>
      case_sum restl restr i' = dropWhile (\<lambda>e. fst e < k) (case_sum alll allr c) \<and>
      case_sum alll allr i' = case_sum alll allr c"
    using c l.seek_step [OF _ s, of _ k] r.seek_step [OF _ s, of _ k]
    by (cases c) (fastforce simp: sum_iter_def op_then_def op_lift_def)+
qed

end

subsection \<open>DBIterator collects the visible rows\<close>

definition rows_left :: "('i \<Rightarrow> entry list) \<Rightarrow> 'i db_iterator \<Rightarrow> (bytes \<times> bytes) list" where
  "rows_left rest d = scan_loop (di_lower d) (di_upper d) (di_read_seq d) (di_seen d) [] (rest (di_inner d))"

lemma rows_left_current [simp]: "rows_left rest (d\<lparr>di_current := r\<rparr>) = rows_left rest d"
  by (simp add: rows_left_def)

text \<open>Entries before the seek target are outside the bounds.\<close>

lemma scan_loop_skip:
  "\<forall>e\<in>set xs. \<not> within_bounds (user_key (fst e)) lower upper \<Longrightarrow>
   scan_loop lower upper s seen rows (xs @ ys) = scan_loop lower upper s seen rows ys"
  by (induction xs) auto

lemma below_seek_key:
  assumes "lower_bound_seek_key lower = Some target" and "ik < target"
  shows "\<not> within_bounds (user_key ik) lower upper"
proof (cases lower)
  case (Included b)
  with assms have "ik < InternalKey b (- 1) TypePut" by (simp add: lower_bound_seek_key_def)
  then have "user_key ik < b"
    by (auto simp: seek_key_less word_order.extremum_strict)
  with Included show ?thesis by (auto simp: within_bounds_def)
next
  case (Excluded b)
  with assms have "ik < InternalKey b 0 TypeDelete" by (simp add: lower_bound_seek_key_def)
  with Excluded show ?thesis by (auto simp: within_bounds_def internal_key_less_iff)
qed (use assms in \<open>simp add: lower_bound_seek_key_def\<close>)

lemma scan_loop_seek:
  assumes "lower_bound_seek_key lower = Some target"
  shows "scan_loop lower upper s seen [] (dropWhile (\<lambda>e. fst e < target) es) = scan_loop lower upper s seen [] es"
proof -
  have "\<forall>e\<in>set (takeWhile (\<lambda>e. fst e < target) es). \<not> within_bounds (user_key (fst e)) lower upper"
    using below_seek_key [OF assms] by (auto dest: set_takeWhileD)
  from scan_loop_skip [OF this, of s seen "[]" "dropWhile (\<lambda>e. fst e < target) es"]
  show ?thesis by simp
qed

context iterating
begin

lemma advance_loop_ok:
  assumes "ok (di_inner d)" and "I s" and "di_current d = None" and "length (rest (di_inner d)) < fuel"
  shows "\<exists>d' s'. advance_loop it fuel d s = Some (Inr d', s') \<and> ok (di_inner d') \<and> I s' \<and>
    (case di_current d' of None \<Rightarrow> rows_left rest d = []
     | Some row \<Rightarrow> rows_left rest d = row # rows_left rest d' \<and>
         length (rest (di_inner d')) < length (rest (di_inner d)))"
  using assms
proof (induction fuel arbitrary: d s)
  case (Suc fuel)
  show ?case
  proof (cases "rest (di_inner d)")
    case Nil
    with Suc.prems show ?thesis using valid [of "di_inner d"] by (simp add: rows_left_def)
  next
    case (Cons e es)
    obtain ik val where e: "e = (ik, val)" by fastforce
    from key_value [OF Suc.prems(1) Cons] have kv: "si_is_valid it (di_inner d)"
      "si_key it (di_inner d) = Inr ik" "si_value it (di_inner d) = Inr val"
      using valid [OF Suc.prems(1)] Cons by (simp_all add: e)
    from next_step [OF Suc.prems(1,2)] Cons obtain i1 s1 where
      nxt: "si_next it (di_inner d) s = (Inr i1, s1)" "ok i1" "I s1" "rest i1 = es" by auto
    let ?skip = "sequence ik > di_read_seq d \<or> \<not> within_bounds (user_key ik) (di_lower d) (di_upper d) \<or>
      user_key ik \<in> di_seen d"
    let ?d = "d\<lparr>di_inner := i1, di_seen := if ?skip then di_seen d else insert (user_key ik) (di_seen d)\<rparr>"
    show ?thesis
    proof (cases "?skip \<or> val = Delete")
      case True
      then have adv: "advance_loop it (Suc fuel) d s = advance_loop it fuel ?d s1"
        using kv nxt by (auto simp: Let_def)
      have rows: "rows_left rest d = rows_left rest ?d"
        using True nxt Cons by (auto simp: rows_left_def e)
      have len: "length (rest (di_inner d)) = Suc (length (rest (di_inner ?d)))" using Cons nxt by simp
      have "\<exists>d' s'. advance_loop it fuel ?d s1 = Some (Inr d', s') \<and> ok (di_inner d') \<and> I s' \<and>
        (case di_current d' of None \<Rightarrow> rows_left rest ?d = []
         | Some row \<Rightarrow> rows_left rest ?d = row # rows_left rest d' \<and>
             length (rest (di_inner d')) < length (rest (di_inner ?d)))"
        by (rule Suc.IH) (use Suc.prems nxt Cons in simp_all)
      then show ?thesis unfolding adv rows len by (force split: option.splits)
    next
      case False
      then obtain v where v: "val = Put v" by (cases val) auto
      let ?d' = "?d\<lparr>di_current := Some (user_key ik, v)\<rparr>"
      have "advance_loop it (Suc fuel) d s = Some (Inr ?d', s1)"
        using kv nxt False v by (simp add: Let_def)
      moreover have "rows_left rest d = (user_key ik, v) # rows_left rest ?d'"
        using False v nxt Cons
          scan_loop_append [of "di_lower d" "di_upper d" "di_read_seq d" "insert (user_key ik) (di_seen d)"
            "[(user_key ik, v)]" es]
        by (simp add: rows_left_def e)
      ultimately show ?thesis using nxt Cons by simp
    qed
  qed
qed simp

lemma collect_ok:
  assumes "ok (di_inner d)" and "I s" and "length (rest (di_inner d)) + 1 < fuel"
  shows "\<exists>s'. db_iter_collect it fuel rows d s =
      Some (Inr (rows @ (case di_current d of None \<Rightarrow> [] | Some row \<Rightarrow> row # rows_left rest d)), s') \<and> I s'"
  using assms
proof (induction fuel arbitrary: rows d s)
  case (Suc fuel)
  show ?case
  proof (cases "di_current d")
    case (Some row)
    let ?d = "d\<lparr>di_current := None\<rparr>"
    have "\<exists>d' s'. advance_loop it fuel ?d s = Some (Inr d', s') \<and> ok (di_inner d') \<and> I s' \<and>
      (case di_current d' of None \<Rightarrow> rows_left rest ?d = []
       | Some row \<Rightarrow> rows_left rest ?d = row # rows_left rest d' \<and>
           length (rest (di_inner d')) < length (rest (di_inner ?d)))"
      by (rule advance_loop_ok) (use Suc.prems in simp_all)
    then obtain d' s' where adv: "advance_loop it fuel ?d s = Some (Inr d', s')" and d': "ok (di_inner d')" "I s'"
      and rows: "case di_current d' of None \<Rightarrow> rows_left rest d = []
       | Some row \<Rightarrow> rows_left rest d = row # rows_left rest d' \<and> length (rest (di_inner d')) < length (rest (di_inner d))"
      by (auto cong: option.case_cong)
    have step: "db_iter_collect it (Suc fuel) rows d s = db_iter_collect it fuel (rows @ [row]) d' s'"
      using Some adv by (simp add: db_iter_next_def advance_to_next_visible_def)
    show ?thesis
    proof (cases "di_current d'")
      case None
      obtain f where "fuel = Suc f" using Suc.prems(3) by (cases fuel) auto
      with None rows Some d' step show ?thesis by simp
    next
      case (Some row')
      with rows Suc.prems(3) have "length (rest (di_inner d')) + 1 < fuel" by simp
      from Suc.IH [OF d' this, of "rows @ [row]"] rows Some \<open>di_current d = Some row\<close> step show ?thesis by simp
    qed
  qed (use Suc.prems in simp)
qed simp

text \<open>A new iterator over fresh entries, collected with enough fuel, gives the rows of the scan.\<close>

lemma db_iter_scan:
  assumes "ok i" and "I s" and "rest i = all i" and fuel: "length (all i) + 1 < fuel"
  shows "\<exists>d s'. db_iter_try_new it fuel i lower upper read_seq s = Some (Inr d, s') \<and> I s' \<and>
    (\<forall>t. I t \<longrightarrow> (\<exists>t'. db_iter_collect it fuel [] d t = Some (Inr (scan_rows (all i) lower upper read_seq), t') \<and> I t'))"
proof -
  let ?d = "\<lparr>di_inner = i, di_lower = lower, di_upper = upper, di_read_seq = read_seq, di_seen = {},
    di_current = None\<rparr> :: 'i db_iterator"
  obtain i1 s1 where seek: "seek_to_lower_bound it ?d s = (Inr (?d\<lparr>di_inner := i1\<rparr>), s1)" and i1: "ok i1" "I s1"
    and rows: "scan_loop lower upper read_seq {} [] (rest i1) = scan_loop lower upper read_seq {} [] (all i)"
    and len: "length (rest i1) \<le> length (all i)"
  proof (cases "lower_bound_seek_key lower")
    case None
    with that [of i s] assms show ?thesis by (simp add: seek_to_lower_bound_def op_lift_def)
  next
    case (Some target)
    from seek_step [OF assms(1,2)] obtain i' s' where "si_seek it target i s = (Inr i', s')" "ok i'" "I s'"
      "rest i' = dropWhile (\<lambda>e. fst e < target) (all i)" by metis
    with that [of i' s'] Some scan_loop_seek [OF Some] show ?thesis
      by (simp add: seek_to_lower_bound_def op_then_def op_lift_def length_dropWhile_le)
  qed
  let ?d1 = "?d\<lparr>di_inner := i1\<rparr>"
  have "\<exists>d s'. advance_loop it fuel ?d1 s1 = Some (Inr d, s') \<and> ok (di_inner d) \<and> I s' \<and>
      (case di_current d of None \<Rightarrow> rows_left rest ?d1 = []
       | Some row \<Rightarrow> rows_left rest ?d1 = row # rows_left rest d \<and>
           length (rest (di_inner d)) < length (rest (di_inner ?d1)))"
    by (rule advance_loop_ok) (use i1 len fuel in simp_all)
  then obtain d s' where adv: "advance_loop it fuel ?d1 s1 = Some (Inr d, s')" and d: "ok (di_inner d)" "I s'"
    and left: "case di_current d of None \<Rightarrow> rows_left rest ?d1 = []
       | Some row \<Rightarrow> rows_left rest ?d1 = row # rows_left rest d \<and>
           length (rest (di_inner d)) < length (rest (di_inner ?d1))"
    by blast
  have new: "db_iter_try_new it fuel i lower upper read_seq s = Some (Inr d, s')"
    using seek adv by (simp add: db_iter_try_new_def advance_to_next_visible_def)
  have all_rows: "rows_left rest ?d1 = scan_rows (all i) lower upper read_seq"
    using rows by (simp add: rows_left_def scan_loop_sorted [OF ordered_all [OF assms(1)]])
  show ?thesis
  proof (cases "di_current d")
    case None
    obtain f where "fuel = Suc f" using fuel by (cases fuel) auto
    with None new left d all_rows show ?thesis by simp
  next
    case (Some row)
    with left len fuel have "length (rest (di_inner d)) + 1 < fuel" by simp
    from collect_ok [OF d(1) _ this, of _ "[]"] Some new d(2) left all_rows show ?thesis by simp
  qed
qed

end

interpretation merge_it: iterating "merge_iter entry_iter"
  "merge_ok (entry_iter :: (entry_iterator, 's) storage_iterator) (\<lambda>i. ordered (ei_entries i))"
  I "merge_rest entry_rest" "merge_rest ei_entries" for I :: "'s \<Rightarrow> bool"
  by (rule entry_it.merge_iterating)

text \<open>
  A scan over any number of sources returns exactly the visible rows: an iterator that
  merges the sources and filters versions, collected to the end, yields for every user key
  within the bounds, once and in ascending order, the value of its newest version visible at
  the read sequence, and skips deleted keys.  It ends within as many steps as there are
  entries.
\<close>

theorem db_iterator_scan_correct:
  assumes "distinct_versions (set (concat ess))" and "length (concat ess) + 1 < fuel"
  shows "\<exists>m d. merge_iter_new (entry_iter :: (entry_iterator, unit) storage_iterator) (map entry_iter_new ess) = Inr m \<and>
    db_iter_try_new (merge_iter entry_iter) fuel m lower upper read_seq () = Some (Inr d, ()) \<and>
    db_iter_collect (merge_iter entry_iter) fuel [] d () =
      Some (Inr (scan_rows (concat ess) lower upper read_seq), ())"
proof -
  let ?cs = "map entry_iter_new ess" and ?it = "entry_iter :: (entry_iterator, unit) storage_iterator"
  have "list_all (\<lambda>i. ordered (ei_entries i)) ?cs"
    by (simp add: list_all_iff entry_iter_new_ok)
  from entry_it.pick_current_ok [OF this, where 's = unit] obtain m where m: "pick_current ?it ?cs = Inr m"
    "merge_ok ?it (\<lambda>i. ordered (ei_entries i)) m" "mi_children m = ?cs" by metis
  have fresh: "merge_rest entry_rest m = merge_rest ei_entries m"
    by (simp add: merge_rest_def m(3) entry_rest_def entry_iter_new_def o_def)
  have set: "set (merge_rest ei_entries m) = set (concat ess)"
    by (simp add: merge_rest_def m(3) entry_iter_new_def o_def)
  have "mset (concat (map (sort_key fst) ess)) = mset (concat ess)" by (induction ess) simp_all
  then have "length (merge_rest ei_entries m) = length (concat ess)"
    by (metis (no_types, lifting) entry_iter_new_def entry_iterator.select_convs(1) length_sort m(3)
        map_eq_conv map_map comp_apply merge_rest_def size_mset)
  with assms(2) have "length (merge_rest ei_entries m) + 1 < fuel" by simp
  from merge_it.db_iter_scan [OF m(2) _ fresh this, where I = "\<lambda>_. True" and s = "()" and lower = lower and upper = upper and read_seq = read_seq]
  show ?thesis
    by (auto simp: merge_iter_new_def m(1) scan_rows_cong_set [OF assms(1) set])
qed

theorem db_iterator_scan_correct_witness:
  "\<exists>m d. merge_iter_new (entry_iter :: (entry_iterator, unit) storage_iterator) (map entry_iter_new
      [[(InternalKey [1] 5 TypePut, Put [7])], [(InternalKey [1] 3 TypeDelete, Delete), (InternalKey [2] 4 TypePut, Put [8])]]) = Inr m \<and>
    db_iter_try_new (merge_iter entry_iter) 5 m Unbounded Unbounded 4 () = Some (Inr d, ()) \<and>
    db_iter_collect (merge_iter entry_iter) 5 [] d () = Some (Inr [([2], [8])], ())"
proof -
  let ?ess = "[[(InternalKey [1] 5 TypePut, Put [7])], [(InternalKey [1] 3 TypeDelete, Delete), (InternalKey [2] 4 TypePut, Put [8])]]"
  have "scan_rows (concat ?ess) Unbounded Unbounded 4 = [([2], [8])]" by code_simp
  moreover have "distinct_versions (set (concat ?ess))" by (simp add: distinct_versions_def)
  ultimately show ?thesis
    using db_iterator_scan_correct [of ?ess 5 Unbounded Unbounded 4] by simp
qed

subsection \<open>ConcatIterator\<close>

definition concat_rest :: "('i \<Rightarrow> entry list) \<Rightarrow> 'i concat_iterator \<Rightarrow> entry list" where
  "concat_rest rest c = concat (map rest (drop (ci_current c) (ci_children c)))"

lemma concat_rest_past: "length (ci_children c) \<le> ci_current c \<Longrightarrow> concat_rest rest c = []"
  by (simp add: concat_rest_def)

lemma concat_rest_step:
  "ci_current c < length (ci_children c) \<Longrightarrow>
   concat_rest rest c = rest (ci_children c ! ci_current c) @ concat_rest rest (c\<lparr>ci_current := ci_current c + 1\<rparr>)"
  by (simp add: concat_rest_def Cons_nth_drop_Suc [symmetric])

context iterating
begin

lemma skip_empty_rest:
  assumes "list_all ok (ci_children c)"
  shows "ci_children (skip_empty it c) = ci_children c \<and> concat_rest rest (skip_empty it c) = concat_rest rest c \<and>
    (concat_is_valid it (skip_empty it c) \<longleftrightarrow> concat_rest rest c \<noteq> [])"
  using assms
proof (induction "length (ci_children c) - ci_current c" arbitrary: c rule: less_induct)
  case less
  let ?child = "ci_children c ! ci_current c"
  consider "length (ci_children c) \<le> ci_current c"
    | "ci_current c < length (ci_children c)" "si_is_valid it ?child"
    | "ci_current c < length (ci_children c)" "\<not> si_is_valid it ?child" by linarith
  then show ?case
  proof cases
    case 1
    then show ?thesis by (simp add: skip_empty.simps [of it c] concat_rest_past concat_is_valid_def)
  next
    case 2
    with less.prems have "rest ?child \<noteq> []" using valid [of ?child] by (simp add: list_all_length)
    with 2 show ?thesis
      by (simp add: skip_empty.simps [of it c] concat_rest_step concat_is_valid_def)
  next
    case 3
    with less.prems have "rest ?child = []" using valid [of ?child] by (simp add: list_all_length)
    with 3 less.hyps [of "c\<lparr>ci_current := ci_current c + 1\<rparr>"] less.prems show ?thesis
      by (simp add: skip_empty.simps [of it c] concat_rest_step)
  qed
qed

text \<open>A step over fresh later children, and a first seek, behave as the concatenation.\<close>

lemma concat_next_rest:
  assumes "list_all ok (ci_children c)" and "I s" and "concat_is_valid it c"
  shows "\<exists>c' s'. concat_next it c s = (Inr c', s') \<and> list_all ok (ci_children c') \<and> I s' \<and>
    concat_rest rest c' = tl (concat_rest rest c)"
proof -
  let ?i = "ci_current c" and ?cs = "ci_children c"
  from assms(1,3) have i: "?i < length ?cs" "ok (?cs ! ?i)" "rest (?cs ! ?i) \<noteq> []"
    using valid [of "?cs ! ?i"] by (auto simp: concat_is_valid_def list_all_length)
  from next_step [OF i(2) assms(2)] obtain child s' where child: "si_next it (?cs ! ?i) s = (Inr child, s')"
    "ok child" "I s'" "rest child = tl (rest (?cs ! ?i))" by metis
  let ?c = "c\<lparr>ci_children := ?cs[?i := child]\<rparr>"
  have ok: "list_all ok (ci_children ?c)"
    using assms(1) child(2) by (auto simp: list_all_iff dest!: set_update_subset_insert [THEN subsetD])
  have "concat_rest rest ?c = tl (concat_rest rest c)"
    using i child(4) concat_rest_step [of c rest] concat_rest_step [of ?c rest]
    by (simp add: concat_rest_def)
  with i child skip_empty_rest [OF ok] ok show ?thesis
    by (auto simp: concat_next_def op_then_def op_lift_def)
qed

end

text \<open>Two children with one entry each.\<close>

definition demo_concat :: "entry_iterator concat_iterator" where
  "demo_concat = concat_iter_new (entry_iter :: (entry_iterator, unit) storage_iterator)
     [entry_iter_new [(InternalKey [1] 1 TypePut, Put [])], entry_iter_new [(InternalKey [2] 1 TypePut, Put [])]]"

text \<open>
  A second seek of a concatenating iterator loses entries: it repositions only the
  children up to the first one that is valid and leaves later children where they were, so
  after running to the end and seeking back to the first entry, the iterator shows that
  entry and then ends although the other child holds a later one.
\<close>

theorem concat_reseek_loses_entry:
  "fst (op_then (concat_seek entry_iter (InternalKey [1] 1 TypePut) demo_concat) (\<lambda>c.
        op_then (concat_next entry_iter c) (\<lambda>c.
        op_lift (Inr (concat_key entry_iter c)))) ()) = Inr (Inr (InternalKey [2] 1 TypePut)) \<and>
   fst (op_then (concat_next entry_iter demo_concat) (\<lambda>c.
        op_then (concat_next entry_iter c) (\<lambda>c.
        op_then (concat_seek entry_iter (InternalKey [1] 1 TypePut) c) (\<lambda>c.
        op_then (concat_next entry_iter c) (\<lambda>c.
        op_lift (Inr (concat_is_valid entry_iter c)))))) ()) = Inr False"
  by code_simp

end
