(* ===== verification/Table_Iterator.thy ===== *)
theory Table_Iterator
  imports SSTable Iterators
begin

section \<open>Iterating a table (table/reader.rs)\<close>

text \<open>
  \<^verbatim>\<open>SSTableStorageIterator\<close> and \<^verbatim>\<open>TableIterator\<close> of
  \<^verbatim>\<open>src/src/table/reader.rs\<close>.  The storage iterator reads one block at a time
  through the shared block cache, which is the state it threads.  It is shown to keep the
  iterator contract over the entries of its table, as long as the cache is coherent.
\<close>

subsection \<open>Definitions\<close>

record table_iterator =
  ti_file :: readable_file
  ti_index :: "index_entry list"
  ti_table_number :: u64
  ti_fill_cache :: bool
  ti_block_index :: nat
  ti_current_block :: "entry list option"
  ti_entry_index :: nat

function load_block_loop :: "'m externs \<Rightarrow> table_iterator \<Rightarrow> (block_cache option, table_iterator) op" where
  "load_block_loop X ti cache =
     (if ti_block_index ti < length (ti_index ti) then
        (case read_decoded_block X (ti_index ti ! ti_block_index ti) (ti_table_number ti) (ti_fill_cache ti)
                (ti_file ti, cache) of
           (Inl e, (file, cache)) \<Rightarrow> (Inl e, cache)
         | (Inr block, (file, cache)) \<Rightarrow>
             if block \<noteq> [] then (Inr (ti\<lparr>ti_file := file, ti_current_block := Some block\<rparr>), cache)
             else load_block_loop X (ti\<lparr>ti_file := file, ti_block_index := ti_block_index ti + 1\<rparr>) cache)
      else (Inr ti, cache))"
  by pat_completeness auto
termination
  by (relation "measure (\<lambda>(X, ti, cache). length (ti_index ti) - ti_block_index ti)") auto

declare load_block_loop.simps [simp del]

definition load_block_at :: "'m externs \<Rightarrow> nat \<Rightarrow> table_iterator \<Rightarrow> (block_cache option, table_iterator) op" where
  "load_block_at X index ti =
     load_block_loop X (ti\<lparr>ti_block_index := index, ti_current_block := None, ti_entry_index := 0\<rparr>)"

definition advance_to_next_block :: "'m externs \<Rightarrow> table_iterator \<Rightarrow> (block_cache option, table_iterator) op" where
  "advance_to_next_block X ti = load_block_at X (ti_block_index ti + 1) ti"

definition storage_iter :: "'m externs \<Rightarrow> sstable_reader \<Rightarrow> u64 \<Rightarrow> bool \<Rightarrow>
  (env \<times> block_cache option, table_iterator) op" where
  "storage_iter X rd table_number fill_cache = (\<lambda>(e, cache).
     case open_readable (rd_path rd) e of
       (Inl err, e) \<Rightarrow> (Inl err, (e, cache))
     | (Inr file, e) \<Rightarrow>
         (case load_block_at X 0
            \<lparr>ti_file = file, ti_index = rd_index rd, ti_table_number = table_number, ti_fill_cache = fill_cache,
             ti_block_index = 0, ti_current_block = None, ti_entry_index = 0\<rparr> cache of
            (r, cache) \<Rightarrow> (r, (e, cache))))"

definition table_iter_is_valid :: "table_iterator \<Rightarrow> bool" where
  "table_iter_is_valid ti =
     (case ti_current_block ti of None \<Rightarrow> False | Some block \<Rightarrow> ti_entry_index ti < length block)"

definition table_iter_entry :: "table_iterator \<Rightarrow> entry result" where
  "table_iter_entry ti =
     (case ti_current_block ti of
        None \<Rightarrow> Inl (Panic ''valid table iterator'')
      | Some block \<Rightarrow> if ti_entry_index ti < length block then Inr (block ! ti_entry_index ti)
                     else Inl (Panic ''index out of bounds''))"

definition table_iter_key :: "table_iterator \<Rightarrow> internal_key result" where
  "table_iter_key ti = and_then (table_iter_entry ti) (\<lambda>e. Inr (fst e))"

definition table_iter_value :: "table_iterator \<Rightarrow> value_record result" where
  "table_iter_value ti = and_then (table_iter_entry ti) (\<lambda>e. Inr (snd e))"

definition table_iter_next :: "'m externs \<Rightarrow> table_iterator \<Rightarrow> (block_cache option, table_iterator) op" where
  "table_iter_next X ti =
     (if \<not> table_iter_is_valid ti then op_lift (Inr ti)
      else let ti = ti\<lparr>ti_entry_index := ti_entry_index ti + 1\<rparr> in
        if \<not> table_iter_is_valid ti then advance_to_next_block X ti else op_lift (Inr ti))"

definition table_iter_seek :: "'m externs \<Rightarrow> internal_key \<Rightarrow> table_iterator \<Rightarrow> (block_cache option, table_iterator) op" where
  "table_iter_seek X key ti =
     (let block_index = min (partition_point (\<lambda>ie. last_key ie < key) (ti_index ti)) (length (ti_index ti)) in
      op_then (load_block_at X block_index ti) (\<lambda>ti.
        case ti_current_block ti of
          None \<Rightarrow> op_lift (Inr ti)
        | Some block \<Rightarrow>
            let ti = ti\<lparr>ti_entry_index := partition_point (\<lambda>e. fst e < key) block\<rparr> in
            if ti_entry_index ti \<ge> length block then advance_to_next_block X ti else op_lift (Inr ti)))"

definition table_iter :: "'m externs \<Rightarrow> (table_iterator, block_cache option) storage_iterator" where
  "table_iter X = \<lparr>si_is_valid = table_iter_is_valid, si_key = table_iter_key, si_value = table_iter_value,
     si_next = table_iter_next X, si_seek = table_iter_seek X\<rparr>"

text \<open>\<^verbatim>\<open>TableIterator\<close>, the owned iterator over all entries.\<close>

record owned_table_iterator =
  oti_entries :: "entry list"
  oti_index :: nat

definition reader_iter :: "'m externs \<Rightarrow> sstable_reader \<Rightarrow> (env, owned_table_iterator) op" where
  "reader_iter X rd = op_then (reader_entries X rd) (\<lambda>es. op_lift (Inr \<lparr>oti_entries = es, oti_index = 0\<rparr>))"

definition owned_iter_next :: "owned_table_iterator \<Rightarrow> entry option \<times> owned_table_iterator" where
  "owned_iter_next it =
     (if oti_index it < length (oti_entries it)
      then (Some (oti_entries it ! oti_index it), it\<lparr>oti_index := oti_index it + 1\<rparr>)
      else (None, it))"

subsection \<open>The contract\<close>

text \<open>The blocks of an open table, and the entries the iterator has left.\<close>

definition ti_blocks :: "'m externs \<Rightarrow> table_iterator \<Rightarrow> entry list list" where
  "ti_blocks X ti = map (\<lambda>ie. case and_then (block_at X (rf_content (ti_file ti)) (ie_handle ie)) block_decode of
      Inl e \<Rightarrow> [] | Inr blk \<Rightarrow> blk) (ti_index ti)"

definition ti_all :: "'m externs \<Rightarrow> table_iterator \<Rightarrow> entry list" where
  "ti_all X ti = concat (ti_blocks X ti)"

definition ti_rest :: "'m externs \<Rightarrow> table_iterator \<Rightarrow> entry list" where
  "ti_rest X ti =
     (case ti_current_block ti of None \<Rightarrow> []
      | Some blk \<Rightarrow> drop (ti_entry_index ti) blk @ concat (drop (ti_block_index ti + 1) (ti_blocks X ti)))"

definition ti_table :: "'m externs \<Rightarrow> tables \<Rightarrow> table_iterator \<Rightarrow> bool" where
  "ti_table X tabs ti \<longleftrightarrow> tabs (ti_table_number ti) = Some (rf_content (ti_file ti), ti_index ti) \<and>
     distinct (index_offsets (ti_index ti)) \<and>
     list_all2 (block_entry X (rf_content (ti_file ti))) (ti_index ti) (ti_blocks X ti) \<and>
     sorted_entries (ti_all X ti)"

definition ti_ok :: "'m externs \<Rightarrow> tables \<Rightarrow> table_iterator \<Rightarrow> bool" where
  "ti_ok X tabs ti \<longleftrightarrow> ti_table X tabs ti \<and>
     (case ti_current_block ti of None \<Rightarrow> True
      | Some blk \<Rightarrow> ti_block_index ti < length (ti_index ti) \<and> blk = ti_blocks X ti ! ti_block_index ti \<and>
          ti_entry_index ti < length blk)"

lemma ti_blocks_cong [simp]:
  "rf_content f = rf_content (ti_file ti) \<Longrightarrow> ti_blocks X (ti\<lparr>ti_file := f\<rparr>) = ti_blocks X ti"
  "ti_blocks X (ti\<lparr>ti_block_index := i\<rparr>) = ti_blocks X ti"
  "ti_blocks X (ti\<lparr>ti_current_block := b\<rparr>) = ti_blocks X ti"
  "ti_blocks X (ti\<lparr>ti_entry_index := i\<rparr>) = ti_blocks X ti"
  by (simp_all add: ti_blocks_def)

lemma length_ti_blocks [simp]: "length (ti_blocks X ti) = length (ti_index ti)"
  by (simp add: ti_blocks_def)

lemma ti_table_cong [simp]:
  "rf_content f = rf_content (ti_file ti) \<Longrightarrow> ti_table X tabs (ti\<lparr>ti_file := f\<rparr>) = ti_table X tabs ti"
  "ti_table X tabs (ti\<lparr>ti_block_index := i\<rparr>) = ti_table X tabs ti"
  "ti_table X tabs (ti\<lparr>ti_current_block := b\<rparr>) = ti_table X tabs ti"
  "ti_table X tabs (ti\<lparr>ti_entry_index := i\<rparr>) = ti_table X tabs ti"
  by (simp_all add: ti_table_def ti_all_def)

lemma table_with_ti:
  assumes "table_with X (rf_content (ti_file ti)) es (ti_index ti) blks"
  shows "ti_blocks X ti = blks" and "ti_all X ti = es"
proof -
  from assms have b: "list_all2 (block_entry X (rf_content (ti_file ti))) (ti_index ti) blks" "concat blks = es"
    by (simp_all add: table_with_def)
  then show "ti_blocks X ti = blks"
    by (auto simp: ti_blocks_def block_entry_def list_all2_conv_all_nth intro!: nth_equalityI)
  with b show "ti_all X ti = es" by (simp add: ti_all_def)
qed

text \<open>Loading never fails on a good table; no block of it is empty, so one read is enough.\<close>

lemma load_block_at_ok:
  assumes t: "ti_table X tabs ti" and coh: "cache_coherent X tabs cache"
  shows "\<exists>ti' cache'. load_block_at X i ti cache = (Inr ti', cache') \<and> ti_ok X tabs ti' \<and>
    cache_coherent X tabs cache' \<and> ti_all X ti' = ti_all X ti \<and>
    ti_rest X ti' = concat (drop i (ti_blocks X ti)) \<and>
    (i < length (ti_index ti) \<longrightarrow> ti_current_block ti' = Some (ti_blocks X ti ! i) \<and> ti_block_index ti' = i \<and>
       ti_entry_index ti' = 0 \<and> ti_blocks X ti' = ti_blocks X ti \<and> ti_index ti' = ti_index ti)"
proof -
  let ?ti = "ti\<lparr>ti_block_index := i, ti_current_block := None, ti_entry_index := 0\<rparr>"
  show ?thesis
  proof (cases "i < length (ti_index ti)")
    case False
    then show ?thesis
      using t coh
      by (simp add: load_block_at_def load_block_loop.simps [of X ?ti] ti_ok_def ti_all_def ti_rest_def)
  next
    case True
    let ?ie = "ti_index ti ! i" and ?blk = "ti_blocks X ti ! i"
    from t True have be: "block_entry X (rf_content (ti_file ti)) ?ie ?blk"
      by (auto simp: ti_table_def list_all2_conv_all_nth)
    then have blk: "and_then (block_at X (rf_content (ti_file ti)) (ie_handle ?ie)) block_decode = Inr ?blk"
      and "?blk \<noteq> []" by (simp_all add: block_entry_def)
    from t have tab: "tabs (ti_table_number ti) = Some (rf_content (ti_file ti), ti_index ti)"
      and dist: "distinct (index_offsets (ti_index ti))" by (simp_all add: ti_table_def)
    from read_decoded_block_outcome [OF coh tab nth_mem [OF True] dist blk] obtain f' cache' where
      rd: "read_decoded_block X ?ie (ti_table_number ti) (ti_fill_cache ti) (ti_file ti, cache) = (Inr ?blk, (f', cache'))"
      "rf_content f' = rf_content (ti_file ti)" "cache_coherent X tabs cache'" by metis
    have "concat (drop i (ti_blocks X ti)) = ?blk @ concat (drop (Suc i) (ti_blocks X ti))"
      using True by (simp add: Cons_nth_drop_Suc [symmetric])
    with rd True \<open>?blk \<noteq> []\<close> t show ?thesis
      by (simp add: load_block_at_def load_block_loop.simps [of X ?ti] ti_ok_def ti_all_def ti_rest_def)
  qed
qed

lemma dropWhile_concat_blocks:
  assumes "list_all2 (block_entry X c) idx blks" and "sorted_entries (concat blks)"
  shows "dropWhile (\<lambda>e. fst e < key) (concat blks) =
    (case drop (partition_point (\<lambda>ie. last_key ie < key) idx) blks of
       [] \<Rightarrow> [] | blk # blks' \<Rightarrow> dropWhile (\<lambda>e. fst e < key) blk @ concat blks') \<and>
    (case drop (partition_point (\<lambda>ie. last_key ie < key) idx) blks of
       [] \<Rightarrow> True | blk # blks' \<Rightarrow> dropWhile (\<lambda>e. fst e < key) blk \<noteq> [])"
  using assms
proof (induction idx blks rule: list_all2_induct)
  case Nil
  then show ?case by simp
next
  case (Cons ie idx blk blks)
  from Cons.hyps(1) have blk: "blk \<noteq> []" "last_key ie = fst (last blk)" by (simp_all add: block_entry_def)
  have sorted: "sorted_entries blk" "sorted_entries (concat blks)"
    using Cons.prems by (simp_all add: sorted_wrt_append)
  show ?case
  proof (cases "last_key ie < key")
    case True
    have "fst e < key" if "e \<in> set blk" for e
    proof -
      have "fst e \<le> fst (last blk)"
        using that sorted(1) by (cases blk rule: rev_cases) (auto simp: sorted_wrt_append intro: less_imp_le)
      with True blk show ?thesis by simp
    qed
    then have "dropWhile (\<lambda>e. fst e < key) (blk @ concat blks) = dropWhile (\<lambda>e. fst e < key) (concat blks)"
      by (simp add: dropWhile_append2)
    with True Cons.IH [OF sorted(2)] show ?thesis by (simp add: partition_point_def)
  next
    case False
    then have "last blk \<in> set blk" "\<not> fst (last blk) < key" using blk by simp_all
    with False show ?thesis by (auto simp: partition_point_def dropWhile_append1 dropWhile_eq_Nil_conv)
  qed
qed

lemma ti_rest_nonempty:
  assumes "ti_ok X tabs ti"
  shows "(ti_rest X ti \<noteq> [] \<longleftrightarrow> table_iter_is_valid ti) \<and>
    (\<forall>e es. ti_rest X ti = e # es \<longrightarrow> table_iter_entry ti = Inr e)"
proof (cases "ti_current_block ti")
  case (Some blk)
  with assms have i: "ti_entry_index ti < length blk" by (auto simp: ti_ok_def)
  then have "drop (ti_entry_index ti) blk = blk ! ti_entry_index ti # drop (Suc (ti_entry_index ti)) blk"
    by (simp add: Cons_nth_drop_Suc)
  with Some i show ?thesis by (simp add: ti_rest_def table_iter_is_valid_def table_iter_entry_def)
qed (simp add: ti_rest_def table_iter_is_valid_def)

lemma table_next_ok:
  assumes ok: "ti_ok X tabs ti" and coh: "cache_coherent X tabs cache"
  shows "\<exists>ti' cache'. table_iter_next X ti cache = (Inr ti', cache') \<and> ti_ok X tabs ti' \<and>
    cache_coherent X tabs cache' \<and> ti_rest X ti' = tl (ti_rest X ti) \<and> ti_all X ti' = ti_all X ti"
proof (cases "table_iter_is_valid ti")
  case False
  then have "ti_rest X ti = []" using ti_rest_nonempty [OF ok] by blast
  with False ok coh show ?thesis by (simp add: table_iter_next_def op_lift_def)
next
  case True
  then obtain blk where blk: "ti_current_block ti = Some blk" "ti_entry_index ti < length blk"
    by (auto simp: table_iter_is_valid_def split: option.splits)
  let ?ti = "ti\<lparr>ti_entry_index := ti_entry_index ti + 1\<rparr>"
  have tl: "tl (ti_rest X ti) = drop (Suc (ti_entry_index ti)) blk @ concat (drop (ti_block_index ti + 1) (ti_blocks X ti))"
    using blk by (simp add: ti_rest_def Cons_nth_drop_Suc [symmetric])
  have t: "ti_table X tabs ?ti" using ok by (simp add: ti_ok_def)
  show ?thesis
  proof (cases "Suc (ti_entry_index ti) < length blk")
    case True
    with blk ok coh tl show ?thesis
      by (simp add: table_iter_next_def table_iter_is_valid_def ti_ok_def ti_rest_def op_lift_def Let_def ti_all_def)
  next
    case False
    with blk have "table_iter_next X ti cache = load_block_at X (ti_block_index ti + 1) ?ti cache"
      by (simp add: table_iter_next_def table_iter_is_valid_def Let_def advance_to_next_block_def)
    with load_block_at_ok [OF t coh, of "ti_block_index ti + 1"] False tl show ?thesis
      by (auto simp: ti_all_def)
  qed
qed

lemma table_seek_ok:
  assumes ok: "ti_ok X tabs ti" and coh: "cache_coherent X tabs cache"
  shows "\<exists>ti' cache'. table_iter_seek X key ti cache = (Inr ti', cache') \<and> ti_ok X tabs ti' \<and>
    cache_coherent X tabs cache' \<and> ti_rest X ti' = dropWhile (\<lambda>e. fst e < key) (ti_all X ti) \<and>
    ti_all X ti' = ti_all X ti"
proof -
  let ?j = "partition_point (\<lambda>ie. last_key ie < key) (ti_index ti)"
  from ok have t: "ti_table X tabs ti" by (simp add: ti_ok_def)
  then have b: "list_all2 (block_entry X (rf_content (ti_file ti))) (ti_index ti) (ti_blocks X ti)"
    "sorted_entries (concat (ti_blocks X ti))" by (simp_all add: ti_table_def ti_all_def)
  note drop = dropWhile_concat_blocks [OF b, of key]
  from load_block_at_ok [OF t coh, of ?j] obtain ti1 cache1 where
    load: "load_block_at X ?j ti cache = (Inr ti1, cache1)" and ok1: "ti_ok X tabs ti1"
    and coh1: "cache_coherent X tabs cache1" and all1: "ti_all X ti1 = ti_all X ti"
    and rest1: "ti_rest X ti1 = concat (drop ?j (ti_blocks X ti))"
    and cur: "?j < length (ti_index ti) \<longrightarrow> ti_current_block ti1 = Some (ti_blocks X ti ! ?j) \<and>
      ti_block_index ti1 = ?j \<and> ti_entry_index ti1 = 0 \<and> ti_blocks X ti1 = ti_blocks X ti \<and> ti_index ti1 = ti_index ti"
    by blast
  have min: "min ?j (length (ti_index ti)) = ?j" by (simp add: min_absorb1 partition_point_le)
  show ?thesis
  proof (cases "?j < length (ti_index ti)")
    case False
    then have "drop ?j (ti_blocks X ti) = []" by simp
    moreover from this rest1 ok1 have "ti_current_block ti1 = None"
      by (auto simp: ti_rest_def ti_ok_def split: option.splits)
    moreover from this drop have "dropWhile (\<lambda>e. fst e < key) (ti_all X ti) = []"
      using False unfolding ti_all_def by simp
    ultimately show ?thesis
      using load ok1 coh1 all1 rest1 min
      by (simp add: table_iter_seek_def op_then_def op_lift_def eq_commute [of "[]"])
  next
    case True
    let ?blk = "ti_blocks X ti ! ?j"
    have split: "drop ?j (ti_blocks X ti) = ?blk # drop (Suc ?j) (ti_blocks X ti)"
      using True by (simp add: Cons_nth_drop_Suc)
    with drop have nonempty: "dropWhile (\<lambda>e. fst e < key) ?blk \<noteq> []"
      and all: "dropWhile (\<lambda>e. fst e < key) (ti_all X ti) =
        dropWhile (\<lambda>e. fst e < key) ?blk @ concat (drop (Suc ?j) (ti_blocks X ti))" by (simp_all add: ti_all_def)
    have "partition_point (\<lambda>e. fst e < key) ?blk < length ?blk"
      using nonempty drop_partition_point [of "\<lambda>e. fst e < key" ?blk] by (metis drop_all leI)
    with True cur load ok1 coh1 all1 all min show ?thesis
      by (simp add: table_iter_seek_def op_then_def op_lift_def Let_def ti_ok_def ti_rest_def
          drop_partition_point ti_all_def)
  qed
qed

lemma table_iterating:
  "iterating (table_iter X) (ti_ok X tabs) (cache_coherent X tabs) (ti_rest X) (ti_all X)"
proof unfold_locales
  fix ti e es assume ok: "ti_ok X tabs ti"
  show "si_is_valid (table_iter X) ti \<longleftrightarrow> ti_rest X ti \<noteq> []"
    using ti_rest_nonempty [OF ok] by (simp add: table_iter_def)
  show "si_key (table_iter X) ti = Inr (fst e) \<and> si_value (table_iter X) ti = Inr (snd e)" if "ti_rest X ti = e # es"
    using ti_rest_nonempty [OF ok] that by (simp add: table_iter_def table_iter_key_def table_iter_value_def)
  from ok have sorted: "sorted_entries (ti_all X ti)" by (simp add: ti_ok_def ti_table_def)
  then show "ordered (ti_all X ti)" by (rule sorted_entries_le)
  show "ordered (ti_rest X ti)"
  proof (cases "ti_current_block ti")
    case (Some blk)
    then have i: "ti_block_index ti < length (ti_blocks X ti)" "blk = ti_blocks X ti ! ti_block_index ti"
      using ok by (simp_all add: ti_ok_def)
    have "ordered (concat (drop (ti_block_index ti) (ti_blocks X ti)))"
      using \<open>ordered (ti_all X ti)\<close> append_take_drop_id [of "ti_block_index ti" "ti_blocks X ti"]
      by (metis concat_append sorted_wrt_append ti_all_def)
    then have "ordered (blk @ concat (drop (ti_block_index ti + 1) (ti_blocks X ti)))"
      using i by (simp add: Cons_nth_drop_Suc [symmetric])
    then have "ordered (drop (ti_entry_index ti) (blk @ concat (drop (ti_block_index ti + 1) (ti_blocks X ti))))"
      by (rule sorted_wrt_drop)
    moreover have "ti_entry_index ti \<le> length blk" using ok Some by (auto simp: ti_ok_def)
    ultimately show ?thesis using Some by (simp add: ti_rest_def)
  qed (simp add: ti_rest_def)
qed (use table_next_ok table_seek_ok in \<open>simp_all add: table_iter_def\<close>)

interpretation table_it: iterating "table_iter X" "ti_ok X tabs" "cache_coherent X tabs" "ti_rest X" "ti_all X"
  for X :: "'m externs" and tabs
  by (rule table_iterating)

text \<open>The children of a database scan: memtable entries and table iterators.\<close>

interpretation db_children: two_iterating entry_iter "\<lambda>i. ordered (ei_entries i)" "cache_coherent X tabs"
  entry_rest ei_entries "table_iter X" "ti_ok X tabs" "ti_rest X" "ti_all X"
  for X :: "'m externs" and tabs
  by unfold_locales

lemma storage_iter_outcome:
  assumes t: "table_with X c es idx blks" and sorted: "sorted_entries es" and c: "content_of e p = Some c"
    and coh: "cache_coherent X tabs cache" and tab: "tabs n = Some (c, idx)"
    and run: "storage_iter X (reader_for es idx p) n fill (e, cache) = (r, (e', cache'))"
  shows "env_files e' = env_files e \<and> cache_coherent X tabs cache' \<and> (env_faults e = [] \<longrightarrow> e' = e) \<and>
    (r = Inl (Io OtherIo) \<and> env_faults e \<noteq> [] \<or>
     (\<exists>ti. r = Inr ti \<and> ti_ok X tabs ti \<and> ti_rest X ti = es \<and> ti_all X ti = es))"
proof -
  obtain r1 e1 where o: "open_readable p e = (r1, e1)" by fastforce
  from open_readable_outcome [OF this c] consider
    "r1 = Inl (Io OtherIo)" "env_faults e \<noteq> []" "env_files e1 = env_files e"
    | f where "r1 = Inr f" "rf_content f = c" "env_files e1 = env_files e" "env_faults e = [] \<longrightarrow> e1 = e"
    by auto
  then show ?thesis
  proof cases
    case 1
    with o run coh show ?thesis by (auto simp: storage_iter_def reader_for_def)
  next
    case 2
    let ?ti = "\<lparr>ti_file = f, ti_index = idx, ti_table_number = n, ti_fill_cache = fill, ti_block_index = 0,
      ti_current_block = None, ti_entry_index = 0\<rparr>"
    have "ti_blocks X ?ti = blks" "ti_all X ?ti = es" using table_with_ti [of X ?ti] t 2(2) by simp_all
    moreover from this have "ti_table X tabs ?ti"
      using t tab sorted 2(2) by (simp add: ti_table_def table_with_def)
    from load_block_at_ok [OF this coh, of 0] obtain ti' cache2 where
      "load_block_at X 0 ?ti cache = (Inr ti', cache2)" "ti_ok X tabs ti'" "cache_coherent X tabs cache2"
      "ti_all X ti' = ti_all X ?ti" "ti_rest X ti' = concat (drop 0 (ti_blocks X ?ti))" by metis
    ultimately show ?thesis
      using 2 o run by (auto simp: storage_iter_def reader_for_def ti_all_def)
  qed
qed

end
