(* ===== verification/Float64.thy ===== *)
theory Float64
  imports Complex_Main
begin

section \<open>Double precision numbers\<close>

text \<open>
  The part of IEEE 754 binary64 (Rust's \<^verbatim>\<open>f64\<close>) that the compaction scores and
  the rate limiter compute with: conversion from and to integers, sum, product, quotient and
  comparison, rounding to nearest with ties to even.  A finite number is its sign and the
  rational magnitude; every operation is the exact one followed by \<open>f64_round\<close>.

  The lemmas say that rounding is monotone, keeps the integers below \<open>2 ^ 53\<close>, and has a
  relative error of at most \<open>2 ^ - 53\<close> on normal magnitudes.
\<close>

datatype f64 = NaN | Infinite bool | Finite bool rat

subsection \<open>Rounding a magnitude\<close>

function ilog2 :: "int \<Rightarrow> int" where
  "ilog2 n = (if n \<le> 1 then 0 else 1 + ilog2 (n div 2))"
  by auto
termination by (relation "measure nat") auto

declare ilog2.simps [simp del]

text \<open>The exponent of the leading bit of a positive magnitude.\<close>

definition f64_exponent :: "rat \<Rightarrow> int" where
  "f64_exponent x =
     (let (n, d) = quotient_of x; k = ilog2 n - ilog2 d
      in if 2 powi k \<le> x then k else k - 1)"

definition round_even :: "rat \<Rightarrow> int" where
  "round_even q =
     (let f = \<lfloor>q\<rfloor>; r = q - of_int f
      in if r < 1 / 2 \<or> r = 1 / 2 \<and> even f then f else f + 1)"

text \<open>52 bits behind the leading one, and nothing below \<open>2 ^ - 1074\<close>.\<close>

definition f64_round :: "rat \<Rightarrow> rat" where
  "f64_round x =
     (if x = 0 then 0
      else let e = max (f64_exponent x - 52) (- 1074)
           in of_int (round_even (x / 2 powi e)) * 2 powi e)"

definition f64_of_magnitude :: "bool \<Rightarrow> rat \<Rightarrow> f64" where
  "f64_of_magnitude neg x =
     (let y = f64_round x in if y \<ge> 2 ^ 1024 then Infinite neg else Finite neg y)"

subsection \<open>Conversions and arithmetic\<close>

text \<open>\<^verbatim>\<open>as f64\<close> of an unsigned integer, \<^verbatim>\<open>as u64\<close> of a float: truncation that saturates.\<close>

definition f64_of_nat :: "nat \<Rightarrow> f64" where
  "f64_of_nat n = f64_of_magnitude False (of_nat n)"

fun f64_to_u64 :: "f64 \<Rightarrow> nat" where
  "f64_to_u64 NaN = 0"
| "f64_to_u64 (Infinite neg) = (if neg then 0 else 2 ^ 64 - 1)"
| "f64_to_u64 (Finite neg x) = (if neg then 0 else min (nat \<lfloor>x\<rfloor>) (2 ^ 64 - 1))"

fun f64_mul :: "f64 \<Rightarrow> f64 \<Rightarrow> f64" where
  "f64_mul (Finite s x) (Finite t y) = f64_of_magnitude (s \<noteq> t) (x * y)"
| "f64_mul (Infinite s) (Infinite t) = Infinite (s \<noteq> t)"
| "f64_mul (Infinite s) (Finite t y) = (if y = 0 then NaN else Infinite (s \<noteq> t))"
| "f64_mul (Finite s x) (Infinite t) = (if x = 0 then NaN else Infinite (s \<noteq> t))"
| "f64_mul NaN _ = NaN"
| "f64_mul _ NaN = NaN"

fun f64_div :: "f64 \<Rightarrow> f64 \<Rightarrow> f64" where
  "f64_div (Finite s x) (Finite t y) =
     (if y \<noteq> 0 then f64_of_magnitude (s \<noteq> t) (x / y)
      else if x \<noteq> 0 then Infinite (s \<noteq> t) else NaN)"
| "f64_div (Infinite s) (Infinite t) = NaN"
| "f64_div (Infinite s) (Finite t y) = Infinite (s \<noteq> t)"
| "f64_div (Finite s x) (Infinite t) = Finite (s \<noteq> t) 0"
| "f64_div NaN _ = NaN"
| "f64_div _ NaN = NaN"

definition f64_signed :: "bool \<Rightarrow> rat \<Rightarrow> rat" where
  "f64_signed neg x = (if neg then - x else x)"

fun f64_add :: "f64 \<Rightarrow> f64 \<Rightarrow> f64" where
  "f64_add (Finite s x) (Finite t y) =
     (let v = f64_signed s x + f64_signed t y
      in f64_of_magnitude (if v = 0 then s \<and> t else v < 0) \<bar>v\<bar>)"
| "f64_add (Infinite s) (Infinite t) = (if s = t then Infinite s else NaN)"
| "f64_add (Infinite s) (Finite t y) = Infinite s"
| "f64_add (Finite s x) (Infinite t) = Infinite t"
| "f64_add NaN _ = NaN"
| "f64_add _ NaN = NaN"

text \<open>Comparison: false whenever a side is not a number.\<close>

fun f64_less :: "f64 \<Rightarrow> f64 \<Rightarrow> bool" where
  "f64_less (Finite s x) (Finite t y) \<longleftrightarrow> f64_signed s x < f64_signed t y"
| "f64_less (Finite s x) (Infinite t) \<longleftrightarrow> \<not> t"
| "f64_less (Infinite s) (Finite t y) \<longleftrightarrow> s"
| "f64_less (Infinite s) (Infinite t) \<longleftrightarrow> s \<and> \<not> t"
| "f64_less NaN _ \<longleftrightarrow> False"
| "f64_less _ NaN \<longleftrightarrow> False"

subsection \<open>The leading bit\<close>

lemma ilog2_bounds: "1 \<le> n \<Longrightarrow> 0 \<le> ilog2 n \<and> 2 ^ nat (ilog2 n) \<le> n \<and> n < 2 * 2 ^ nat (ilog2 n)"
proof (induction n rule: ilog2.induct)
  case (1 n)
  show ?case
  proof (cases "n \<le> 1")
    case True
    with 1 show ?thesis by (simp add: ilog2.simps)
  next
    case False
    then have IH: "0 \<le> ilog2 (n div 2)" "2 ^ nat (ilog2 (n div 2)) \<le> n div 2" "n div 2 < 2 * 2 ^ nat (ilog2 (n div 2))"
      using 1 by auto
    have [simp]: "ilog2 n = 1 + ilog2 (n div 2)"
      using False by (subst ilog2.simps) simp
    have [simp]: "nat (1 + ilog2 (n div 2)) = Suc (nat (ilog2 (n div 2)))"
      using IH(1) by simp
    show ?thesis using IH by simp linarith
  qed
qed

lemma ilog2_powi:
  assumes "1 \<le> n"
  shows "2 powi ilog2 n \<le> (of_int n :: rat)" and "(of_int n :: rat) < 2 * 2 powi ilog2 n"
proof -
  note b = ilog2_bounds [OF assms]
  have p: "(2 :: rat) powi ilog2 n = of_int (2 ^ nat (ilog2 n))"
    using b by (simp add: power_int_def)
  show "2 powi ilog2 n \<le> (of_int n :: rat)"
    unfolding p using b by (subst of_int_le_iff) blast
  show "(of_int n :: rat) < 2 * 2 powi ilog2 n"
    unfolding p using b of_int_less_iff [of n "2 * 2 ^ nat (ilog2 n)", where 'a = rat] by simp
qed

lemma f64_exponent_bounds:
  assumes "0 < x"
  shows "2 powi f64_exponent x \<le> x" and "x < 2 powi (f64_exponent x + 1)"
proof -
  obtain n d where q: "quotient_of x = (n, d)" by force
  have x: "x = of_int n / of_int d" using quotient_of_div [OF q] .
  have d: "1 \<le> d" using quotient_of_denom_pos [OF q] by simp
  have n: "1 \<le> n" using assms x d by (simp add: zero_less_divide_iff)
  define k where "k = ilog2 n - ilog2 d"
  note ln = ilog2_powi [OF n] and ld = ilog2_powi [OF d]
  have pk: "(2 :: rat) powi k = 2 powi ilog2 n / 2 powi ilog2 d"
    by (simp add: k_def power_int_diff)
  have pos: "(0 :: rat) < 2 powi ilog2 n" "(0 :: rat) < 2 powi ilog2 d" "(0 :: rat) < of_int d"
    using d by simp_all
  have up: "x < 2 * 2 powi k"
  proof -
    have "of_int n * 2 powi ilog2 d < 2 * 2 powi ilog2 n * (of_int d :: rat)"
      using mult_less_le_imp_less [OF ln(2) ld(1)] pos n by auto
    then show ?thesis using pos by (simp add: x pk field_simps)
  qed
  have lo: "2 powi k / 2 \<le> x"
  proof -
    have "2 powi ilog2 n * (of_int d :: rat) \<le> of_int n * (2 * 2 powi ilog2 d)"
      using ln(1) ld(2) pos n by (intro mult_mono) auto
    then show ?thesis using pos by (simp add: x pk field_simps)
  qed
  have e: "f64_exponent x = (if 2 powi k \<le> x then k else k - 1)"
    by (simp add: f64_exponent_def q k_def Let_def)
  show "2 powi f64_exponent x \<le> x"
    using lo by (simp add: e power_int_diff)
  show "x < 2 powi (f64_exponent x + 1)"
    using up by (simp add: e power_int_add power_int_diff)
qed

lemma powi_le_iff: "(2 :: rat) powi i \<le> 2 powi j \<longleftrightarrow> i \<le> j"
  by (meson linorder_not_le one_less_numeral_iff power_int_increasing power_int_strict_increasing semiring_norm(76) order_less_imp_le)

lemma f64_exponent_le: "0 < x \<Longrightarrow> x < 2 powi (e + 1) \<Longrightarrow> f64_exponent x \<le> e"
  using f64_exponent_bounds(1) [of x] powi_le_iff [of "e + 1" "f64_exponent x"] by force

lemma f64_exponent_ge: "0 < x \<Longrightarrow> 2 powi e \<le> x \<Longrightarrow> e \<le> f64_exponent x"
  using f64_exponent_bounds(2) [of x] powi_le_iff [of "f64_exponent x + 1" e] by force

lemma f64_exponent_mono: "0 < x \<Longrightarrow> x \<le> y \<Longrightarrow> f64_exponent x \<le> f64_exponent y"
  using f64_exponent_bounds(1) [of x] by (intro f64_exponent_ge) auto

subsection \<open>Rounding\<close>

lemma round_even_of_int [simp]: "round_even (of_int k) = k"
  by (simp add: round_even_def)

lemma round_even_close: "\<bar>of_int (round_even q) - q\<bar> \<le> 1 / 2"
  by (simp add: round_even_def Let_def abs_if) linarith

lemma round_even_mono:
  assumes "p \<le> q"
  shows "round_even p \<le> round_even q"
proof (cases "\<lfloor>p\<rfloor> = \<lfloor>q\<rfloor>")
  case True
  then show ?thesis using assms by (auto simp: round_even_def Let_def)
next
  case False
  then have "\<lfloor>p\<rfloor> + 1 \<le> \<lfloor>q\<rfloor>" using floor_mono [OF assms] by simp
  moreover have "round_even p \<le> \<lfloor>p\<rfloor> + 1" "\<lfloor>q\<rfloor> \<le> round_even q"
    by (auto simp: round_even_def Let_def)
  ultimately show ?thesis by linarith
qed

text \<open>The distance of the floats around a magnitude.\<close>

definition f64_ulp :: "rat \<Rightarrow> int" where
  "f64_ulp x = max (f64_exponent x - 52) (- 1074)"

lemma f64_round_pos: "0 < x \<Longrightarrow> f64_round x = of_int (round_even (x / 2 powi f64_ulp x)) * 2 powi f64_ulp x"
  by (simp add: f64_round_def f64_ulp_def Let_def)

lemma f64_round_0 [simp]: "f64_round 0 = 0"
  by (simp add: f64_round_def)

lemma f64_round_exact:
  assumes "0 \<le> m" "m < 2 ^ 53" "- 1074 \<le> e"
  shows "f64_round (of_int m * 2 powi e) = of_int m * 2 powi e"
proof (cases "m = 0")
  case False
  let ?x = "of_int m * 2 powi e :: rat"
  have pos: "0 < ?x" using assms False by simp
  have "?x < 2 ^ 53 * 2 powi e"
    using assms of_int_less_iff [of m "2 ^ 53", where 'a = rat] by simp
  also have "\<dots> = 2 powi (e + 52 + 1)" by (simp add: power_int_add power_int_numeral)
  finally have "f64_ulp ?x \<le> e"
    using f64_exponent_le [OF pos] assms(3) by (fastforce simp: f64_ulp_def)
  then have "?x / 2 powi f64_ulp ?x = of_int (m * 2 ^ nat (e - f64_ulp ?x))"
    by (simp add: power_int_diff [symmetric] power_int_def [of _ "e - _"] flip: times_divide_eq_right)
  then show ?thesis
    using f64_round_pos [OF pos] by (metis nonzero_divide_eq_eq power_int_not_zero round_even_of_int zero_neq_numeral)
qed simp

lemma f64_round_of_nat: "n < 2 ^ 53 \<Longrightarrow> f64_round (of_nat n) = of_nat n"
  using f64_round_exact [of "int n" 0] by (simp add: of_nat_less_iff [of n "2 ^ 53", where 'a = int, symmetric] del: of_nat_less_iff)

lemma f64_round_powi: "- 1074 \<le> e \<Longrightarrow> f64_round (2 powi e) = 2 powi e"
  using f64_round_exact [of 1 e] by simp

lemma f64_round_mono_ulp:
  assumes "0 < x" "x \<le> y" "f64_ulp x = f64_ulp y"
  shows "f64_round x \<le> f64_round y"
  using assms round_even_mono [of "x / 2 powi f64_ulp y" "y / 2 powi f64_ulp y"]
  by (simp add: f64_round_pos divide_right_mono)

lemma f64_round_le_multiple:
  assumes "0 < x" "x \<le> of_int k * 2 powi f64_ulp x"
  shows "f64_round x \<le> of_int k * 2 powi f64_ulp x"
  using assms round_even_mono [of "x / 2 powi f64_ulp x" "of_int k"]
  by (simp add: f64_round_pos field_simps)

lemma f64_round_ge_multiple:
  assumes "0 < x" "of_int k * 2 powi f64_ulp x \<le> x"
  shows "of_int k * 2 powi f64_ulp x \<le> f64_round x"
  using assms round_even_mono [of "of_int k" "x / 2 powi f64_ulp x"]
  by (simp add: f64_round_pos field_simps)

lemma powi_multiple: "u \<le> e \<Longrightarrow> (2 :: rat) powi e = of_int (2 ^ nat (e - u)) * 2 powi u"
  by (metis (no_types) add_diff_cancel_left' diff_ge_0_iff_ge of_int_numeral of_int_power power_int_add
      power_int_def uminus_add_conv_diff diff_add_cancel zero_neq_numeral)

lemma f64_round_nonneg [simp]: "0 \<le> x \<Longrightarrow> 0 \<le> f64_round x"
  using f64_round_ge_multiple [of x 0] by (cases "x = 0") auto

lemma f64_round_mono:
  assumes "0 \<le> x" "x \<le> y"
  shows "f64_round x \<le> f64_round y"
proof (cases "x = 0 \<or> f64_ulp x = f64_ulp y")
  case True
  then show ?thesis using assms f64_round_mono_ulp [of x y] by (cases "x = 0") auto
next
  case False
  then have pos: "0 < x" "0 < y" using assms by auto
  have "f64_exponent x \<le> f64_exponent y" using f64_exponent_mono pos assms by blast
  then have u: "f64_ulp y = f64_exponent y - 52" "f64_ulp x \<le> f64_exponent y" "f64_exponent x + 1 \<le> f64_exponent y"
    using False by (auto simp: f64_ulp_def)
  have "x \<le> 2 powi f64_exponent y"
    using f64_exponent_bounds(2) [OF pos(1)] u(3) powi_le_iff [of "f64_exponent x + 1"] by force
  then have "f64_round x \<le> 2 powi f64_exponent y"
    using f64_round_le_multiple [OF pos(1)] powi_multiple [OF u(2)] by metis
  also have "\<dots> \<le> f64_round y"
    using f64_round_ge_multiple [OF pos(2), of "2 ^ 52"] powi_multiple [of "f64_ulp y" "f64_exponent y"]
      f64_exponent_bounds(1) [OF pos(2)] u(1) by simp
  finally show ?thesis .
qed

lemma f64_round_error:
  assumes "2 powi - 1022 \<le> x"
  shows "\<bar>f64_round x - x\<bar> \<le> x / 2 ^ 53"
proof -
  have pos: "0 < x" using assms by (rule less_le_trans [rotated]) simp
  have "- 1022 \<le> f64_exponent x" using f64_exponent_ge [OF pos assms] .
  then have u: "f64_ulp x = f64_exponent x - 52" by (simp add: f64_ulp_def)
  define p :: rat where "p = 2 powi f64_ulp x"
  have p: "0 < p" "p \<le> x / 2 ^ 52"
    using f64_exponent_bounds(1) [OF pos] by (simp_all add: p_def u power_int_diff)
  have "\<bar>f64_round x - x\<bar> = \<bar>of_int (round_even (x / p)) - x / p\<bar> * p"
    using p(1) by (simp add: f64_round_pos [OF pos] p_def [symmetric] abs_mult_pos left_diff_distrib)
  also have "\<dots> \<le> 1 / 2 * p" using p(1) round_even_close by (intro mult_right_mono) auto
  also have "\<dots> \<le> x / 2 ^ 53" using p(2) by simp
  finally show ?thesis .
qed

lemma f64_round_upper: "2 powi - 1022 \<le> x \<Longrightarrow> f64_round x \<le> x * (1 + 1 / 2 ^ 53)"
  using abs_le_D1 [OF f64_round_error, of x] by (simp add: field_simps)

lemma f64_round_lower: "2 powi - 1022 \<le> x \<Longrightarrow> x * (1 - 1 / 2 ^ 53) \<le> f64_round x"
  using abs_le_D2 [OF f64_round_error, of x] by (simp add: field_simps)

subsection \<open>Integers and their quotients\<close>

lemma f64_round_le_powi: "0 \<le> x \<Longrightarrow> x \<le> 2 ^ k \<Longrightarrow> f64_round x \<le> 2 ^ k"
  using f64_round_mono [of x "2 ^ k"] f64_round_powi [of "int k"] by simp

lemma f64_of_magnitude_finite:
  assumes "0 \<le> x" "x \<le> 2 ^ 1023"
  shows "f64_of_magnitude s x = Finite s (f64_round x)"
proof -
  have "f64_round x \<le> 2 ^ 1023" using f64_round_le_powi assms by blast
  also have "\<dots> < (2 :: rat) ^ 1024" by (intro power_strict_increasing) auto
  finally show ?thesis by (simp add: f64_of_magnitude_def Let_def)
qed

lemma u64_le_powi: "n < 2 ^ 64 \<Longrightarrow> 64 \<le> k \<Longrightarrow> of_nat n \<le> (2 :: rat) ^ k"
  using power_increasing [of 64 k "2 :: nat"] of_nat_mono [of n "2 ^ k", where 'a = rat] by simp

lemma f64_of_nat_finite: "n < 2 ^ 64 \<Longrightarrow> f64_of_nat n = Finite False (f64_round (of_nat n))"
  by (simp add: f64_of_nat_def f64_of_magnitude_finite u64_le_powi)

lemma f64_round_ge_1: "1 \<le> x \<Longrightarrow> 1 \<le> f64_round x"
  using f64_round_mono [of 1 x] f64_round_powi [of 0] by simp

text \<open>The float quotient of two integers.\<close>

definition f64_ratio :: "nat \<Rightarrow> nat \<Rightarrow> rat" where
  "f64_ratio a b = f64_round (f64_round (of_nat a) / f64_round (of_nat b))"

lemma f64_div_of_nat:
  assumes "a < 2 ^ 64" "b < 2 ^ 64" "1 \<le> b"
  shows "f64_div (f64_of_nat a) (f64_of_nat b) = Finite False (f64_ratio a b)"
proof -
  have b: "1 \<le> f64_round (of_nat b)" using assms by (intro f64_round_ge_1) auto
  have "f64_round (of_nat a) / f64_round (of_nat b) \<le> f64_round (of_nat a) / 1"
    using b by (intro divide_left_mono) auto
  also have "\<dots> \<le> 2 ^ 1023"
    using f64_round_le_powi [OF _ u64_le_powi [OF assms(1), of 1023]] by simp
  finally show ?thesis
    using assms b by (simp add: f64_of_nat_finite f64_of_magnitude_finite f64_ratio_def)
qed

lemma f64_ratio_ge_1:
  assumes "b \<le> a" "1 \<le> b"
  shows "1 \<le> f64_ratio a b"
proof -
  have "1 \<le> f64_round (of_nat b)" using assms by (intro f64_round_ge_1) auto
  moreover have "f64_round (of_nat b) \<le> f64_round (of_nat a)" using assms by (intro f64_round_mono) auto
  ultimately show ?thesis unfolding f64_ratio_def by (intro f64_round_ge_1) simp
qed

lemma f64_ratio_less_1:
  assumes "a < b" "b < 2 ^ 53"
  shows "f64_ratio a b < 1"
proof -
  let ?t = "of_int (2 ^ 53 - 1) * 2 powi - 53 :: rat"
  have b: "of_nat b \<le> (2 :: rat) ^ 53" "of_nat a + 1 \<le> (of_nat b :: rat)" "(0 :: rat) < of_nat b"
    using assms of_nat_mono [of b "2 ^ 53", where 'a = rat] of_nat_mono [of "a + 1" b, where 'a = rat] by auto
  have "of_nat a / of_nat b \<le> (of_nat b - 1) / (of_nat b :: rat)"
    using b by (intro divide_right_mono) auto
  also have "\<dots> = 1 - 1 / of_nat b" using b by (simp add: diff_divide_distrib)
  also have "\<dots> \<le> 1 - 1 / 2 ^ 53" using b by (intro diff_left_mono divide_left_mono) auto
  also have "\<dots> = ?t" by (simp add: power_int_minus power_int_numeral field_simps)
  finally have "f64_round (of_nat a / of_nat b) \<le> f64_round ?t"
    by (intro f64_round_mono) auto
  also have "f64_round ?t = ?t" by (intro f64_round_exact) auto
  also have "\<dots> < 1" by (simp add: power_int_minus power_int_numeral field_simps)
  finally show ?thesis using assms by (simp add: f64_ratio_def f64_round_of_nat)
qed

lemma f64_ratio_nonneg: "0 \<le> f64_ratio a b"
  by (simp add: f64_ratio_def)

lemma f64_to_u64_bound: "f64_to_u64 x < 2 ^ 64"
  by (cases x) (auto simp: min_def)

lemma f64_to_u64_le: "0 \<le> x \<Longrightarrow> of_nat (f64_to_u64 (Finite s x)) \<le> x"
proof (cases s)
  case False
  assume "0 \<le> x"
  then have "of_nat (nat \<lfloor>x\<rfloor>) \<le> x" by (simp add: of_nat_nat)
  moreover have "of_nat (min (nat \<lfloor>x\<rfloor>) (2 ^ 64 - 1)) \<le> (of_nat (nat \<lfloor>x\<rfloor>) :: rat)"
    by (subst of_nat_le_iff) simp
  ultimately show ?thesis unfolding f64_to_u64.simps using False by simp
qed simp

end
