(* ===== verification/Options.thy ===== *)
theory Options
  imports Memtable Table_Format Float64
begin

section \<open>Options (options.rs)\<close>

text \<open>
  \<^verbatim>\<open>src/src/options.rs\<close>.  The environment is part of the state of the database
  and not a field here.  A \<^verbatim>\<open>Duration\<close> is its number of nanoseconds.
\<close>

datatype wal_sync_mode = Never | PerWrite

record options =
  create_if_missing :: bool
  error_if_exists :: bool
  memtable_size :: nat
  max_immutable_memtables :: nat
  block_size :: nat
  target_file_size_base :: nat
  max_levels :: nat
  level0_file_num_compaction_trigger :: nat
  level0_slowdown_writes_trigger :: nat
  level0_stop_writes_trigger :: nat
  max_bytes_for_level_base :: nat
  max_bytes_for_level_multiplier :: f64
  wal_enabled :: bool
  wal_sync_opt :: wal_sync_mode
  bloom_false_positive_rate :: f64
  block_cache_capacity :: nat
  max_background_flushes :: nat
  max_background_compactions :: nat
  max_subcompactions :: nat
  opt_memtable_kind :: memtable_kind
  table_compression :: compression_type
  write_rate_limit_bytes_per_sec :: "u64 option"
  write_group_max_delay :: nat

definition default_options :: options where
  "default_options =
     \<lparr>create_if_missing = True, error_if_exists = False, memtable_size = 4 * 1024 * 1024,
      max_immutable_memtables = 3, block_size = 4 * 1024, target_file_size_base = 64 * 1024 * 1024,
      max_levels = 7, level0_file_num_compaction_trigger = 4, level0_slowdown_writes_trigger = 12,
      level0_stop_writes_trigger = 20, max_bytes_for_level_base = 256 * 1024 * 1024,
      max_bytes_for_level_multiplier = Finite False 10, wal_enabled = True, wal_sync_opt = Never,
      bloom_false_positive_rate = f64_of_magnitude False (1 / 100), block_cache_capacity = 64 * 1024 * 1024,
      max_background_flushes = 1, max_background_compactions = 1, max_subcompactions = 1,
      opt_memtable_kind = KindBTree, table_compression = NoCompression,
      write_rate_limit_bytes_per_sec = None, write_group_max_delay = 250 * 1000\<rparr>"

record write_options =
  wo_sync :: bool
  wo_disable_wal :: bool

definition default_write_options :: write_options where
  "default_write_options = \<lparr>wo_sync = False, wo_disable_wal = False\<rparr>"

text \<open>A snapshot in the read options is its read sequence.\<close>

record read_options =
  ro_verify_checksums :: bool
  ro_fill_cache :: bool
  ro_total_order_seek :: bool
  ro_snapshot :: "u64 option"

definition default_read_options :: read_options where
  "default_read_options =
     \<lparr>ro_verify_checksums = True, ro_fill_cache = True, ro_total_order_seek = False, ro_snapshot = None\<rparr>"

end
