(* ===== verification/Version.thy ===== *)
theory Version
  imports Wal Options
begin

section \<open>Versions and the manifest (version/)\<close>

text \<open>
  \<^verbatim>\<open>src/src/version/version.rs\<close>, \<^verbatim>\<open>edit.rs\<close>, \<^verbatim>\<open>manifest.rs\<close>
  and \<^verbatim>\<open>version_set.rs\<close>.  A version lists the table files of every level; a version
  edit changes it; the manifest is a log of edits in the record format of the write-ahead
  log; a version set is the current version with its counters and the manifest it appends
  to.  Slot 0 of \<open>levels\<close> exists in the code but stays empty: files of level 0 are in
  \<open>l0_files\<close>, newest first.

  The lemmas give the codec of edits, the effect of each edit, that recovery from the
  manifest rebuilds exactly the state the edits logged so far produce, also when the
  manifest is torn, and that the files of every sorted level stay sorted.
\<close>

subsection \<open>Versions\<close>

record file_meta =
  fm_number :: u64
  fm_file_size :: u64
  fm_smallest :: internal_key
  fm_largest :: internal_key
  fm_smallest_seq :: u64
  fm_largest_seq :: u64

record version =
  l0_files :: "file_meta list"
  levels :: "file_meta list list"

definition version_new :: "nat \<Rightarrow> version" where
  "version_new n_levels = \<lparr>l0_files = [], levels = replicate n_levels []\<rparr>"

definition add_file :: "nat \<Rightarrow> file_meta \<Rightarrow> version \<Rightarrow> version result" where
  "add_file level meta v =
     (if level = 0 then Inr (v\<lparr>l0_files := meta # l0_files v\<rparr>)
      else if level \<ge> length (levels v) then Inl (InvalidArgument (''invalid level: '' @ dec_digits level))
      else Inr (v\<lparr>levels := (levels v)[level := sort_key fm_smallest (levels v ! level @ [meta])]\<rparr>))"

definition delete_file :: "nat \<Rightarrow> u64 \<Rightarrow> version \<Rightarrow> version result" where
  "delete_file level number v =
     (if level = 0 then Inr (v\<lparr>l0_files := filter (\<lambda>f. fm_number f \<noteq> number) (l0_files v)\<rparr>)
      else if level \<ge> length (levels v) then Inl (InvalidArgument (''invalid level: '' @ dec_digits level))
      else Inr (v\<lparr>levels := (levels v)[level := filter (\<lambda>f. fm_number f \<noteq> number) (levels v ! level)]\<rparr>))"

subsection \<open>Edits\<close>

datatype version_edit =
    NextFileNumber u64
  | LastSequence u64
  | LogNumber u64
  | AddFile nat file_meta
  | DeleteFile nat u64

definition TAG_NEXT_FILE_NUMBER :: u32 where "TAG_NEXT_FILE_NUMBER = 1"
definition TAG_LAST_SEQUENCE :: u32 where "TAG_LAST_SEQUENCE = 2"
definition TAG_LOG_NUMBER :: u32 where "TAG_LOG_NUMBER = 3"
definition TAG_ADD_FILE :: u32 where "TAG_ADD_FILE = 4"
definition TAG_DELETE_FILE :: u32 where "TAG_DELETE_FILE = 5"

lemmas edit_tags = TAG_NEXT_FILE_NUMBER_def TAG_LAST_SEQUENCE_def TAG_LOG_NUMBER_def TAG_ADD_FILE_def
  TAG_DELETE_FILE_def

definition encode_file_meta :: "file_meta \<Rightarrow> bytes \<Rightarrow> bytes" where
  "encode_file_meta meta dst =
     (let dst = put_var_u64 (put_var_u64 dst (fm_number meta)) (fm_file_size meta);
          dst = encode_internal_key (fm_largest meta) (encode_internal_key (fm_smallest meta) dst)
      in put_var_u64 (put_var_u64 dst (fm_smallest_seq meta)) (fm_largest_seq meta))"

definition decode_file_meta :: "file_meta decoder" where
  "decode_file_meta src =
     and_then (get_var_u64 src) (\<lambda>(number, src).
     and_then (get_var_u64 src) (\<lambda>(file_size, src).
     and_then (decode_internal_key src) (\<lambda>(smallest, src).
     and_then (decode_internal_key src) (\<lambda>(largest, src).
     and_then (get_var_u64 src) (\<lambda>(smallest_seq, src).
     and_then (get_var_u64 src) (\<lambda>(largest_seq, src).
       Inr (\<lparr>fm_number = number, fm_file_size = file_size, fm_smallest = smallest, fm_largest = largest,
             fm_smallest_seq = smallest_seq, fm_largest_seq = largest_seq\<rparr>, src)))))))"

fun edit_encode :: "version_edit \<Rightarrow> bytes" where
  "edit_encode (NextFileNumber number) = put_var_u64 (put_var_u32 [] TAG_NEXT_FILE_NUMBER) number"
| "edit_encode (LastSequence seq) = put_var_u64 (put_var_u32 [] TAG_LAST_SEQUENCE) seq"
| "edit_encode (LogNumber number) = put_var_u64 (put_var_u32 [] TAG_LOG_NUMBER) number"
| "edit_encode (AddFile level meta) =
     encode_file_meta meta (put_var_u32 (put_var_u32 [] TAG_ADD_FILE) (word_of_nat level))"
| "edit_encode (DeleteFile level number) =
     put_var_u64 (put_var_u32 (put_var_u32 [] TAG_DELETE_FILE) (word_of_nat level)) number"

definition edit_decode :: "bytes \<Rightarrow> version_edit result" where
  "edit_decode bs =
     and_then (get_var_u32 bs) (\<lambda>(tag, src).
     and_then
       (if tag = TAG_NEXT_FILE_NUMBER then and_then (get_var_u64 src) (\<lambda>(n, src). Inr (NextFileNumber n, src))
        else if tag = TAG_LAST_SEQUENCE then and_then (get_var_u64 src) (\<lambda>(n, src). Inr (LastSequence n, src))
        else if tag = TAG_LOG_NUMBER then and_then (get_var_u64 src) (\<lambda>(n, src). Inr (LogNumber n, src))
        else if tag = TAG_ADD_FILE then
          and_then (get_var_u32 src) (\<lambda>(level, src).
          and_then (decode_file_meta src) (\<lambda>(meta, src). Inr (AddFile (unat level) meta, src)))
        else if tag = TAG_DELETE_FILE then
          and_then (get_var_u32 src) (\<lambda>(level, src).
          and_then (get_var_u64 src) (\<lambda>(number, src). Inr (DeleteFile (unat level) number, src)))
        else Inl (Corruption ''unknown version edit tag'')) (\<lambda>(edit, src).
       if src \<noteq> [] then Inl (Corruption ''trailing version edit bytes'') else Inr edit))"

subsection \<open>The manifest\<close>

definition manifest_create_with_env :: "path \<Rightarrow> (env, path) op" where
  "manifest_create_with_env p = open_writable p options_create"

definition manifest_append_to_with_env :: "path \<Rightarrow> (env, path) op" where
  "manifest_append_to_with_env p = open_writable p options_append"

definition manifest_append :: "checksum \<Rightarrow> path \<Rightarrow> version_edit \<Rightarrow> (env, unit) op" where
  "manifest_append crc file edit =
     (let payload = edit_encode edit;
          record_type = wal_record_type_u8 Full;
          cks = crc (record_type # payload)
      in op_then (write_all file (to_le_bytes 4 cks)) (\<lambda>_.
         op_then (write_all file (to_le_bytes 4 (word_of_nat (length payload) :: u32))) (\<lambda>_.
         op_then (write_all file [record_type]) (\<lambda>_.
         op_then (write_all file payload) (\<lambda>_.
           sync_all file)))))"

definition manifest_read_all :: "checksum \<Rightarrow> path \<Rightarrow> (env, version_edit list) op" where
  "manifest_read_all crc p =
     op_then (open_readable p) (\<lambda>f.
       op_lift (wal_fold crc (\<lambda>payload edits.
         and_then (edit_decode payload) (\<lambda>edit. Inr (edits @ [edit]))) [] f))"

subsection \<open>The version set\<close>

record version_set =
  vs_current :: version
  vs_next_file_number :: u64
  vs_last_sequence :: u64
  vs_log_number :: u64
  vs_manifest_number :: u64
  vs_manifest_writer :: "path option"

definition version_set_new_empty :: "nat \<Rightarrow> version_set" where
  "version_set_new_empty n_levels =
     \<lparr>vs_current = version_new n_levels, vs_next_file_number = 2, vs_last_sequence = 0,
      vs_log_number = 1, vs_manifest_number = 1, vs_manifest_writer = None\<rparr>"

fun apply_edit :: "version_edit \<Rightarrow> version_set \<Rightarrow> version_set result" where
  "apply_edit (NextFileNumber number) vs =
     Inr (vs\<lparr>vs_next_file_number := max (vs_next_file_number vs) number\<rparr>)"
| "apply_edit (LastSequence seq) vs =
     Inr (vs\<lparr>vs_last_sequence := max (vs_last_sequence vs) seq\<rparr>)"
| "apply_edit (LogNumber number) vs =
     Inr (vs\<lparr>vs_log_number := number, vs_next_file_number := max (vs_next_file_number vs) (number + 1)\<rparr>)"
| "apply_edit (AddFile level meta) vs =
     (let vs = vs\<lparr>vs_next_file_number := max (vs_next_file_number vs) (fm_number meta + 1)\<rparr>
      in and_then (add_file level meta (vs_current vs)) (\<lambda>v. Inr (vs\<lparr>vs_current := v\<rparr>)))"
| "apply_edit (DeleteFile level number) vs =
     and_then (delete_file level number (vs_current vs)) (\<lambda>v. Inr (vs\<lparr>vs_current := v\<rparr>))"

fun apply_edits :: "version_edit list \<Rightarrow> version_set \<Rightarrow> version_set result" where
  "apply_edits [] vs = Inr vs"
| "apply_edits (edit # edits) vs = and_then (apply_edit edit vs) (apply_edits edits)"

definition version_set_create :: "checksum \<Rightarrow> path \<Rightarrow> options \<Rightarrow> (env, version_set) op" where
  "version_set_create crc db_path opts =
     op_then (create_dir_all db_path) (\<lambda>_.
     let manifest_number = 1;
         manifest_name = manifest_file_name manifest_number;
         manifest_path = path_join db_path manifest_name
     in op_then (manifest_create_with_env manifest_path) (\<lambda>writer.
        op_then (manifest_append crc writer (NextFileNumber 2)) (\<lambda>_.
        op_then (manifest_append crc writer (LogNumber 1)) (\<lambda>_.
        op_then (manifest_append crc writer (LastSequence 0)) (\<lambda>_.
        op_then (set_current_with_env db_path manifest_name) (\<lambda>_.
          op_lift (Inr \<lparr>vs_current = version_new (max_levels opts), vs_next_file_number = 2,
            vs_last_sequence = 0, vs_log_number = 1, vs_manifest_number = manifest_number,
            vs_manifest_writer = Some writer\<rparr>)))))))"

definition version_set_recover :: "checksum \<Rightarrow> path \<Rightarrow> options \<Rightarrow> (env, version_set) op" where
  "version_set_recover crc db_path opts =
     op_then (read_current_with_env db_path) (\<lambda>manifest_name.
     case parse_manifest_number manifest_name of
       None \<Rightarrow> op_lift (Inl (Corruption ''CURRENT points to invalid manifest''))
     | Some manifest_number \<Rightarrow>
         let manifest_path = path_join db_path manifest_name;
             versions = \<lparr>vs_current = version_new (max_levels opts), vs_next_file_number = 2,
               vs_last_sequence = 0, vs_log_number = 1, vs_manifest_number = manifest_number,
               vs_manifest_writer = None\<rparr>
         in op_then (manifest_read_all crc manifest_path) (\<lambda>edits.
            op_then (op_lift (apply_edits edits versions)) (\<lambda>versions.
            op_then (manifest_append_to_with_env manifest_path) (\<lambda>writer.
              op_lift (Inr (versions\<lparr>vs_manifest_writer := Some writer\<rparr>))))))"

definition allocate_file_number :: "version_set \<Rightarrow> u64 \<times> version_set" where
  "allocate_file_number vs = (vs_next_file_number vs, vs\<lparr>vs_next_file_number := vs_next_file_number vs + 1\<rparr>)"

definition log_and_apply :: "checksum \<Rightarrow> version_edit \<Rightarrow> version_set \<Rightarrow> (env, version_set) op" where
  "log_and_apply crc edit vs =
     op_then (case vs_manifest_writer vs of
                None \<Rightarrow> op_lift (Inr ())
              | Some writer \<Rightarrow> manifest_append crc writer edit) (\<lambda>_.
       op_lift (apply_edit edit vs))"

text \<open>
  \<^verbatim>\<open>log_and_apply\<close> as the database calls it, on the version set in its state: an edit
  whose level is invalid has already moved the next file number when it fails.
\<close>

fun after_failed_edit :: "version_edit \<Rightarrow> version_set \<Rightarrow> version_set" where
  "after_failed_edit (AddFile level meta) vs =
     vs\<lparr>vs_next_file_number := max (vs_next_file_number vs) (fm_number meta + 1)\<rparr>"
| "after_failed_edit _ vs = vs"

definition log_and_apply_state :: "checksum \<Rightarrow> version_edit \<Rightarrow> (env \<times> version_set, unit) op" where
  "log_and_apply_state crc edit = (\<lambda>(e, vs).
     case (case vs_manifest_writer vs of
             None \<Rightarrow> (Inr (), e)
           | Some writer \<Rightarrow> manifest_append crc writer edit e) of
       (Inl err, e) \<Rightarrow> (Inl err, (e, vs))
     | (Inr _, e) \<Rightarrow>
         (case apply_edit edit vs of
            Inl err \<Rightarrow> (Inl err, (e, after_failed_edit edit vs))
          | Inr vs' \<Rightarrow> (Inr (), (e, vs'))))"

subsection \<open>The codec of edits\<close>

definition meta_encodable :: "file_meta \<Rightarrow> bool" where
  "meta_encodable m \<longleftrightarrow> key_encodable (fm_smallest m) \<and> key_encodable (fm_largest m)"

fun edit_encodable :: "version_edit \<Rightarrow> bool" where
  "edit_encodable (AddFile level meta) \<longleftrightarrow> level < 2 ^ 32 \<and> meta_encodable meta"
| "edit_encodable (DeleteFile level number) \<longleftrightarrow> level < 2 ^ 32"
| "edit_encodable _ \<longleftrightarrow> True"

lemma encode_file_meta_append:
  "NO_MATCH [] dst \<Longrightarrow> encode_file_meta m dst = dst @ encode_file_meta m []"
  by (simp add: encode_file_meta_def Let_def put_var_append encode_internal_key_append)

interpretation file_meta: codec "\<lambda>m. encode_file_meta m []" decode_file_meta meta_encodable
  by unfold_locales
    (simp add: encode_file_meta_def decode_file_meta_def Let_def put_var_append encode_internal_key_append
      codec_simps internal_key.round_trip meta_encodable_def)

lemma edit_round_trip_lemma: "edit_encodable ed \<Longrightarrow> edit_decode (edit_encode ed) = Inr ed"
  using file_meta.round_trip [where rest = "[]"]
    get_put_var_u64 [where rest = "[]"]
  by (cases ed) (simp_all add: edit_decode_def put_var_append codec_simps edit_tags encode_file_meta_append)

lemma edit_trailing:
  "edit_encodable ed \<Longrightarrow>
   edit_decode (edit_encode ed @ b # rest) = Inl (Corruption ''trailing version edit bytes'')"
  using file_meta.round_trip [where rest = "b # rest"]
  by (cases ed) (simp_all add: edit_decode_def put_var_append codec_simps edit_tags encode_file_meta_append)

lemma edit_encode_nonempty: "edit_encode ed \<noteq> []"
  by (cases ed) (simp_all add: put_var_append encode_file_meta_append)

subsection \<open>Replaying the manifest\<close>

definition edit_ok :: "version_edit \<Rightarrow> bool" where
  "edit_ok ed \<longleftrightarrow> edit_encodable ed \<and> length (edit_encode ed) < 2 ^ 32"

definition manifest_image :: "checksum \<Rightarrow> version_edit list \<Rightarrow> bytes" where
  "manifest_image crc eds = concat (map (wal_record crc \<circ> edit_encode) eds)"

lemma manifest_image_append: "manifest_image crc (xs @ ys) = manifest_image crc xs @ manifest_image crc ys"
  by (simp add: manifest_image_def)

lemma manifest_image_mono:
  "i \<le> j \<Longrightarrow> length (manifest_image crc (take i eds)) \<le> length (manifest_image crc (take j eds))"
  by (metis le_add1 length_append manifest_image_append take_add le_Suc_ex)

lemma payload_ok_edit: "edit_ok ed \<Longrightarrow> payload_ok (edit_encode ed)"
  by (simp add: edit_ok_def payload_ok_def edit_encode_nonempty)

lemma fold_decode_edits:
  "list_all edit_ok eds \<Longrightarrow>
   fold_payloads (\<lambda>payload edits. and_then (edit_decode payload) (\<lambda>edit. Inr (edits @ [edit]))) acc
     (map edit_encode eds) None = Inr (acc @ eds)"
  by (induction eds arbitrary: acc) (simp_all add: edit_ok_def edit_round_trip_lemma)

text \<open>Reading a manifest cut anywhere gives the edits that were completely written.\<close>

lemma manifest_read_torn:
  assumes "list_all edit_ok eds" and "env_faults e = []"
    and "env_files e p = Some f" and "file_content f = take n (manifest_image crc eds)"
  shows "\<exists>m\<le>length eds. manifest_read_all crc p e = (Inr (take m eds), e) \<and>
    (\<forall>j\<le>length eds. length (manifest_image crc (take j eds)) \<le> n \<longrightarrow> j \<le> m)"
proof -
  let ?ps = "map edit_encode eds"
  have "list_all payload_ok ?ps"
    using assms(1) by (auto simp: list_all_iff intro: payload_ok_edit)
  from wal_parse_torn [OF this, of crc n] obtain m where m: "m \<le> length eds"
    "wal_parse crc (take n (manifest_image crc eds)) = (map edit_encode (take m eds), None)"
    "m < length eds \<longrightarrow> n < length (concat (map (wal_record crc) (take (Suc m) ?ps)))"
    by (auto simp: manifest_image_def take_map)
  have "list_all edit_ok (take m eds)" using assms(1) by (auto simp: list_all_iff dest: in_set_takeD)
  from fold_decode_edits [OF this, of "[]"] assms m(2)
  have "manifest_read_all crc p e = (Inr (take m eds), e)"
    by (simp add: manifest_read_all_def op_then_def open_readable_def op_lift_def wal_fold_parse rf_rest_def)
  moreover have "j \<le> m" if "j \<le> length eds" and "length (manifest_image crc (take j eds)) \<le> n" for j
  proof (rule ccontr)
    assume "\<not> j \<le> m"
    with m that(1) have "n < length (manifest_image crc (take (Suc m) eds))"
      by (simp add: manifest_image_def take_map)
    also have "\<dots> \<le> length (manifest_image crc (take j eds))"
      using \<open>\<not> j \<le> m\<close> by (intro manifest_image_mono) simp
    finally show False using that(2) by simp
  qed
  ultimately show ?thesis using m(1) by blast
qed

definition current_names :: "path \<Rightarrow> u64 \<Rightarrow> env \<Rightarrow> bool" where
  "current_names d n e \<longleftrightarrow> (\<exists>f. env_files e (path_join d ''CURRENT'') = Some f \<and>
     file_content f = string_bytes (manifest_file_name n @ [char_of (10 :: nat)]))"

lemma read_current_named:
  assumes "current_names d n e" and "env_faults e = []"
  shows "read_current_with_env d e = (Inr (manifest_file_name n), e)"
  using assms ascii_manifest_name [of n]
  by (auto simp: current_names_def read_current_with_env_def op_then_def read_to_string_def ascii_line_utf8
      trim_ascii_line op_lift_def Let_def ascii_line_def)

definition recovered :: "nat \<Rightarrow> u64 \<Rightarrow> version_set" where
  "recovered n_levels manifest_number =
     \<lparr>vs_current = version_new n_levels, vs_next_file_number = 2, vs_last_sequence = 0, vs_log_number = 1,
      vs_manifest_number = manifest_number, vs_manifest_writer = None\<rparr>"

lemma open_append_existing:
  "env_faults e = [] \<Longrightarrow> env_files e p = Some f \<Longrightarrow> manifest_append_to_with_env p e = (Inr p, e)"
  by (simp add: manifest_append_to_with_env_def open_writable_def options_append_def)

lemma recover_torn:
  assumes "list_all edit_ok eds" and "env_faults e = []" and "current_names d n e"
    and "env_files e (path_join d (manifest_file_name n)) = Some f"
    and "file_content f = take k (manifest_image crc eds)"
  shows "\<exists>m\<le>length eds. (\<forall>j\<le>length eds. length (manifest_image crc (take j eds)) \<le> k \<longrightarrow> j \<le> m) \<and>
    version_set_recover crc d opts e =
      (and_then (apply_edits (take m eds) (recovered (max_levels opts) n)) (\<lambda>vs.
         Inr (vs\<lparr>vs_manifest_writer := Some (path_join d (manifest_file_name n))\<rparr>)), e)"
proof -
  from manifest_read_torn [OF assms(1,2,4,5)] obtain m where
    "m \<le> length eds" "\<forall>j\<le>length eds. length (manifest_image crc (take j eds)) \<le> k \<longrightarrow> j \<le> m"
    "manifest_read_all crc (path_join d (manifest_file_name n)) e = (Inr (take m eds), e)" by blast
  moreover have "manifest_append_to_with_env (path_join d (manifest_file_name n)) e =
      (Inr (path_join d (manifest_file_name n)), e)"
    using assms by (intro open_append_existing)
  ultimately show ?thesis
    using read_current_named [OF assms(3,2)]
    by (cases "apply_edits (take m eds) (recovered (max_levels opts) n)")
      (auto simp: version_set_recover_def op_then_def op_lift_def parse_manifest_file_name recovered_def Let_def)
qed

subsection \<open>Logging an edit is atomic\<close>

lemma op_then_assoc: "op_then (op_then m f) g = op_then m (\<lambda>x. op_then (f x) g)"
  by (auto simp: op_then_def fun_eq_iff split: prod.splits sum.splits)

lemma manifest_append_eq:
  "manifest_append crc p ed = op_then (wal_append crc p (edit_encode ed)) (\<lambda>_. sync_all p)"
  by (simp add: manifest_append_def wal_append_def Let_def op_then_assoc)

text \<open>An append extends the manifest by a prefix of its record, the whole of it when it succeeds.\<close>

lemma manifest_append_outcome:
  assumes "manifest_append crc p ed e = (r, e')" and "env_files e p = Some f"
  obtains f' k where "env_files e' = (env_files e)(p \<mapsto> f')"
    and "file_content f' = file_content f @ take k (wal_record crc (edit_encode ed))"
    and "r = Inr u \<Longrightarrow> length (wal_record crc (edit_encode ed)) \<le> k"
proof -
  from assms(1) consider (fail) x where "wal_append crc p (edit_encode ed) e = (Inl x, e')" "r = Inl x"
    | (ok) u' e1 where "wal_append crc p (edit_encode ed) e = (Inr u', e1)" "sync_all p e1 = (r, e')"
    unfolding manifest_append_eq by (elim op_thenE) auto
  then show thesis
  proof cases
    case fail
    with wal_append_fail [OF fail(1)] assms(2) that show thesis by (auto simp: extend_file_def)
  next
    case ok
    from wal_append_ok [OF ok(1)] assms(2) have e1: "env_files e1 = (env_files e)(p \<mapsto> extend_file (wal_record crc (edit_encode ed)) f)"
      by simp
    show thesis
    proof (cases r)
      case (Inl x)
      with sync_all_fail [of p e1 x e'] ok e1 that [of _ "length (wal_record crc (edit_encode ed))"] show thesis by simp
    next
      case (Inr x)
      with sync_all_ok [of p e1 x e'] ok e1 that [of _ "length (wal_record crc (edit_encode ed))"] show thesis by simp
    qed
  qed
qed

text \<open>Two version sets that differ at most in file numbers that were handed out but not logged.\<close>

definition same_state :: "version_set \<Rightarrow> version_set \<Rightarrow> bool" where
  "same_state a b \<longleftrightarrow> vs_current a = vs_current b \<and> vs_last_sequence a = vs_last_sequence b \<and>
     vs_log_number a = vs_log_number b \<and> vs_manifest_number a = vs_manifest_number b \<and>
     vs_next_file_number a \<le> vs_next_file_number b"

lemma apply_edit_same_state:
  assumes "same_state a b" and "apply_edit ed b = Inr b'"
  shows "\<exists>a'. apply_edit ed a = Inr a' \<and> same_state a' b' \<and> vs_manifest_writer a' = vs_manifest_writer a \<and>
    vs_manifest_writer b' = vs_manifest_writer b"
  using assms by (cases ed) (auto simp: same_state_def result_simps Let_def max_def)

lemma apply_edits_append: "apply_edits (xs @ ys) vs = and_then (apply_edits xs vs) (apply_edits ys)"
  by (induction xs arbitrary: vs) (auto simp: and_then_assoc intro!: and_then_cong)

text \<open>The manifest on disk holds the edits that lead to the version set in memory.\<close>

definition manifest_holds :: "checksum \<Rightarrow> path \<Rightarrow> nat \<Rightarrow> version_edit list \<Rightarrow> version_set \<Rightarrow> env \<Rightarrow> bool" where
  "manifest_holds crc d n_levels eds vs e \<longleftrightarrow>
     list_all edit_ok eds \<and> current_names d (vs_manifest_number vs) e \<and>
     vs_manifest_writer vs = Some (path_join d (manifest_file_name (vs_manifest_number vs))) \<and>
     (\<exists>f. env_files e (path_join d (manifest_file_name (vs_manifest_number vs))) = Some f \<and>
        file_content f = manifest_image crc eds) \<and>
     (\<exists>vs0. apply_edits eds (recovered n_levels (vs_manifest_number vs)) = Inr vs0 \<and> same_state vs0 vs)"

lemma current_names_other:
  assumes "current_names d n e" and "env_files e' = (env_files e)(path_join d (manifest_file_name m) \<mapsto> f)"
  shows "current_names d n e'"
proof -
  have "manifest_file_name m \<noteq> ''CURRENT''" by (simp add: manifest_file_name_def)
  then show ?thesis using assms by (auto simp: current_names_def)
qed

lemma log_and_apply_cases:
  assumes h: "manifest_holds crc d L eds vs e" and run: "log_and_apply crc ed vs e = (r, e')"
  obtains f' k where "env_files e' = (env_files e)(path_join d (manifest_file_name (vs_manifest_number vs)) \<mapsto> f')"
    and "file_content f' = manifest_image crc eds @ take k (wal_record crc (edit_encode ed))"
    and "\<And>vs'. r = Inr vs' \<Longrightarrow> length (wal_record crc (edit_encode ed)) \<le> k \<and> apply_edit ed vs = Inr vs'"
proof -
  let ?p = "path_join d (manifest_file_name (vs_manifest_number vs))"
  from h obtain f where w: "vs_manifest_writer vs = Some ?p" and f: "env_files e ?p = Some f"
    "file_content f = manifest_image crc eds" by (auto simp: manifest_holds_def)
  obtain r1 e1 where app: "manifest_append crc ?p ed e = (r1, e1)" by fastforce
  from run w app have e': "e' = e1" and r: "r = (case r1 of Inl x \<Rightarrow> Inl x | Inr _ \<Rightarrow> apply_edit ed vs)"
    by (auto simp: log_and_apply_def op_then_def op_lift_def split: sum.splits)
  show thesis
    by (rule manifest_append_outcome [OF app f(1), of "()"])
      (rule that, use e' r f(2) in \<open>auto split: sum.splits\<close>)
qed

lemma log_and_apply_state_eq:
  assumes "log_and_apply_state crc ed (e, vs) = (r, (e', vs'))"
  shows "\<exists>r'. log_and_apply crc ed vs e = (r', e') \<and> (r = Inr () \<longleftrightarrow> r' = Inr vs') \<and>
    (\<forall>x. r' = Inl x \<longrightarrow> r = Inl x)"
  using assms
  by (auto simp: log_and_apply_state_def log_and_apply_def op_then_def op_lift_def
      split: option.splits prod.splits sum.splits)

lemma recover_exact:
  assumes h: "manifest_holds crc d (max_levels opts) eds vs e" and "env_faults e = []"
  shows "\<exists>vs0. apply_edits eds (recovered (max_levels opts) (vs_manifest_number vs)) = Inr vs0 \<and> same_state vs0 vs \<and>
    version_set_recover crc d opts e =
      (Inr (vs0\<lparr>vs_manifest_writer := Some (path_join d (manifest_file_name (vs_manifest_number vs)))\<rparr>), e)"
proof -
  from h obtain f vs0 where ok: "list_all edit_ok eds" "current_names d (vs_manifest_number vs) e"
    and f: "env_files e (path_join d (manifest_file_name (vs_manifest_number vs))) = Some f"
      "file_content f = manifest_image crc eds"
    and vs0: "apply_edits eds (recovered (max_levels opts) (vs_manifest_number vs)) = Inr vs0" "same_state vs0 vs"
    by (auto simp: manifest_holds_def)
  have "file_content f = take (length (manifest_image crc eds)) (manifest_image crc eds)" by (simp add: f)
  from recover_torn [OF ok(1) assms(2) ok(2) f(1) this, of opts] obtain m where m: "m \<le> length eds"
    "\<forall>j\<le>length eds. length (manifest_image crc (take j eds)) \<le> length (manifest_image crc eds) \<longrightarrow> j \<le> m"
    "version_set_recover crc d opts e =
      (and_then (apply_edits (take m eds) (recovered (max_levels opts) (vs_manifest_number vs))) (\<lambda>w.
         Inr (w\<lparr>vs_manifest_writer := Some (path_join d (manifest_file_name (vs_manifest_number vs)))\<rparr>)), e)"
    by blast
  from m(2) [rule_format, of "length eds"] m(1) have "m = length eds" by simp
  with m(3) vs0 show ?thesis by simp
qed

lemma recover_logged:
  assumes "manifest_holds crc d (max_levels opts) eds vs e" and "env_faults e = []"
  shows "\<exists>vs0. version_set_recover crc d opts e = (Inr vs0, e) \<and> same_state vs0 vs"
  using recover_exact [OF assms] by (auto simp: same_state_def)

subsection \<open>Sorted levels\<close>

text \<open>Every level below 0 lists its files by ascending smallest key; the slot of level 0 stays empty.\<close>

definition version_ok :: "nat \<Rightarrow> version \<Rightarrow> bool" where
  "version_ok n v \<longleftrightarrow> length (levels v) = n \<and> list_all (\<lambda>fs. sorted (map fm_smallest fs)) (levels v) \<and>
     (n > 0 \<longrightarrow> levels v ! 0 = [])"

lemma version_ok_new: "version_ok n (version_new n)"
  by (simp add: version_ok_def version_new_def list_all_iff)

lemma sorted_filter_files: "sorted (map fm_smallest fs) \<Longrightarrow> sorted (map fm_smallest (filter P fs))"
  by (rule sorted_filter)

lemma list_all_update: "list_all P xs \<Longrightarrow> P x \<Longrightarrow> list_all P (xs[i := x])"
  by (auto simp: list_all_iff dest!: set_update_subset_insert [THEN subsetD])

lemma version_ok_add: "version_ok n v \<Longrightarrow> add_file l m v = Inr v' \<Longrightarrow> version_ok n v'"
  by (auto simp: version_ok_def add_file_def intro!: list_all_update split: if_splits)

lemma version_ok_delete:
  assumes "version_ok n v" and "delete_file l m v = Inr v'"
  shows "version_ok n v'"
proof -
  have "sorted (map fm_smallest (levels v ! l))" if "l < length (levels v)"
    using assms(1) that by (auto simp: version_ok_def list_all_length)
  then show ?thesis
    using assms by (auto simp: version_ok_def delete_file_def intro!: list_all_update sorted_filter_files split: if_splits)
qed

lemma apply_edit_ok: "version_ok n (vs_current vs) \<Longrightarrow> apply_edit ed vs = Inr vs' \<Longrightarrow> version_ok n (vs_current vs')"
  by (cases ed) (auto simp: result_simps Let_def dest: version_ok_add version_ok_delete)

lemma apply_edits_ok:
  "version_ok n (vs_current vs) \<Longrightarrow> apply_edits eds vs = Inr vs' \<Longrightarrow> version_ok n (vs_current vs')"
  by (induction eds arbitrary: vs) (auto simp: result_simps dest: apply_edit_ok)

text \<open>The file numbers in use are below the next one, as long as that number has not wrapped.\<close>

definition version_files :: "version \<Rightarrow> file_meta set" where
  "version_files v = set (l0_files v) \<union> (\<Union>fs \<in> set (levels v). set fs)"

lemma version_files_add: "add_file l m v = Inr v' \<Longrightarrow> version_files v' \<subseteq> insert m (version_files v)"
  by (auto simp: add_file_def version_files_def split: if_splits
      dest!: set_update_subset_insert [THEN subsetD])

lemma version_files_delete: "delete_file l k v = Inr v' \<Longrightarrow> version_files v' \<subseteq> version_files v"
  by (auto simp: delete_file_def version_files_def split: if_splits
      dest!: set_update_subset_insert [THEN subsetD])

lemma log_and_apply_holds:
  assumes "manifest_holds crc d L eds vs e" and "edit_ok ed" and "log_and_apply crc ed vs e = (Inr vs', e')"
  shows "manifest_holds crc d L (eds @ [ed]) vs' e'" and "apply_edit ed vs = Inr vs'"
    and "q \<noteq> path_join d (manifest_file_name (vs_manifest_number vs)) \<Longrightarrow> env_files e' q = env_files e q"
proof -
  let ?n = "vs_manifest_number vs" and ?L = L
  from assms(1) obtain vs0 where eds: "list_all edit_ok eds" and cur: "current_names d ?n e"
    and w: "vs_manifest_writer vs = Some (path_join d (manifest_file_name ?n))"
    and vs0: "apply_edits eds (recovered ?L ?n) = Inr vs0" "same_state vs0 vs"
    by (auto simp: manifest_holds_def)
  from log_and_apply_cases [OF assms(1,3)] obtain f' k where
    f': "env_files e' = (env_files e)(path_join d (manifest_file_name ?n) \<mapsto> f')"
      "file_content f' = manifest_image crc eds @ take k (wal_record crc (edit_encode ed))"
    and k: "length (wal_record crc (edit_encode ed)) \<le> k" "apply_edit ed vs = Inr vs'" by metis
  from apply_edit_same_state [OF vs0(2) k(2)] obtain vs1 where vs1: "apply_edit ed vs0 = Inr vs1" "same_state vs1 vs'"
    and w': "vs_manifest_writer vs' = vs_manifest_writer vs" by blast
  have n': "vs_manifest_number vs' = ?n"
    using k(2) by (cases ed) (auto simp: result_simps Let_def)
  have "file_content f' = manifest_image crc (eds @ [ed])"
    using f'(2) k(1) by (simp add: manifest_image_def)
  moreover have "apply_edits (eds @ [ed]) (recovered ?L ?n) = Inr vs1"
    using vs0(1) vs1(1) by (simp add: apply_edits_append)
  ultimately show "manifest_holds crc d ?L (eds @ [ed]) vs' e'"
    using eds assms(2) w w' n' f'(1) vs1(2) current_names_other [OF cur f'(1)]
    by (auto simp: manifest_holds_def)
  show "apply_edit ed vs = Inr vs'" by (rule k(2))
  show "env_files e' q = env_files e q" if "q \<noteq> path_join d (manifest_file_name ?n)" using that by (simp add: f'(1))
qed

text \<open>The files of a recovered version have numbers below the next one, which has not wrapped.\<close>

lemma apply_edit_numbers:
  assumes "apply_edit ed vs = Inr vs'" and "\<forall>f\<in>version_files (vs_current vs). fm_number f < vs_next_file_number vs"
    and "\<forall>f\<in>version_files (vs_current vs'). fm_number f < fm_number f + 1"
  shows "\<forall>f\<in>version_files (vs_current vs'). fm_number f < vs_next_file_number vs'"
proof (cases ed)
  case (AddFile l m)
  with assms(1) obtain v where v: "add_file l m (vs_current vs) = Inr v"
    and vs': "vs' = vs\<lparr>vs_next_file_number := max (vs_next_file_number vs) (fm_number m + 1), vs_current := v\<rparr>"
    by (auto simp: result_simps Let_def)
  show ?thesis
  proof
    fix f assume f: "f \<in> version_files (vs_current vs')"
    with version_files_add [OF v] vs' have "f = m \<or> f \<in> version_files (vs_current vs)" by auto
    with assms(2,3) f vs' show "fm_number f < vs_next_file_number vs'" by (auto simp: less_max_iff_disj)
  qed
next
  case (DeleteFile l k)
  with assms(1,2) show ?thesis by (auto simp: result_simps dest!: version_files_delete)
qed (use assms in \<open>auto simp: result_simps Let_def less_max_iff_disj\<close>)

subsection \<open>Properties\<close>

text \<open>
  C37: every version edit decodes from its encoding, for levels and key lengths that fit 32
  bits; a payload with bytes left over is rejected.
\<close>

theorem version_edit_round_trip:
  assumes "edit_encodable ed"
  shows "edit_decode (edit_encode ed) = Inr ed \<and>
    edit_decode (edit_encode ed @ b # rest) = Inl (Corruption ''trailing version edit bytes'')"
  using edit_round_trip_lemma [OF assms] edit_trailing [OF assms] by simp

theorem version_edit_round_trip_witness:
  "edit_decode (edit_encode (AddFile 1 \<lparr>fm_number = 7, fm_file_size = 300, fm_smallest = InternalKey [1] 9 TypePut,
     fm_largest = InternalKey [2] 4 TypeDelete, fm_smallest_seq = 4, fm_largest_seq = 9\<rparr>)) =
   Inr (AddFile 1 \<lparr>fm_number = 7, fm_file_size = 300, fm_smallest = InternalKey [1] 9 TypePut,
     fm_largest = InternalKey [2] 4 TypeDelete, fm_smallest_seq = 4, fm_largest_seq = 9\<rparr>) \<and>
   edit_decode (edit_encode (AddFile 1 \<lparr>fm_number = 7, fm_file_size = 300, fm_smallest = InternalKey [1] 9 TypePut,
     fm_largest = InternalKey [2] 4 TypeDelete, fm_smallest_seq = 4, fm_largest_seq = 9\<rparr>) @ 0 # []) =
   Inl (Corruption ''trailing version edit bytes'')"
  by (rule version_edit_round_trip) (simp add: meta_encodable_def key_encodable_def)


text \<open>
  C23: logging an edit is atomic under failures: whatever write or sync of it fails, and
  however much of the record reached the file, recovery afterwards gives the version set
  with the edits before it, or with the edit as well, and never an error of the reader.
\<close>

theorem log_and_apply_atomic:
  assumes "manifest_holds crc d (max_levels opts) eds vs e" and "edit_ok ed"
    and "log_and_apply crc ed vs e = (r, e')"
  shows "\<exists>eds'. (eds' = eds \<or> eds' = eds @ [ed]) \<and>
    fst (version_set_recover crc d opts (e'\<lparr>env_faults := []\<rparr>)) =
      and_then (apply_edits eds' (recovered (max_levels opts) (vs_manifest_number vs))) (\<lambda>vs'.
        Inr (vs'\<lparr>vs_manifest_writer := Some (path_join d (manifest_file_name (vs_manifest_number vs)))\<rparr>))"
proof -
  let ?n = "vs_manifest_number vs" and ?e = "e'\<lparr>env_faults := []\<rparr>" and ?eds = "eds @ [ed]"
  from assms(1) have eds: "list_all edit_ok eds" and cur: "current_names d ?n e"
    by (simp_all add: manifest_holds_def)
  from log_and_apply_cases [OF assms(1,3)] obtain f' k where
    f': "env_files e' = (env_files e)(path_join d (manifest_file_name ?n) \<mapsto> f')"
      "file_content f' = manifest_image crc eds @ take k (wal_record crc (edit_encode ed))" by metis
  let ?k = "length (manifest_image crc eds) + k"
  have content: "file_content f' = take ?k (manifest_image crc ?eds)"
    using f'(2) by (simp add: manifest_image_def)
  have "current_names d ?n ?e" using current_names_other [OF cur f'(1)] by (simp add: current_names_def)
  moreover have "list_all edit_ok ?eds" using eds assms(2) by simp
  ultimately obtain m where m: "m \<le> length ?eds"
    "\<forall>j\<le>length ?eds. length (manifest_image crc (take j ?eds)) \<le> ?k \<longrightarrow> j \<le> m"
    "version_set_recover crc d opts ?e =
      (and_then (apply_edits (take m ?eds) (recovered (max_levels opts) ?n)) (\<lambda>vs.
         Inr (vs\<lparr>vs_manifest_writer := Some (path_join d (manifest_file_name ?n))\<rparr>)), ?e)"
    using recover_torn [OF _ _ _ _ content, of ?e d ?n opts] f'(1) by auto
  from m(2) have "length eds \<le> m" by (auto dest: spec [of _ "length eds"])
  with m(1) have "m = length eds \<or> m = length ?eds" by auto
  with m(3) show ?thesis by (intro exI [of _ "take m ?eds"]) auto
qed

text \<open>An environment with a manifest that holds no edit yet, and the version set over it.\<close>

definition demo_manifest_env :: env where
  "demo_manifest_env =
     \<lparr>env_files = [path_join ''d'' ''CURRENT'' \<mapsto>
          \<lparr>file_content = string_bytes (manifest_file_name 1 @ [char_of (10 :: nat)]), file_synced = 16\<rparr>,
        path_join ''d'' (manifest_file_name 1) \<mapsto> empty_file],
      env_dirs = [''d''], env_faults = [], read_chunk = (\<lambda>_ n. n)\<rparr>"

definition demo_version_set :: version_set where
  "demo_version_set = (recovered 7 1)\<lparr>vs_manifest_writer := Some (path_join ''d'' (manifest_file_name 1))\<rparr>"

lemma demo_manifest_holds: "manifest_holds crc ''d'' 7 [] demo_version_set demo_manifest_env"
proof -
  have "manifest_file_name 1 \<noteq> ''CURRENT''" by (simp add: manifest_file_name_def)
  then show ?thesis
    by (auto simp: manifest_holds_def demo_version_set_def demo_manifest_env_def current_names_def
        recovered_def manifest_image_def same_state_def)
qed

lemma demo_edit_ok: "edit_ok (LastSequence 5)"
  by (simp add: edit_ok_def put_var_append put_var_u32_def edit_tags put_var_u64.simps)

lemma demo_log_and_apply:
  obtains e' where "log_and_apply (\<lambda>_. 0) (LastSequence 5) demo_version_set demo_manifest_env =
    (Inr (demo_version_set\<lparr>vs_last_sequence := 5\<rparr>), e')" and "env_faults e' = []"
  by (simp add: log_and_apply_def manifest_append_def demo_version_set_def demo_manifest_env_def recovered_def
      op_then_def op_lift_def write_all_def sync_all_def faultable_def take_fault_def Let_def append_bytes_def set_file_def)


theorem log_and_apply_atomic_witness:
  "\<exists>r e'. log_and_apply (\<lambda>_. 0) (LastSequence 5) demo_version_set demo_manifest_env = (r, e') \<and>
   (\<exists>eds'. (eds' = [] \<or> eds' = [] @ [LastSequence 5]) \<and>
    fst (version_set_recover (\<lambda>_. 0) ''d'' default_options (e'\<lparr>env_faults := []\<rparr>)) =
      and_then (apply_edits eds' (recovered (max_levels default_options) (vs_manifest_number demo_version_set))) (\<lambda>vs'.
        Inr (vs'\<lparr>vs_manifest_writer := Some (path_join ''d'' (manifest_file_name (vs_manifest_number demo_version_set)))\<rparr>)))"
proof -
  obtain e' where e': "log_and_apply (\<lambda>_. 0) (LastSequence 5) demo_version_set demo_manifest_env =
    (Inr (demo_version_set\<lparr>vs_last_sequence := 5\<rparr>), e')" by (rule demo_log_and_apply)
  have "manifest_holds (\<lambda>_. 0) ''d'' (max_levels default_options) [] demo_version_set demo_manifest_env"
    using demo_manifest_holds by (simp add: default_options_def)
  from log_and_apply_atomic [OF this demo_edit_ok e'] e' show ?thesis by blast
qed



end
