(* ===== verification/Compaction.thy ===== *)
theory Compaction
  imports Memtable Version
begin

section \<open>Compaction (compact/)\<close>

text \<open>
  \<^verbatim>\<open>src/src/compact/executor.rs\<close>, \<^verbatim>\<open>task.rs\<close>, \<^verbatim>\<open>picker.rs\<close> and
  the splitting of the output in \<^verbatim>\<open>src/src/db.rs\<close>.  The executor merges the
  entries of the input files and drops the versions no reader can see; the picker
  chooses the files of a manual compaction; the automatic one, which compares
  floating-point scores, is in the theory Compaction_Scores.

  The lemmas show that compaction keeps what every read at or above the watermark sees,
  that it keeps one version per key below it, that a manual task takes along every file of
  the output level its key range touches, and that splitting keeps the entries and never
  separates the versions of a key.
\<close>

subsection \<open>The executor\<close>

fun compact_loop :: "u64 \<Rightarrow> bool \<Rightarrow> bytes set \<Rightarrow> entry list \<Rightarrow> entry list" where
  "compact_loop gc_watermark drop_tombstones seen [] = []"
| "compact_loop gc_watermark drop_tombstones seen ((key, val) # es) =
     (if sequence key > gc_watermark then (key, val) # compact_loop gc_watermark drop_tombstones seen es
      else if user_key key \<in> seen then compact_loop gc_watermark drop_tombstones seen es
      else
        let seen = insert (user_key key) seen
        in case val of
             Put _ \<Rightarrow> (key, val) # compact_loop gc_watermark drop_tombstones seen es
           | Delete \<Rightarrow>
               if \<not> drop_tombstones then (key, val) # compact_loop gc_watermark drop_tombstones seen es
               else compact_loop gc_watermark drop_tombstones seen es)"

definition compact_entries :: "entry list \<Rightarrow> u64 \<Rightarrow> bool \<Rightarrow> entry list" where
  "compact_entries entries gc_watermark drop_tombstones =
     compact_loop gc_watermark drop_tombstones {} (sort_key fst entries)"

subsection \<open>Tasks\<close>

record compaction_task =
  ct_input_level :: nat
  ct_output_level :: nat
  ct_input_files :: "file_meta list"
  ct_overlap_files :: "file_meta list"
  ct_smallest_user_key :: bytes
  ct_largest_user_key :: bytes
  ct_is_manual :: bool

definition all_input_files :: "compaction_task \<Rightarrow> file_meta list" where
  "all_input_files t = ct_input_files t @ ct_overlap_files t"

definition is_trivial_move :: "compaction_task \<Rightarrow> bool" where
  "is_trivial_move t \<longleftrightarrow> ct_input_level t > 0 \<and> length (ct_input_files t) = 1 \<and> ct_overlap_files t = []"

subsection \<open>The picker\<close>

definition user_key_overlaps :: "file_meta \<Rightarrow> bytes \<Rightarrow> bytes \<Rightarrow> bool" where
  "user_key_overlaps f smallest largest \<longleftrightarrow>
     user_key (fm_smallest f) \<le> largest \<and> user_key (fm_largest f) \<ge> smallest"

definition user_key_range :: "file_meta list \<Rightarrow> (bytes \<times> bytes) result" where
  "user_key_range files =
     (if files = [] then Inl (Panic ''compaction files are non-empty'')
      else Inr (Min (set (map (\<lambda>f. user_key (fm_smallest f)) files)),
                Max (set (map (\<lambda>f. user_key (fm_largest f)) files))))"

definition file_overlaps_range :: "file_meta \<Rightarrow> bytes bound \<Rightarrow> bytes bound \<Rightarrow> bool" where
  "file_overlaps_range f lower upper \<longleftrightarrow>
     (case lower of Included b \<Rightarrow> user_key (fm_largest f) \<ge> b
        | Excluded b \<Rightarrow> user_key (fm_largest f) > b | Unbounded \<Rightarrow> True) \<and>
     (case upper of Included b \<Rightarrow> user_key (fm_smallest f) \<le> b
        | Excluded b \<Rightarrow> user_key (fm_smallest f) < b | Unbounded \<Rightarrow> True)"

definition task_for_files :: "version \<Rightarrow> nat \<Rightarrow> file_meta list \<Rightarrow> bool \<Rightarrow> compaction_task result" where
  "task_for_files v input_level input_files is_manual =
     (let output_level = min (input_level + 1) (length (levels v) - 1)
      in and_then (user_key_range input_files) (\<lambda>(input_smallest, input_largest).
         let overlap_files =
               (if output_level < length (levels v) then
                  (if input_level = 0 then levels v ! output_level
                   else filter (\<lambda>f. user_key_overlaps f input_smallest input_largest) (levels v ! output_level))
                else [])
         in and_then (if overlap_files = [] then Inr (input_smallest, input_largest)
                      else user_key_range (input_files @ overlap_files)) (\<lambda>(smallest, largest).
            Inr \<lparr>ct_input_level = input_level, ct_output_level = output_level, ct_input_files = input_files,
                 ct_overlap_files = overlap_files, ct_smallest_user_key = smallest,
                 ct_largest_user_key = largest, ct_is_manual = is_manual\<rparr>)))"

definition pick_level :: "version \<Rightarrow> nat \<Rightarrow> bool \<Rightarrow> compaction_task option result" where
  "pick_level v level is_manual =
     (if level = 0 then
        (if l0_files v = [] then Inr None
         else and_then (task_for_files v 0 (l0_files v) is_manual) (\<lambda>t. Inr (Some t)))
      else if level \<ge> length (levels v) then Inr None
      else case levels v ! level of
             [] \<Rightarrow> Inr None
           | f # _ \<Rightarrow> and_then (task_for_files v level [f] is_manual) (\<lambda>t. Inr (Some t)))"

definition pick_l0_manual :: "version \<Rightarrow> bytes bound \<Rightarrow> bytes bound \<Rightarrow> compaction_task option result" where
  "pick_l0_manual v lower upper =
     (let files = filter (\<lambda>f. file_overlaps_range f lower upper) (l0_files v)
      in if files = [] then Inr None
         else and_then (task_for_files v 0 files True) (\<lambda>t. Inr (Some t)))"

fun pick_manual_loop :: "version \<Rightarrow> bytes bound \<Rightarrow> bytes bound \<Rightarrow> nat list \<Rightarrow> compaction_task option result" where
  "pick_manual_loop v lower upper [] = Inr None"
| "pick_manual_loop v lower upper (level # ls) =
     (case find (\<lambda>f. file_overlaps_range f lower upper) (levels v ! level) of
        None \<Rightarrow> pick_manual_loop v lower upper ls
      | Some f \<Rightarrow> and_then (task_for_files v level [f] True) (\<lambda>t. Inr (Some t)))"

definition pick_manual :: "version \<Rightarrow> bytes bound \<Rightarrow> bytes bound \<Rightarrow> compaction_task option result" where
  "pick_manual v lower upper =
     and_then (pick_l0_manual v lower upper) (\<lambda>r.
       case r of
         Some task \<Rightarrow> Inr (Some task)
       | None \<Rightarrow> pick_manual_loop v lower upper [1..<length (levels v) - 1])"

subsection \<open>Splitting the output (db.rs)\<close>

definition estimate_entry_size :: "entry \<Rightarrow> nat" where
  "estimate_entry_size e =
     length (user_key (fst e)) + size_of_internal_key + (case snd e of Put v \<Rightarrow> length v | Delete \<Rightarrow> 0)"

fun split_loop :: "nat \<Rightarrow> nat \<Rightarrow> entry list list \<Rightarrow> entry list \<Rightarrow> nat \<Rightarrow> bytes \<Rightarrow> entry list \<Rightarrow> entry list list" where
  "split_loop target max_outputs chunks current current_size previous_user_key [] =
     (if current \<noteq> [] then chunks @ [current] else chunks)"
| "split_loop target max_outputs chunks current current_size previous_user_key (e # es) =
     (let entry_size = estimate_entry_size e;
          user_key_changed = (previous_user_key = [] \<or> previous_user_key \<noteq> user_key (fst e))
      in if current \<noteq> [] \<and> user_key_changed \<and> current_size \<ge> target \<and> length chunks + 1 < max_outputs
         then split_loop target max_outputs (chunks @ [current]) [e] entry_size (user_key (fst e)) es
         else split_loop target max_outputs chunks (current @ [e]) (current_size + entry_size) (user_key (fst e)) es)"

definition split_compaction_entries :: "entry list \<Rightarrow> nat \<Rightarrow> nat \<Rightarrow> entry list list" where
  "split_compaction_entries entries target_file_size max_outputs =
     split_loop (max target_file_size 1) (max max_outputs 1) [] [] 0 [] entries"

subsection \<open>What the executor keeps\<close>

text \<open>
  An entry survives when it is above the watermark, or when it is the newest version of its
  key at or below the watermark and not a tombstone that may be dropped.
\<close>

definition survives :: "entry set \<Rightarrow> u64 \<Rightarrow> bool \<Rightarrow> entry \<Rightarrow> bool" where
  "survives E w dt e \<longleftrightarrow> w < sequence (fst e) \<or>
     (dt \<longrightarrow> snd e \<noteq> Delete) \<and>
     (\<forall>y\<in>E. user_key (fst y) = user_key (fst e) \<and> sequence (fst y) \<le> w \<longrightarrow> sequence (fst y) \<le> sequence (fst e))"

lemma survives_insert:
  "survives (insert e E) w dt x \<longleftrightarrow> survives E w dt x \<and>
     (w < sequence (fst x) \<or> (user_key (fst e) = user_key (fst x) \<and> sequence (fst e) \<le> w \<longrightarrow>
        sequence (fst e) \<le> sequence (fst x)))"
  by (auto simp: survives_def)

lemma survives_above: "w < sequence (fst x) \<Longrightarrow> survives E w dt x"
  by (simp add: survives_def)

lemma set_compact_loop:
  assumes "sorted_wrt (\<lambda>x y. fst x \<le> fst y) es" and "distinct_versions (set es)"
  shows "x \<in> set (compact_loop w dt seen es) \<longleftrightarrow>
    x \<in> set es \<and> survives (set es) w dt x \<and> (w < sequence (fst x) \<or> user_key (fst x) \<notin> seen)"
  using assms
proof (induction es arbitrary: seen)
  case (Cons e es)
  obtain key val where e: "e = (key, val)" by fastforce
  from Cons.prems have after: "sequence (fst y) \<le> sequence key"
    if "y \<in> set es" "user_key (fst y) = user_key key" for y
    using that by (auto simp: e intro: same_user_key_newer_first)
  have IH: "x \<in> set (compact_loop w dt seen' es) \<longleftrightarrow>
      x \<in> set es \<and> survives (set es) w dt x \<and> (w < sequence (fst x) \<or> user_key (fst x) \<notin> seen')" for seen'
    using Cons.prems by (intro Cons.IH) (auto intro: distinct_versions_subset)
  show ?case
  proof (cases "w < sequence key \<or> user_key key \<in> seen")
    case True
    then show ?thesis
    proof (cases "w < sequence key")
      case True
      then have "\<not> sequence key \<le> w" by simp
      with True show ?thesis by (cases "x = e") (simp_all add: e IH survives_insert survives_above)
    next
      case False
      with True have "user_key key \<in> seen" by simp
      with False show ?thesis
        by (cases "user_key (fst x) = user_key key") (auto simp: e IH survives_insert survives_above)
    qed
  next
    case False
    have same: "x = e" if "x \<in> set es" "user_key (fst x) = user_key key" "sequence key \<le> sequence (fst x)"
      using distinct_versionsD [OF Cons.prems(2), of x e] after [OF that(1,2)] that by (simp add: e)
    have "x \<in> set (compact_loop w dt seen (e # es)) \<longleftrightarrow>
        (x = e \<and> (dt \<longrightarrow> val \<noteq> Delete)) \<or> x \<in> set (compact_loop w dt (insert (user_key key) seen) es)"
      using False by (cases val) (auto simp: e Let_def)
    also have "\<dots> \<longleftrightarrow> x \<in> set (e # es) \<and> survives (set (e # es)) w dt x \<and>
        (w < sequence (fst x) \<or> user_key (fst x) \<notin> seen)"
    proof (cases "x = e")
      case True
      with False after show ?thesis unfolding IH by (simp add: e survives_def)
    next
      case neq: False
      have "survives (set (e # es)) w dt x \<longleftrightarrow> survives (set es) w dt x \<and> \<not> sequence (fst x) \<le> w \<or>
          survives (set es) w dt x \<and> user_key (fst x) \<noteq> user_key key" if "x \<in> set es"
        using False same [OF that] neq by (auto simp: e survives_insert survives_above not_less)
      with neq False show ?thesis unfolding IH by (auto simp: not_le)
    qed
    finally show ?thesis .
  qed
qed simp

lemma sorted_sort_entries: "sorted_wrt (\<lambda>x y. fst x \<le> fst y) (sort_key fst (es :: entry list))"
  using sorted_sort_key [of fst es] by (simp add: sorted_wrt_map)

lemma set_compact_entries:
  "distinct_versions (set es) \<Longrightarrow>
   set (compact_entries es w dt) = {x \<in> set es. survives (set es) w dt x}"
  using set_compact_loop [OF sorted_sort_entries, of es _ w dt "{}"]
  by (auto simp: compact_entries_def)

lemma compact_loop_Cons:
  obtains b seen' where "compact_loop w dt seen (e # es) = (if b then [e] else []) @ compact_loop w dt seen' es"
proof (cases e)
  case (Pair key val)
  show ?thesis
    using that [of True seen] that [of False seen] that [of True "insert (user_key key) seen"]
      that [of False "insert (user_key key) seen"]
    by (cases "w < sequence key"; cases "user_key key \<in> seen"; cases val; cases dt) (simp_all add: Pair Let_def)
qed

lemma set_compact_loop_subset: "set (compact_loop w dt seen es) \<subseteq> set es"
proof (induction es arbitrary: seen)
  case (Cons e es)
  obtain b seen' where "compact_loop w dt seen (e # es) = (if b then [e] else []) @ compact_loop w dt seen' es"
    by (rule compact_loop_Cons)
  with Cons.IH [of seen'] show ?case by auto
qed simp

lemma sorted_compact_loop: "sorted_entries es \<Longrightarrow> sorted_entries (compact_loop w dt seen es)"
proof (induction es arbitrary: seen)
  case (Cons e es)
  obtain b seen' where "compact_loop w dt seen (e # es) = (if b then [e] else []) @ compact_loop w dt seen' es"
    by (rule compact_loop_Cons)
  with Cons.IH [of seen'] Cons.prems set_compact_loop_subset [of w dt seen' es] show ?case by auto
qed simp

lemma sorted_compact_entries:
  assumes "distinct (map fst es)"
  shows "sorted_entries (compact_entries es w dt)"
proof -
  have "distinct (map fst (sort_key fst es))"
    using assms by (metis distinct_map distinct_sort set_sort)
  then have "sorted_entries (sort_key fst es)"
    by (simp add: strict_sorted_iff)
  then show ?thesis by (simp add: compact_entries_def sorted_compact_loop)
qed

text \<open>
  A version at or below the watermark that has a newer one below the watermark is never the
  one a read at or above the watermark returns.
\<close>

lemma newest_survives:
  assumes "e \<in> E" and "version_of k s e" and "w \<le> s"
    and "\<And>y. y \<in> E \<Longrightarrow> version_of k s y \<Longrightarrow> sequence (fst y) \<le> sequence (fst e)"
  shows "survives E w False e"
  using assms by (auto simp: survives_def version_of_def)

lemma compact_lookup:
  assumes d: "distinct_versions (set (es @ rest))" and w: "w \<le> s"
  shows "lookup_at (compact_entries es w False @ rest) k s = lookup_at (es @ rest) k s"
proof -
  let ?out = "compact_entries es w False"
  have de: "distinct_versions (set es)" using d by (auto intro: distinct_versions_subset)
  have out: "set ?out = {x \<in> set es. survives (set es) w False x}"
    by (rule set_compact_entries [OF de])
  have do: "distinct_versions (set (?out @ rest))"
    using d out by (auto intro: distinct_versions_subset)
  show ?thesis
  proof (cases "lookup_at (es @ rest) k s")
    case None
    then have "\<forall>e\<in>set (?out @ rest). \<not> version_of k s e"
      using out unfolding lookup_at_None_iff by auto
    with None show ?thesis by (metis lookup_at_None_iff)
  next
    case (Some v)
    then show ?thesis
    proof (rule lookup_at_SomeD)
      fix ik assume ik: "(ik, v) \<in> set (es @ rest)" "version_of k s (ik, v)"
        and max: "\<And>e. e \<in> set (es @ rest) \<Longrightarrow> version_of k s e \<Longrightarrow> sequence (fst e) \<le> sequence ik"
      have "(ik, v) \<in> set (?out @ rest)"
        using ik max newest_survives [of "(ik, v)" "set es" k s w] w out by auto
      moreover have "set (?out @ rest) \<subseteq> set (es @ rest)" using out by auto
      ultimately have "lookup_at (?out @ rest) k s = Some v"
        unfolding lookup_at_Some_iff [OF do] using ik(2) max by blast
      with Some show ?thesis by simp
    qed
  qed
qed

text \<open>
  Dropping tombstones as well is invisible when every other version of a key that was
  compacted is newer, as the picker and \<open>can_drop_tombstones\<close> have to ensure.
\<close>

definition older_than :: "entry list \<Rightarrow> entry list \<Rightarrow> bool" where
  "older_than es rest \<longleftrightarrow> (\<forall>a\<in>set es. \<forall>b\<in>set rest. user_key (fst a) = user_key (fst b) \<longrightarrow>
     sequence (fst a) < sequence (fst b))"

lemma survives_drop: "survives E w True e \<longleftrightarrow> survives E w False e \<and> (w < sequence (fst e) \<or> snd e \<noteq> Delete)"
  by (auto simp: survives_def)

lemma compact_visible_drop:
  assumes d: "distinct_versions (set es)" and w: "w \<le> s"
  shows "visible_value (lookup_at (compact_entries es w True) k s) = visible_value (lookup_at es k s)"
proof -
  let ?keep = "compact_entries es w False" and ?dt = "compact_entries es w True"
  note sets = set_compact_entries [OF d, of w False] set_compact_entries [OF d, of w True]
  have same: "lookup_at ?keep k s = lookup_at es k s"
    using compact_lookup [of es "[]" w s k] d w by simp
  have dk: "distinct_versions (set ?keep)" and dd: "distinct_versions (set ?dt)"
    using d sets by (auto intro: distinct_versions_subset)
  show ?thesis
  proof (cases "lookup_at ?keep k s")
    case None
    then have "\<forall>e\<in>set ?dt. \<not> version_of k s e"
      unfolding lookup_at_None_iff sets by (auto simp: survives_drop)
    then have "lookup_at ?dt k s = None" by (simp add: lookup_at_None_iff)
    with None same show ?thesis by simp
  next
    case (Some v)
    then obtain ik where ik: "(ik, v) \<in> set ?keep" "version_of k s (ik, v)"
      and max: "\<And>e. e \<in> set ?keep \<Longrightarrow> version_of k s e \<Longrightarrow> sequence (fst e) \<le> sequence ik"
      by (rule lookup_at_SomeD) blast
    show ?thesis
    proof (cases "w < sequence ik \<or> v \<noteq> Delete")
      case True
      then have "(ik, v) \<in> set ?dt" using ik(1) by (auto simp: sets survives_drop)
      moreover have "set ?dt \<subseteq> set ?keep" by (auto simp: sets survives_drop)
      ultimately have "lookup_at ?dt k s = Some v"
        unfolding lookup_at_Some_iff [OF dd] using ik(2) max by blast
      with Some same show ?thesis by simp
    next
      case False
      have "\<not> version_of k s e" if e: "e \<in> set ?dt" for e
      proof
        assume v: "version_of k s e"
        from e have keep: "e \<in> set ?keep" and sv: "survives (set es) w True e" by (auto simp: sets survives_drop)
        from max [OF keep v] False have "sequence (fst e) \<le> w" by (auto simp: not_less)
        with sv v ik False have "sequence ik \<le> sequence (fst e)"
          by (force simp: survives_def version_of_def sets not_less)
        with max [OF keep v] ik v keep have "e = (ik, v)"
          by (intro distinct_versionsD [OF dk]) (auto simp: version_of_def)
        with sv False show False by (auto simp: survives_def)
      qed
      then have "lookup_at ?dt k s = None" by (simp add: lookup_at_None_iff)
      with Some same False show ?thesis by simp
    qed
  qed
qed

lemma lookup_above:
  assumes "older_than es rest"
  shows "lookup_at (es @ rest) k s = (case lookup_at rest k s of None \<Rightarrow> lookup_at es k s | Some v \<Rightarrow> Some v)"
proof (cases "lookup_at rest k s")
  case None
  then have "filter (version_of k s) rest = []" by (simp add: lookup_at_None_iff filter_empty_conv)
  with None show ?thesis by (simp add: lookup_at_def)
next
  case (Some v)
  then obtain b where b: "newest (filter (version_of k s) rest) = Some b" "snd b = v"
    by (auto simp: lookup_at_def)
  show ?thesis
  proof (cases "newest (filter (version_of k s) es)")
    case None
    with b Some show ?thesis by (simp add: lookup_at_def newest_append)
  next
    case (Some a)
    have "a \<in> set (filter (version_of k s) es)" "b \<in> set (filter (version_of k s) rest)"
      using newest_SomeD [OF Some] newest_SomeD [OF b(1)] by blast+
    with assms have "sequence (fst a) < sequence (fst b)"
      by (auto simp: older_than_def version_of_def)
    with b Some \<open>lookup_at rest k s = Some v\<close> show ?thesis by (simp add: lookup_at_def newest_append)
  qed
qed

lemma compact_visible:
  assumes "distinct_versions (set (es @ rest))" and "w \<le> s" and "dt \<Longrightarrow> older_than es rest"
  shows "visible_value (lookup_at (compact_entries es w dt @ rest) k s) = visible_value (lookup_at (es @ rest) k s)"
proof (cases dt)
  case False
  with compact_lookup [OF assms(1,2)] show ?thesis by simp
next
  case True
  have de: "distinct_versions (set es)" using assms(1) by (auto intro: distinct_versions_subset)
  have "older_than (compact_entries es w True) rest"
    using assms(3) [OF True] set_compact_entries [OF de, of w True] by (auto simp: older_than_def)
  from lookup_above [OF this] lookup_above [OF assms(3) [OF True]] compact_visible_drop [OF de assms(2)] True
  show ?thesis by (simp split: option.split)
qed

lemma scan_rows_visible_cong:
  "(\<And>k. visible_value (lookup_at es k s) = visible_value (lookup_at es' k s)) \<Longrightarrow>
   scan_rows es lower upper s = scan_rows es' lower upper s"
  by (rule scan_rows_unique) (simp_all add: sorted_scan_rows set_scan_rows)

subsection \<open>What the picker takes along\<close>

definition meta_ordered :: "file_meta \<Rightarrow> bool" where
  "meta_ordered f \<longleftrightarrow> user_key (fm_smallest f) \<le> user_key (fm_largest f)"

text \<open>The key ranges of a level below 0 are disjoint and ascending.\<close>

definition level_disjoint :: "file_meta list \<Rightarrow> bool" where
  "level_disjoint fs \<longleftrightarrow> list_all meta_ordered fs \<and>
     sorted_wrt (\<lambda>a b. user_key (fm_largest a) < user_key (fm_smallest b)) fs"

definition files_at :: "version \<Rightarrow> nat \<Rightarrow> file_meta list" where
  "files_at v l = (if l = 0 then l0_files v else levels v ! l)"

lemma sorted_wrt_pairE:
  assumes "sorted_wrt R xs" and "x \<in> set xs" and "y \<in> set xs" and "x \<noteq> y"
  shows "R x y \<or> R y x"
  using assms by (induction xs) auto

lemma level_disjoint_pair:
  "level_disjoint fs \<Longrightarrow> f \<in> set fs \<Longrightarrow> g \<in> set fs \<Longrightarrow> f \<noteq> g \<Longrightarrow>
   \<not> user_key_overlaps f (user_key (fm_smallest g)) (user_key (fm_largest g))"
  using sorted_wrt_pairE [of "\<lambda>a b. user_key (fm_largest a) < user_key (fm_smallest b)" fs f g]
  by (auto simp: level_disjoint_def user_key_overlaps_def)

lemma user_key_range_bounds:
  assumes "user_key_range fs = Inr (lo, hi)"
  shows "fs \<noteq> []" and "\<And>f. f \<in> set fs \<Longrightarrow> lo \<le> user_key (fm_smallest f) \<and> user_key (fm_largest f) \<le> hi"
    and "\<exists>f\<in>set fs. user_key (fm_smallest f) = lo" and "\<exists>f\<in>set fs. user_key (fm_largest f) = hi"
proof -
  show ne: "fs \<noteq> []" using assms by (auto simp: user_key_range_def split: if_splits)
  with assms have lo: "lo = Min ((\<lambda>f. user_key (fm_smallest f)) ` set fs)"
    and hi: "hi = Max ((\<lambda>f. user_key (fm_largest f)) ` set fs)" by (auto simp: user_key_range_def)
  show "lo \<le> user_key (fm_smallest f) \<and> user_key (fm_largest f) \<le> hi" if "f \<in> set fs" for f
    using that by (simp add: lo hi)
  have "lo \<in> (\<lambda>f. user_key (fm_smallest f)) ` set fs" "hi \<in> (\<lambda>f. user_key (fm_largest f)) ` set fs"
    unfolding lo hi using ne by (intro Min_in Max_in; simp)+
  then show "\<exists>f\<in>set fs. user_key (fm_smallest f) = lo" "\<exists>f\<in>set fs. user_key (fm_largest f) = hi"
    by auto
qed

text \<open>
  The hull of the input range and the files that overlap it touches no other file of the
  level: each of those files reaches from the input range to the edge of the hull.
\<close>

lemma hull_disjoint:
  assumes lvl: "level_disjoint fs" and inp: "user_key_range ins = Inr (lo, hi)"
    and ov: "ov = filter (\<lambda>g. user_key_overlaps g lo hi) fs"
    and hull: "user_key_range (ins @ ov) = Inr (a, b)"
    and f: "f \<in> set fs" "f \<notin> set ov"
  shows "\<not> user_key_overlaps f a b"
proof
  assume hit: "user_key_overlaps f a b"
  note I = user_key_range_bounds [OF inp] and H = user_key_range_bounds [OF hull]
  have mf: "user_key (fm_smallest f) \<le> user_key (fm_largest f)"
    using lvl f by (auto simp: level_disjoint_def list_all_iff meta_ordered_def)
  have no: "\<not> user_key_overlaps f (user_key (fm_smallest g)) (user_key (fm_largest g))" if "g \<in> set ov" for g
    using level_disjoint_pair [OF lvl f(1), of g] that f(2) by (auto simp: ov)
  from f ov consider "hi < user_key (fm_smallest f)" | "user_key (fm_largest f) < lo"
    by (auto simp: user_key_overlaps_def not_le)
  then show False
  proof cases
    case 1
    obtain g where g: "g \<in> set (ins @ ov)" "user_key (fm_largest g) = b" using H(4) by blast
    with hit 1 I(2) [of g] have "g \<in> set ov" by (auto simp: user_key_overlaps_def)
    with no [OF this] g(2) hit 1 mf show False by (auto simp: ov user_key_overlaps_def)
  next
    case 2
    obtain g where g: "g \<in> set (ins @ ov)" "user_key (fm_smallest g) = a" using H(3) by blast
    with hit 2 I(2) [of g] have "g \<in> set ov" by (auto simp: user_key_overlaps_def)
    with no [OF this] g(2) hit 2 mf show False by (auto simp: ov user_key_overlaps_def)
  qed
qed

definition task_ok :: "version \<Rightarrow> compaction_task \<Rightarrow> bool" where
  "task_ok v t \<longleftrightarrow> ct_input_files t \<noteq> [] \<and> ct_output_level t = ct_input_level t + 1 \<and>
     ct_output_level t < length (levels v) \<and>
     set (ct_input_files t) \<subseteq> set (files_at v (ct_input_level t)) \<and>
     set (ct_overlap_files t) \<subseteq> set (levels v ! ct_output_level t) \<and>
     (\<forall>f\<in>set (all_input_files t). ct_smallest_user_key t \<le> user_key (fm_smallest f) \<and>
        user_key (fm_largest f) \<le> ct_largest_user_key t) \<and>
     (\<forall>f\<in>set (levels v ! ct_output_level t) - set (ct_overlap_files t).
        \<not> user_key_overlaps f (ct_smallest_user_key t) (ct_largest_user_key t))"

lemma task_for_files_ok:
  assumes "ins \<noteq> []" and "set ins \<subseteq> set (files_at v l)" and "l + 1 < length (levels v)"
    and "level_disjoint (levels v ! (l + 1))"
  shows "\<exists>t. task_for_files v l ins m = Inr t \<and> task_ok v t \<and> ct_input_files t = ins \<and> ct_input_level t = l"
proof -
  let ?fs = "levels v ! (l + 1)"
  obtain lo hi where r: "user_key_range ins = Inr (lo, hi)" using assms(1) by (simp add: user_key_range_def)
  define ov where "ov = (if l = 0 then ?fs else filter (\<lambda>f. user_key_overlaps f lo hi) ?fs)"
  obtain a b where h: "(if ov = [] then Inr (lo, hi) else user_key_range (ins @ ov)) = Inr (a, b)"
    by (cases "ov = []") (auto simp: user_key_range_def)
  with r have hull: "user_key_range (ins @ ov) = Inr (a, b)" by (auto split: if_splits)
  have "\<not> user_key_overlaps f a b" if "f \<in> set ?fs - set ov" for f
    using that hull_disjoint [OF assms(4) r _ hull, of f] by (auto simp: ov_def split: if_splits)
  then show ?thesis
    using assms r h user_key_range_bounds(2) [OF hull]
    by (auto simp: task_for_files_def task_ok_def ov_def [symmetric] all_input_files_def Let_def min_def)
      (auto simp: ov_def split: if_splits)
qed

lemma pick_l0_manual_ok:
  assumes "1 < length (levels v)" and "level_disjoint (levels v ! 1)"
  shows "\<exists>r. pick_l0_manual v lower upper = Inr r \<and>
    (\<forall>t. r = Some t \<longrightarrow> task_ok v t \<and> ct_input_level t = 0 \<and>
       ct_input_files t = filter (\<lambda>f. file_overlaps_range f lower upper) (l0_files v)) \<and>
    (r = None \<longrightarrow> (\<forall>f\<in>set (l0_files v). \<not> file_overlaps_range f lower upper))"
proof (cases "filter (\<lambda>f. file_overlaps_range f lower upper) (l0_files v) = []")
  case True
  then show ?thesis by (auto simp: pick_l0_manual_def filter_empty_conv)
next
  case False
  have "set (filter (\<lambda>f. file_overlaps_range f lower upper) (l0_files v)) \<subseteq> set (files_at v 0)"
    by (auto simp: files_at_def)
  from task_for_files_ok [OF False this, of True] assms obtain t where
    "task_for_files v 0 (filter (\<lambda>f. file_overlaps_range f lower upper) (l0_files v)) True = Inr t"
    "task_ok v t" "ct_input_files t = filter (\<lambda>f. file_overlaps_range f lower upper) (l0_files v)"
    "ct_input_level t = 0" by auto
  with False show ?thesis by (simp add: pick_l0_manual_def Let_def)
qed

lemma pick_manual_loop_ok:
  assumes "\<And>l. l \<in> set ls \<Longrightarrow> 0 < l \<and> l + 1 < length (levels v) \<and> level_disjoint (levels v ! (l + 1))"
  shows "\<exists>r. pick_manual_loop v lower upper ls = Inr r \<and>
    (\<forall>t. r = Some t \<longrightarrow> task_ok v t \<and> 0 < ct_input_level t) \<and>
    (r = None \<longrightarrow> (\<forall>l\<in>set ls. \<forall>f\<in>set (levels v ! l). \<not> file_overlaps_range f lower upper))"
  using assms
proof (induction ls)
  case (Cons l ls)
  show ?case
  proof (cases "find (\<lambda>f. file_overlaps_range f lower upper) (levels v ! l)")
    case None
    from Cons.IH Cons.prems obtain r where "pick_manual_loop v lower upper ls = Inr r"
      "\<forall>t. r = Some t \<longrightarrow> task_ok v t \<and> 0 < ct_input_level t"
      "r = None \<longrightarrow> (\<forall>l\<in>set ls. \<forall>f\<in>set (levels v ! l). \<not> file_overlaps_range f lower upper)" by auto
    moreover have "\<forall>f\<in>set (levels v ! l). \<not> file_overlaps_range f lower upper"
      using None by (simp add: find_None_iff)
    ultimately show ?thesis using None by simp
  next
    case (Some f)
    then have "set [f] \<subseteq> set (files_at v l)" using Cons.prems [of l] by (auto simp: find_Some_iff files_at_def)
    with task_for_files_ok [of "[f]" v l True] Cons.prems [of l] obtain t where
      "task_for_files v l [f] True = Inr t" "task_ok v t" "ct_input_level t = l" by auto
    with Cons.prems [of l] Some show ?thesis by simp
  qed
qed simp

lemma pick_manual_ok:
  assumes "1 < length (levels v)" and "\<forall>l. 0 < l \<and> l < length (levels v) \<longrightarrow> level_disjoint (levels v ! l)"
  shows "\<exists>r. pick_manual v lower upper = Inr r \<and> (\<forall>t. r = Some t \<longrightarrow> task_ok v t \<and>
      (ct_input_level t = 0 \<longrightarrow> ct_input_files t = filter (\<lambda>f. file_overlaps_range f lower upper) (l0_files v))) \<and>
    (r = None \<longrightarrow> (\<forall>l<length (levels v) - 1. \<forall>f\<in>set (files_at v l). \<not> file_overlaps_range f lower upper))"
proof -
  obtain r where r: "pick_l0_manual v lower upper = Inr r"
    "\<forall>t. r = Some t \<longrightarrow> task_ok v t \<and> ct_input_files t = filter (\<lambda>f. file_overlaps_range f lower upper) (l0_files v)"
    "r = None \<longrightarrow> (\<forall>f\<in>set (l0_files v). \<not> file_overlaps_range f lower upper)"
    using pick_l0_manual_ok [of v lower upper] assms by auto
  obtain q where q: "pick_manual_loop v lower upper [1..<length (levels v) - 1] = Inr q"
    "\<forall>t. q = Some t \<longrightarrow> task_ok v t \<and> 0 < ct_input_level t"
    "q = None \<longrightarrow> (\<forall>l\<in>set [1..<length (levels v) - 1]. \<forall>f\<in>set (levels v ! l). \<not> file_overlaps_range f lower upper)"
    using pick_manual_loop_ok [of "[1..<length (levels v) - 1]" v lower upper] assms by (auto simp: less_diff_conv)
  show ?thesis
    using r q by (cases r) (auto simp: pick_manual_def files_at_def)
qed

subsection \<open>Splitting\<close>

lemma concat_split_loop: "concat (split_loop t m chunks cur sz prev es) = concat chunks @ cur @ es"
  by (induction t m chunks cur sz prev es rule: split_loop.induct) (auto simp: Let_def)

lemma split_loop_chunks:
  "[] \<notin> set chunks \<Longrightarrow> [] \<notin> set (split_loop t m chunks cur sz prev es)"
proof (induction es arbitrary: chunks cur sz prev)
  case (Cons e es)
  show ?case using Cons.prems by (auto simp: Let_def intro!: Cons.IH)
qed auto

lemma length_split_loop:
  "length chunks < m \<Longrightarrow> length (split_loop t m chunks cur sz prev es) \<le> m"
proof (induction es arbitrary: chunks cur sz prev)
  case (Cons e es)
  have "length (split_loop t m chunks' cur' sz' prev' es) \<le> m" if "length chunks' < m" for chunks' cur' sz' prev'
    using that by (rule Cons.IH)
  with Cons.prems show ?case by (simp add: Let_def)
qed simp

text \<open>Every user key of an earlier chunk is smaller than every one of a later chunk.\<close>

definition keys_before :: "entry list \<Rightarrow> entry list \<Rightarrow> bool" where
  "keys_before c d \<longleftrightarrow> (\<forall>a\<in>set c. \<forall>b\<in>set d. user_key (fst a) < user_key (fst b))"

lemma split_loop_separates:
  assumes "sorted_wrt (\<lambda>a b. user_key (fst a) \<le> user_key (fst b)) (concat chunks @ cur @ es)"
    and "[] \<notin> (user_key \<circ> fst) ` set es" and "sorted_wrt keys_before (chunks @ [cur])"
    and "cur = [] \<Longrightarrow> chunks = []" and "cur \<noteq> [] \<Longrightarrow> prev = user_key (fst (last cur)) \<and> prev \<noteq> []"
  shows "sorted_wrt keys_before (split_loop t m chunks cur sz prev es)"
  using assms
proof (induction es arbitrary: chunks cur sz prev)
  case Nil
  then show ?case by (auto simp: sorted_wrt_append)
next
  case (Cons e es)
  from Cons.prems(1) have le: "user_key (fst a) \<le> user_key (fst e)" if "a \<in> set (concat chunks @ cur)" for a
    using that by (auto simp: sorted_wrt_append)
  show ?case
  proof (cases "cur \<noteq> [] \<and> (prev = [] \<or> prev \<noteq> user_key (fst e)) \<and> sz \<ge> t \<and> length chunks + 1 < m")
    case True
    then have prev: "prev = user_key (fst (last cur))" "prev < user_key (fst e)"
      using Cons.prems(5) le [of "last cur"] by auto
    have upto: "user_key (fst a) \<le> prev" if "a \<in> set (concat chunks @ cur)" for a
    proof -
      have "sorted_wrt (\<lambda>a b. user_key (fst a) \<le> user_key (fst b)) (concat chunks @ butlast cur @ [last cur])"
        using Cons.prems(1) True by (auto simp: sorted_wrt_append)
      moreover have "a \<in> set (concat chunks @ butlast cur @ [last cur])" using that True by simp
      ultimately show ?thesis unfolding prev(1) append_assoc [symmetric] sorted_wrt_append [of _ _ "[last cur]"] by auto
    qed
    have "sorted_wrt keys_before (split_loop t m (chunks @ [cur]) [e] (estimate_entry_size e) (user_key (fst e)) es)"
    proof (rule Cons.IH)
      have "keys_before c [e]" if "c \<in> set (chunks @ [cur])" for c
        unfolding keys_before_def using that prev(2) by (auto intro!: le_less_trans [OF upto])
      with Cons.prems(3) show "sorted_wrt keys_before ((chunks @ [cur]) @ [[e]])"
        unfolding sorted_wrt_append [of _ "chunks @ [cur]"] by simp
    qed (use Cons.prems in auto)
    with True show ?thesis by (simp add: Let_def)
  next
    case False
    have "sorted_wrt keys_before (split_loop t m chunks (cur @ [e]) (sz + estimate_entry_size e) (user_key (fst e)) es)"
    proof (rule Cons.IH)
      have "user_key (fst a) < user_key (fst e)" if "c \<in> set chunks" "a \<in> set c" for a c
      proof -
        from that Cons.prems(4) have "hd cur \<in> set cur" by fastforce
        moreover from this that Cons.prems(3) have "user_key (fst a) < user_key (fst (hd cur))"
          by (auto simp: sorted_wrt_append keys_before_def)
        ultimately show ?thesis using le [of "hd cur"] by auto
      qed
      then have "keys_before c (cur @ [e])" if "c \<in> set chunks" for c
        using that Cons.prems(3) by (auto simp: sorted_wrt_append keys_before_def [of _ "cur @ [e]"] keys_before_def [of _ cur])
      then show "sorted_wrt keys_before (chunks @ [cur @ [e]])"
        using Cons.prems(3) by (simp add: sorted_wrt_append)
    qed (use Cons.prems in auto)
    with False show ?thesis by (auto simp: Let_def)
  qed
qed

lemma split_compaction_parts:
  shows "concat (split_compaction_entries es target n) = es" and "[] \<notin> set (split_compaction_entries es target n)"
    and "length (split_compaction_entries es target n) \<le> max n 1"
    and "sorted_entries es \<Longrightarrow> [] \<notin> (user_key \<circ> fst) ` set es \<Longrightarrow> sorted_wrt keys_before (split_compaction_entries es target n)"
proof -
  show "concat (split_compaction_entries es target n) = es" "[] \<notin> set (split_compaction_entries es target n)"
    "length (split_compaction_entries es target n) \<le> max n 1"
    using length_split_loop [of "[]" "max n 1"] split_loop_chunks [of "[]"]
    by (simp_all add: split_compaction_entries_def concat_split_loop)
  assume "sorted_entries es" and ne: "[] \<notin> (user_key \<circ> fst) ` set es"
  then have "sorted_wrt (\<lambda>a b. user_key (fst a) \<le> user_key (fst b)) es"
    using sorted_entries_le [of es] by (auto intro: sorted_wrt_mono_rel [rotated] simp: user_key_mono)
  then show "sorted_wrt keys_before (split_compaction_entries es target n)"
    using split_loop_separates [of "[]" "[]" es "[]" "max target 1" "max n 1" 0] ne
    by (simp add: split_compaction_entries_def)
qed

subsection \<open>Properties\<close>



text \<open>
  C25: the output of a compaction is a subset of its input, strictly sorted like a table
  file has to be, keeps every version above the watermark, and has at most one version of
  each key at or below it, none of them a tombstone when tombstones are dropped.
\<close>

theorem compaction_collects_garbage:
  assumes "distinct_versions (set es)" and "distinct (map fst es)"
  shows "set (compact_entries es w dt) \<subseteq> set es \<and> sorted_entries (compact_entries es w dt) \<and>
    {e \<in> set es. w < sequence (fst e)} \<subseteq> set (compact_entries es w dt) \<and>
    (\<forall>a\<in>set (compact_entries es w dt). \<forall>b\<in>set (compact_entries es w dt).
       user_key (fst a) = user_key (fst b) \<and> sequence (fst a) \<le> w \<and> sequence (fst b) \<le> w \<longrightarrow> a = b) \<and>
    (\<forall>a\<in>set (compact_entries es w dt). dt \<and> sequence (fst a) \<le> w \<longrightarrow> snd a \<noteq> Delete)"
proof -
  note sets = set_compact_entries [OF assms(1), of w dt]
  have "a = b" if "a \<in> set (compact_entries es w dt)" "b \<in> set (compact_entries es w dt)"
    "user_key (fst a) = user_key (fst b)" "sequence (fst a) \<le> w" "sequence (fst b) \<le> w" for a b
  proof -
    from that have "sequence (fst a) \<le> sequence (fst b)" "sequence (fst b) \<le> sequence (fst a)"
      by (auto simp: sets survives_def)
    with that show ?thesis by (intro distinct_versionsD [OF assms(1)]) (auto simp: sets)
  qed
  moreover have "\<forall>a\<in>set (compact_entries es w dt). dt \<and> sequence (fst a) \<le> w \<longrightarrow> snd a \<noteq> Delete"
    by (auto simp: sets survives_def)
  ultimately show ?thesis
    using sorted_compact_entries [OF assms(2), of w dt] by (auto simp: sets survives_above)
qed

theorem compaction_collects_garbage_witness:
  "set (compact_entries [(InternalKey [1] 9 TypeDelete, Delete), (InternalKey [1] 1 TypePut, Put [7])] 3 True) \<subseteq>
     set [(InternalKey [1] 9 TypeDelete, Delete), (InternalKey [1] 1 TypePut, Put [7])] \<and>
   (InternalKey [1] 9 TypeDelete, Delete) \<in>
     set (compact_entries [(InternalKey [1] 9 TypeDelete, Delete), (InternalKey [1] 1 TypePut, Put [7])] 3 True)"
proof -
  let ?es = "[(InternalKey [1] 9 TypeDelete, Delete), (InternalKey [1] 1 TypePut, Put [7])]"
  have "distinct_versions (set ?es)" "distinct (map fst ?es)" by (simp_all add: distinct_versions_def)
  from compaction_collects_garbage [OF this, of 3 True]
  have "set (compact_entries ?es 3 True) \<subseteq> set ?es" "{e \<in> set ?es. 3 < sequence (fst e)} \<subseteq> set (compact_entries ?es 3 True)"
    by blast+
  then show ?thesis by (intro conjI) (assumption, auto)
qed

text \<open>Two level-0 files with one user key in common.\<close>

definition demo_l0_old :: file_meta where
  "demo_l0_old = \<lparr>fm_number = 1, fm_file_size = 10, fm_smallest = InternalKey [1] 1 TypePut,
    fm_largest = InternalKey [1] 1 TypePut, fm_smallest_seq = 1, fm_largest_seq = 1\<rparr>"

definition demo_l0_new :: file_meta where
  "demo_l0_new = \<lparr>fm_number = 2, fm_file_size = 10, fm_smallest = InternalKey [1] 2 TypePut,
    fm_largest = InternalKey [9] 3 TypePut, fm_smallest_seq = 2, fm_largest_seq = 3\<rparr>"

text \<open>
  C26: picking a manual compaction never panics, and where the levels below 0 are disjoint
  the task it picks is sound: its input files are of one level, its output goes one level
  down, its key range covers all its files, and every file of the output level that is not
  taken along lies outside that range, so the output keeps the level disjoint.  No task
  means that no file of a level that can be compacted overlaps the requested range.
\<close>

theorem pick_manual_sound:
  assumes "1 < length (levels v)" and "\<forall>l. 0 < l \<and> l < length (levels v) \<longrightarrow> level_disjoint (levels v ! l)"
  shows "\<exists>r. pick_manual v lower upper = Inr r \<and> (\<forall>t. r = Some t \<longrightarrow> task_ok v t) \<and>
    (r = None \<longrightarrow> (\<forall>l<length (levels v) - 1. \<forall>f\<in>set (files_at v l). \<not> file_overlaps_range f lower upper))"
  using pick_manual_ok [OF assms, of lower upper] by blast

theorem pick_manual_sound_witness:
  "\<exists>t. pick_manual \<lparr>l0_files = [demo_l0_new, demo_l0_old], levels = [[], [], []]\<rparr> Unbounded Unbounded = Inr (Some t) \<and>
     task_ok \<lparr>l0_files = [demo_l0_new, demo_l0_old], levels = [[], [], []]\<rparr> t"
proof -
  let ?v = "\<lparr>l0_files = [demo_l0_new, demo_l0_old], levels = [[], [], []]\<rparr>"
  have "1 < length (levels ?v)" "\<forall>l. 0 < l \<and> l < length (levels ?v) \<longrightarrow> level_disjoint (levels ?v ! l)"
    by (auto simp: level_disjoint_def less_Suc_eq)
  from pick_manual_sound [OF this, of Unbounded Unbounded] obtain r where
    r: "pick_manual ?v Unbounded Unbounded = Inr r" "\<forall>t. r = Some t \<longrightarrow> task_ok ?v t"
    "r = None \<longrightarrow> (\<forall>l<length (levels ?v) - 1. \<forall>f\<in>set (files_at ?v l). \<not> file_overlaps_range f Unbounded Unbounded)"
    by blast
  from r(3) have "r \<noteq> None" by (auto simp: files_at_def file_overlaps_range_def)
  with r(1,2) show ?thesis by auto
qed




text \<open>
  The versions of the empty user key are not kept together: the code takes an empty
  previous key for no previous key, so two versions of the empty key end up in different
  files.
\<close>

theorem split_compaction_empty_key:
  "split_compaction_entries [(InternalKey [] 2 TypePut, Put []), (InternalKey [] 1 TypePut, Put [])] 1 2 =
    [[(InternalKey [] 2 TypePut, Put [])], [(InternalKey [] 1 TypePut, Put [])]]"
  by (simp add: split_compaction_entries_def estimate_entry_size_def size_of_internal_key_def Let_def)

end
