(* ===== verification/Snapshots.thy ===== *)
theory Snapshots
  imports Externs
begin

section \<open>Snapshots and the watermark (mvcc/)\<close>

text \<open>
  \<^verbatim>\<open>src/src/mvcc/watermark.rs\<close> and \<^verbatim>\<open>snapshot.rs\<close>.  The watermark counts the live
  snapshots by read sequence in a \<^verbatim>\<open>BTreeMap\<close>; a snapshot registers itself when it is
  made or cloned and leaves when it is dropped.  The watermark is shared, so it is the
  state the snapshot operations thread.

  The locale \<open>snapshot_registry\<close> is what compaction relies on: the registry holds a
  multiset of sequence numbers and answers the least of them.  The watermark is shown to
  implement it, and the step relation of snapshot creation, cloning and dropping is shown
  to keep the registry equal to the multiset of the snapshots that are alive.
\<close>

subsection \<open>Watermark\<close>

type_synonym watermark = "(u64 \<times> nat) list"

definition watermark_new :: watermark where
  "watermark_new = []"

definition watermark_add :: "u64 \<Rightarrow> watermark \<Rightarrow> watermark" where
  "watermark_add seq active =
     btree_insert seq ((case btree_get active seq of None \<Rightarrow> 0 | Some n \<Rightarrow> n) + 1) active"

text \<open>Subtracting from a count of zero would overflow, which the code does not handle.\<close>

definition watermark_remove :: "u64 \<Rightarrow> watermark \<Rightarrow> watermark result" where
  "watermark_remove seq active =
     (case btree_get active seq of
        None \<Rightarrow> Inr active
      | Some n \<Rightarrow>
          if n = 0 then Inl (Panic ''attempt to subtract with overflow'')
          else if n - 1 = 0 then Inr (btree_remove seq active)
          else Inr (btree_insert seq (n - 1) active))"

definition watermark_oldest :: "watermark \<Rightarrow> u64 option" where
  "watermark_oldest active = (case active of [] \<Rightarrow> None | (seq, _) # _ \<Rightarrow> Some seq)"

subsection \<open>Snapshot\<close>

record snapshot =
  snap_read_seq :: u64

definition snapshot_new :: "u64 \<Rightarrow> watermark \<Rightarrow> snapshot \<times> watermark" where
  "snapshot_new read_seq w = (\<lparr>snap_read_seq = read_seq\<rparr>, watermark_add read_seq w)"

definition snapshot_clone :: "snapshot \<Rightarrow> watermark \<Rightarrow> snapshot \<times> watermark" where
  "snapshot_clone s w = snapshot_new (snap_read_seq s) w"

definition snapshot_drop :: "snapshot \<Rightarrow> watermark \<Rightarrow> watermark result" where
  "snapshot_drop s w = watermark_remove (snap_read_seq s) w"

text \<open>The lives of snapshots: the watermark with the snapshots that are alive.\<close>

inductive snapshot_step :: "watermark \<times> snapshot multiset \<Rightarrow> watermark \<times> snapshot multiset \<Rightarrow> bool" where
  New: "snapshot_new seq w = (s, w') \<Longrightarrow> snapshot_step (w, live) (w', add_mset s live)"
| Clone: "s \<in># live \<Longrightarrow> snapshot_clone s w = (s', w') \<Longrightarrow> snapshot_step (w, live) (w', add_mset s' live)"
| Drop: "s \<in># live \<Longrightarrow> snapshot_drop s w = Inr w' \<Longrightarrow> snapshot_step (w, live) (w', live - {#s#})"

inductive_cases snapshot_stepE: "snapshot_step (w, live) st"

subsection \<open>The contract of the registry\<close>

locale snapshot_registry =
  fixes new :: 'w and add :: "u64 \<Rightarrow> 'w \<Rightarrow> 'w" and remove :: "u64 \<Rightarrow> 'w \<Rightarrow> 'w result"
    and oldest :: "'w \<Rightarrow> u64 option" and ok :: "'w \<Rightarrow> bool" and held :: "'w \<Rightarrow> u64 multiset"
  assumes new: "ok new" "held new = {#}"
    and add: "ok w \<Longrightarrow> ok (add s w) \<and> held (add s w) = add_mset s (held w)"
    and remove: "ok w \<Longrightarrow> s \<in># held w \<Longrightarrow> \<exists>w'. remove s w = Inr w' \<and> ok w' \<and> held w' = held w - {#s#}"
    and oldest: "ok w \<Longrightarrow> oldest w = (if held w = {#} then None else Some (Min_mset (held w)))"
begin

text \<open>No snapshot is older than the watermark compaction uses.\<close>

lemma oldest_bound:
  assumes "ok w" and "s \<in># held w"
  shows "(case oldest w of None \<Rightarrow> d | Some m \<Rightarrow> m) \<le> s"
  using assms oldest [OF assms(1)] by auto

lemma oldest_default: "ok w \<Longrightarrow> held w = {#} \<Longrightarrow> (case oldest w of None \<Rightarrow> d | Some m \<Rightarrow> m) = d"
  by (simp add: oldest)

end

subsection \<open>The watermark implements the registry\<close>

definition watermark_ok :: "watermark \<Rightarrow> bool" where
  "watermark_ok w \<longleftrightarrow> sorted_wrt (<) (map fst w) \<and> (\<forall>(s, c)\<in>set w. 0 < c)"

definition watermark_held :: "watermark \<Rightarrow> u64 multiset" where
  "watermark_held w = (\<Sum>(s, c)\<leftarrow>w. replicate_mset c s)"

lemma watermark_held_simps [simp]:
  "watermark_held [] = {#}" "watermark_held ((s, c) # w) = replicate_mset c s + watermark_held w"
  by (simp_all add: watermark_held_def)

lemma count_watermark_held:
  "sorted_wrt (<) (map fst w) \<Longrightarrow> count (watermark_held w) s = (case btree_get w s of None \<Rightarrow> 0 | Some c \<Rightarrow> c)"
proof (induction w)
  case (Cons a w)
  obtain s' c where a: "a = (s', c)" by fastforce
  have "s' \<notin> set (map fst w)" using Cons.prems by (auto simp: a)
  then have "btree_get w s' = None" by (simp add: btree_get_map_of map_of_eq_None_iff)
  with Cons show ?case by (auto simp: a)
qed simp

lemma btree_get_insert:
  "sorted_wrt (<) (map fst m) \<Longrightarrow> btree_get (btree_insert k v m) k' = (if k' = k then Some v else btree_get m k')"
  by (simp add: btree_get_map_of map_of_btree_insert)

lemma btree_get_remove: "btree_get (btree_remove k m) k' = (if k' = k then None else btree_get m k')"
  by (induction m) (auto simp: btree_remove_def)

lemma watermark_ok_get: "watermark_ok w \<Longrightarrow> btree_get w s = Some c \<Longrightarrow> 0 < c"
  by (auto simp: watermark_ok_def btree_get_map_of dest: map_of_SomeD)

lemma watermark_ok_insert: "watermark_ok w \<Longrightarrow> 0 < c \<Longrightarrow> watermark_ok (btree_insert s c w)"
  by (auto simp: watermark_ok_def sorted_btree_insert set_btree_insert)

lemma watermark_ok_remove: "watermark_ok w \<Longrightarrow> watermark_ok (btree_remove s w)"
  by (auto simp: watermark_ok_def btree_remove_def intro: sorted_wrt_filter_fst)

lemma watermark_add_ok:
  assumes "watermark_ok w"
  shows "watermark_ok (watermark_add s w)" and "watermark_held (watermark_add s w) = add_mset s (watermark_held w)"
proof -
  from assms have sorted: "sorted_wrt (<) (map fst w)" by (simp add: watermark_ok_def)
  show ok: "watermark_ok (watermark_add s w)"
    unfolding watermark_add_def by (rule watermark_ok_insert [OF assms]) simp
  then have "sorted_wrt (<) (map fst (watermark_add s w))" by (simp add: watermark_ok_def)
  then show "watermark_held (watermark_add s w) = add_mset s (watermark_held w)"
    by (intro multiset_eqI) (auto simp: count_watermark_held sorted watermark_add_def btree_get_insert)
qed

lemma watermark_remove_ok:
  assumes "watermark_ok w" and "s \<in># watermark_held w"
  shows "\<exists>w'. watermark_remove s w = Inr w' \<and> watermark_ok w' \<and> watermark_held w' = watermark_held w - {#s#}"
proof -
  from assms have sorted: "sorted_wrt (<) (map fst w)" by (simp add: watermark_ok_def)
  from assms(2) have "count (watermark_held w) s \<noteq> 0" by simp
  then obtain c where c: "btree_get w s = Some c"
    by (auto simp: count_watermark_held [OF sorted] split: option.splits)
  have "0 < c" using watermark_ok_get [OF assms(1) c] .
  define w' where "w' = (if c - 1 = 0 then btree_remove s w else btree_insert s (c - 1) w)"
  have ok: "watermark_ok w'"
    using assms(1) by (auto simp: w'_def intro!: watermark_ok_remove watermark_ok_insert)
  then have "sorted_wrt (<) (map fst w')" by (simp add: watermark_ok_def)
  then have "watermark_held w' = watermark_held w - {#s#}"
    using c \<open>0 < c\<close>
    by (intro multiset_eqI)
      (auto simp: count_watermark_held sorted w'_def btree_get_insert btree_get_remove)
  with ok c \<open>0 < c\<close> show ?thesis by (auto simp: watermark_remove_def w'_def)
qed

lemma watermark_oldest_ok:
  assumes "watermark_ok w"
  shows "watermark_oldest w = (if watermark_held w = {#} then None else Some (Min_mset (watermark_held w)))"
proof (cases w)
  case (Cons a w')
  obtain s c where a: "a = (s, c)" by fastforce
  from assms have "0 < c" and less: "\<And>x. x \<in># watermark_held w' \<Longrightarrow> s < x"
  proof -
    have "x \<in> fst ` set w'" if "x \<in># watermark_held w'" for x
      using that by (induction w') (auto split: if_splits)
    then show "\<And>x. x \<in># watermark_held w' \<Longrightarrow> s < x" using assms by (auto simp: watermark_ok_def Cons a)
  qed (use assms in \<open>simp add: watermark_ok_def Cons a\<close>)
  then have "Min_mset (watermark_held w) = s"
    by (intro Min_eqI) (auto simp: Cons a intro: less_imp_le)
  with \<open>0 < c\<close> show ?thesis by (simp add: watermark_oldest_def Cons a)
qed (simp add: watermark_oldest_def)

interpretation wm: snapshot_registry watermark_new watermark_add watermark_remove watermark_oldest
  watermark_ok watermark_held
proof unfold_locales
  show "watermark_ok watermark_new" "watermark_held watermark_new = {#}"
    by (simp_all add: watermark_new_def watermark_ok_def)
qed (simp_all add: watermark_add_ok watermark_remove_ok watermark_oldest_ok)

subsection \<open>Properties\<close>

definition registered :: "watermark \<times> snapshot multiset \<Rightarrow> bool" where
  "registered st \<longleftrightarrow> watermark_ok (fst st) \<and> watermark_held (fst st) = image_mset snap_read_seq (snd st)"

lemma registered_step: "snapshot_step st st' \<Longrightarrow> registered st \<Longrightarrow> registered st'"
proof (induction rule: snapshot_step.induct)
  case (Drop s live w w')
  then have "snap_read_seq s \<in># watermark_held w" by (auto simp: registered_def)
  from wm.remove [OF _ this] Drop show ?case
    by (auto simp: registered_def snapshot_drop_def image_mset_Diff)
qed (auto simp: registered_def snapshot_new_def snapshot_clone_def wm.add)

lemma registered_reachable: "snapshot_step\<^sup>*\<^sup>* (watermark_new, {#}) st \<Longrightarrow> registered st"
proof (induction rule: rtranclp_induct)
  case base
  show ?case by (simp add: registered_def wm.new)
qed (rule registered_step)

text \<open>
  C30: at every moment of every history of snapshots made, cloned and dropped, the watermark
  counts exactly the snapshots that are alive: its oldest sequence is the least read
  sequence among them and none exactly when no snapshot is alive, and dropping a live
  snapshot never underflows its counter.
\<close>

theorem watermark_tracks_snapshots:
  assumes "snapshot_step\<^sup>*\<^sup>* (watermark_new, {#}) (w, live)"
  shows "watermark_oldest w =
      (if live = {#} then None else Some (Min_mset (image_mset snap_read_seq live))) \<and>
    (\<forall>s. s \<in># live \<longrightarrow> (\<exists>w'. snapshot_drop s w = Inr w'))"
proof -
  from registered_reachable [OF assms] have ok: "watermark_ok w"
    and held: "watermark_held w = image_mset snap_read_seq live" by (simp_all add: registered_def)
  have "\<exists>w'. snapshot_drop s w = Inr w'" if "s \<in># live" for s
    using wm.remove [OF ok, of "snap_read_seq s"] that by (auto simp: held snapshot_drop_def)
  with wm.oldest [OF ok] show ?thesis by (simp add: held)
qed

theorem watermark_tracks_snapshots_witness:
  "watermark_oldest [(3, 2), (7, 1)] = Some 3 \<and> (\<exists>w'. snapshot_drop \<lparr>snap_read_seq = 7\<rparr> [(3, 2), (7, 1)] = Inr w')"
proof -
  have "snapshot_step (watermark_new, {#}) ([(7, 1)], {#\<lparr>snap_read_seq = 7\<rparr>#})"
    by (rule snapshot_step.New [of 7]) (simp add: snapshot_new_def watermark_add_def watermark_new_def)
  moreover have "snapshot_step ([(7, 1)], {#\<lparr>snap_read_seq = 7\<rparr>#})
      ([(3, 1), (7, 1)], {#\<lparr>snap_read_seq = 3\<rparr>, \<lparr>snap_read_seq = 7\<rparr>#})"
    by (rule snapshot_step.New [of 3]) (simp add: snapshot_new_def watermark_add_def)
  moreover have "snapshot_step ([(3, 1), (7, 1)], {#\<lparr>snap_read_seq = 3\<rparr>, \<lparr>snap_read_seq = 7\<rparr>#})
      ([(3, 2), (7, 1)], {#\<lparr>snap_read_seq = 3\<rparr>, \<lparr>snap_read_seq = 3\<rparr>, \<lparr>snap_read_seq = 7\<rparr>#})"
    by (rule snapshot_step.Clone [of "\<lparr>snap_read_seq = 3\<rparr>"])
      (simp_all add: snapshot_clone_def snapshot_new_def watermark_add_def)
  ultimately have "snapshot_step\<^sup>*\<^sup>* (watermark_new, {#})
      ([(3, 2), (7, 1)], {#\<lparr>snap_read_seq = 3\<rparr>, \<lparr>snap_read_seq = 3\<rparr>, \<lparr>snap_read_seq = 7\<rparr>#})"
    by (meson rtranclp.rtrancl_into_rtrancl rtranclp.rtrancl_refl)
  from watermark_tracks_snapshots [OF this] show ?thesis by auto
qed

end
