(* ===== verification/Metrics.thy ===== *)
theory Metrics
  imports Cache
begin

section \<open>Counters (metrics.rs)\<close>

text \<open>
  \<^verbatim>\<open>src/src/metrics.rs\<close>: atomic counters, here fields of a record.  Additions wrap, as
  \<^verbatim>\<open>fetch_add\<close> does.
\<close>

record metrics =
  m_user_write_bytes :: u64
  m_wal_write_bytes :: u64
  m_wal_sync_count :: u64
  m_sst_write_bytes :: u64
  m_compaction_read_bytes :: u64
  m_compaction_write_bytes :: u64
  m_subcompaction_tasks :: u64
  m_max_subcompaction_parallelism :: u64
  m_bloom_useful :: u64
  m_bloom_false_positive :: u64

record metrics_snapshot = metrics +
  ms_block_cache_hits :: u64
  ms_block_cache_misses :: u64

definition metrics_new :: metrics where
  "metrics_new = \<lparr>m_user_write_bytes = 0, m_wal_write_bytes = 0, m_wal_sync_count = 0, m_sst_write_bytes = 0,
     m_compaction_read_bytes = 0, m_compaction_write_bytes = 0, m_subcompaction_tasks = 0,
     m_max_subcompaction_parallelism = 0, m_bloom_useful = 0, m_bloom_false_positive = 0\<rparr>"

definition record_user_write :: "u64 \<Rightarrow> metrics \<Rightarrow> metrics" where
  "record_user_write n m = m\<lparr>m_user_write_bytes := m_user_write_bytes m + n\<rparr>"

definition record_wal_write :: "u64 \<Rightarrow> metrics \<Rightarrow> metrics" where
  "record_wal_write n m = m\<lparr>m_wal_write_bytes := m_wal_write_bytes m + n\<rparr>"

definition record_wal_sync :: "metrics \<Rightarrow> metrics" where
  "record_wal_sync m = m\<lparr>m_wal_sync_count := m_wal_sync_count m + 1\<rparr>"

definition record_sst_write :: "u64 \<Rightarrow> metrics \<Rightarrow> metrics" where
  "record_sst_write n m = m\<lparr>m_sst_write_bytes := m_sst_write_bytes m + n\<rparr>"

definition record_compaction_read :: "u64 \<Rightarrow> metrics \<Rightarrow> metrics" where
  "record_compaction_read n m = m\<lparr>m_compaction_read_bytes := m_compaction_read_bytes m + n\<rparr>"

definition record_compaction_write :: "u64 \<Rightarrow> metrics \<Rightarrow> metrics" where
  "record_compaction_write n m = m\<lparr>m_compaction_write_bytes := m_compaction_write_bytes m + n\<rparr>"

definition record_subcompaction_tasks :: "u64 \<Rightarrow> metrics \<Rightarrow> metrics" where
  "record_subcompaction_tasks n m =
     m\<lparr>m_subcompaction_tasks := m_subcompaction_tasks m + n,
       m_max_subcompaction_parallelism := max (m_max_subcompaction_parallelism m) n\<rparr>"

definition record_bloom_useful :: "metrics \<Rightarrow> metrics" where
  "record_bloom_useful m = m\<lparr>m_bloom_useful := m_bloom_useful m + 1\<rparr>"

definition record_bloom_false_positive :: "metrics \<Rightarrow> metrics" where
  "record_bloom_false_positive m = m\<lparr>m_bloom_false_positive := m_bloom_false_positive m + 1\<rparr>"

definition take_metrics_snapshot :: "cache_stats \<Rightarrow> metrics \<Rightarrow> metrics_snapshot" where
  "take_metrics_snapshot stats m =
     metrics.extend m \<lparr>ms_block_cache_hits = stat_hits stats, ms_block_cache_misses = stat_misses stats\<rparr>"

end
