(* ===== verification/Database.thy ===== *)
theory Database
  imports Batch Table_Iterator Compaction Snapshots Metrics
begin

section \<open>The database (db.rs): state, reads and writes\<close>

text \<open>
  \<^verbatim>\<open>src/src/db.rs\<close>.  The fields of \<^verbatim>\<open>DBInner\<close> and of the \<^verbatim>\<open>DBState\<close>
  behind its lock are the record \<open>db\<close>, together with the environment the options point
  to; every method of \<^verbatim>\<open>DB\<close> is an operation on it.  The state is only reached
  through the locks, and a method that holds one is a step of the model; a call runs
  alone, so the interleavings of threads between two lock acquisitions of one call are
  not modelled, and neither are poisoned locks.  Sleeping, and the rate limiter that only
  decides how long, have no effect on the state and are left out.

  This theory has the state, the memtable side of writes, point lookups, scans, flushes
  and compactions; the theories after it have the invariant and the properties.
\<close>

subsection \<open>State\<close>

type_synonym table_ref = "file_meta \<times> sstable_reader"

record 'm db =
  db_path :: path
  db_options :: options
  db_mutable :: "'m memtable"
  db_immutables :: "'m memtable list"
  db_l0_tables :: "table_ref list"
  db_level_tables :: "table_ref list list"
  db_last_sequence :: u64
  db_closed :: bool
  db_versions :: version_set
  db_block_cache :: block_cache
  db_table_cache :: table_cache
  db_watermark :: watermark
  db_metrics :: metrics
  db_wal :: path
  db_env :: env

datatype flush_source = FlushMutable | FlushImmutableOldest

text \<open>Calls of the parts, run inside the database.\<close>

definition on_env :: "(env, 'a) op \<Rightarrow> ('m db, 'a) op" where
  "on_env m d = (case m (db_env d) of (r, e) \<Rightarrow> (r, d\<lparr>db_env := e\<rparr>))"

definition on_blocks :: "(env \<times> block_cache option, 'a) op \<Rightarrow> ('m db, 'a) op" where
  "on_blocks m d =
     (case m (db_env d, Some (db_block_cache d)) of
        (r, (e, cache)) \<Rightarrow>
          (r, d\<lparr>db_env := e, db_block_cache := (case cache of None \<Rightarrow> db_block_cache d | Some c \<Rightarrow> c)\<rparr>))"

definition on_tables :: "(env \<times> table_cache, 'a) op \<Rightarrow> ('m db, 'a) op" where
  "on_tables m d =
     (case m (db_env d, db_table_cache d) of (r, (e, tc)) \<Rightarrow> (r, d\<lparr>db_env := e, db_table_cache := tc\<rparr>))"

definition on_versions :: "(env \<times> version_set, 'a) op \<Rightarrow> ('m db, 'a) op" where
  "on_versions m d =
     (case m (db_env d, db_versions d) of (r, (e, vs)) \<Rightarrow> (r, d\<lparr>db_env := e, db_versions := vs\<rparr>))"

definition metric :: "(metrics \<Rightarrow> metrics) \<Rightarrow> ('m db, unit) op" where
  "metric f d = (Inr (), d\<lparr>db_metrics := f (db_metrics d)\<rparr>)"

definition db_allocate_file_number :: "('m db, u64) op" where
  "db_allocate_file_number d =
     (case allocate_file_number (db_versions d) of (n, vs) \<Rightarrow> (Inr n, d\<lparr>db_versions := vs\<rparr>))"

definition db_log_and_apply :: "'m externs \<Rightarrow> version_edit \<Rightarrow> ('m db, unit) op" where
  "db_log_and_apply X edit = on_versions (log_and_apply_state (crc32c X) edit)"

subsection \<open>Batches and memtables\<close>

text \<open>The part of the state a batch is applied to: the mutable memtable and the last sequence.\<close>

fun apply_batch :: "'m externs \<Rightarrow> u64 \<Rightarrow> batch_record list \<Rightarrow> 'm memtable \<times> u64 \<Rightarrow> 'm memtable \<times> u64" where
  "apply_batch X seq [] st = st"
| "apply_batch X seq (r # rs) (mem, last_seq) =
     apply_batch X (seq + 1) rs
       ((case r of
           BatchPut key val \<Rightarrow> mem_put X mem seq key val
         | BatchDelete key \<Rightarrow> mem_delete X mem seq key),
        max last_seq seq)"

definition db_apply_batch :: "'m externs \<Rightarrow> u64 \<Rightarrow> write_batch \<Rightarrow> 'm db \<Rightarrow> 'm db" where
  "db_apply_batch X start_sequence batch d =
     (case apply_batch X start_sequence (records batch) (db_mutable d, db_last_sequence d) of
        (mem, last_seq) \<Rightarrow> d\<lparr>db_mutable := mem, db_last_sequence := last_seq\<rparr>)"

definition freeze_mutable_if_needed :: "'m externs \<Rightarrow> 'm db \<Rightarrow> bool \<times> 'm db" where
  "freeze_mutable_if_needed X d =
     (if mem_is_empty X (db_mutable d) \<or> mem_approximate_size X (db_mutable d) < memtable_size (db_options d)
      then (False, d)
      else (True, d\<lparr>db_mutable := mem_new X (opt_memtable_kind (db_options d)),
                     db_immutables := db_immutables d @ [db_mutable d]\<rparr>))"

definition take_oldest_flushable_memtable :: "'m externs \<Rightarrow> 'm db \<Rightarrow> ('m memtable \<times> flush_source) option \<times> 'm db" where
  "take_oldest_flushable_memtable X d =
     (case db_immutables d of
        mem # rest \<Rightarrow> (Some (mem, FlushImmutableOldest), d\<lparr>db_immutables := rest\<rparr>)
      | [] \<Rightarrow>
          if mem_is_empty X (db_mutable d) then (None, d)
          else (Some (db_mutable d, FlushMutable), d\<lparr>db_mutable := mem_new X (opt_memtable_kind (db_options d))\<rparr>))"

fun restore_flush_memtable :: "'m externs \<Rightarrow> 'm memtable \<Rightarrow> flush_source \<Rightarrow> 'm db \<Rightarrow> 'm db" where
  "restore_flush_memtable X mem FlushMutable d =
     (if mem_is_empty X (db_mutable d) then d\<lparr>db_mutable := mem\<rparr>
      else d\<lparr>db_immutables := db_immutables d @ [mem]\<rparr>)"
| "restore_flush_memtable X mem FlushImmutableOldest d = d\<lparr>db_immutables := mem # db_immutables d\<rparr>"

definition batch_user_write_bytes :: "write_batch \<Rightarrow> u64" where
  "batch_user_write_bytes batch =
     sum_list (map (\<lambda>r. word_of_nat (case r of BatchPut key val \<Rightarrow> length key + length val | BatchDelete key \<Rightarrow> length key))
       (records batch))"

definition wal_record_bytes :: "bytes \<Rightarrow> u64" where
  "wal_record_bytes payload = word_of_nat (length payload) + 9"

subsection \<open>Point lookups\<close>

definition file_overlaps_user_key :: "file_meta \<Rightarrow> bytes \<Rightarrow> bool" where
  "file_overlaps_user_key meta key \<longleftrightarrow>
     key \<ge> user_key (fm_smallest meta) \<and> key \<le> user_key (fm_largest meta)"

fun get_in_memtables :: "'m externs \<Rightarrow> bytes \<Rightarrow> u64 \<Rightarrow> 'm memtable list \<Rightarrow> value_record option" where
  "get_in_memtables X key read_seq [] = None"
| "get_in_memtables X key read_seq (mem # mems) =
     (case mem_get X mem key read_seq of
        Some r \<Rightarrow> Some r
      | None \<Rightarrow> get_in_memtables X key read_seq mems)"

text \<open>The body both table loops share: the filter, then the table.\<close>

definition get_in_table :: "'m externs \<Rightarrow> bytes \<Rightarrow> u64 \<Rightarrow> bool \<Rightarrow> table_ref \<Rightarrow> ('m db, value_record option) op" where
  "get_in_table X key read_seq fill_cache = (\<lambda>(meta, table).
     op_then (op_lift (might_contain table key)) (\<lambda>may.
     if \<not> may then op_then (metric record_bloom_useful) (\<lambda>_. op_lift (Inr None))
     else op_then (on_blocks (get_with_cache X table key read_seq (fm_number meta) fill_cache)) (\<lambda>r.
       case r of
         Some rec \<Rightarrow> op_lift (Inr (Some rec))
       | None \<Rightarrow> op_then (metric record_bloom_false_positive) (\<lambda>_. op_lift (Inr None)))))"

fun get_in_l0 :: "'m externs \<Rightarrow> bytes \<Rightarrow> u64 \<Rightarrow> bool \<Rightarrow> table_ref list \<Rightarrow> ('m db, value_record option) op" where
  "get_in_l0 X key read_seq fill_cache [] = op_lift (Inr None)"
| "get_in_l0 X key read_seq fill_cache ((meta, table) # tables) =
     (if \<not> file_overlaps_user_key meta key then get_in_l0 X key read_seq fill_cache tables
      else op_then (get_in_table X key read_seq fill_cache (meta, table)) (\<lambda>r.
        case r of
          Some rec \<Rightarrow> op_lift (Inr (Some rec))
        | None \<Rightarrow> get_in_l0 X key read_seq fill_cache tables))"

fun get_in_levels :: "'m externs \<Rightarrow> bytes \<Rightarrow> u64 \<Rightarrow> bool \<Rightarrow> table_ref list list \<Rightarrow> ('m db, value_record option) op" where
  "get_in_levels X key read_seq fill_cache [] = op_lift (Inr None)"
| "get_in_levels X key read_seq fill_cache (level # rest) =
     (case find (\<lambda>ref. file_overlaps_user_key (fst ref) key) level of
        None \<Rightarrow> get_in_levels X key read_seq fill_cache rest
      | Some ref \<Rightarrow>
          op_then (get_in_table X key read_seq fill_cache ref) (\<lambda>r.
            case r of
              Some rec \<Rightarrow> op_lift (Inr (Some rec))
            | None \<Rightarrow> get_in_levels X key read_seq fill_cache rest))"

definition read_sequence :: "read_options \<Rightarrow> 'm db \<Rightarrow> u64" where
  "read_sequence opts d = (case ro_snapshot opts of Some s \<Rightarrow> s | None \<Rightarrow> db_last_sequence d)"

definition get_opt :: "'m externs \<Rightarrow> bytes \<Rightarrow> read_options \<Rightarrow> ('m db, bytes option) op" where
  "get_opt X key opts d =
     (if db_closed d then (Inl Closed, d)
      else let read_seq = read_sequence opts d in
        case get_in_memtables X key read_seq (db_mutable d # rev (db_immutables d)) of
          Some rec \<Rightarrow> (Inr (into_visible_value rec), d)
        | None \<Rightarrow>
            op_then (get_in_l0 X key read_seq (ro_fill_cache opts) (db_l0_tables d)) (\<lambda>r.
              case r of
                Some rec \<Rightarrow> op_lift (Inr (into_visible_value rec))
              | None \<Rightarrow>
                  op_then (get_in_levels X key read_seq (ro_fill_cache opts) (drop 1 (db_level_tables d))) (\<lambda>r.
                    case r of
                      Some rec \<Rightarrow> op_lift (Inr (into_visible_value rec))
                    | None \<Rightarrow> op_lift (Inr None))) d)"

definition db_get :: "'m externs \<Rightarrow> bytes \<Rightarrow> ('m db, bytes option) op" where
  "db_get X key = get_opt X key default_read_options"

subsection \<open>Scans\<close>

type_synonym scan_child = "entry_iterator + table_iterator"
type_synonym scan_iterator = "scan_child merge_iterator db_iterator"

abbreviation scan_child_iter :: "'m externs \<Rightarrow> (scan_child, block_cache option) storage_iterator" where
  "scan_child_iter X \<equiv> sum_iter entry_iter (table_iter X)"

fun open_table_children :: "'m externs \<Rightarrow> bool \<Rightarrow> table_ref list \<Rightarrow> ('m db, table_iterator list) op" where
  "open_table_children X fill_cache [] = op_lift (Inr [])"
| "open_table_children X fill_cache ((meta, table) # tables) =
     op_then (on_blocks (storage_iter X table (fm_number meta) fill_cache)) (\<lambda>ti.
     op_then (open_table_children X fill_cache tables) (\<lambda>tis. op_lift (Inr (ti # tis))))"

definition memtable_scan_entries :: "'m externs \<Rightarrow> 'm db \<Rightarrow> entry list" where
  "memtable_scan_entries X d =
     mem_entries X (db_mutable d) @ concat (map (mem_entries X) (rev (db_immutables d)))"

text \<open>Running the scan's iterators on the block cache of the database.\<close>

definition with_block_cache :: "(block_cache option \<Rightarrow> ('a result \<times> block_cache option) option) \<Rightarrow>
  'm db \<Rightarrow> ('a result \<times> 'm db) option" where
  "with_block_cache m d =
     (case m (Some (db_block_cache d)) of
        None \<Rightarrow> None
      | Some (r, cache) \<Rightarrow>
          Some (r, d\<lparr>db_block_cache := (case cache of None \<Rightarrow> db_block_cache d | Some c \<Rightarrow> c)\<rparr>))"

definition scan_iter_opt :: "'m externs \<Rightarrow> nat \<Rightarrow> bytes bound \<Rightarrow> bytes bound \<Rightarrow> read_options \<Rightarrow>
  'm db \<Rightarrow> (scan_iterator result \<times> 'm db) option" where
  "scan_iter_opt X fuel lower upper opts d =
     (if db_closed d then Some (Inl Closed, d)
      else
        let read_seq = read_sequence opts d;
            mem_entries = memtable_scan_entries X d;
            mem_children = (if mem_entries = [] then [] else [Inl (entry_iter_new mem_entries)])
        in case open_table_children X (ro_fill_cache opts) (db_l0_tables d @ concat (db_level_tables d)) d of
             (Inl e, d) \<Rightarrow> Some (Inl e, d)
           | (Inr tis, d) \<Rightarrow>
               (case merge_iter_new (scan_child_iter X) (mem_children @ map Inr tis) of
                  Inl e \<Rightarrow> Some (Inl e, d)
                | Inr m \<Rightarrow>
                    with_block_cache
                      (db_iter_try_new (merge_iter (scan_child_iter X)) fuel m lower upper read_seq) d))"

definition scan_opt :: "'m externs \<Rightarrow> nat \<Rightarrow> bytes bound \<Rightarrow> bytes bound \<Rightarrow> read_options \<Rightarrow>
  'm db \<Rightarrow> ((bytes \<times> bytes) list result \<times> 'm db) option" where
  "scan_opt X fuel lower upper opts d =
     (case scan_iter_opt X fuel lower upper opts d of
        None \<Rightarrow> None
      | Some (Inl e, d) \<Rightarrow> Some (Inl e, d)
      | Some (Inr iter, d) \<Rightarrow>
          with_block_cache (db_iter_collect (merge_iter (scan_child_iter X)) fuel [] iter) d)"

definition db_scan :: "'m externs \<Rightarrow> nat \<Rightarrow> bytes bound \<Rightarrow> bytes bound \<Rightarrow>
  'm db \<Rightarrow> ((bytes \<times> bytes) list result \<times> 'm db) option" where
  "db_scan X fuel lower upper = scan_opt X fuel lower upper default_read_options"

subsection \<open>Writing tables\<close>

fun sequence_range :: "u64 list \<Rightarrow> (u64 \<times> u64) option \<Rightarrow> (u64 \<times> u64) option" where
  "sequence_range [] r = r"
| "sequence_range (s # ss) r =
     sequence_range ss (case r of
        Some (smallest, largest) \<Rightarrow> Some (min smallest s, max largest s)
      | None \<Rightarrow> Some (s, s))"

definition file_meta_from_table :: "'m externs \<Rightarrow> u64 \<Rightarrow> u64 \<Rightarrow> sstable_reader \<Rightarrow> (env, file_meta) op" where
  "file_meta_from_table X number file_size reader =
     op_then (reader_entries X reader) (\<lambda>entries.
       op_lift
         (case sequence_range (map (sequence \<circ> fst) entries) None of
            None \<Rightarrow> Inl (Corruption ''empty SSTable has no sequence range'')
          | Some (smallest_seq, largest_seq) \<Rightarrow>
              (case reader_smallest_key reader of
                 None \<Rightarrow> Inl (Corruption ''empty SSTable has no smallest key'')
               | Some smallest \<Rightarrow>
                   (case reader_largest_key reader of
                      None \<Rightarrow> Inl (Corruption ''empty SSTable has no largest key'')
                    | Some largest \<Rightarrow>
                        Inr \<lparr>fm_number = number, fm_file_size = file_size, fm_smallest = smallest,
                          fm_largest = largest, fm_smallest_seq = smallest_seq, fm_largest_seq = largest_seq\<rparr>))))"

definition write_l0_table :: "'m externs \<Rightarrow> 'm memtable \<Rightarrow> u64 \<Rightarrow> ('m db, sstable_reader \<times> file_meta) op" where
  "write_l0_table X mem file_number d =
     (let table_name = table_file_name file_number;
          tmp_path = path_join (db_path d) (table_name @ ''.tmp'');
          final_path = path_join (db_path d) table_name
      in if env_exists final_path (db_env d)
         then (Inl (Corruption (''table file already exists: '' @ final_path)), d)
         else
           op_then (on_env (build_table X tmp_path (block_size (db_options d)) (table_compression (db_options d))
             (mem_entries X mem))) (\<lambda>_.
           op_then (on_env (env_rename tmp_path final_path)) (\<lambda>_.
           op_then (on_env (metadata_len final_path)) (\<lambda>file_size.
           op_then (metric (record_sst_write file_size)) (\<lambda>_.
           op_then (on_tables (get_or_open X file_number final_path)) (\<lambda>reader.
           op_then (on_env (file_meta_from_table X file_number file_size reader)) (\<lambda>meta.
             op_lift (Inr (reader, meta)))))))) d)"

definition publish_l0_table :: "'m externs \<Rightarrow> file_meta \<Rightarrow> u64 \<Rightarrow> ('m db, unit) op" where
  "publish_l0_table X meta last_seq =
     op_then (db_log_and_apply X (AddFile 0 meta)) (\<lambda>_.
     op_then (db_log_and_apply X (LastSequence last_seq)) (\<lambda>_.
     op_then db_allocate_file_number (\<lambda>new_log_number d.
       op_then (on_env (wal_writer_create (path_join (db_path d) (wal_file_name new_log_number)))) (\<lambda>new_wal.
       op_then (db_log_and_apply X (LogNumber new_log_number)) (\<lambda>_ d.
         (Inr (), d\<lparr>db_wal := new_wal\<rparr>))) d)))"

definition db_flush :: "'m externs \<Rightarrow> ('m db, unit) op" where
  "db_flush X d =
     (if db_closed d then (Inl Closed, d)
      else
        case take_oldest_flushable_memtable X d of
          (None, d) \<Rightarrow> (Inr (), d)
        | (Some (mem, source), d) \<Rightarrow>
            op_then db_allocate_file_number (\<lambda>file_number d.
              case write_l0_table X mem file_number d of
                (Inr (reader, meta), d) \<Rightarrow>
                  (case publish_l0_table X meta (db_last_sequence d) d of
                     (Inl err, d) \<Rightarrow> (Inl err, restore_flush_memtable X mem source d)
                   | (Inr _, d) \<Rightarrow> (Inr (), d\<lparr>db_l0_tables := (meta, reader) # db_l0_tables d\<rparr>))
              | (Inl err, d) \<Rightarrow> (Inl err, restore_flush_memtable X mem source d)) d)"

subsection \<open>Compaction\<close>

definition gc_watermark :: "'m db \<Rightarrow> u64" where
  "gc_watermark d = (case watermark_oldest (db_watermark d) of Some s \<Rightarrow> s | None \<Rightarrow> db_last_sequence d)"

definition user_key_overlaps_range :: "file_meta \<Rightarrow> bytes \<Rightarrow> bytes \<Rightarrow> bool" where
  "user_key_overlaps_range f smallest largest \<longleftrightarrow>
     user_key (fm_smallest f) \<le> largest \<and> user_key (fm_largest f) \<ge> smallest"

definition can_drop_tombstones :: "compaction_task \<Rightarrow> 'm db \<Rightarrow> bool" where
  "can_drop_tombstones task d =
     (\<not> list_ex (\<lambda>f. user_key_overlaps_range f (ct_smallest_user_key task) (ct_largest_user_key task))
        (concat (drop (ct_output_level task + 1) (levels (vs_current (db_versions d))))))"

definition open_input :: "'m externs \<Rightarrow> file_meta \<Rightarrow> ('m db, entry list) op" where
  "open_input X f d =
     op_then (on_tables (get_or_open X (fm_number f) (path_join (db_path d) (table_file_name (fm_number f))))) (\<lambda>table.
       on_blocks (entries_with_cache X table (fm_number f) True)) d"

fun read_inputs :: "'m externs \<Rightarrow> file_meta list \<Rightarrow> ('m db, entry list) op" where
  "read_inputs X [] = op_lift (Inr [])"
| "read_inputs X (f # fs) =
     op_then (metric (record_compaction_read (fm_file_size f))) (\<lambda>_.
     op_then (open_input X f) (\<lambda>entries.
     op_then (read_inputs X fs) (\<lambda>rest. op_lift (Inr (entries @ rest)))))"

definition trivial_move_needs_rewrite :: "'m externs \<Rightarrow> compaction_task \<Rightarrow> u64 \<Rightarrow> bool \<Rightarrow> ('m db, bool) op" where
  "trivial_move_needs_rewrite X task gc_wm drop_tombstones =
     op_then (open_input X (ct_input_files task ! 0)) (\<lambda>entries.
       op_lift (Inr (length (compact_entries entries gc_wm drop_tombstones) \<noteq> length entries)))"

definition write_compaction_output :: "'m externs \<Rightarrow> u64 \<Rightarrow> entry list \<Rightarrow> ('m db, sstable_reader \<times> file_meta) op" where
  "write_compaction_output X file_number entries d =
     (let table_name = table_file_name file_number;
          tmp_path = path_join (db_path d) (table_name @ ''.tmp'');
          final_path = path_join (db_path d) table_name
      in op_then (on_env (build_table X tmp_path (block_size (db_options d)) (table_compression (db_options d)) entries)) (\<lambda>_.
         op_then (on_env (env_rename tmp_path final_path)) (\<lambda>_.
         op_then (on_env (metadata_len final_path)) (\<lambda>file_size.
         op_then (metric (record_sst_write file_size)) (\<lambda>_.
         op_then (metric (record_compaction_write file_size)) (\<lambda>_.
         op_then (on_tables (get_or_open X file_number final_path)) (\<lambda>reader.
         op_then (on_env (file_meta_from_table X file_number file_size reader)) (\<lambda>meta.
           op_lift (Inr (reader, meta))))))))) d)"

text \<open>
  One worker per chunk.  The workers run in parallel; the model runs them one after the
  other in the order of the chunks.  All of them run before the first error is returned.
\<close>

fun run_workers :: "'m externs \<Rightarrow> entry list list \<Rightarrow> 'm db \<Rightarrow> (sstable_reader \<times> file_meta) result list \<times> 'm db" where
  "run_workers X [] d = ([], d)"
| "run_workers X (chunk # chunks) d =
     (case op_then db_allocate_file_number (\<lambda>number. write_compaction_output X number chunk) d of
        (r, d) \<Rightarrow> (case run_workers X chunks d of (rs, d) \<Rightarrow> (r # rs, d)))"

fun join_workers :: "'a result list \<Rightarrow> 'a list result" where
  "join_workers [] = Inr []"
| "join_workers (r # rs) = and_then r (\<lambda>x. and_then (join_workers rs) (\<lambda>xs. Inr (x # xs)))"

definition write_compaction_outputs :: "'m externs \<Rightarrow> entry list \<Rightarrow> ('m db, (sstable_reader \<times> file_meta) list) op" where
  "write_compaction_outputs X entries d =
     (if entries = [] then (Inr [], d)
      else
        let chunks = split_compaction_entries entries (target_file_size_base (db_options d)) (max_subcompactions (db_options d))
        in op_then (metric (record_subcompaction_tasks (word_of_nat (length chunks)))) (\<lambda>_ d.
             case run_workers X chunks d of (rs, d) \<Rightarrow> (join_workers rs, d)) d)"

fun log_edits :: "'m externs \<Rightarrow> version_edit list \<Rightarrow> ('m db, unit) op" where
  "log_edits X [] = op_lift (Inr ())"
| "log_edits X (edit # edits) = op_then (db_log_and_apply X edit) (\<lambda>_. log_edits X edits)"

fun open_tables :: "'m externs \<Rightarrow> path \<Rightarrow> file_meta list \<Rightarrow> (env \<times> table_cache, table_ref list) op" where
  "open_tables X dir [] = op_lift (Inr [])"
| "open_tables X dir (f # fs) =
     op_then (get_or_open X (fm_number f) (path_join dir (table_file_name (fm_number f)))) (\<lambda>table.
     op_then (open_tables X dir fs) (\<lambda>refs. op_lift (Inr ((f, table) # refs))))"

fun open_levels :: "'m externs \<Rightarrow> path \<Rightarrow> file_meta list list \<Rightarrow> (env \<times> table_cache, table_ref list list) op" where
  "open_levels X dir [] = op_lift (Inr [])"
| "open_levels X dir (level # ls) =
     op_then (open_tables X dir level) (\<lambda>refs.
     op_then (open_levels X dir ls) (\<lambda>rest. op_lift (Inr (refs # rest))))"

definition open_version_tables :: "'m externs \<Rightarrow> path \<Rightarrow> version \<Rightarrow>
  (env \<times> table_cache, table_ref list \<times> table_ref list list) op" where
  "open_version_tables X dir v =
     op_then (open_tables X dir (l0_files v)) (\<lambda>l0_tables.
     op_then (open_levels X dir (levels v)) (\<lambda>level_tables. op_lift (Inr (l0_tables, level_tables))))"

definition refresh_tables_from_version :: "'m externs \<Rightarrow> ('m db, unit) op" where
  "refresh_tables_from_version X d =
     op_then (on_tables (open_version_tables X (db_path d) (vs_current (db_versions d)))) (\<lambda>(l0, lv) d.
       (Inr (), d\<lparr>db_l0_tables := l0, db_level_tables := lv\<rparr>)) d"

fun delete_obsolete_files :: "u64 list \<Rightarrow> ('m db, unit) op" where
  "delete_obsolete_files [] d = (Inr (), d)"
| "delete_obsolete_files (number # numbers) d =
     (case on_env (remove_file (path_join (db_path d) (table_file_name number))) d of
        (Inr _, d) \<Rightarrow> delete_obsolete_files numbers d
      | (Inl (Io NotFound), d) \<Rightarrow> delete_obsolete_files numbers d
      | (Inl err, d) \<Rightarrow> (Inl err, d))"

definition delete_edit :: "compaction_task \<Rightarrow> file_meta \<Rightarrow> version_edit" where
  "delete_edit task f =
     DeleteFile (if list_ex (\<lambda>i. fm_number i = fm_number f) (ct_input_files task)
                 then ct_input_level task else ct_output_level task) (fm_number f)"

definition rewrite_compaction :: "'m externs \<Rightarrow> compaction_task \<Rightarrow> u64 \<Rightarrow> bool \<Rightarrow> ('m db, bool) op" where
  "rewrite_compaction X task gc_wm drop_tombstones =
     op_then (read_inputs X (all_input_files task)) (\<lambda>entries.
     op_then (write_compaction_outputs X (compact_entries entries gc_wm drop_tombstones)) (\<lambda>outputs.
     op_then (log_edits X (map (delete_edit task) (all_input_files task) @
                map (\<lambda>(_, meta). AddFile (ct_output_level task) meta) outputs)) (\<lambda>_.
     op_then (refresh_tables_from_version X) (\<lambda>_.
     op_then (delete_obsolete_files (map fm_number (all_input_files task))) (\<lambda>_.
       op_lift (Inr True))))))"

definition execute_compaction :: "'m externs \<Rightarrow> compaction_task \<Rightarrow> ('m db, bool) op" where
  "execute_compaction X task d =
     (if ct_input_files task = [] then (Inr False, d)
      else
        let gc_wm = gc_watermark d;
            drop_tombstones = can_drop_tombstones task d
        in op_then (if is_trivial_move task then trivial_move_needs_rewrite X task gc_wm drop_tombstones
                    else op_lift (Inr True)) (\<lambda>rewrite.
             if \<not> rewrite then
               let meta = ct_input_files task ! 0 in
               op_then (db_log_and_apply X (DeleteFile (ct_input_level task) (fm_number meta))) (\<lambda>_.
               op_then (db_log_and_apply X (AddFile (ct_output_level task) meta)) (\<lambda>_.
               op_then (refresh_tables_from_version X) (\<lambda>_. op_lift (Inr True))))
             else rewrite_compaction X task gc_wm drop_tombstones) d)"

definition compact_range :: "'m externs \<Rightarrow> bytes bound \<Rightarrow> bytes bound \<Rightarrow> ('m db, unit) op" where
  "compact_range X lower upper d =
     (case pick_manual (vs_current (db_versions d)) lower upper of
        Inl e \<Rightarrow> (Inl e, d)
      | Inr None \<Rightarrow> (Inr (), d)
      | Inr (Some task) \<Rightarrow> op_then (execute_compaction X task) (\<lambda>_. op_lift (Inr ())) d)"

subsection \<open>Group commit\<close>

record group_write_item =
  gw_batch :: write_batch
  gw_opts :: write_options
  gw_user_write_bytes :: u64
  gw_start_sequence :: u64

definition apply_write_pressure :: "'m externs \<Rightarrow> ('m db, unit) op" where
  "apply_write_pressure X d =
     (if length (db_l0_tables d) \<ge> level0_stop_writes_trigger (db_options d)
      then compact_range X Unbounded Unbounded d
      else (Inr (), d))"

fun assign_sequences :: "u64 \<Rightarrow> group_write_item list \<Rightarrow> group_write_item list" where
  "assign_sequences next_sequence [] = []"
| "assign_sequences next_sequence (item # items) =
     item\<lparr>gw_start_sequence := next_sequence\<rparr> #
       assign_sequences (next_sequence + word_of_nat (length (records (gw_batch item)))) items"

fun append_group :: "'m externs \<Rightarrow> group_write_item list \<Rightarrow> bool \<Rightarrow> ('m db, bool) op" where
  "append_group X [] should_sync d = (Inr should_sync, d)"
| "append_group X (item # items) should_sync d =
     (if wo_disable_wal (gw_opts item) then append_group X items should_sync d
      else
        let payload = encode_with_sequence (gw_batch item) (gw_start_sequence item) in
        op_then (metric (record_wal_write (wal_record_bytes payload))) (\<lambda>_.
        op_then (on_env (wal_append (crc32c X) (db_wal d) payload)) (\<lambda>_.
          append_group X items
            (should_sync \<or> wo_sync (gw_opts item) \<or> wal_sync_opt (db_options d) = PerWrite))) d)"

fun apply_items :: "'m externs \<Rightarrow> group_write_item list \<Rightarrow> bool \<Rightarrow> 'm db \<Rightarrow> bool \<times> 'm db" where
  "apply_items X [] should_flush d = (should_flush, d)"
| "apply_items X (item # items) should_flush d =
     (case freeze_mutable_if_needed X (db_apply_batch X (gw_start_sequence item) (gw_batch item) d) of
        (frozen, d) \<Rightarrow> apply_items X items (should_flush \<or> frozen) d)"

definition apply_write_group_to_memtable :: "'m externs \<Rightarrow> group_write_item list \<Rightarrow> ('m db, bool) op" where
  "apply_write_group_to_memtable X items d =
     (if db_closed d then (Inl Closed, d)
      else
        let items = assign_sequences (db_last_sequence d + 1) items
        in op_then
             (if wal_enabled (db_options d) then
                op_then (append_group X items False) (\<lambda>should_sync.
                  if should_sync then
                    op_then (on_env (wal_sync (db_wal d))) (\<lambda>_. metric record_wal_sync)
                  else op_lift (Inr ()))
              else op_lift (Inr ())) (\<lambda>_ d.
             case apply_items X items False d of (should_flush, d) \<Rightarrow> (Inr should_flush, d)) d)"

text \<open>
  \<^verbatim>\<open>repeat_group_error\<close>: every member of the group gets the error of the group; an I/O
  error is reported as a corruption with the text the operating system gives for it.
\<close>

fun repeat_group_error :: "'m externs \<Rightarrow> error \<Rightarrow> nat \<Rightarrow> unit result list" where
  "repeat_group_error X (Io kind) n = replicate n (Inl (Corruption (io_text X kind)))"
| "repeat_group_error X err n = replicate n (Inl err)"

definition group_items :: "(write_batch \<times> write_options) list \<Rightarrow> group_write_item list" where
  "group_items requests =
     map (\<lambda>(batch, opts). \<lparr>gw_batch = batch, gw_opts = opts,
       gw_user_write_bytes = batch_user_write_bytes batch, gw_start_sequence = 0\<rparr>) requests"

definition apply_write_group :: "'m externs \<Rightarrow> (write_batch \<times> write_options) list \<Rightarrow> 'm db \<Rightarrow> unit result list \<times> 'm db" where
  "apply_write_group X requests d =
     (let items = group_items requests in
      case op_then (metric (record_user_write (sum_list (map gw_user_write_bytes items)))) (\<lambda>_.
           op_then (apply_write_pressure X) (\<lambda>_.
           op_then (apply_write_group_to_memtable X items) (\<lambda>should_flush.
             if should_flush then db_flush X else op_lift (Inr ())))) d of
        (Inl err, d) \<Rightarrow> (repeat_group_error X err (length requests), d)
      | (Inr _, d) \<Rightarrow> (replicate (length requests) (Inr ()), d))"

text \<open>A writer that finds the group empty leads it; here no other writer joins before it starts.\<close>

definition db_write :: "'m externs \<Rightarrow> write_batch \<Rightarrow> write_options \<Rightarrow> ('m db, unit) op" where
  "db_write X batch opts d =
     (if write_batch_is_empty batch then (Inr (), d)
      else case apply_write_group X [(batch, opts)] d of (results, d) \<Rightarrow> (hd results, d))"

definition db_put :: "'m externs \<Rightarrow> bytes \<Rightarrow> bytes \<Rightarrow> ('m db, unit) op" where
  "db_put X key val = db_write X (write_batch_put write_batch_new key val) default_write_options"

definition db_delete :: "'m externs \<Rightarrow> bytes \<Rightarrow> ('m db, unit) op" where
  "db_delete X key = db_write X (write_batch_delete write_batch_new key) default_write_options"

subsection \<open>Opening and closing\<close>

definition recover_wal :: "'m externs \<Rightarrow> path \<Rightarrow> 'm memtable \<times> u64 \<Rightarrow> (env, 'm memtable \<times> u64) op" where
  "recover_wal X p st =
     op_then (open_readable p) (\<lambda>f.
       op_lift (wal_fold (crc32c X) (\<lambda>payload st.
         and_then (decode_payload payload) (\<lambda>(start_sequence, batch).
           Inr (apply_batch X start_sequence (records batch) st))) st f))"

definition db_open :: "'m externs \<Rightarrow> ((u64 \<times> u64) list \<Rightarrow> nat) \<Rightarrow> (u64 list \<Rightarrow> nat) \<Rightarrow> path \<Rightarrow> options \<Rightarrow>
  env \<Rightarrow> 'm db result \<times> env" where
  "db_open X pick_block pick_table p opts e =
     (if env_exists p e \<and> error_if_exists opts
      then (Inl (InvalidArgument (''database already exists: '' @ p)), e)
      else if \<not> env_exists p e \<and> \<not> create_if_missing opts
      then (Inl (InvalidArgument (''database does not exist: '' @ p)), e)
      else
        op_then (create_dir_all p) (\<lambda>_.
        op_then (\<lambda>e. if env_exists (path_join p ''CURRENT'') e then version_set_recover (crc32c X) p opts e
                     else version_set_create (crc32c X) p opts e) (\<lambda>versions e.
        case open_version_tables X p (vs_current versions) (e, table_cache_new_with_env pick_table 512) of
          (Inl err, (e, tc)) \<Rightarrow> (Inl err, e)
        | (Inr (l0_tables, level_tables), (e, tc)) \<Rightarrow>
            let wal_path = path_join p (wal_file_name (vs_log_number versions));
                st = (mem_new X (opt_memtable_kind opts), vs_last_sequence versions)
            in op_then (if env_exists wal_path e then recover_wal X wal_path st else op_lift (Inr st)) (\<lambda>(mem, last_seq).
               op_then (wal_writer_create wal_path) (\<lambda>wal e.
                 (Inr \<lparr>db_path = p, db_options = opts, db_mutable = mem, db_immutables = [],
                    db_l0_tables = l0_tables, db_level_tables = level_tables, db_last_sequence = last_seq,
                    db_closed = False, db_versions = versions,
                    db_block_cache = block_cache_new pick_block (block_cache_capacity opts),
                    db_table_cache = tc, db_watermark = watermark_new, db_metrics = metrics_new,
                    db_wal = wal, db_env = e\<rparr>, e))) e)) e)"

definition db_close :: "('m db, unit) op" where
  "db_close d = (Inr (), d\<lparr>db_closed := True\<rparr>)"

definition db_snapshot :: "'m db \<Rightarrow> snapshot \<times> 'm db" where
  "db_snapshot d = (case snapshot_new (db_last_sequence d) (db_watermark d) of (s, w) \<Rightarrow> (s, d\<lparr>db_watermark := w\<rparr>))"

definition sync_wal :: "('m db, unit) op" where
  "sync_wal d = op_then (on_env (wal_sync (db_wal d))) (\<lambda>_. metric record_wal_sync) d"

definition level_file_counts :: "'m db \<Rightarrow> nat list" where
  "level_file_counts d = length (db_l0_tables d) # map length (drop 1 (db_level_tables d))"

end
