(* ===== verification/Database_Reads.thy ===== *)
theory Database_Reads
  imports Database
begin

section \<open>Reads of the database\<close>

text \<open>
  The invariant of an open database and the lemmas about its reads.  A ghost map gives for
  every table number the bytes, the index and the entries of its file.  The entries of the
  database are those of its layers: the mutable memtable, the frozen ones from new to old,
  the files of level 0 from new to old, and the levels below.  A version in one layer is
  newer than every version of the same key in the layers behind it, which is what makes the
  early returns of \<^verbatim>\<open>get_opt\<close> correct.
\<close>

subsection \<open>Layers\<close>

type_synonym ghost = "u64 \<Rightarrow> (bytes \<times> index_entry list \<times> entry list) option"

definition tabs_of :: "ghost \<Rightarrow> tables" where
  "tabs_of G n = map_option (\<lambda>(c, idx, es). (c, idx)) (G n)"

definition ents_of :: "ghost \<Rightarrow> u64 \<Rightarrow> entry list" where
  "ents_of G n = (case G n of None \<Rightarrow> [] | Some (c, idx, es) \<Rightarrow> es)"

definition ref_ents :: "ghost \<Rightarrow> table_ref \<Rightarrow> entry list" where
  "ref_ents G ref = ents_of G (fm_number (fst ref))"

definition table_path :: "path \<Rightarrow> u64 \<Rightarrow> path" where
  "table_path dir n = path_join dir (table_file_name n)"

definition mem_layers :: "'m externs \<Rightarrow> 'm db \<Rightarrow> entry list list" where
  "mem_layers X d = map (mem_entries X) (db_mutable d # rev (db_immutables d))"

definition l0_layers :: "ghost \<Rightarrow> 'm db \<Rightarrow> entry list list" where
  "l0_layers G d = map (ref_ents G) (db_l0_tables d)"

definition level_layers :: "ghost \<Rightarrow> 'm db \<Rightarrow> entry list list" where
  "level_layers G d = map (\<lambda>level. concat (map (ref_ents G) level)) (drop 1 (db_level_tables d))"

definition layers :: "'m externs \<Rightarrow> ghost \<Rightarrow> 'm db \<Rightarrow> entry list list" where
  "layers X G d = mem_layers X d @ l0_layers G d @ level_layers G d"

definition db_entries :: "'m externs \<Rightarrow> ghost \<Rightarrow> 'm db \<Rightarrow> entry list" where
  "db_entries X G d = concat (layers X G d)"

definition newest_first :: "entry list list \<Rightarrow> bool" where
  "newest_first ls \<longleftrightarrow> sorted_wrt (\<lambda>xs ys. older_than ys xs) ls"

subsection \<open>The invariant\<close>

definition table_ok :: "'m externs \<Rightarrow> ghost \<Rightarrow> env \<Rightarrow> path \<Rightarrow> u64 \<Rightarrow> bool" where
  "table_ok X G e dir n \<longleftrightarrow> (\<exists>c idx es blks. G n = Some (c, idx, es) \<and> content_of e (table_path dir n) = Some c \<and>
     table_with X c es idx blks \<and> sorted_entries es \<and> es \<noteq> [] \<and> length es * DEFAULT_BITS_PER_KEY < 2 ^ 32)"

definition meta_of :: "entry list \<Rightarrow> file_meta \<Rightarrow> bool" where
  "meta_of es m \<longleftrightarrow> es \<noteq> [] \<and> fm_smallest m = fst (hd es) \<and> fm_largest m = fst (last es) \<and>
     (\<forall>e\<in>set es. fm_smallest_seq m \<le> sequence (fst e) \<and> sequence (fst e) \<le> fm_largest_seq m)"

definition reader_ok :: "ghost \<Rightarrow> path \<Rightarrow> u64 \<Rightarrow> sstable_reader \<Rightarrow> bool" where
  "reader_ok G dir n rd \<longleftrightarrow> (\<exists>c idx es. G n = Some (c, idx, es) \<and> rd = reader_for es idx (table_path dir n))"

definition ref_ok :: "'m externs \<Rightarrow> ghost \<Rightarrow> env \<Rightarrow> path \<Rightarrow> table_ref \<Rightarrow> bool" where
  "ref_ok X G e dir ref \<longleftrightarrow> table_ok X G e dir (fm_number (fst ref)) \<and> meta_of (ref_ents G ref) (fst ref) \<and>
     reader_ok G dir (fm_number (fst ref)) (snd ref)"

definition all_refs :: "'m db \<Rightarrow> table_ref list" where
  "all_refs d = db_l0_tables d @ concat (db_level_tables d)"

definition mems_ok :: "'m externs \<Rightarrow> 'm db \<Rightarrow> bool" where
  "mems_ok X d \<longleftrightarrow> (\<forall>m\<in>set (db_mutable d # db_immutables d). sorted_entries (mem_entries X m))"

definition refs_ok :: "'m externs \<Rightarrow> ghost \<Rightarrow> 'm db \<Rightarrow> bool" where
  "refs_ok X G d \<longleftrightarrow> (\<forall>ref\<in>set (all_refs d). ref_ok X G (db_env d) (db_path d) ref) \<and>
     list_all (\<lambda>level. level_disjoint (map fst level)) (drop 1 (db_level_tables d)) \<and>
     list_all (\<lambda>level. level = []) (take 1 (db_level_tables d))"

definition caches_ok :: "'m externs \<Rightarrow> ghost \<Rightarrow> 'm db \<Rightarrow> bool" where
  "caches_ok X G d \<longleftrightarrow> cache_coherent X (tabs_of G) (Some (db_block_cache d)) \<and>
     (\<forall>n rd. map_of (tc_tables (db_table_cache d)) n = Some rd \<longrightarrow> reader_ok G (db_path d) n rd)"

definition layers_ok :: "'m externs \<Rightarrow> ghost \<Rightarrow> 'm db \<Rightarrow> bool" where
  "layers_ok X G d \<longleftrightarrow> newest_first (layers X G d) \<and> distinct_versions (set (db_entries X G d)) \<and>
     (\<forall>e\<in>set (db_entries X G d). sequence (fst e) \<le> db_last_sequence d)"

definition readable :: "'m externs \<Rightarrow> ghost \<Rightarrow> 'm db \<Rightarrow> bool" where
  "readable X G d \<longleftrightarrow> mems_ok X d \<and> refs_ok X G d \<and> caches_ok X G d \<and> layers_ok X G d"

subsection \<open>What a read may change\<close>

definition reads_to :: "'m db \<Rightarrow> 'm db \<Rightarrow> bool" where
  "reads_to d d' \<longleftrightarrow> db_path d' = db_path d \<and> db_options d' = db_options d \<and> db_mutable d' = db_mutable d \<and>
     db_immutables d' = db_immutables d \<and> db_l0_tables d' = db_l0_tables d \<and>
     db_level_tables d' = db_level_tables d \<and> db_last_sequence d' = db_last_sequence d \<and>
     db_closed d' = db_closed d \<and> db_versions d' = db_versions d \<and> db_watermark d' = db_watermark d \<and>
     db_wal d' = db_wal d \<and> env_files (db_env d') = env_files (db_env d) \<and>
     (env_faults (db_env d) = [] \<longrightarrow> db_env d' = db_env d)"

lemma reads_to_refl [simp]: "reads_to d d"
  by (simp add: reads_to_def)

lemma reads_to_trans: "reads_to d d' \<Longrightarrow> reads_to d' d'' \<Longrightarrow> reads_to d d''"
  by (auto simp: reads_to_def)

lemma reads_to_sel:
  assumes "reads_to d d'"
  shows "db_path d' = db_path d" "db_options d' = db_options d" "db_mutable d' = db_mutable d"
    "db_immutables d' = db_immutables d" "db_l0_tables d' = db_l0_tables d" "db_level_tables d' = db_level_tables d"
    "db_last_sequence d' = db_last_sequence d" "db_closed d' = db_closed d" "db_versions d' = db_versions d"
    "db_watermark d' = db_watermark d" "db_wal d' = db_wal d"
    "env_files (db_env d') = env_files (db_env d)"
    "env_faults (db_env d) = [] \<Longrightarrow> db_env d' = db_env d"
  using assms by (auto simp: reads_to_def)

lemma content_of_files: "env_files e' = env_files e \<Longrightarrow> content_of e' p = content_of e p"
  by (simp add: content_of_def)

text \<open>
  \<open>yields X G m d v\<close>: run on \<open>d\<close>, the read \<open>m\<close> returns \<open>v\<close> or the error of a
  fault of the environment, changes nothing but caches and counters, and keeps the caches
  coherent.
\<close>

definition yields :: "'m externs \<Rightarrow> ghost \<Rightarrow> ('m db, 'a) op \<Rightarrow> 'm db \<Rightarrow> 'a \<Rightarrow> bool" where
  "yields X G m d v \<longleftrightarrow> (\<forall>r d'. m d = (r, d') \<longrightarrow> reads_to d d' \<and> caches_ok X G d' \<and>
     (r = Inr v \<or> r = Inl (Io OtherIo) \<and> env_faults (db_env d) \<noteq> []))"

lemma yieldsD:
  "yields X G m d v \<Longrightarrow> m d = (r, d') \<Longrightarrow> reads_to d d' \<and> caches_ok X G d' \<and>
     (r = Inr v \<or> r = Inl (Io OtherIo) \<and> env_faults (db_env d) \<noteq> [])"
  by (simp add: yields_def)

lemma yields_lift: "caches_ok X G d \<Longrightarrow> yields X G (op_lift (Inr v)) d v"
  by (simp add: yields_def op_lift_def)

lemma yields_then:
  assumes "yields X G m d v" and "\<And>d'. reads_to d d' \<Longrightarrow> caches_ok X G d' \<Longrightarrow> yields X G (f v) d' w"
  shows "yields X G (op_then m f) d w"
  unfolding yields_def
proof (intro allI impI)
  fix r d' assume "op_then m f d = (r, d')"
  then show "reads_to d d' \<and> caches_ok X G d' \<and> (r = Inr w \<or> r = Inl (Io OtherIo) \<and> env_faults (db_env d) \<noteq> [])"
  proof (cases rule: op_thenE)
    case (fail e)
    with yieldsD [OF assms(1) fail(1)] show ?thesis by simp
  next
    case (ok x d1)
    from yieldsD [OF assms(1) ok(1)] have 1: "reads_to d d1" "caches_ok X G d1" "x = v" by auto
    with yieldsD [OF assms(2) [OF 1(1,2)], of r d'] ok(2) reads_to_sel(13) [OF 1(1)]
    show ?thesis by (auto intro: reads_to_trans)
  qed
qed

lemma yields_metric: "caches_ok X G d \<Longrightarrow> yields X G (metric f) d ()"
  by (auto simp: yields_def metric_def caches_ok_def reads_to_def)

lemma yields_on_blocks:
  assumes "caches_ok X G d"
    and "\<And>r e' cache'. m (db_env d, Some (db_block_cache d)) = (r, (e', cache')) \<Longrightarrow>
      env_files e' = env_files (db_env d) \<and> cache_coherent X (tabs_of G) cache' \<and>
      (r = Inr v \<or> r = Inl (Io OtherIo) \<and> env_faults (db_env d) \<noteq> []) \<and> (env_faults (db_env d) = [] \<longrightarrow> e' = db_env d)"
  shows "yields X G (on_blocks m) d v"
proof -
  obtain r e' cache' where m: "m (db_env d, Some (db_block_cache d)) = (r, (e', cache'))" by (metis surj_pair)
  from assms(2) [OF m] assms(1) show ?thesis
    by (cases cache') (auto simp: yields_def on_blocks_def m caches_ok_def reads_to_def)
qed

lemma yields_on_tables:
  assumes "caches_ok X G d"
    and "\<And>r e' tc'. m (db_env d, db_table_cache d) = (r, (e', tc')) \<Longrightarrow>
      env_files e' = env_files (db_env d) \<and>
      (\<forall>n rd. map_of (tc_tables tc') n = Some rd \<longrightarrow> reader_ok G (db_path d) n rd) \<and>
      (r = Inr v \<or> r = Inl (Io OtherIo) \<and> env_faults (db_env d) \<noteq> []) \<and> (env_faults (db_env d) = [] \<longrightarrow> e' = db_env d)"
  shows "yields X G (on_tables m) d v"
proof -
  obtain r e' tc' where m: "m (db_env d, db_table_cache d) = (r, (e', tc'))" by (metis surj_pair)
  from assms(2) [OF m] assms(1) show ?thesis
    by (auto simp: yields_def on_tables_def m caches_ok_def reads_to_def)
qed

lemma reads_to_ok:
  assumes "reads_to d d'"
  shows "mems_ok X d' = mems_ok X d" "refs_ok X G d' = refs_ok X G d" "layers X G d' = layers X G d"
    "layers_ok X G d' = layers_ok X G d" "ref_ok X G (db_env d') dir ref = ref_ok X G (db_env d) dir ref"
proof -
  note sel = reads_to_sel [OF assms] and content = content_of_files [OF reads_to_sel(12) [OF assms]]
  show "mems_ok X d' = mems_ok X d" by (simp add: mems_ok_def sel)
  show r: "ref_ok X G (db_env d') dir ref = ref_ok X G (db_env d) dir ref" for dir ref
    by (simp add: ref_ok_def table_ok_def content)
  show "refs_ok X G d' = refs_ok X G d" by (simp add: refs_ok_def all_refs_def sel r)
  show l: "layers X G d' = layers X G d"
    by (simp add: layers_def mem_layers_def l0_layers_def level_layers_def sel)
  show "layers_ok X G d' = layers_ok X G d" by (simp add: layers_ok_def db_entries_def sel l)
qed

subsection \<open>Looking up in layers\<close>

lemma older_than_simps [simp]:
  "older_than [] zs" "older_than zs []"
  "older_than (xs @ ys) zs \<longleftrightarrow> older_than xs zs \<and> older_than ys zs"
  "older_than zs (xs @ ys) \<longleftrightarrow> older_than zs xs \<and> older_than zs ys"
  by (auto simp: older_than_def)

lemma newest_first_Nil [simp]: "newest_first []"
  by (simp add: newest_first_def)

lemma newest_first_Cons [simp]:
  "newest_first (l # ls) \<longleftrightarrow> older_than (concat ls) l \<and> newest_first ls"
  by (auto simp: newest_first_def older_than_def)

lemma newest_first_append:
  "newest_first (xs @ ys) \<longleftrightarrow> newest_first xs \<and> newest_first ys \<and> older_than (concat ys) (concat xs)"
  by (induction xs) auto

lemma lookup_layer:
  assumes "older_than ys xs"
  shows "lookup_at (xs @ ys) k s = (case lookup_at xs k s of None \<Rightarrow> lookup_at ys k s | Some v \<Rightarrow> Some v)"
  using assms by (intro lookup_at_append) (auto simp: older_than_def version_of_def intro: less_imp_le)

context externals
begin

lemma get_in_memtables_layers:
  assumes "\<forall>m\<in>set ms. sorted_entries (mem_entries X m)" and "newest_first (map (mem_entries X) ms)"
  shows "get_in_memtables X key s ms = lookup_at (concat (map (mem_entries X) ms)) key s"
  using assms by (induction ms) (simp_all add: mem_get_entries lookup_layer split: option.split)

end

text \<open>A file whose key range does not have the key has no version of it.\<close>

lemma entries_between:
  assumes "sorted_entries es" and "e \<in> set es"
  shows "user_key (fst (hd es)) \<le> user_key (fst e)" and "user_key (fst e) \<le> user_key (fst (last es))"
  using block_key_range [OF assms] by auto

lemma ref_ok_sorted: "ref_ok X G e dir ref \<Longrightarrow> sorted_entries (ref_ents G ref)"
  by (auto simp: ref_ok_def table_ok_def ref_ents_def ents_of_def)

lemma lookup_outside:
  assumes "ref_ok X G e dir ref" and "\<not> file_overlaps_user_key (fst ref) key"
  shows "lookup_at (ref_ents G ref) key s = None"
proof -
  from assms(1) have m: "meta_of (ref_ents G ref) (fst ref)" and sorted: "sorted_entries (ref_ents G ref)"
    by (simp add: ref_ok_def, rule ref_ok_sorted)
  have "\<not> version_of key s x" if "x \<in> set (ref_ents G ref)" for x
    using entries_between [OF sorted that] m assms(2)
    by (auto simp: version_of_def file_overlaps_user_key_def meta_of_def)
  then show ?thesis by (simp add: lookup_at_None_iff)
qed

lemma yields_get_in_table:
  assumes "ref_ok X G (db_env d) (db_path d) ref" and "caches_ok X G d"
  shows "yields X G (get_in_table X key s fill ref) d (lookup_at (ref_ents G ref) key s)"
proof -
  obtain meta rd where ref: "ref = (meta, rd)" by fastforce
  let ?n = "fm_number meta"
  from assms(1) obtain c idx es blks where g: "G ?n = Some (c, idx, es)"
    and c: "content_of (db_env d) (table_path (db_path d) ?n) = Some c" and t: "table_with X c es idx blks"
    and few: "sorted_entries es" "length es * DEFAULT_BITS_PER_KEY < 2 ^ 32"
    and rd: "rd = reader_for es idx (table_path (db_path d) ?n)"
    by (auto simp: ref_ok_def table_ok_def reader_ok_def ref)
  have es: "ref_ents G ref = es" by (simp add: ref ref_ents_def ents_of_def g)
  have tab: "tabs_of G ?n = Some (c, idx)" by (simp add: tabs_of_def g)
  from might_contain_cases [OF few(2), of idx "table_path (db_path d) ?n" key s] consider
    "might_contain rd key = Inr True" | "might_contain rd key = Inr False" "lookup_at es key s = None"
    unfolding rd by (elim disjE) auto
  then show ?thesis
  proof cases
    case 2
    have "get_in_table X key s fill ref = op_then (metric record_bloom_useful) (\<lambda>_. op_lift (Inr None))"
      by (simp add: get_in_table_def ref 2(1) op_then_lift)
    then show ?thesis
      using assms(2) unfolding es 2(2) by (simp add: yields_then [OF yields_metric] yields_lift)
  next
    case 1
    have coh: "cache_coherent X (tabs_of G) (Some (db_block_cache d))" using assms(2) by (simp add: caches_ok_def)
    have get: "get_in_table X key s fill ref = op_then (on_blocks (get_with_cache X rd key s ?n fill)) (\<lambda>r.
        case r of Some rec \<Rightarrow> op_lift (Inr (Some rec))
        | None \<Rightarrow> op_then (metric record_bloom_false_positive) (\<lambda>_. op_lift (Inr None)))"
      by (simp add: get_in_table_def ref 1 op_then_lift)
    have "yields X G (on_blocks (get_with_cache X rd key s ?n fill)) d (lookup_at es key s)"
      by (rule yields_on_blocks [OF assms(2)]) (use get_with_cache_outcome [OF t few c coh tab] in \<open>unfold rd, blast\<close>)
    moreover have "yields X G (case lookup_at es key s of Some rec \<Rightarrow> op_lift (Inr (Some rec))
        | None \<Rightarrow> op_then (metric record_bloom_false_positive) (\<lambda>_. op_lift (Inr None))) d' (lookup_at es key s)"
      if "caches_ok X G d'" for d'
      using that by (cases "lookup_at es key s") (simp_all add: yields_then [OF yields_metric] yields_lift)
    ultimately show ?thesis unfolding get es by (rule yields_then)
  qed
qed

lemma ref_ok_reads_to:
  fixes X :: "'m externs" and d :: "'m db"
  shows "reads_to d d' \<Longrightarrow> ref_ok X G (db_env d) (db_path d) ref \<Longrightarrow> ref_ok X G (db_env d') (db_path d') ref"
  using reads_to_ok(5) [of d d' X G] reads_to_sel(1) [of d d'] by simp

lemma yields_get_in_l0:
  assumes "\<forall>ref\<in>set refs. ref_ok X G (db_env d) (db_path d) ref" and "caches_ok X G d"
    and "newest_first (map (ref_ents G) refs)"
  shows "yields X G (get_in_l0 X key s fill refs) d (lookup_at (concat (map (ref_ents G) refs)) key s)"
  using assms
proof (induction refs arbitrary: d)
  case Nil
  then show ?case by (simp add: yields_lift)
next
  case (Cons ref refs)
  obtain meta rd where ref: "ref = (meta, rd)" by fastforce
  have lookup: "lookup_at (concat (map (ref_ents G) (ref # refs))) key s =
      (case lookup_at (ref_ents G ref) key s of None \<Rightarrow> lookup_at (concat (map (ref_ents G) refs)) key s | Some v \<Rightarrow> Some v)"
    using Cons.prems(3) by (simp add: lookup_layer)
  have rest: "yields X G (get_in_l0 X key s fill refs) d' (lookup_at (concat (map (ref_ents G) refs)) key s)"
    if "reads_to d d'" "caches_ok X G d'" for d'
    using Cons.prems that by (intro Cons.IH) (auto intro: ref_ok_reads_to)
  show ?case
  proof (cases "file_overlaps_user_key meta key")
    case False
    with Cons.prems have "lookup_at (ref_ents G ref) key s = None"
      by (intro lookup_outside [of X G "db_env d" "db_path d"]) (simp_all add: ref)
    with False rest [OF reads_to_refl Cons.prems(2)] show ?thesis unfolding lookup by (simp add: ref)
  next
    case True
    have "yields X G (get_in_table X key s fill ref) d (lookup_at (ref_ents G ref) key s)"
      using Cons.prems by (intro yields_get_in_table) simp_all
    moreover have "yields X G (case lookup_at (ref_ents G ref) key s of Some rec \<Rightarrow> op_lift (Inr (Some rec))
        | None \<Rightarrow> get_in_l0 X key s fill refs) d' (lookup_at (concat (map (ref_ents G) (ref # refs))) key s)"
      if "reads_to d d'" "caches_ok X G d'" for d'
      using rest [OF that] that(2) unfolding lookup by (cases "lookup_at (ref_ents G ref) key s") (simp_all add: yields_lift)
    ultimately show ?thesis
      using True unfolding ref by (simp add: yields_then del: get_in_l0.simps) (simp add: yields_then)
  qed
qed

text \<open>In a level with disjoint files, the only file that can have a key is the one its range meets.\<close>

lemma lookup_level:
  assumes "\<forall>ref\<in>set refs. ref_ok X G e dir ref" and "level_disjoint (map fst refs)"
  shows "lookup_at (concat (map (ref_ents G) refs)) key s =
    (case find (\<lambda>ref. file_overlaps_user_key (fst ref) key) refs of
       None \<Rightarrow> None | Some ref \<Rightarrow> lookup_at (ref_ents G ref) key s)"
  using assms
proof (induction refs)
  case (Cons ref refs)
  have IH: "lookup_at (concat (map (ref_ents G) refs)) key s =
    (case find (\<lambda>ref. file_overlaps_user_key (fst ref) key) refs of
       None \<Rightarrow> None | Some ref \<Rightarrow> lookup_at (ref_ents G ref) key s)"
    using Cons.prems by (intro Cons.IH) (simp_all add: level_disjoint_def)
  have app: "lookup_at (ref_ents G ref @ concat (map (ref_ents G) refs)) key s =
      (case lookup_at (ref_ents G ref) key s of None \<Rightarrow> lookup_at (concat (map (ref_ents G) refs)) key s | Some v \<Rightarrow> Some v)"
    if "lookup_at (ref_ents G ref) key s = None \<or> lookup_at (concat (map (ref_ents G) refs)) key s = None"
    using that unfolding lookup_at_None_iff by (intro lookup_at_append) blast
  show ?case
  proof (cases "file_overlaps_user_key (fst ref) key")
    case False
    then have "lookup_at (ref_ents G ref) key s = None" using Cons.prems by (intro lookup_outside [of X G e dir]) simp_all
    with False IH app show ?thesis by simp
  next
    case True
    have "find (\<lambda>ref. file_overlaps_user_key (fst ref) key) refs = None"
      unfolding find_None_iff
    proof
      assume "\<exists>r. r \<in> set refs \<and> file_overlaps_user_key (fst r) key"
      then obtain r where r: "r \<in> set refs" "file_overlaps_user_key (fst r) key" by blast
      with Cons.prems(2) have "user_key (fm_largest (fst ref)) < user_key (fm_smallest (fst r))"
        by (auto simp: level_disjoint_def)
      with r(2) True show False by (auto simp: file_overlaps_user_key_def)
    qed
    with IH app True show ?thesis by (simp split: option.split)
  qed
qed simp

lemma yields_get_in_levels:
  assumes "\<forall>ref\<in>set (concat lvls). ref_ok X G (db_env d) (db_path d) ref" and "caches_ok X G d"
    and "newest_first (map (\<lambda>level. concat (map (ref_ents G) level)) lvls)"
    and "\<forall>level\<in>set lvls. level_disjoint (map fst level)"
  shows "yields X G (get_in_levels X key s fill lvls) d
    (lookup_at (concat (map (\<lambda>level. concat (map (ref_ents G) level)) lvls)) key s)"
  using assms
proof (induction lvls arbitrary: d)
  case Nil
  then show ?case by (simp add: yields_lift)
next
  case (Cons level lvls)
  let ?rest = "concat (map (\<lambda>level. concat (map (ref_ents G) level)) lvls)"
  have lookup: "lookup_at (concat (map (\<lambda>level. concat (map (ref_ents G) level)) (level # lvls))) key s =
      (case lookup_at (concat (map (ref_ents G) level)) key s of None \<Rightarrow> lookup_at ?rest key s | Some v \<Rightarrow> Some v)"
    using Cons.prems(3) by (simp add: lookup_layer)
  have level: "lookup_at (concat (map (ref_ents G) level)) key s =
      (case find (\<lambda>ref. file_overlaps_user_key (fst ref) key) level of
         None \<Rightarrow> None | Some ref \<Rightarrow> lookup_at (ref_ents G ref) key s)"
    using Cons.prems by (intro lookup_level [of _ X G "db_env d" "db_path d"]) simp_all
  have rest: "yields X G (get_in_levels X key s fill lvls) d' (lookup_at ?rest key s)"
    if "reads_to d d'" "caches_ok X G d'" for d'
    using Cons.prems that by (intro Cons.IH) (auto intro: ref_ok_reads_to)
  show ?case
  proof (cases "find (\<lambda>ref. file_overlaps_user_key (fst ref) key) level")
    case None
    with rest [OF reads_to_refl Cons.prems(2)] level show ?thesis unfolding lookup by simp
  next
    case (Some ref)
    then have "ref \<in> set level" by (auto simp: find_Some_iff)
    then have "yields X G (get_in_table X key s fill ref) d (lookup_at (ref_ents G ref) key s)"
      using Cons.prems by (intro yields_get_in_table) simp_all
    moreover have "yields X G (case lookup_at (ref_ents G ref) key s of Some rec \<Rightarrow> op_lift (Inr (Some rec))
        | None \<Rightarrow> get_in_levels X key s fill lvls) d'
        (lookup_at (concat (map (\<lambda>level. concat (map (ref_ents G) level)) (level # lvls))) key s)"
      if "reads_to d d'" "caches_ok X G d'" for d'
      using rest [OF that] that(2) level Some unfolding lookup
      by (cases "lookup_at (ref_ents G ref) key s") (simp_all add: yields_lift)
    ultimately show ?thesis using Some by (simp add: yields_then)
  qed
qed

subsection \<open>Point lookups\<close>

lemma readable_reads_to:
  assumes "readable X G d" and "reads_to d d'" and "caches_ok X G d'"
  shows "readable X G d'"
  using assms(1,3) reads_to_ok(1,2,4) [OF assms(2)] by (simp add: readable_def)

lemma layers_parts:
  assumes "layers_ok X G d"
  shows "newest_first (mem_layers X d)" "newest_first (l0_layers G d)" "newest_first (level_layers G d)"
    "lookup_at (db_entries X G d) key s =
       (case lookup_at (concat (mem_layers X d)) key s of
          Some v \<Rightarrow> Some v
        | None \<Rightarrow> (case lookup_at (concat (l0_layers G d)) key s of
                     Some v \<Rightarrow> Some v | None \<Rightarrow> lookup_at (concat (level_layers G d)) key s))"
proof -
  from assms have n: "newest_first (mem_layers X d @ l0_layers G d @ level_layers G d)"
    by (simp add: layers_ok_def layers_def)
  then show "newest_first (mem_layers X d)" "newest_first (l0_layers G d)" "newest_first (level_layers G d)"
    by (simp_all add: newest_first_append)
  have "lookup_at (concat (l0_layers G d) @ concat (level_layers G d)) key s =
      (case lookup_at (concat (l0_layers G d)) key s of None \<Rightarrow> lookup_at (concat (level_layers G d)) key s | Some v \<Rightarrow> Some v)"
    using n by (intro lookup_layer) (simp add: newest_first_append)
  moreover have "lookup_at (concat (mem_layers X d) @ concat (l0_layers G d) @ concat (level_layers G d)) key s =
      (case lookup_at (concat (mem_layers X d)) key s of
         None \<Rightarrow> lookup_at (concat (l0_layers G d) @ concat (level_layers G d)) key s | Some v \<Rightarrow> Some v)"
    using n by (intro lookup_layer) (simp add: newest_first_append)
  ultimately show "lookup_at (db_entries X G d) key s =
       (case lookup_at (concat (mem_layers X d)) key s of
          Some v \<Rightarrow> Some v
        | None \<Rightarrow> (case lookup_at (concat (l0_layers G d)) key s of
                     Some v \<Rightarrow> Some v | None \<Rightarrow> lookup_at (concat (level_layers G d)) key s))"
    by (simp add: db_entries_def layers_def split: option.splits)
qed

lemma visible_Some: "visible_value (Some r) = into_visible_value r"
  by (simp add: visible_value_def)

lemma yields_get_tables:
  assumes "readable X G d"
  shows "yields X G (op_then (get_in_l0 X key s fill (db_l0_tables d)) (\<lambda>r.
      case r of
        Some rec \<Rightarrow> op_lift (Inr (into_visible_value rec))
      | None \<Rightarrow> op_then (get_in_levels X key s fill (drop 1 (db_level_tables d))) (\<lambda>r.
          case r of Some rec \<Rightarrow> op_lift (Inr (into_visible_value rec)) | None \<Rightarrow> op_lift (Inr None)))) d
    (visible_value (case lookup_at (concat (l0_layers G d)) key s of
       Some v \<Rightarrow> Some v | None \<Rightarrow> lookup_at (concat (level_layers G d)) key s))"
proof (rule yields_then)
  from assms have refs: "\<forall>ref\<in>set (db_l0_tables d). ref_ok X G (db_env d) (db_path d) ref"
    "\<forall>ref\<in>set (concat (drop 1 (db_level_tables d))). ref_ok X G (db_env d) (db_path d) ref"
    "\<forall>level\<in>set (drop 1 (db_level_tables d)). level_disjoint (map fst level)"
    and caches: "caches_ok X G d" and layers: "layers_ok X G d"
    by (auto simp: readable_def refs_ok_def all_refs_def list_all_iff dest: in_set_dropD)
  show "yields X G (get_in_l0 X key s fill (db_l0_tables d)) d (lookup_at (concat (l0_layers G d)) key s)"
    using refs(1) caches layers_parts(2) [OF layers] unfolding l0_layers_def by (rule yields_get_in_l0)
  fix d1 assume d1: "reads_to d d1" "caches_ok X G d1"
  have "yields X G (get_in_levels X key s fill (drop 1 (db_level_tables d))) d1 (lookup_at (concat (level_layers G d)) key s)"
    unfolding level_layers_def
    by (rule yields_get_in_levels)
      (use refs d1 layers_parts(3) [OF layers] in \<open>auto simp: level_layers_def intro: ref_ok_reads_to\<close>)
  then show "yields X G (case lookup_at (concat (l0_layers G d)) key s of
        Some rec \<Rightarrow> op_lift (Inr (into_visible_value rec))
      | None \<Rightarrow> op_then (get_in_levels X key s fill (drop 1 (db_level_tables d))) (\<lambda>r.
          case r of Some rec \<Rightarrow> op_lift (Inr (into_visible_value rec)) | None \<Rightarrow> op_lift (Inr None))) d1
    (visible_value (case lookup_at (concat (l0_layers G d)) key s of
       Some v \<Rightarrow> Some v | None \<Rightarrow> lookup_at (concat (level_layers G d)) key s))"
    using d1(2)
    by (cases "lookup_at (concat (l0_layers G d)) key s"; cases "lookup_at (concat (level_layers G d)) key s")
      (auto simp: visible_Some yields_lift intro!: yields_then)
qed

lemma get_opt_outcome:
  assumes X: "externals X" and ok: "readable X G d" and run: "get_opt X key opts d = (r, d')"
  shows "reads_to d d' \<and> caches_ok X G d' \<and>
    (if db_closed d then r = Inl Closed
     else r = Inr (visible_value (lookup_at (db_entries X G d) key (read_sequence opts d))) \<or>
       r = Inl (Io OtherIo) \<and> env_faults (db_env d) \<noteq> [])"
proof (cases "db_closed d")
  case True
  with run ok show ?thesis by (auto simp: get_opt_def readable_def)
next
  case False
  let ?s = "read_sequence opts d"
  from ok have layers: "layers_ok X G d" and mems: "\<forall>m\<in>set (db_mutable d # rev (db_immutables d)). sorted_entries (mem_entries X m)"
    by (auto simp: readable_def mems_ok_def)
  have mem: "get_in_memtables X key ?s (db_mutable d # rev (db_immutables d)) = lookup_at (concat (mem_layers X d)) key ?s"
    using externals.get_in_memtables_layers [OF X mems] layers_parts(1) [OF layers] by (simp add: mem_layers_def)
  show ?thesis
  proof (cases "lookup_at (concat (mem_layers X d)) key ?s")
    case (Some rec)
    with run ok mem False layers_parts(4) [OF layers, of key ?s] show ?thesis
      by (auto simp: get_opt_def readable_def visible_Some)
  next
    case None
    with run mem False yieldsD [OF yields_get_tables [OF ok, of key ?s "ro_fill_cache opts"], of r d']
      layers_parts(4) [OF layers, of key ?s]
    show ?thesis by (simp add: get_opt_def Let_def del: get_in_memtables.simps One_nat_def)
  qed
qed

subsection \<open>Scans\<close>

interpretation scan_children: iterating "scan_child_iter X"
  "case_sum (\<lambda>i. ordered (ei_entries i)) (ti_ok X tabs)" "cache_coherent X tabs"
  "case_sum entry_rest (ti_rest X)" "case_sum ei_entries (ti_all X)" for X :: "'m externs" and tabs
  by (rule db_children.sum_iterating)

interpretation scan_merge: iterating "merge_iter (scan_child_iter X)"
  "merge_ok (scan_child_iter X) (case_sum (\<lambda>i. ordered (ei_entries i)) (ti_ok X tabs))" "cache_coherent X tabs"
  "merge_rest (case_sum entry_rest (ti_rest X))" "merge_rest (case_sum ei_entries (ti_all X))"
  for X :: "'m externs" and tabs
  by (rule scan_children.merge_iterating)

lemma open_table_children_outcome:
  assumes "\<forall>ref\<in>set refs. ref_ok X G (db_env d) (db_path d) ref" and "caches_ok X G d"
    and "open_table_children X fill refs d = (r, d')"
  shows "reads_to d d' \<and> caches_ok X G d' \<and>
    (r = Inl (Io OtherIo) \<and> env_faults (db_env d) \<noteq> [] \<or>
     (\<exists>tis. r = Inr tis \<and> list_all (ti_ok X (tabs_of G)) tis \<and>
        map (ti_rest X) tis = map (ref_ents G) refs \<and> map (ti_all X) tis = map (ref_ents G) refs))"
  using assms
proof (induction refs arbitrary: d r d')
  case Nil
  then show ?case by (auto simp: op_lift_def)
next
  case (Cons ref refs)
  obtain meta rd where ref: "ref = (meta, rd)" by fastforce
  let ?n = "fm_number meta"
  from Cons.prems(1) obtain c idx es blks where g: "G ?n = Some (c, idx, es)"
    and c: "content_of (db_env d) (table_path (db_path d) ?n) = Some c" and t: "table_with X c es idx blks"
    and sorted: "sorted_entries es" and rd: "rd = reader_for es idx (table_path (db_path d) ?n)"
    by (auto simp: ref_ok_def table_ok_def reader_ok_def ref)
  have es: "ref_ents G ref = es" by (simp add: ref ref_ents_def ents_of_def g)
  have tab: "tabs_of G ?n = Some (c, idx)" by (simp add: tabs_of_def g)
  obtain r1 e1 cache1 where st: "storage_iter X rd ?n fill (db_env d, Some (db_block_cache d)) = (r1, (e1, cache1))"
    by (metis surj_pair)
  let ?d1 = "d\<lparr>db_env := e1, db_block_cache := (case cache1 of None \<Rightarrow> db_block_cache d | Some c \<Rightarrow> c)\<rparr>"
  have coh: "cache_coherent X (tabs_of G) (Some (db_block_cache d))" using Cons.prems(2) by (simp add: caches_ok_def)
  from storage_iter_outcome [OF t sorted c coh tab st [unfolded rd]]
  have out: "env_files e1 = env_files (db_env d)" "cache_coherent X (tabs_of G) cache1"
    "env_faults (db_env d) = [] \<longrightarrow> e1 = db_env d"
    "r1 = Inl (Io OtherIo) \<and> env_faults (db_env d) \<noteq> [] \<or>
     (\<exists>ti. r1 = Inr ti \<and> ti_ok X (tabs_of G) ti \<and> ti_rest X ti = es \<and> ti_all X ti = es)" by blast+
  have d1: "reads_to d ?d1" "caches_ok X G ?d1"
    using out(1-3) Cons.prems(2) by (auto simp: reads_to_def caches_ok_def split: option.splits)
  have run1: "on_blocks (storage_iter X rd ?n fill) d = (r1, ?d1)" by (simp add: on_blocks_def st)
  show ?case
  proof (cases r1)
    case (Inl x)
    with run1 Cons.prems(3) out(4) d1 show ?thesis by (auto simp: ref op_then_def)
  next
    case (Inr ti)
    obtain r2 d2 where run2: "open_table_children X fill refs ?d1 = (r2, d2)" by fastforce
    have "\<forall>ref\<in>set refs. ref_ok X G (db_env ?d1) (db_path ?d1) ref"
      using Cons.prems(1) ref_ok_reads_to [OF d1(1)] by simp
    from Cons.IH [OF this d1(2) run2] Inr run1 run2 Cons.prems(3) out(4) es reads_to_sel(13) [OF d1(1)] d1(1)
    show ?thesis
      by (auto simp: ref op_then_def op_lift_def split: sum.splits intro: reads_to_trans)
  qed
qed

lemma concat_map_concat: "concat (map (\<lambda>l. concat (map f l)) ls) = concat (map f (concat ls))"
  by (induction ls) simp_all

lemma mset_scan_entries:
  assumes "refs_ok X G d"
  shows "mset (memtable_scan_entries X d @ concat (map (ref_ents G) (all_refs d))) = mset (db_entries X G d)"
proof -
  have "concat (map (\<lambda>level. concat (map (ref_ents G) level)) (drop 1 (db_level_tables d))) =
      concat (map (ref_ents G) (concat (db_level_tables d)))"
    using assms by (cases "db_level_tables d") (simp_all add: refs_ok_def concat_map_concat)
  then show ?thesis
    by (simp add: memtable_scan_entries_def all_refs_def db_entries_def layers_def mem_layers_def l0_layers_def
        level_layers_def)
qed

text \<open>The merge over the children of a scan runs through the entries of the database.\<close>

lemma scan_children_merge:
  assumes ok: "list_all (ti_ok X tabs) tis" and rests: "map (ti_rest X) tis = ess" "map (ti_all X) tis = ess"
  obtains m where "merge_iter_new (scan_child_iter X)
      ((if ms = [] then [] else [Inl (entry_iter_new ms)]) @ map Inr tis) = Inr m"
    and "merge_ok (scan_child_iter X) (case_sum (\<lambda>i. ordered (ei_entries i)) (ti_ok X tabs)) m"
    and "merge_rest (case_sum entry_rest (ti_rest X)) m = merge_rest (case_sum ei_entries (ti_all X)) m"
    and "mset (merge_rest (case_sum ei_entries (ti_all X)) m) = mset (ms @ concat ess)"
proof -
  let ?cs = "(if ms = [] then [] else [Inl (entry_iter_new ms)]) @ map Inr tis"
  have "list_all (case_sum (\<lambda>i. ordered (ei_entries i)) (ti_ok X tabs)) ?cs"
    using ok by (simp add: list_all_iff entry_iter_new_ok)
  from scan_children.pick_current_ok [OF this] obtain m where m: "pick_current (scan_child_iter X) ?cs = Inr m"
    "merge_ok (scan_child_iter X) (case_sum (\<lambda>i. ordered (ei_entries i)) (ti_ok X tabs)) m" "mi_children m = ?cs"
    by metis
  have tis: "map (case_sum entry_rest (ti_rest X)) (map Inr tis) = ess"
    "map (case_sum ei_entries (ti_all X)) (map Inr tis) = ess" using rests by (simp_all add: o_def)
  have same: "map (case_sum entry_rest (ti_rest X)) ?cs = map (case_sum ei_entries (ti_all X)) ?cs"
    unfolding map_append tis by (simp add: entry_rest_def entry_iter_new_def)
  have "mset (concat (map (case_sum ei_entries (ti_all X)) ?cs)) = mset (ms @ concat ess)"
    unfolding map_append tis by (simp add: entry_iter_new_def)
  with same m show ?thesis
    by (intro that [of m]) (simp_all only: merge_iter_new_def merge_rest_def mset_sort)
qed

lemma scan_opt_outcome:
  assumes ok: "readable X G d" and fuel: "length (db_entries X G d) + 1 < fuel"
  shows "\<exists>r d'. scan_opt X fuel lower upper opts d = Some (r, d') \<and> reads_to d d' \<and> caches_ok X G d' \<and>
    (if db_closed d then r = Inl Closed
     else r = Inr (scan_rows (db_entries X G d) lower upper (read_sequence opts d)) \<or>
       r = Inl (Io OtherIo) \<and> env_faults (db_env d) \<noteq> [])"
proof (cases "db_closed d")
  case True
  with ok show ?thesis by (simp add: scan_opt_def scan_iter_opt_def readable_def)
next
  case open_db: False
  let ?s = "read_sequence opts d" and ?it = "merge_iter (scan_child_iter X)"
  from ok have refs: "\<forall>ref\<in>set (all_refs d). ref_ok X G (db_env d) (db_path d) ref" "refs_ok X G d"
    and caches: "caches_ok X G d" and dist: "distinct_versions (set (db_entries X G d))"
    by (simp_all add: readable_def refs_ok_def layers_ok_def)
  obtain r1 d1 where run1: "open_table_children X (ro_fill_cache opts) (all_refs d) d = (r1, d1)" by fastforce
  note out = open_table_children_outcome [OF refs(1) caches run1]
  show ?thesis
  proof (cases r1)
    case (Inl x)
    with out run1 open_db show ?thesis by (simp add: scan_opt_def scan_iter_opt_def all_refs_def Let_def)
  next
    case (Inr tis)
    with out have d1: "reads_to d d1" "caches_ok X G d1" and tis: "list_all (ti_ok X (tabs_of G)) tis"
      "map (ti_rest X) tis = map (ref_ents G) (all_refs d)" "map (ti_all X) tis = map (ref_ents G) (all_refs d)" by auto
    from scan_children_merge [OF tis, of "memtable_scan_entries X d"] obtain m where
      m: "merge_iter_new (scan_child_iter X) ((if memtable_scan_entries X d = [] then []
           else [Inl (entry_iter_new (memtable_scan_entries X d))]) @ map Inr tis) = Inr m"
        "merge_ok (scan_child_iter X) (case_sum (\<lambda>i. ordered (ei_entries i)) (ti_ok X (tabs_of G))) m"
        "merge_rest (case_sum entry_rest (ti_rest X)) m = merge_rest (case_sum ei_entries (ti_all X)) m"
        "mset (merge_rest (case_sum ei_entries (ti_all X)) m) = mset (db_entries X G d)"
      unfolding mset_scan_entries [OF refs(2)] .
    let ?all = "merge_rest (case_sum ei_entries (ti_all X)) m"
    have rows: "scan_rows ?all lower upper ?s = scan_rows (db_entries X G d) lower upper ?s"
      by (rule scan_rows_cong_set [OF dist]) (metis m(4) set_mset_mset)
    have "length ?all + 1 < fuel" using fuel m(4) by (metis size_mset)
    moreover have "cache_coherent X (tabs_of G) (Some (db_block_cache d1))" using d1(2) by (simp add: caches_ok_def)
    ultimately obtain it c1 where it: "db_iter_try_new ?it fuel m lower upper ?s (Some (db_block_cache d1)) = Some (Inr it, c1)"
      and c1: "cache_coherent X (tabs_of G) c1"
      and col: "\<And>c. cache_coherent X (tabs_of G) c \<Longrightarrow> \<exists>c'. db_iter_collect ?it fuel [] it c =
          Some (Inr (scan_rows ?all lower upper ?s), c') \<and> cache_coherent X (tabs_of G) c'"
      using scan_merge.db_iter_scan [OF m(2) _ m(3), where lower = lower and upper = upper and read_seq = ?s] by metis
    let ?d2 = "d1\<lparr>db_block_cache := (case c1 of None \<Rightarrow> db_block_cache d1 | Some c \<Rightarrow> c)\<rparr>"
    have "cache_coherent X (tabs_of G) (Some (db_block_cache ?d2))"
      using c1 d1(2) by (cases c1) (simp_all add: caches_ok_def)
    from col [OF this] obtain c2 where c2: "db_iter_collect ?it fuel [] it (Some (db_block_cache ?d2)) =
        Some (Inr (scan_rows ?all lower upper ?s), c2)" "cache_coherent X (tabs_of G) c2" by blast
    let ?d3 = "?d2\<lparr>db_block_cache := (case c2 of None \<Rightarrow> db_block_cache ?d2 | Some c \<Rightarrow> c)\<rparr>"
    have iter: "scan_iter_opt X fuel lower upper opts d = Some (Inr it, ?d2)"
      using open_db run1 Inr m(1) it by (simp add: scan_iter_opt_def all_refs_def Let_def with_block_cache_def)
    have "scan_opt X fuel lower upper opts d = Some (Inr (scan_rows (db_entries X G d) lower upper ?s), ?d3)"
      using c2(1) rows by (simp add: scan_opt_def iter with_block_cache_def)
    moreover have "reads_to d1 ?d3" by (simp add: reads_to_def)
    with d1(1) have "reads_to d ?d3" by (rule reads_to_trans)
    moreover have "caches_ok X G ?d3" 
      using d1(2) c1 c2(2) by (cases c1; cases c2) (simp_all add: caches_ok_def)
    ultimately obtain d3 where "scan_opt X fuel lower upper opts d =
        Some (Inr (scan_rows (db_entries X G d) lower upper ?s), d3)" "reads_to d d3" "caches_ok X G d3" by blast
    with open_db show ?thesis by simp
  qed
qed

subsection \<open>Properties\<close>

text \<open>A database with a frozen memtable, a mutable one over it and no table yet.\<close>

definition demo_db :: "entry list db" where
  "demo_db =
     \<lparr>db_path = ''d'', db_options = default_options,
      db_mutable = mem_delete demo_externs (mem_new demo_externs KindBTree) 3 [1],
      db_immutables = [mem_put demo_externs (mem_put demo_externs (mem_new demo_externs KindSkipList) 1 [1] [7]) 2 [2] [8]],
      db_l0_tables = [], db_level_tables = [[], [], [], [], [], [], []], db_last_sequence = 3, db_closed = False,
      db_versions = demo_version_set, db_block_cache = block_cache_new (\<lambda>_. 0) 8,
      db_table_cache = table_cache_new_with_env (\<lambda>_. 0) 512, db_watermark = watermark_new,
      db_metrics = metrics_new, db_wal = path_join ''d'' (wal_file_name 0), db_env = demo_manifest_env\<rparr>"

lemma demo_db_entries:
  "mem_layers demo_externs demo_db = [[(InternalKey [1] 3 TypeDelete, Delete)],
     [(InternalKey [1] 1 TypePut, Put [7]), (InternalKey [2] 2 TypePut, Put [8])]]"
  "db_entries demo_externs Map.empty demo_db = [(InternalKey [1] 3 TypeDelete, Delete),
     (InternalKey [1] 1 TypePut, Put [7]), (InternalKey [2] 2 TypePut, Put [8])]"
  by (simp_all add: db_entries_def layers_def mem_layers_def l0_layers_def level_layers_def demo_db_def mem_new_def
      bt_defs sk_defs sk_entries_def arena_allocate_def arena_new_def demo_externs_def btree_externs_def
      internal_key_less_iff)

lemma demo_readable: "readable demo_externs Map.empty demo_db"
proof -
  have "mems_ok demo_externs demo_db"
    using demo_db_entries(1) by (auto simp: mems_ok_def mem_layers_def demo_db_def internal_key_less_iff)
  moreover have "refs_ok demo_externs Map.empty demo_db" by (simp add: refs_ok_def all_refs_def demo_db_def level_disjoint_def)
  moreover have "caches_ok demo_externs Map.empty demo_db"
    by (simp add: caches_ok_def demo_db_def cache_coherent_def block_cache_new_def table_cache_new_with_env_def)
  moreover have "layers demo_externs Map.empty demo_db = mem_layers demo_externs demo_db @ [[], [], [], [], [], []]"
    "db_last_sequence demo_db = 3"
    by (simp_all add: layers_def l0_layers_def level_layers_def demo_db_def)
  then have "layers_ok demo_externs Map.empty demo_db"
    unfolding layers_ok_def demo_db_entries(2)
    by (simp add: demo_db_entries(1) newest_first_append distinct_versions_def older_than_def)
  ultimately show ?thesis by (simp add: readable_def)
qed

text \<open>
  C6: a point lookup in an open database returns the newest version of the key that is
  visible at the sequence of the snapshot (or the last sequence), as a lookup in the bag of
  all entries of all memtables and tables gives it, with a tombstone read as absent.  The
  only other outcomes are the error of the closed database and the error of an injected
  fault; in every case the stored entries and the invariant are kept.
\<close>

theorem db_get_correct:
  assumes "externals X" and "readable X G d" and "get_opt X key opts d = (r, d')"
  shows "readable X G d' \<and> db_entries X G d' = db_entries X G d \<and>
    (if db_closed d then r = Inl Closed
     else r = Inr (visible_value (lookup_at (db_entries X G d) key (read_sequence opts d))) \<or>
       r = Inl (Io OtherIo) \<and> env_faults (db_env d) \<noteq> [])"
proof -
  from get_opt_outcome [OF assms] have d': "reads_to d d'" "caches_ok X G d'" by simp_all
  have "db_entries X G d' = db_entries X G d" by (simp add: db_entries_def reads_to_ok(3) [OF d'(1)])
  with get_opt_outcome [OF assms] readable_reads_to [OF assms(2) d'] show ?thesis by simp
qed

theorem db_get_correct_witness:
  "fst (get_opt demo_externs [1] (default_read_options\<lparr>ro_snapshot := Some 2\<rparr>) demo_db) = Inr (Some [7]) \<and>
   fst (get_opt demo_externs [1] default_read_options demo_db) = Inr None"
proof -
  obtain r1 d1 where 1: "get_opt demo_externs [1] (default_read_options\<lparr>ro_snapshot := Some 2\<rparr>) demo_db = (r1, d1)" by fastforce
  obtain r2 d2 where 2: "get_opt demo_externs [1] default_read_options demo_db = (r2, d2)" by fastforce
  have "\<not> db_closed demo_db" "env_faults (db_env demo_db) = []" "read_sequence default_read_options demo_db = 3"
    "read_sequence (default_read_options\<lparr>ro_snapshot := Some 2\<rparr>) demo_db = 2"
    by (simp_all add: demo_db_def demo_manifest_env_def read_sequence_def default_read_options_def)
  moreover have "lookup_at (db_entries demo_externs Map.empty demo_db) [1] 2 = Some (Put [7])"
    "lookup_at (db_entries demo_externs Map.empty demo_db) [1] 3 = Some Delete"
    unfolding demo_db_entries(2) by code_simp+
  ultimately show ?thesis
    using db_get_correct [OF demo_ok(1) demo_readable 1] db_get_correct [OF demo_ok(1) demo_readable 2]
    by (simp add: 1 2 visible_value_def)
qed

text \<open>
  C7: a scan of an open database, run with more fuel than there are entries, ends and
  returns exactly the rows of the reference scan over the bag of all entries: every key
  within the bounds whose newest visible version is a value, once, in key order.  The only
  other outcomes are the error of the closed database and that of an injected fault; the
  stored entries and the invariant are kept.
\<close>

theorem db_scan_correct:
  assumes "readable X G d" and "length (db_entries X G d) + 1 < fuel"
  shows "\<exists>r d'. scan_opt X fuel lower upper opts d = Some (r, d') \<and>
    readable X G d' \<and> db_entries X G d' = db_entries X G d \<and>
    (if db_closed d then r = Inl Closed
     else r = Inr (scan_rows (db_entries X G d) lower upper (read_sequence opts d)) \<or>
       r = Inl (Io OtherIo) \<and> env_faults (db_env d) \<noteq> [])"
proof -
  obtain r d' where run: "scan_opt X fuel lower upper opts d = Some (r, d')" and d': "reads_to d d'" "caches_ok X G d'"
    and out: "if db_closed d then r = Inl Closed
     else r = Inr (scan_rows (db_entries X G d) lower upper (read_sequence opts d)) \<or>
       r = Inl (Io OtherIo) \<and> env_faults (db_env d) \<noteq> []"
    using scan_opt_outcome [OF assms] by blast
  with readable_reads_to [OF assms(1) d'] reads_to_ok(3) [OF d'(1)] show ?thesis
    by (simp add: db_entries_def)
qed

theorem db_scan_correct_witness:
  "\<exists>d'. scan_opt demo_externs 9 Unbounded Unbounded default_read_options demo_db = Some (Inr [([2], [8])], d')"
proof -
  have "\<not> db_closed demo_db" "env_faults (db_env demo_db) = []" "read_sequence default_read_options demo_db = 3"
    by (simp_all add: demo_db_def demo_manifest_env_def read_sequence_def default_read_options_def)
  moreover have "scan_rows (db_entries demo_externs Map.empty demo_db) Unbounded Unbounded 3 = [([2], [8])]"
    unfolding demo_db_entries(2) by code_simp
  moreover have "length (db_entries demo_externs Map.empty demo_db) + 1 < 9" by (simp add: demo_db_entries(2))
  ultimately show ?thesis
    using db_scan_correct [OF demo_readable, of 9 Unbounded Unbounded default_read_options] by auto
qed

end
