(* ===== verification/Frames.thy ===== *)
theory Frames
  imports SSTable Version
begin

section \<open>Which files an operation touches\<close>

text \<open>
  \<open>touches P m\<close>: whatever the outcome of \<open>m\<close>, faults included, every file outside \<open>P\<close> is as it
  was.  The rules are collected in \<open>touch_intros\<close> and follow the structure of the operations.
  File names of different kinds are different, so writing a log, a manifest or a new table
  leaves the tables of the database alone.
\<close>

named_theorems touch_intros \<open>which files an operation touches\<close>

definition touches :: "path set \<Rightarrow> (env, 'a) op \<Rightarrow> bool" where
  "touches P m \<longleftrightarrow> (\<forall>e r e'. m e = (r, e') \<longrightarrow> (\<forall>q. q \<notin> P \<longrightarrow> env_files e' q = env_files e q))"

lemma touchesD: "touches P m \<Longrightarrow> m e = (r, e') \<Longrightarrow> q \<notin> P \<Longrightarrow> env_files e' q = env_files e q"
  by (auto simp: touches_def)

lemma touches_mono: "touches P m \<Longrightarrow> P \<subseteq> Q \<Longrightarrow> touches Q m"
  unfolding touches_def by blast

lemma touches_lift [touch_intros]: "touches P (op_lift r)"
  by (simp add: touches_def op_lift_def)

lemma touches_then:
  assumes "touches P m" and "\<And>e x e'. m e = (Inr x, e') \<Longrightarrow> touches P (f x)"
  shows "touches P (op_then m f)"
  unfolding touches_def
proof (intro allI impI)
  fix e r e' q assume run: "op_then m f e = (r, e')" and q: "q \<notin> P"
  from run show "env_files e' q = env_files e q"
  proof (cases rule: op_thenE)
    case (fail x)
    with touchesD [OF assms(1) _ q] show ?thesis by metis
  next
    case (ok x e1)
    with touchesD [OF assms(1) ok(1) q] touchesD [OF assms(2) [OF ok(1)] ok(2) q] show ?thesis by simp
  qed
qed

lemma touches_then_any [touch_intros]:
  "touches P m \<Longrightarrow> (\<And>x. touches P (f x)) \<Longrightarrow> touches P (op_then m f)"
  by (rule touches_then)

lemma touches_then_pair [touch_intros]:
  "touches P m \<Longrightarrow> (\<And>x y. touches P (f x y)) \<Longrightarrow> touches P (op_then m (\<lambda>(x, y). f x y))"
  by (rule touches_then) auto

lemma touches_faultable:
  "(\<And>e r e'. m e = (r, e') \<Longrightarrow> (\<forall>q. q \<notin> P \<longrightarrow> env_files e' q = env_files e q)) \<Longrightarrow> touches P (faultable m)"
  by (auto simp: touches_def faultable_def split: prod.splits option.splits dest: take_fault_files)

lemma touches_write_all [touch_intros]: "p \<in> P \<Longrightarrow> touches P (write_all p bs)"
  by (auto simp: touches_def write_all_def split: prod.splits option.splits dest: take_fault_files)

lemma touches_open_writable [touch_intros]: "p \<in> P \<Longrightarrow> touches P (open_writable p opts)"
  unfolding open_writable_def by (rule touches_faultable) (auto split: option.splits if_splits)

lemma touches_sync_all [touch_intros]: "p \<in> P \<Longrightarrow> touches P (sync_all p)"
  unfolding sync_all_def by (rule touches_faultable) (auto split: option.splits if_splits)

lemma touches_metadata_len [touch_intros]: "touches P (metadata_len p)"
  unfolding metadata_len_def by (rule touches_faultable) (auto split: option.splits if_splits)

lemma touches_open_readable [touch_intros]: "touches P (open_readable p)"
  unfolding open_readable_def by (rule touches_faultable) (auto split: option.splits if_splits)

lemma touches_env_rename [touch_intros]: "from \<in> P \<Longrightarrow> to \<in> P \<Longrightarrow> touches P (env_rename from to)"
  unfolding env_rename_def by (rule touches_faultable) (auto split: option.splits if_splits)

lemma touches_remove_file [touch_intros]: "p \<in> P \<Longrightarrow> touches P (remove_file p)"
  unfolding remove_file_def by (rule touches_faultable) (auto split: option.splits if_splits)

lemma touches_wal [touch_intros]:
  "p \<in> P \<Longrightarrow> touches P (wal_append crc p payload)"
  "p \<in> P \<Longrightarrow> touches P (wal_sync p)"
  "p \<in> P \<Longrightarrow> touches P (wal_writer_create p)"
  unfolding wal_append_def wal_sync_def wal_writer_create_def Let_def by (intro touch_intros; simp)+

lemma touches_manifest [touch_intros]: "p \<in> P \<Longrightarrow> touches P (manifest_append crc p edit)"
  unfolding manifest_append_def Let_def by (intro touch_intros; simp)

subsection \<open>Building a table\<close>

lemma touches_write_block [touch_intros]: "sb_path b \<in> P \<Longrightarrow> touches P (write_block X b blk)"
  unfolding write_block_def Let_def by (intro touch_intros; simp)

lemma touches_flush_block [touch_intros]: "sb_path b \<in> P \<Longrightarrow> touches P (flush_current_block X b)"
  unfolding flush_current_block_def Let_def by (auto intro!: touch_intros split: option.split)

lemma touches_builder_add [touch_intros]: "sb_path b \<in> P \<Longrightarrow> touches P (builder_add X b k v)"
  unfolding builder_add_def Let_def by (auto intro!: touch_intros)

lemma builder_add_path: "builder_add X b k v e = (Inr b', e') \<Longrightarrow> sb_path b' = sb_path b"
  by (auto simp: builder_add_def Let_def op_Inr_iffs split: if_splits dest: flush_path)

lemma touches_builder_add_all: "sb_path b \<in> P \<Longrightarrow> touches P (builder_add_all X b es)"
proof (induction es arbitrary: b)
  case (Cons a es)
  obtain k v where a: "a = (k, v)" by fastforce
  show ?case unfolding a builder_add_all.simps
    by (rule touches_then) (use Cons in \<open>auto intro!: touch_intros dest: builder_add_path\<close>)
qed (simp add: touch_intros)

lemma touches_builder_finish [touch_intros]:
  assumes "sb_path b \<in> P"
  shows "touches P (builder_finish X b)"
  unfolding builder_finish_def Let_def
proof (rule touches_then [OF touches_flush_block [OF assms]])
  fix e b1 e1 assume "flush_current_block X b e = (Inr b1, e1)"
  with assms have b1: "sb_path b1 \<in> P" by (simp add: flush_path)
  let ?props = "properties_encode \<lparr>num_entries = sb_num_entries b1, smallest_key = sb_smallest_key b1,
    largest_key = sb_largest_key b1, filter_bytes = filter_from_keys (sb_filter_keys b1)\<rparr>"
  have "touches P (op_then (write_block X b2 (encode_index_entries (sb_index_entries b2))) (\<lambda>(index_handle, b3).
      op_then (write_all (sb_path b3) (encode_footer h2 index_handle)) (\<lambda>_. sync_all (sb_path b3))))"
    if "sb_path b2 \<in> P" for b2 h2
  proof (rule touches_then [OF touches_write_block [OF that]], clarify)
    fix e2 h3 b3 e3 assume "write_block X b2 (encode_index_entries (sb_index_entries b2)) e2 = (Inr (h3, b3), e3)"
    with that have "sb_path b3 \<in> P" by (simp add: write_block_path)
    then show "touches P (op_then (write_all (sb_path b3) (encode_footer h2 h3)) (\<lambda>_. sync_all (sb_path b3)))"
      by (intro touch_intros)
  qed
  then show "touches P (op_then (write_block X b1 ?props) (\<lambda>(h2, b2).
      op_then (write_block X b2 (encode_index_entries (sb_index_entries b2))) (\<lambda>(h3, b3).
      op_then (write_all (sb_path b3) (encode_footer h2 h3)) (\<lambda>_. sync_all (sb_path b3)))))"
    using b1 by (intro touches_then [OF touches_write_block]) (auto simp: write_block_path)
qed

lemma builder_create_path: "builder_create_with_env p bs cm e = (Inr b, e') \<Longrightarrow> sb_path b = p"
  by (auto simp: builder_create_with_env_def op_Inr_iffs open_writable_def faultable_def
      split: option.splits if_splits prod.splits)

lemma touches_builder_create [touch_intros]: "p \<in> P \<Longrightarrow> touches P (builder_create_with_env p bs cm)"
  unfolding builder_create_with_env_def by (intro touch_intros)

lemma touches_build_table [touch_intros]:
  assumes "p \<in> P"
  shows "touches P (build_table X p bs cm es)"
  unfolding build_table_def
proof (rule touches_then [OF touches_builder_create [OF assms]])
  fix e b e1 assume "builder_create_with_env p bs cm e = (Inr b, e1)"
  then have b: "sb_path b = p" by (rule builder_create_path)
  then show "touches P (op_then (builder_add_all X b es) (builder_finish X))"
    using assms by (intro touches_then [OF touches_builder_add_all] touches_builder_finish) (simp_all add: builder_add_all_path)
qed

subsection \<open>The version set\<close>

lemma log_and_apply_files:
  assumes "log_and_apply_state crc edit (e, vs) = (r, (e', vs'))" and "vs_manifest_writer vs = None \<or> vs_manifest_writer vs = Some p"
    and "q \<noteq> p"
  shows "env_files e' q = env_files e q"
  using assms touchesD [OF touches_manifest [of p "{p}"], of crc edit e _ e' q]
  by (auto simp: log_and_apply_state_def split: prod.splits sum.splits option.splits)

lemma log_and_apply_writer:
  "log_and_apply_state crc edit (e, vs) = (r, (e', vs')) \<Longrightarrow> vs_manifest_writer vs' = vs_manifest_writer vs"
  by (cases edit) (auto simp: log_and_apply_state_def Let_def result_simps split: prod.splits sum.splits option.splits)

lemma log_and_apply_next:
  "log_and_apply_state crc edit (e, vs) = (r, (e', vs')) \<Longrightarrow> vs_next_file_number vs \<le> vs_next_file_number vs'"
  by (cases edit) (auto simp: log_and_apply_state_def Let_def result_simps split: prod.splits sum.splits option.splits)

subsection \<open>File names\<close>

lemma manifest_not_table [simp]: "manifest_file_name m \<noteq> table_file_name n" "table_file_name n \<noteq> manifest_file_name m"
proof -
  obtain d where "d < 10" "hd (table_file_name n) = char_of (48 + d :: nat)"
    using pad6_chars [of "hd (pad6 (unat n))" "unat n"] by (auto simp: table_file_name_def)
  then have "char_digit (hd (table_file_name n)) \<noteq> None" by simp
  moreover have "char_digit (hd (manifest_file_name m)) = None"
    unfolding manifest_file_name_def by simp code_simp
  ultimately show "manifest_file_name m \<noteq> table_file_name n" "table_file_name n \<noteq> manifest_file_name m" by metis+
qed

lemma tmp_not_table [simp]: "table_file_name m @ ''.tmp'' \<noteq> table_file_name n" "table_file_name n \<noteq> table_file_name m @ ''.tmp''"
proof -
  have "last (table_file_name m @ ''.tmp'') \<noteq> last (table_file_name n)"
    by (simp add: table_file_name_def)
  then show "table_file_name m @ ''.tmp'' \<noteq> table_file_name n" "table_file_name n \<noteq> table_file_name m @ ''.tmp''" by metis+
qed

end
