(* ===== verification/Database_Writes.thy ===== *)
theory Database_Writes
  imports Database_Reads Frames
begin

section \<open>Writes to the database\<close>

text \<open>
  What a group write does to the entries of the database and to its log.  A batch adds one
  version per record, with consecutive sequence numbers above every stored one, so the order
  of the layers is kept; the log has the records before the memtable does.
\<close>

subsection \<open>Entries of a batch\<close>

fun record_write :: "u64 \<Rightarrow> batch_record \<Rightarrow> u64 \<times> bytes \<times> value_record" where
  "record_write seq (BatchPut key val) = (seq, key, Put val)"
| "record_write seq (BatchDelete key) = (seq, key, Delete)"

fun batch_entries :: "u64 \<Rightarrow> batch_record list \<Rightarrow> entry list" where
  "batch_entries seq [] = []"
| "batch_entries seq (r # rs) = write_entry (record_write seq r) # batch_entries (seq + 1) rs"

definition layered :: "entry list list \<Rightarrow> u64 \<Rightarrow> bool" where
  "layered ls s \<longleftrightarrow> newest_first ls \<and> distinct_versions (set (concat ls)) \<and>
     (\<forall>e\<in>set (concat ls). sequence (fst e) \<le> s)"

lemma layers_ok_layered: "layers_ok X G d \<longleftrightarrow> layered (layers X G d) (db_last_sequence d)"
  by (simp add: layers_ok_def layered_def db_entries_def)

lemma layered_empty [simp]: "layered ([] # ls) s \<longleftrightarrow> layered ls s"
  by (simp add: layered_def)

lemma layered_bound: "layered ls s \<Longrightarrow> x \<in> set (concat ls) \<Longrightarrow> sequence (fst x) \<le> s"
  unfolding layered_def by blast

lemma layered_write:
  assumes "layered (m # ls) s" and "s < q" and "set m' = insert e (set m)" and "sequence (fst e) = q"
  shows "layered (m' # ls) q"
proof -
  have old: "sequence (fst x) < q" if "x \<in> set m \<union> set (concat ls)" for x
    using layered_bound [OF assms(1), of x] assms(2) that by auto
  then have "older_than (concat ls) m'"
    using assms(1,3,4) by (auto simp: layered_def older_than_def)
  moreover have "distinct_versions (set (concat (m' # ls)))"
    using assms(1,3,4) old by (fastforce simp: layered_def distinct_versions_def)
  moreover have "\<forall>x\<in>set (concat (m' # ls)). sequence (fst x) \<le> q"
    using assms(3,4) old by (fastforce dest: less_imp_le)
  ultimately show ?thesis using assms(1) by (simp add: layered_def)
qed

lemma u64_Suc:
  fixes s :: u64
  assumes "unat s + Suc n < 2 ^ 64"
  shows "s < s + 1" and "unat (s + 1) = unat s + 1"
proof -
  have no_wrap: "unat s + 1 < 2 ^ LENGTH(64)" using assms by simp
  then show u: "unat (s + 1) = unat s + 1" by (simp add: unat_word_ariths)
  show "s < s + 1" unfolding word_less_nat_alt u by simp
qed

lemma batch_entries_above:
  "unat s + length rs < 2 ^ 64 \<Longrightarrow> e \<in> set (batch_entries (s + 1) rs) \<Longrightarrow> s < sequence (fst e)"
proof (induction rs arbitrary: s)
  case (Cons r rs)
  from Cons.prems(1) have s: "s < s + 1" "unat (s + 1) + length rs < 2 ^ 64"
    using u64_Suc [of s "length rs"] by simp_all
  show ?case
  proof (cases "e \<in> set (batch_entries (s + 1 + 1) rs)")
    case True
    from Cons.IH [OF s(2) True] s(1) show ?thesis by simp
  next
    case False
    with Cons.prems(2) have "e = write_entry (record_write (s + 1) r)" by simp
    with s(1) show ?thesis by (cases r) simp_all
  qed
qed simp

context externals
begin

lemma apply_record:
  "(case r of BatchPut key val \<Rightarrow> mem_put X mem seq key val | BatchDelete key \<Rightarrow> mem_delete X mem seq key) =
   mem_write X (record_write seq r) mem"
  by (cases r) simp_all

lemma apply_batch_layered:
  assumes "sorted_entries (mem_entries X mem)" and "layered (mem_entries X mem # ls) s"
    and "unat s + length rs < 2 ^ 64" and "apply_batch X (s + 1) rs (mem, s) = (mem', s')"
  shows "sorted_entries (mem_entries X mem') \<and> layered (mem_entries X mem' # ls) s' \<and>
    s' = s + word_of_nat (length rs) \<and>
    set (mem_entries X mem') = set (mem_entries X mem) \<union> set (batch_entries (s + 1) rs)"
  using assms
proof (induction rs arbitrary: mem s)
  case (Cons r rs)
  let ?e = "write_entry (record_write (s + 1) r)" and ?mem = "mem_write X (record_write (s + 1) r) mem"
  from Cons.prems(3) have s: "s < s + 1" "unat (s + 1) + length rs < 2 ^ 64"
    using u64_Suc [of s "length rs"] by simp_all
  have e: "sequence (fst ?e) = s + 1" by (cases r) simp_all
  have new: "fst x \<noteq> fst ?e" if "x \<in> set (mem_entries X mem)" for x
  proof -
    have "sequence (fst x) \<le> s" using layered_bound [OF Cons.prems(2), of x] that by simp
    with s(1) e show ?thesis by auto
  qed
  have set: "set (mem_entries X ?mem) = insert ?e (set (mem_entries X mem))"
    unfolding entries_mem_write set_btree_insert [OF Cons.prems(1)] using new by auto
  have sorted: "sorted_entries (mem_entries X ?mem)"
    unfolding entries_mem_write by (rule sorted_btree_insert [OF Cons.prems(1)])
  have "layered (mem_entries X ?mem # ls) (s + 1)"
    by (rule layered_write [OF Cons.prems(2) s(1) set e])
  moreover have "apply_batch X (s + 1 + 1) rs (?mem, s + 1) = (mem', s')"
    using Cons.prems(4) s(1) max_absorb2 [OF less_imp_le [OF s(1)]] by (simp add: apply_record)
  ultimately show ?case
    using Cons.IH [OF sorted _ s(2)] set by (auto simp: add.assoc)
qed simp

end

subsection \<open>Applying a group to the memtable\<close>

definition group_records :: "group_write_item list \<Rightarrow> batch_record list" where
  "group_records items = concat (map (records \<circ> gw_batch) items)"

lemma batch_entries_append:
  "batch_entries s (xs @ ys) = batch_entries s xs @ batch_entries (s + word_of_nat (length xs)) ys"
  by (induction xs arbitrary: s) (simp_all add: algebra_simps)

text \<open>The parts of the database a write to the memtable leaves alone.\<close>

definition same_store :: "'m db \<Rightarrow> 'm db \<Rightarrow> bool" where
  "same_store d d' \<longleftrightarrow> db_path d' = db_path d \<and> db_options d' = db_options d \<and> db_l0_tables d' = db_l0_tables d \<and>
     db_level_tables d' = db_level_tables d \<and> db_closed d' = db_closed d \<and> db_versions d' = db_versions d \<and>
     db_block_cache d' = db_block_cache d \<and> db_table_cache d' = db_table_cache d \<and>
     db_watermark d' = db_watermark d \<and> db_wal d' = db_wal d \<and> db_env d' = db_env d"

lemma same_store_refl [simp]: "same_store d d"
  by (simp add: same_store_def)

lemma same_store_trans: "same_store d d' \<Longrightarrow> same_store d' d'' \<Longrightarrow> same_store d d''"
  by (simp add: same_store_def)

lemma same_store_sel:
  assumes "same_store d d'"
  shows "db_path d' = db_path d" "db_options d' = db_options d" "db_l0_tables d' = db_l0_tables d"
    "db_level_tables d' = db_level_tables d" "db_closed d' = db_closed d" "db_versions d' = db_versions d"
    "db_block_cache d' = db_block_cache d" "db_table_cache d' = db_table_cache d"
    "db_watermark d' = db_watermark d" "db_wal d' = db_wal d" "db_env d' = db_env d"
  using assms by (simp_all add: same_store_def)

lemma same_store_ok:
  assumes "same_store d d'"
  shows "refs_ok X G d' = refs_ok X G d" "caches_ok X G d' = caches_ok X G d"
    "l0_layers G d' = l0_layers G d" "level_layers G d' = level_layers G d"
  using same_store_sel [OF assms]
  by (simp_all add: refs_ok_def all_refs_def caches_ok_def l0_layers_def level_layers_def)

definition lower_layers :: "'m externs \<Rightarrow> ghost \<Rightarrow> 'm db \<Rightarrow> entry list list" where
  "lower_layers X G d = map (mem_entries X) (rev (db_immutables d)) @ l0_layers G d @ level_layers G d"

lemma layers_split: "layers X G d = mem_entries X (db_mutable d) # lower_layers X G d"
  by (simp add: layers_def mem_layers_def lower_layers_def)

lemma freeze_ok:
  assumes "externals X" and "freeze_mutable_if_needed X d = (frozen, d')"
  shows "same_store d d' \<and> db_last_sequence d' = db_last_sequence d \<and> db_entries X G d' = db_entries X G d \<and>
    layers_ok X G d' = layers_ok X G d \<and> mems_ok X d' = mems_ok X d"
proof (cases frozen)
  case False
  with assms(2) show ?thesis by (auto simp: freeze_mutable_if_needed_def split: if_splits)
next
  case True
  with assms(2) have d': "d' = d\<lparr>db_mutable := mem_new X (opt_memtable_kind (db_options d)),
      db_immutables := db_immutables d @ [db_mutable d]\<rparr>"
    by (auto simp: freeze_mutable_if_needed_def split: if_splits)
  have new: "mem_entries X (mem_new X kind) = []" for kind
    using externals.mem_entries_new [OF assms(1)] .
  have "layers X G d' = [] # layers X G d"
    by (simp add: d' layers_def mem_layers_def l0_layers_def level_layers_def new)
  then show ?thesis
    by (auto simp: layers_ok_layered db_entries_def mems_ok_def d' new same_store_def)
qed

lemma db_apply_batch_ok:
  assumes X: "externals X" and mems: "mems_ok X d" and ok: "layers_ok X G d"
    and few: "unat (db_last_sequence d) + length (records b) < 2 ^ 64"
    and run: "db_apply_batch X (db_last_sequence d + 1) b d = d'"
  shows "same_store d d' \<and> mems_ok X d' \<and> layers_ok X G d' \<and>
    db_last_sequence d' = db_last_sequence d + word_of_nat (length (records b)) \<and>
    set (db_entries X G d') = set (db_entries X G d) \<union> set (batch_entries (db_last_sequence d + 1) (records b))"
proof -
  obtain mem s where ab: "apply_batch X (db_last_sequence d + 1) (records b) (db_mutable d, db_last_sequence d) = (mem, s)"
    by fastforce
  with run have d': "db_mutable d' = mem" "db_immutables d' = db_immutables d" "db_last_sequence d' = s" "same_store d d'"
    by (auto simp: db_apply_batch_def same_store_def)
  have low: "lower_layers X G d' = lower_layers X G d"
    by (simp add: lower_layers_def same_store_ok [OF d'(4)] d')
  from mems ok have "sorted_entries (mem_entries X (db_mutable d))"
    "layered (mem_entries X (db_mutable d) # lower_layers X G d) (db_last_sequence d)"
    by (simp_all add: mems_ok_def layers_ok_layered layers_split)
  from externals.apply_batch_layered [OF X this few ab] mems show ?thesis
    by (auto simp: layers_ok_layered db_entries_def layers_split low d' mems_ok_def)
qed

lemma apply_items_ok:
  assumes X: "externals X" and "mems_ok X d" and "layers_ok X G d"
    and "unat (db_last_sequence d) + length (group_records items) < 2 ^ 64"
    and "apply_items X (assign_sequences (db_last_sequence d + 1) items) flushing d = (r, d')"
  shows "same_store d d' \<and> mems_ok X d' \<and> layers_ok X G d' \<and>
    db_last_sequence d' = db_last_sequence d + word_of_nat (length (group_records items)) \<and>
    set (db_entries X G d') = set (db_entries X G d) \<union> set (batch_entries (db_last_sequence d + 1) (group_records items))"
  using assms(2-)
proof (induction items arbitrary: d flushing)
  case Nil
  then show ?case by (simp add: group_records_def)
next
  case (Cons item items)
  let ?rs = "records (gw_batch item)" and ?s = "db_last_sequence d"
  define d1 where "d1 = db_apply_batch X (?s + 1) (gw_batch item) d"
  obtain frozen d2 where fr: "freeze_mutable_if_needed X d1 = (frozen, d2)" by fastforce
  have few: "unat ?s + length ?rs < 2 ^ 64" "unat ?s + length ?rs + length (group_records items) < 2 ^ 64"
    using Cons.prems(3) by (simp_all add: group_records_def)
  from db_apply_batch_ok [OF X Cons.prems(1,2) few(1) d1_def [symmetric]]
  have b: "same_store d d1" "mems_ok X d1" "layers_ok X G d1" "db_last_sequence d1 = ?s + word_of_nat (length ?rs)"
    "set (db_entries X G d1) = set (db_entries X G d) \<union> set (batch_entries (?s + 1) ?rs)" by blast+
  from freeze_ok [OF X fr, of G] have f: "same_store d1 d2" "db_last_sequence d2 = db_last_sequence d1"
    "db_entries X G d2 = db_entries X G d1" "layers_ok X G d2 = layers_ok X G d1" "mems_ok X d2 = mems_ok X d1" by blast+
  have "unat (db_last_sequence d2) = unat ?s + length ?rs"
    using few(1) by (simp add: f b unat_word_ariths unat_of_nat)
  moreover have "apply_items X (assign_sequences (db_last_sequence d2 + 1) items) (flushing \<or> frozen) d2 = (r, d')"
  proof -
    have "?s + 1 + word_of_nat (length ?rs) = db_last_sequence d2 + 1" by (simp add: f b)
    with Cons.prems(4) fr show ?thesis by (simp add: d1_def [symmetric])
  qed
  ultimately have "same_store d2 d' \<and> mems_ok X d' \<and> layers_ok X G d' \<and>
    db_last_sequence d' = db_last_sequence d2 + word_of_nat (length (group_records items)) \<and>
    set (db_entries X G d') = set (db_entries X G d2) \<union> set (batch_entries (db_last_sequence d2 + 1) (group_records items))"
    using Cons.IH few(2) b f by simp
  with b f show ?case
    by (auto simp: group_records_def batch_entries_append algebra_simps intro: same_store_trans)
qed

subsection \<open>Frames of the database\<close>

text \<open>
  \<open>keeps P d d'\<close>: only files in \<open>P\<close>, counters, the version set and the table cache may
  differ.
\<close>

definition keeps :: "path set \<Rightarrow> 'm db \<Rightarrow> 'm db \<Rightarrow> bool" where
  "keeps P d d' \<longleftrightarrow> db_path d' = db_path d \<and> db_options d' = db_options d \<and> db_mutable d' = db_mutable d \<and>
     db_immutables d' = db_immutables d \<and> db_l0_tables d' = db_l0_tables d \<and> db_level_tables d' = db_level_tables d \<and>
     db_last_sequence d' = db_last_sequence d \<and> db_closed d' = db_closed d \<and> db_block_cache d' = db_block_cache d \<and>
     db_watermark d' = db_watermark d \<and> db_wal d' = db_wal d \<and>
     (\<forall>q. q \<notin> P \<longrightarrow> env_files (db_env d') q = env_files (db_env d) q)"

lemma keeps_refl [simp]: "keeps P d d"
  by (simp add: keeps_def)

lemma keeps_trans: "keeps P d d' \<Longrightarrow> keeps P d' d'' \<Longrightarrow> keeps P d d''"
  by (simp add: keeps_def)

lemma keeps_mono: "keeps P d d' \<Longrightarrow> P \<subseteq> Q \<Longrightarrow> keeps Q d d'"
  unfolding keeps_def by blast

lemma keeps_sel:
  assumes "keeps P d d'"
  shows "db_path d' = db_path d" "db_options d' = db_options d" "db_mutable d' = db_mutable d"
    "db_immutables d' = db_immutables d" "db_l0_tables d' = db_l0_tables d" "db_level_tables d' = db_level_tables d"
    "db_last_sequence d' = db_last_sequence d" "db_closed d' = db_closed d" "db_block_cache d' = db_block_cache d"
    "db_watermark d' = db_watermark d" "db_wal d' = db_wal d"
    "q \<notin> P \<Longrightarrow> env_files (db_env d') q = env_files (db_env d) q"
  using assms by (simp_all add: keeps_def)

lemma keeps_metric: "metric f d = (r, d') \<Longrightarrow> keeps P d d' \<and> db_versions d' = db_versions d \<and>
    db_table_cache d' = db_table_cache d \<and> db_env d' = db_env d \<and> r = Inr ()"
  by (auto simp: metric_def keeps_def)

lemma keeps_on_env:
  assumes "touches P m" and "on_env m d = (r, d')"
  shows "keeps P d d' \<and> db_versions d' = db_versions d \<and> db_table_cache d' = db_table_cache d \<and> m (db_env d) = (r, db_env d')"
  using assms touchesD [OF assms(1)] by (auto simp: on_env_def keeps_def split: prod.splits)

lemma keeps_layers:
  assumes "keeps P d d'"
  shows "mems_ok X d' = mems_ok X d" "layers X G d' = layers X G d" "db_entries X G d' = db_entries X G d"
    "layers_ok X G d' = layers_ok X G d" "all_refs d' = all_refs d"
  using keeps_sel [OF assms]
  by (simp_all add: mems_ok_def layers_def mem_layers_def l0_layers_def level_layers_def db_entries_def layers_ok_def
      all_refs_def)

lemma ref_ok_files:
  assumes "ref_ok X G e dir ref" and "\<And>n. G n \<noteq> None \<Longrightarrow> env_files e' (table_path dir n) = env_files e (table_path dir n)"
  shows "ref_ok X G e' dir ref"
proof -
  from assms(1) have "G (fm_number (fst ref)) \<noteq> None" by (auto simp: ref_ok_def table_ok_def)
  from assms(2) [OF this] have "content_of e' (table_path dir (fm_number (fst ref))) = content_of e (table_path dir (fm_number (fst ref)))"
    by (simp add: content_of_def)
  with assms(1) show ?thesis by (simp add: ref_ok_def table_ok_def)
qed

lemma keeps_refs_ok:
  assumes "keeps P d d'" and "refs_ok X G d" and "\<And>n. G n \<noteq> None \<Longrightarrow> table_path (db_path d) n \<notin> P"
  shows "refs_ok X G d'"
proof -
  have "ref_ok X G (db_env d') (db_path d) ref" if "ref_ok X G (db_env d) (db_path d) ref" for ref
    using that by (rule ref_ok_files) (rule keeps_sel(12) [OF assms(1)], erule assms(3))
  with assms(2) show ?thesis
    by (simp add: refs_ok_def keeps_layers(5) [OF assms(1)] keeps_sel(1,6) [OF assms(1)])
qed

lemma keeps_readable:
  assumes "keeps P d d'" and "readable X G d" and "db_table_cache d' = db_table_cache d"
    and "\<And>n. G n \<noteq> None \<Longrightarrow> table_path (db_path d) n \<notin> P"
  shows "readable X G d'"
proof -
  from assms(2) have ok: "mems_ok X d" "refs_ok X G d" "caches_ok X G d" "layers_ok X G d" by (simp_all add: readable_def)
  have "refs_ok X G d'" using assms(1) ok(2) assms(4) by (rule keeps_refs_ok)
  moreover have "caches_ok X G d'" using ok(3) assms(3) keeps_sel(1,9) [OF assms(1)] by (simp add: caches_ok_def)
  ultimately show ?thesis using ok keeps_layers(1,4) [OF assms(1)] by (simp add: readable_def)
qed

subsection \<open>The log of a group\<close>

definition wal_ok :: "'m db \<Rightarrow> bool" where
  "wal_ok d \<longleftrightarrow> (\<exists>n. db_wal d = path_join (db_path d) (wal_file_name n))"

definition logged_payloads :: "group_write_item list \<Rightarrow> bytes list" where
  "logged_payloads items =
     map (\<lambda>item. encode_with_sequence (gw_batch item) (gw_start_sequence item))
       (filter (\<lambda>item. \<not> wo_disable_wal (gw_opts item)) items)"

lemma wal_not_table_path: "wal_ok d \<Longrightarrow> table_path (db_path d) n \<notin> {db_wal d}"
  by (auto simp: wal_ok_def table_path_def)

text \<open>A log file that has grown by the records of some payloads.\<close>

definition log_grown :: "checksum \<Rightarrow> path \<Rightarrow> bytes list \<Rightarrow> env \<Rightarrow> env \<Rightarrow> bool" where
  "log_grown crc p ps e e' \<longleftrightarrow>
     content_of e' p = map_option (\<lambda>c. c @ concat (map (wal_record crc) ps)) (content_of e p)"

lemma log_grown_Nil: "env_files e' p = env_files e p \<Longrightarrow> log_grown crc p [] e e'"
  by (cases "env_files e p") (simp_all add: log_grown_def content_of_def)

lemma log_grown_append: "log_grown crc p ps e e' \<Longrightarrow> log_grown crc p qs e' e'' \<Longrightarrow> log_grown crc p (ps @ qs) e e''"
  by (cases "content_of e p") (simp_all add: log_grown_def)

lemma log_grown_wal_append: "wal_append crc p payload e = (Inr u, e') \<Longrightarrow> log_grown crc p [payload] e e'"
  by (cases "env_files e p") (auto simp: log_grown_def content_of_def dest!: wal_append_ok)

lemma content_of_wal_sync: "wal_sync p e = (Inr u, e') \<Longrightarrow> content_of e' q = content_of e q"
  by (cases "env_files e p") (auto simp: wal_sync_def content_of_def dest!: sync_all_ok)

lemma append_group_ok:
  assumes "append_group X items sync d = (r, d')"
  shows "keeps {db_wal d} d d' \<and> db_versions d' = db_versions d \<and> db_table_cache d' = db_table_cache d \<and>
    (\<forall>s. r = Inr s \<longrightarrow> log_grown (crc32c X) (db_wal d) (logged_payloads items) (db_env d) (db_env d'))"
  using assms
proof (induction items arbitrary: sync d)
  case Nil
  then show ?case by (simp add: logged_payloads_def log_grown_Nil)
next
  case (Cons item items)
  show ?case
  proof (cases "wo_disable_wal (gw_opts item)")
    case True
    with Cons.IH [of sync d] Cons.prems show ?thesis by (simp add: logged_payloads_def)
  next
    case False
    let ?p = "encode_with_sequence (gw_batch item) (gw_start_sequence item)"
    obtain r1 d1 where m: "metric (record_wal_write (wal_record_bytes ?p)) d = (r1, d1)" by fastforce
    from keeps_metric [OF m, of "{db_wal d}"] have d1: "keeps {db_wal d} d d1" "db_versions d1 = db_versions d"
      "db_table_cache d1 = db_table_cache d" "db_env d1 = db_env d" "r1 = Inr ()" by simp_all
    obtain r2 d2 where w: "on_env (wal_append (crc32c X) (db_wal d) ?p) d1 = (r2, d2)" by fastforce
    have "touches {db_wal d} (wal_append (crc32c X) (db_wal d) ?p)" by (intro touch_intros) simp
    from keeps_on_env [OF this w] d1 have d2: "keeps {db_wal d} d1 d2" "db_versions d2 = db_versions d"
      "db_table_cache d2 = db_table_cache d" "wal_append (crc32c X) (db_wal d) ?p (db_env d) = (r2, db_env d2)" by simp_all
    have d2_keeps: "keeps {db_wal d} d d2" using d1(1) d2(1) by (rule keeps_trans)
    show ?thesis
    proof (cases r2)
      case (Inl e)
      with Cons.prems False m w d1(5) d2 d2_keeps show ?thesis by (auto simp: op_then_def Let_def)
    next
      case (Inr u)
      let ?sync = "sync \<or> wo_sync (gw_opts item) \<or> wal_sync_opt (db_options d) = PerWrite"
      have "append_group X items ?sync d2 = (r, d')"
        using Cons.prems False m w d1(5) Inr by (simp add: op_then_def Let_def)
      from Cons.IH [OF this] have IH: "keeps {db_wal d} d2 d'" "db_versions d' = db_versions d"
        "db_table_cache d' = db_table_cache d"
        "\<forall>s. r = Inr s \<longrightarrow> log_grown (crc32c X) (db_wal d) (logged_payloads items) (db_env d2) (db_env d')"
        using d2 keeps_sel(11) [OF d2_keeps] by simp_all
      have "log_grown (crc32c X) (db_wal d) [?p] (db_env d) (db_env d2)"
        using d2(4) Inr by (simp add: log_grown_wal_append)
      from log_grown_append [OF this] IH False keeps_trans [OF d2_keeps IH(1)] show ?thesis
        by (auto simp: logged_payloads_def)
    qed
  qed
qed

lemma sync_group_ok:
  assumes "(if sync then op_then (on_env (wal_sync (db_wal d))) (\<lambda>_. metric record_wal_sync) else op_lift (Inr ())) d = (r, d')"
  shows "keeps {db_wal d} d d' \<and> db_versions d' = db_versions d \<and> db_table_cache d' = db_table_cache d \<and>
    (r = Inr () \<longrightarrow> content_of (db_env d') p = content_of (db_env d) p)"
proof (cases sync)
  case False
  with assms show ?thesis by (simp add: op_lift_def)
next
  case True
  obtain r1 d1 where s: "on_env (wal_sync (db_wal d)) d = (r1, d1)" by fastforce
  have "touches {db_wal d} (wal_sync (db_wal d))" by (intro touch_intros) simp
  from keeps_on_env [OF this s] have d1: "keeps {db_wal d} d d1" "db_versions d1 = db_versions d"
    "db_table_cache d1 = db_table_cache d" "wal_sync (db_wal d) (db_env d) = (r1, db_env d1)" by simp_all
  show ?thesis
  proof (cases r1)
    case (Inl e)
    with assms True s d1 show ?thesis by (auto simp: op_then_def)
  next
    case (Inr u)
    then have "metric record_wal_sync d1 = (r, d')" using assms True s by (simp add: op_then_def)
    from keeps_metric [OF this, of "{db_wal d}"] d1 Inr content_of_wal_sync [of "db_wal d" "db_env d" u "db_env d1" p]
    show ?thesis by (auto intro: keeps_trans)
  qed
qed

abbreviation log_group :: "'m externs \<Rightarrow> group_write_item list \<Rightarrow> 'm db \<Rightarrow> unit result \<times> 'm db" where
  "log_group X items d \<equiv> (if wal_enabled (db_options d) then
       op_then (append_group X items False) (\<lambda>sync.
         if sync then op_then (on_env (wal_sync (db_wal d))) (\<lambda>_. metric record_wal_sync) else op_lift (Inr ()))
     else op_lift (Inr ())) d"

lemma write_group_split:
  assumes "apply_write_group_to_memtable X items d = (r, d')" and "\<not> db_closed d"
  obtains (fail) e where "log_group X (assign_sequences (db_last_sequence d + 1) items) d = (Inl e, d')" and "r = Inl e"
  | (ok) b d1 where "log_group X (assign_sequences (db_last_sequence d + 1) items) d = (Inr (), d1)"
    and "apply_items X (assign_sequences (db_last_sequence d + 1) items) False d1 = (b, d')" and "r = Inr b"
  using assms unfolding apply_write_group_to_memtable_def Let_def
  by (auto elim!: op_thenE split: prod.splits)

lemma log_group_ok:
  assumes "log_group X items d = (r, d')"
  shows "keeps {db_wal d} d d' \<and> db_versions d' = db_versions d \<and> db_table_cache d' = db_table_cache d \<and>
    (r = Inr () \<longrightarrow> log_grown (crc32c X) (db_wal d) (if wal_enabled (db_options d) then logged_payloads items else []) (db_env d) (db_env d'))"
proof (cases "wal_enabled (db_options d)")
  case False
  with assms show ?thesis by (simp add: op_lift_def log_grown_Nil)
next
  case True
  obtain r1 d1 where a: "append_group X items False d = (r1, d1)" by fastforce
  from append_group_ok [OF a] have d1: "keeps {db_wal d} d d1" "db_versions d1 = db_versions d" "db_table_cache d1 = db_table_cache d"
    "\<And>s. r1 = Inr s \<Longrightarrow> log_grown (crc32c X) (db_wal d) (logged_payloads items) (db_env d) (db_env d1)" by blast+
  show ?thesis
  proof (cases r1)
    case (Inl e)
    with assms True a d1 show ?thesis by (auto simp: op_then_def)
  next
    case (Inr sync)
    have wal: "db_wal d1 = db_wal d" by (rule keeps_sel(11) [OF d1(1)])
    have "(if sync then op_then (on_env (wal_sync (db_wal d1))) (\<lambda>_. metric record_wal_sync) else op_lift (Inr ())) d1 = (r, d')"
      using assms True by (cases sync) (simp_all add: op_then_Inr [of "append_group X items False" d sync d1] a Inr wal)
    from sync_group_ok [OF this, of "db_wal d"] d1 Inr True show ?thesis
      by (auto simp: wal log_grown_def intro: keeps_trans)
  qed
qed

text \<open>Without faults the log takes every group.\<close>

lemma wal_faultless:
  "env_faults e = [] \<Longrightarrow> \<exists>e'. wal_append crc p payload e = (Inr (), e') \<and> env_faults e' = []"
  "env_faults e = [] \<Longrightarrow> \<exists>e'. wal_sync p e = (Inr (), e') \<and> env_faults e' = []"
  by (simp_all add: wal_append_def wal_sync_def op_then_def write_all_def sync_all_def Let_def)

lemma append_group_faultless:
  "env_faults (db_env d) = [] \<Longrightarrow> \<exists>s d'. append_group X items sync d = (Inr s, d') \<and> env_faults (db_env d') = []"
proof (induction items arbitrary: sync d)
  case (Cons item items)
  let ?p = "encode_with_sequence (gw_batch item) (gw_start_sequence item)"
  obtain e where "wal_append (crc32c X) (db_wal d) ?p (db_env d) = (Inr (), e)" "env_faults e = []"
    using wal_faultless(1) [OF Cons.prems] by blast
  with Cons show ?case by (simp add: op_then_def metric_def on_env_def Let_def)
qed simp

lemma log_group_faultless:
  assumes "env_faults (db_env d) = []"
  shows "\<exists>d'. log_group X items d = (Inr (), d') \<and> env_faults (db_env d') = []"
proof -
  obtain s d1 where a: "append_group X items False d = (Inr s, d1)" "env_faults (db_env d1) = []"
    using append_group_faultless [OF assms] by blast
  moreover obtain e where "wal_sync (db_wal d) (db_env d1) = (Inr (), e)" "env_faults e = []"
    using wal_faultless(2) [OF a(2)] by blast
  ultimately show ?thesis
    using assms by (simp add: op_then_def on_env_def metric_def op_lift_def)
qed

lemma write_group_outcome:
  assumes X: "externals X" and ok: "readable X G d" "wal_ok d"
    and few: "unat (db_last_sequence d) + length (group_records items) < 2 ^ 64"
    and run: "apply_write_group_to_memtable X items d = (r, d')" and opened: "\<not> db_closed d"
  shows "readable X G d' \<and> wal_ok d' \<and> db_versions d' = db_versions d \<and> db_path d' = db_path d \<and>
    db_options d' = db_options d \<and> db_closed d' = db_closed d \<and> db_watermark d' = db_watermark d \<and>
    db_l0_tables d' = db_l0_tables d \<and> db_wal d' = db_wal d \<and>
    (\<forall>q. q \<noteq> db_wal d \<longrightarrow> env_files (db_env d') q = env_files (db_env d) q) \<and>
    (case r of
       Inl e \<Rightarrow> db_entries X G d' = db_entries X G d \<and> db_last_sequence d' = db_last_sequence d \<and> env_faults (db_env d) \<noteq> []
     | Inr _ \<Rightarrow> db_last_sequence d' = db_last_sequence d + word_of_nat (length (group_records items)) \<and>
         set (db_entries X G d') = set (db_entries X G d) \<union> set (batch_entries (db_last_sequence d + 1) (group_records items)) \<and>
         log_grown (crc32c X) (db_wal d) (if wal_enabled (db_options d)
           then logged_payloads (assign_sequences (db_last_sequence d + 1) items) else []) (db_env d) (db_env d'))"
proof -
  let ?items = "assign_sequences (db_last_sequence d + 1) items"
  obtain r1 d1 where l: "log_group X ?items d = (r1, d1)" by fastforce
  from log_group_ok [OF l] have d1: "keeps {db_wal d} d d1" "db_versions d1 = db_versions d" "db_table_cache d1 = db_table_cache d"
    "r1 = Inr () \<Longrightarrow> log_grown (crc32c X) (db_wal d) (if wal_enabled (db_options d) then logged_payloads ?items else []) (db_env d) (db_env d1)"
    by blast+
  note sel = keeps_sel [OF d1(1)]
  have ok1: "readable X G d1"
    using d1(1) ok(1) d1(3) wal_not_table_path [OF ok(2)] by (rule keeps_readable)
  have same1: "db_entries X G d1 = db_entries X G d" "wal_ok d1"
    using keeps_layers(3) [OF d1(1)] ok(2) by (simp_all add: wal_ok_def sel)
  from run opened show ?thesis
  proof (cases rule: write_group_split)
    case (fail e)
    with l have "r1 = Inl e" "d' = d1" by simp_all
    moreover have "env_faults (db_env d) \<noteq> []" using log_group_faultless [of d X ?items] fail(1) by auto
    ultimately show ?thesis
      using ok1 same1 d1(2) sel fail(2) by simp
  next
    case (ok b d1')
    with l have r1: "r1 = Inr ()" and i: "apply_items X ?items False d1 = (b, d')" by simp_all
    from ok1 have "mems_ok X d1" "layers_ok X G d1" by (simp_all add: readable_def)
    from apply_items_ok [OF X this _ i [folded sel(7)]] few
    have d2: "same_store d1 d'" "mems_ok X d'" "layers_ok X G d'"
      "db_last_sequence d' = db_last_sequence d + word_of_nat (length (group_records items))"
      "set (db_entries X G d') = set (db_entries X G d) \<union> set (batch_entries (db_last_sequence d + 1) (group_records items))"
      by (simp_all add: sel same1)
    have "readable X G d'" using ok1 d2(2,3) same_store_ok [OF d2(1)] by (simp add: readable_def)
    with ok(3) d2 d1 r1 sel same_store_sel [OF d2(1)] same1 show ?thesis by (simp add: wal_ok_def)
  qed
qed

subsection \<open>Reading what was written\<close>

fun latest_record :: "bytes \<Rightarrow> batch_record list \<Rightarrow> value_record option" where
  "latest_record key [] = None"
| "latest_record key (r # rs) =
     (case latest_record key rs of
        Some v \<Rightarrow> Some v
      | None \<Rightarrow> (case record_write 0 r of (_, k, v) \<Rightarrow> if k = key then Some v else None))"

lemma lookup_at_bound:
  assumes "\<forall>e\<in>set es. sequence (fst e) \<le> s" and "s \<le> s'"
  shows "lookup_at es k s' = lookup_at es k s"
proof -
  have "filter (version_of k s') es = filter (version_of k s) es"
    using assms by (auto simp: version_of_def intro!: filter_cong)
  then show ?thesis by (simp add: lookup_at_def)
qed

lemma lookup_write:
  assumes "\<forall>e\<in>set es. sequence (fst e) \<le> s" and "s < q" and "q \<le> s'"
  shows "lookup_at (write_entry (record_write q r) # es) k s' =
    (case record_write 0 r of (_, key, v) \<Rightarrow> if key = k then Some v else lookup_at es k s)"
proof -
  obtain key v where r: "record_write q r = (q, key, v)" "record_write 0 r = (0, key, v)" by (cases r) simp_all
  have "older_than es [write_entry (record_write q r)]"
    using assms(1,2) by (auto simp: older_than_def r)
  from lookup_layer [OF this, of k s'] lookup_at_bound [OF assms(1), of s' k] assms(2,3) show ?thesis
    by (simp add: r lookup_at_def version_of_def newest.simps)
qed

lemma lookup_batch:
  assumes "\<forall>e\<in>set es. sequence (fst e) \<le> s" and "unat s + length rs < 2 ^ 64"
  shows "lookup_at (rev (batch_entries (s + 1) rs) @ es) k (s + word_of_nat (length rs)) =
    (case latest_record k rs of Some v \<Rightarrow> Some v | None \<Rightarrow> lookup_at es k s)"
  using assms
proof (induction rs arbitrary: s es)
  case (Cons r rs)
  let ?e = "write_entry (record_write (s + 1) r)"
  from Cons.prems(2) have s: "s < s + 1" "unat (s + 1) + length rs < 2 ^ 64"
    using u64_Suc [of s "length rs"] by simp_all
  have "sequence (fst ?e) = s + 1" by (cases r) simp_all
  then have "\<forall>e\<in>set (?e # es). sequence (fst e) \<le> s + 1"
    using Cons.prems(1) s(1) by (auto intro: order_trans less_imp_le)
  from Cons.IH [OF this s(2)] lookup_write [OF Cons.prems(1) s(1) order_refl, of r k] show ?case
    by (simp add: algebra_simps split: option.splits prod.splits)
qed simp

lemma reads_after_batch:
  assumes few: "unat s + length rs < 2 ^ 64" and bound: "\<forall>e\<in>set es. sequence (fst e) \<le> s"
    and dist: "distinct_versions (set es')" and set: "set es' = set es \<union> set (batch_entries (s + 1) rs)"
  shows "lookup_at es' k (s + word_of_nat (length rs)) =
      (case latest_record k rs of Some v \<Rightarrow> Some v | None \<Rightarrow> lookup_at es k s)"
    and "s0 \<le> s \<Longrightarrow> lookup_at es' k s0 = lookup_at es k s0"
proof -
  let ?new = "batch_entries (s + 1) rs"
  have "lookup_at es' k (s + word_of_nat (length rs)) = lookup_at (rev ?new @ es) k (s + word_of_nat (length rs))"
    by (rule lookup_at_cong_set [OF _ _, symmetric]) (use dist set in auto)
  then show "lookup_at es' k (s + word_of_nat (length rs)) =
      (case latest_record k rs of Some v \<Rightarrow> Some v | None \<Rightarrow> lookup_at es k s)"
    using lookup_batch [OF bound few, of k] by simp
  assume "s0 \<le> s"
  then have "\<not> version_of k s0 e" if "e \<in> set ?new" for e
    using batch_entries_above [OF few that] by (auto simp: version_of_def)
  then have "lookup_at (?new @ es) k s0 = lookup_at es k s0" by (simp add: lookup_at_def filter_empty_conv)
  moreover have "lookup_at (?new @ es) k s0 = lookup_at es' k s0"
    by (rule lookup_at_cong_set [OF dist]) (use set in auto)
  ultimately show "lookup_at es' k s0 = lookup_at es k s0" by simp
qed

subsection \<open>Replaying the log\<close>

definition replay :: "'m externs \<Rightarrow> (u64 \<times> write_batch) list \<Rightarrow> 'm memtable \<times> u64 \<Rightarrow> 'm memtable \<times> u64" where
  "replay X bs st = fold (\<lambda>(seq, b). apply_batch X seq (records b)) bs st"

definition batch_payload :: "u64 \<times> write_batch \<Rightarrow> bytes" where
  "batch_payload = (\<lambda>(seq, b). encode_with_sequence b seq)"

definition loggable :: "u64 \<times> write_batch \<Rightarrow> bool" where
  "loggable x \<longleftrightarrow> batch_encodable (snd x) \<and> length (batch_payload x) < 2 ^ 32"

abbreviation log_image :: "checksum \<Rightarrow> (u64 \<times> write_batch) list \<Rightarrow> bytes" where
  "log_image crc bs \<equiv> concat (map (wal_record crc) (map batch_payload bs))"

text \<open>
  The memtable of the database is what a recovery would make of its log: the batches in the
  log, applied to a new memtable and to the last sequence of the manifest.
\<close>

definition replays :: "'m externs \<Rightarrow> 'm db \<Rightarrow> (u64 \<times> write_batch) list \<Rightarrow> bool" where
  "replays X d bs \<longleftrightarrow> list_all loggable bs \<and> content_of (db_env d) (db_wal d) = Some (log_image (crc32c X) bs) \<and>
     (db_mutable d, db_last_sequence d) =
       replay X bs (mem_new X (opt_memtable_kind (db_options d)), vs_last_sequence (db_versions d))"

lemma payload_ok_batch: "loggable x \<Longrightarrow> payload_ok (batch_payload x)"
  by (auto simp: loggable_def payload_ok_def batch_payload_def split: prod.splits)

lemma fold_replay:
  "list_all loggable bs \<Longrightarrow>
   fold_payloads (\<lambda>payload st. and_then (decode_payload payload) (\<lambda>(seq, b). Inr (apply_batch X seq (records b) st)))
     st (map batch_payload bs) None = Inr (replay X bs st)"
proof (induction bs arbitrary: st)
  case (Cons x bs)
  then show ?case
    by (cases x) (simp add: replay_def loggable_def batch_payload_def decode_encode_payload)
qed (simp add: replay_def)

lemma recover_wal_prefix:
  assumes "list_all loggable bs" and "content_of e p = Some (take n (log_image (crc32c X) bs))" and "env_faults e = []"
  shows "\<exists>m\<le>length bs. recover_wal X p st e = (Inr (replay X (take m bs) st), e) \<and>
    length (log_image (crc32c X) (take m bs)) \<le> n \<and>
    (m < length bs \<longrightarrow> n < length (log_image (crc32c X) (take (Suc m) bs)))"
proof -
  obtain f where f: "env_files e p = Some f" "file_content f = take n (log_image (crc32c X) bs)"
    using assms(2) by (auto simp: content_of_def)
  let ?g = "\<lparr>rf_content = file_content f, rf_pos = 0, rf_chunk = read_chunk e\<rparr>"
  have "list_all payload_ok (map batch_payload bs)"
    using assms(1) by (auto simp: list_all_iff payload_ok_batch)
  from wal_parse_torn [OF this, of "crc32c X" n] obtain m where m: "m \<le> length bs"
    "wal_parse (crc32c X) (rf_rest ?g) = (map batch_payload (take m bs), None)"
    "length (log_image (crc32c X) (take m bs)) \<le> n"
    "m < length bs \<longrightarrow> n < length (log_image (crc32c X) (take (Suc m) bs))"
    by (auto simp: rf_rest_def f(2) take_map)
  have "list_all loggable (take m bs)" using assms(1) by (auto simp: list_all_iff dest: in_set_takeD)
  from fold_replay [OF this, of X st] have "recover_wal X p st e = (Inr (replay X (take m bs) st), e)"
    by (simp add: recover_wal_def op_then_def op_lift_def open_readable_def assms(3) f(1) wal_fold_parse m(2))
  with m show ?thesis by blast
qed

lemma apply_items_replay:
  "apply_items X items flushing d = (False, d') \<Longrightarrow>
   db_immutables d' = db_immutables d \<and> (db_mutable d', db_last_sequence d') =
     replay X (map (\<lambda>i. (gw_start_sequence i, gw_batch i)) items) (db_mutable d, db_last_sequence d)"
proof (induction items arbitrary: flushing d)
  case (Cons i items)
  let ?d1 = "db_apply_batch X (gw_start_sequence i) (gw_batch i) d"
  obtain frozen d2 where f: "freeze_mutable_if_needed X ?d1 = (frozen, d2)" by fastforce
  have flags: "apply_items X is b d = (False, d') \<Longrightarrow> \<not> b" for "is" b d
    by (induction "is" arbitrary: b d) (auto split: prod.splits)
  have run: "apply_items X items (flushing \<or> frozen) d2 = (False, d')" using Cons.prems f by simp
  then have "\<not> frozen" using flags by blast
  with f have "d2 = ?d1" by (auto simp: freeze_mutable_if_needed_def split: if_splits)
  with Cons.IH [OF run] show ?case
    by (auto simp: replay_def db_apply_batch_def split: prod.splits)
qed (simp add: replay_def)

lemma logged_payloads_all:
  "\<forall>i\<in>set items. \<not> wo_disable_wal (gw_opts i) \<Longrightarrow>
   logged_payloads items = map batch_payload (map (\<lambda>i. (gw_start_sequence i, gw_batch i)) items)"
  by (simp add: logged_payloads_def batch_payload_def)

lemma replay_append: "replay X (as @ bs) st = replay X bs (replay X as st)"
  by (simp add: replay_def)

lemma apply_items_store: "apply_items X items flushing d = (r, d') \<Longrightarrow> same_store d d'"
proof (induction items arbitrary: flushing d)
  case (Cons i items)
  let ?d1 = "db_apply_batch X (gw_start_sequence i) (gw_batch i) d"
  obtain frozen d2 where f: "freeze_mutable_if_needed X ?d1 = (frozen, d2)" by fastforce
  then have "same_store d d2"
    by (auto simp: freeze_mutable_if_needed_def db_apply_batch_def same_store_def split: if_splits prod.splits)
  moreover have "same_store d2 d'" using Cons.IH [of "flushing \<or> frozen" d2] Cons.prems f by simp
  ultimately show ?case by (rule same_store_trans)
qed simp

lemma assign_sequences_opts: "i \<in> set (assign_sequences s items) \<Longrightarrow> \<exists>j\<in>set items. gw_opts i = gw_opts j"
  by (induction items arbitrary: s) fastforce+

lemma write_group_replays:
  fixes items :: "group_write_item list" and X :: "'m externs" and d :: "'m db"
  defines "new \<equiv> map (\<lambda>i. (gw_start_sequence i, gw_batch i)) (assign_sequences (db_last_sequence d + 1) items)"
  assumes rep: "replays X d bs" and run: "apply_write_group_to_memtable X items d = (Inr False, d')"
    and logged: "wal_enabled (db_options d)" "\<forall>i\<in>set items. \<not> wo_disable_wal (gw_opts i)" and fit: "list_all loggable new"
  shows "replays X d' (bs @ new)"
proof -
  let ?items = "assign_sequences (db_last_sequence d + 1) items"
  have opened: "\<not> db_closed d" using run by (auto simp: apply_write_group_to_memtable_def)
  from run opened obtain d1 where l: "log_group X ?items d = (Inr (), d1)" and i: "apply_items X ?items False d1 = (False, d')"
    by (auto elim: write_group_split)
  from log_group_ok [OF l] logged(1) have d1: "keeps {db_wal d} d d1" "db_versions d1 = db_versions d"
    "log_grown (crc32c X) (db_wal d) (logged_payloads ?items) (db_env d) (db_env d1)" by simp_all
  have "logged_payloads ?items = map batch_payload new"
    unfolding new_def using logged(2) by (intro logged_payloads_all) (auto dest: assign_sequences_opts)
  then have "content_of (db_env d1) (db_wal d) = Some (log_image (crc32c X) (bs @ new))"
    using d1(3) rep by (simp add: log_grown_def replays_def)
  moreover from apply_items_replay [OF i] have "(db_mutable d', db_last_sequence d') =
      replay X new (db_mutable d, db_last_sequence d)"
    by (simp add: new_def keeps_sel [OF d1(1)])
  ultimately show ?thesis
    using rep fit keeps_sel [OF d1(1)] same_store_sel [OF apply_items_store [OF i]] d1(2)
    by (simp add: replays_def replay_append)
qed

lemma replays_recover:
  assumes "replays X d bs" and "env_faults (db_env d) = []"
  shows "recover_wal X (db_wal d) (mem_new X (opt_memtable_kind (db_options d)), vs_last_sequence (db_versions d)) (db_env d) =
    (Inr (db_mutable d, db_last_sequence d), db_env d)"
proof -
  let ?st = "(mem_new X (opt_memtable_kind (db_options d)), vs_last_sequence (db_versions d))"
    and ?n = "length (log_image (crc32c X) bs)"
  from assms(1) have "content_of (db_env d) (db_wal d) = Some (take ?n (log_image (crc32c X) bs))" "list_all loggable bs"
    by (simp_all add: replays_def)
  from recover_wal_prefix [OF this(2,1) assms(2), of ?st] obtain m where m: "m \<le> length bs"
    "recover_wal X (db_wal d) ?st (db_env d) = (Inr (replay X (take m bs) ?st), db_env d)"
    "m < length bs \<longrightarrow> ?n < length (log_image (crc32c X) (take (Suc m) bs))" by blast
  have "length (log_image (crc32c X) (take k bs)) \<le> ?n" for k
  proof -
    have "log_image (crc32c X) bs = log_image (crc32c X) (take k bs) @ log_image (crc32c X) (drop k bs)"
      by (metis append_take_drop_id concat_append map_append)
    then show ?thesis by simp
  qed
  with m(3) have "\<not> m < length bs" by (metis not_less)
  with m assms(1) show ?thesis by (simp add: replays_def)
qed

subsection \<open>Properties\<close>

text \<open>A database that has just been made, with an empty log.\<close>

definition demo_fresh :: "entry list db" where
  "demo_fresh = demo_db\<lparr>db_mutable := mem_new demo_externs KindBTree, db_immutables := [], db_last_sequence := 0,
     db_versions := demo_version_set, db_env := set_file (path_join ''d'' (wal_file_name 0)) (Some empty_file) demo_manifest_env\<rparr>"

definition demo_items :: "group_write_item list" where
  "demo_items = group_items [(\<lparr>records = [BatchPut [1] [7], BatchDelete [2]]\<rparr>, default_write_options)]"

lemma demo_fresh_sel:
  "db_path demo_fresh = ''d''" "db_options demo_fresh = default_options" "db_mutable demo_fresh = mem_new demo_externs KindBTree"
  "db_immutables demo_fresh = []" "db_l0_tables demo_fresh = []" "db_level_tables demo_fresh = [[], [], [], [], [], [], []]"
  "db_last_sequence demo_fresh = 0" "\<not> db_closed demo_fresh" "db_versions demo_fresh = demo_version_set"
  "db_wal demo_fresh = path_join ''d'' (wal_file_name 0)"
  "db_block_cache demo_fresh = db_block_cache demo_db" "db_table_cache demo_fresh = db_table_cache demo_db"
  "env_faults (db_env demo_fresh) = []" "content_of (db_env demo_fresh) (path_join ''d'' (wal_file_name 0)) = Some []"
  by (simp_all add: demo_fresh_def demo_db_def demo_manifest_env_def set_file_def content_of_def empty_file_def)

lemma demo_fresh_entries: "layers demo_externs Map.empty demo_fresh = [[], [], [], [], [], [], []]"
  by (simp add: layers_def mem_layers_def l0_layers_def level_layers_def demo_fresh_sel
      externals.mem_entries_new [OF demo_ok(1)])

lemma demo_fresh_ok: "readable demo_externs Map.empty demo_fresh" "wal_ok demo_fresh"
  using demo_readable
  by (simp_all add: readable_def mems_ok_def refs_ok_def all_refs_def caches_ok_def layers_ok_layered demo_fresh_entries
      demo_fresh_sel externals.mem_entries_new [OF demo_ok(1)] layered_def distinct_versions_def level_disjoint_def wal_ok_def)
    (simp add: demo_db_def)


lemma demo_group:
  obtains b d' where "apply_write_group_to_memtable demo_externs demo_items demo_fresh = (Inr b, d')"
    "group_records demo_items = [BatchPut [1] [7], BatchDelete [2]]"
    "unat (db_last_sequence demo_fresh) + length (group_records demo_items) < 2 ^ 64"
proof -
  have rs: "group_records demo_items = [BatchPut [1] [7], BatchDelete [2]]"
    by (simp add: demo_items_def group_items_def group_records_def)
  obtain r d' where run: "apply_write_group_to_memtable demo_externs demo_items demo_fresh = (r, d')" by fastforce
  from run demo_fresh_sel(8) obtain b where "r = Inr b"
  proof (cases rule: write_group_split)
    case (fail e)
    with log_group_faultless [OF demo_fresh_sel(13), of demo_externs "assign_sequences (db_last_sequence demo_fresh + 1) demo_items"]
    show ?thesis by auto
  qed blast
  with that run rs show ?thesis by (simp add: demo_fresh_sel)
qed



lemma demo_not_frozen:
  assumes "apply_items demo_externs (assign_sequences 1 demo_items) False d1 = (b, d')"
    and "db_mutable d1 = mem_new demo_externs KindBTree" and "db_options d1 = default_options" and "db_last_sequence d1 = 0"
  shows "\<not> b"
  using assms
  by (simp add: demo_items_def group_items_def freeze_mutable_if_needed_def db_apply_batch_def mem_new_def bt_defs
      size_of_internal_key_def default_options_def)


text \<open>
  C18: recovery from a log that a crash has cut at any byte replays a prefix of the logged
  batches: every batch whose record is complete, and no part of a batch.
\<close>

theorem recovery_replays_prefix:
  assumes "list_all loggable bs" and "content_of e p = Some (take n (log_image (crc32c X) bs))" and "env_faults e = []"
  shows "\<exists>m\<le>length bs. recover_wal X p st e = (Inr (replay X (take m bs) st), e) \<and>
    length (log_image (crc32c X) (take m bs)) \<le> n \<and>
    (m < length bs \<longrightarrow> n < length (log_image (crc32c X) (take (Suc m) bs)))"
  using assms by (rule recover_wal_prefix)

definition demo_torn_env :: env where
  "demo_torn_env = set_file ''w'' (Some \<lparr>file_content = take 3 (log_image (crc32c demo_externs) [(1, \<lparr>records = [BatchDelete [2]]\<rparr>)]),
     file_synced = 0\<rparr>) demo_env"

theorem recovery_replays_prefix_witness:
  "recover_wal demo_externs ''w'' (mem_new demo_externs KindBTree, 0) demo_torn_env =
     (Inr (mem_new demo_externs KindBTree, 0), demo_torn_env)"
proof -
  let ?bs = "[(1, \<lparr>records = [BatchDelete [2]]\<rparr>)] :: (u64 \<times> write_batch) list"
  have "list_all loggable ?bs"
    by (simp add: loggable_def batch_encodable_def batch_payload_def encode_with_sequence_eq put_var_u32_def put_var_u64.simps)
  moreover have "content_of demo_torn_env ''w'' = Some (take 3 (log_image (crc32c demo_externs) ?bs))" "env_faults demo_torn_env = []"
    by (simp_all add: demo_torn_env_def content_of_def demo_env_def)
  ultimately obtain m where "m \<le> length ?bs" "length (log_image (crc32c demo_externs) (take m ?bs)) \<le> 3"
    "recover_wal demo_externs ''w'' (mem_new demo_externs KindBTree, 0) demo_torn_env =
      (Inr (replay demo_externs (take m ?bs) (mem_new demo_externs KindBTree, 0)), demo_torn_env)"
    using recovery_replays_prefix [of ?bs demo_torn_env "''w''" 3 demo_externs] by blast
  moreover from this(1,2) have "m = 0" by (cases m) (simp_all add: batch_payload_def)
  ultimately show ?thesis by (simp add: replay_def)
qed

end
