(* ===== verification/Database_Flush.thy ===== *)
theory Database_Flush
  imports Database_Writes
begin

section \<open>Flushes\<close>

text \<open>
  A flush writes the oldest memtable as a new table of level 0, logs it in the manifest and
  starts a new log.  The new file gets a number no table has had, so its blocks are not in
  the block cache and its file is none of those in use; its entries take the place of the
  memtable's in the order of the layers.  Whatever call fails, the memtable is put back.
\<close>

subsection \<open>New table numbers\<close>

lemma tabs_of_upd: "tabs_of (G(n \<mapsto> (c, idx, es))) = (tabs_of G)(n \<mapsto> (c, idx))"
  by (auto simp: tabs_of_def fun_eq_iff)

lemma reader_ok_upd: "reader_ok G dir m rd \<Longrightarrow> G n = None \<Longrightarrow> reader_ok (G(n \<mapsto> v)) dir m rd"
  by (auto simp: reader_ok_def)

lemma cache_coherent_upd:
  assumes "cache_coherent X tabs (Some bc)" and "tabs n = None"
  shows "cache_coherent X (tabs(n \<mapsto> v)) (Some bc)"
proof -
  have "map_of (bc_blocks bc) (n, off) = None" for off
    using cache_coherent_tabs [OF assms(1), of n off] assms(2) by (cases "map_of (bc_blocks bc) (n, off)") auto
  with assms(1) show ?thesis unfolding cache_coherent_def by (auto split: if_splits)
qed

lemma caches_ok_upd:
  assumes "caches_ok X G d" and "G n = None"
  shows "caches_ok X (G(n \<mapsto> (c, idx, es))) d"
proof -
  have "cache_coherent X (tabs_of (G(n \<mapsto> (c, idx, es)))) (Some (db_block_cache d))"
    unfolding tabs_of_upd using assms by (intro cache_coherent_upd) (simp_all add: caches_ok_def tabs_of_def)
  with assms show ?thesis by (simp add: caches_ok_def reader_ok_upd)
qed

lemma table_ok_upd: "table_ok X G e dir m \<Longrightarrow> G n = None \<Longrightarrow> table_ok X (G(n \<mapsto> v)) e dir m"
  by (auto simp: table_ok_def)

lemma ref_upd:
  assumes "ref_ok X G e dir ref" and "G n = None"
  shows "ref_ok X (G(n \<mapsto> v)) e dir ref" and "ref_ents (G(n \<mapsto> v)) ref = ref_ents G ref"
proof -
  from assms have "fm_number (fst ref) \<noteq> n" by (auto simp: ref_ok_def table_ok_def)
  then show ents: "ref_ents (G(n \<mapsto> v)) ref = ref_ents G ref" by (simp add: ref_ents_def ents_of_def)
  from assms show "ref_ok X (G(n \<mapsto> v)) e dir ref"
    by (simp add: ref_ok_def ents table_ok_upd reader_ok_upd)
qed

lemma refs_upd:
  assumes "refs_ok X G d" and "G n = None"
  shows "refs_ok X (G(n \<mapsto> v)) d" and "l0_layers (G(n \<mapsto> v)) d = l0_layers G d"
    and "level_layers (G(n \<mapsto> v)) d = level_layers G d"
proof -
  have ref: "ref_ok X G (db_env d) (db_path d) ref" if "ref \<in> set (all_refs d)" for ref
    using assms(1) that by (simp add: refs_ok_def)
  with assms show "refs_ok X (G(n \<mapsto> v)) d" by (simp add: refs_ok_def ref_upd)
  show "l0_layers (G(n \<mapsto> v)) d = l0_layers G d"
    by (auto simp: l0_layers_def all_refs_def intro!: ref_upd(2) [OF ref assms(2)])
  show "level_layers (G(n \<mapsto> v)) d = level_layers G d"
    unfolding level_layers_def
  proof (intro map_cong refl arg_cong [of _ _ concat])
    fix level r assume "level \<in> set (drop 1 (db_level_tables d))" "r \<in> set level"
    then show "ref_ents (G(n \<mapsto> v)) r = ref_ents G r"
      by (intro ref_upd(2) [OF ref assms(2)]) (auto simp: all_refs_def dest: in_set_dropD)
  qed
qed

subsection \<open>The metadata of a table\<close>

lemma sequence_range_bounds:
  "\<exists>lo hi. sequence_range ss (Some (a, b)) = Some (lo, hi) \<and> lo \<le> a \<and> b \<le> hi \<and> (\<forall>s\<in>set ss. lo \<le> s \<and> s \<le> hi)"
proof (induction ss arbitrary: a b)
  case (Cons s ss)
  from Cons.IH [of "min a s" "max b s"] show ?case by auto
qed simp

lemma sequence_range_some:
  assumes "es \<noteq> []"
  obtains lo hi where "sequence_range (map (sequence \<circ> fst) es) None = Some (lo, hi)"
    and "\<forall>e\<in>set es. lo \<le> sequence (fst e) \<and> sequence (fst e) \<le> hi"
proof -
  from assms obtain e es' where es: "es = e # es'" by (cases es) auto
  with sequence_range_bounds [of "map (sequence \<circ> fst) es'" "sequence (fst e)" "sequence (fst e)"] that show ?thesis
    by auto
qed

lemma reader_for_keys:
  assumes "es \<noteq> []"
  shows "reader_smallest_key (reader_for es idx p) = Some (fst (hd es))"
    and "reader_largest_key (reader_for es idx p) = Some (fst (last es))"
  using assms by (simp_all add: reader_smallest_key_def reader_largest_key_def reader_for_def properties_of_def
      opt_hd_def opt_last_def list.case_eq_if)

lemma file_meta_outcome:
  assumes t: "table_with X c es idx blks" and c: "content_of e p = Some c" and ne: "es \<noteq> []"
    and run: "file_meta_from_table X n sz (reader_for es idx p) e = (r, e')"
  shows "env_files e' = env_files e \<and> (\<forall>m. r = Inr m \<longrightarrow> meta_of es m \<and> fm_number m = n)"
proof -
  obtain r1 e1 c1 where ent: "entries_with_cache X (reader_for es idx p) 0 True (e, None) = (r1, (e1, c1))"
    by (metis surj_pair)
  from entries_with_cache_outcome [OF t c _ _ ent, of "\<lambda>_. Some (c, idx)"]
  have files: "env_files e1 = env_files e" and r1: "r1 = Inr es \<or> r1 = Inl (Io OtherIo)" by auto
  obtain lo hi where range: "sequence_range (map (sequence \<circ> fst) es) None = Some (lo, hi)"
    "\<forall>x\<in>set es. lo \<le> sequence (fst x) \<and> sequence (fst x) \<le> hi" by (rule sequence_range_some [OF ne])
  from run ent files r1 range reader_for_keys [OF ne] ne show ?thesis
    by (auto simp: file_meta_from_table_def reader_entries_def op_then_def op_lift_def meta_of_def)
qed

subsection \<open>Writing a table\<close>

text \<open>The part that writing a table of level 0 and a table of a compaction have in common.\<close>

abbreviation open_new_table :: "'m externs \<Rightarrow> u64 \<Rightarrow> path \<Rightarrow> (u64 \<Rightarrow> metrics \<Rightarrow> metrics) \<Rightarrow>
  'm db \<Rightarrow> (sstable_reader \<times> file_meta) result \<times> 'm db" where
  "open_new_table X n p f \<equiv>
     op_then (on_env (metadata_len p)) (\<lambda>file_size.
     op_then (metric (f file_size)) (\<lambda>_.
     op_then (on_tables (get_or_open X n p)) (\<lambda>reader.
     op_then (on_env (file_meta_from_table X n file_size reader)) (\<lambda>meta.
       op_lift (Inr (reader, meta))))))"

lemma keeps_caches_ok:
  "keeps P d d' \<Longrightarrow> db_table_cache d' = db_table_cache d \<Longrightarrow> caches_ok X G d \<Longrightarrow> caches_ok X G d'"
  by (simp add: caches_ok_def keeps_sel(1,9))

text \<open>What is known of a table that is being added under a new number.\<close>

definition new_table :: "'m externs \<Rightarrow> ghost \<Rightarrow> u64 \<Rightarrow> bytes \<Rightarrow> index_entry list \<Rightarrow> entry list \<Rightarrow> 'm db \<Rightarrow> bool" where
  "new_table X G n c idx es d \<longleftrightarrow> (\<exists>blks. table_with X c es idx blks) \<and> content_of (db_env d) (table_path (db_path d) n) = Some c \<and>
     G n = None \<and> sorted_entries es \<and> es \<noteq> [] \<and> length es * DEFAULT_BITS_PER_KEY < 2 ^ 32"

lemma new_table_uncached:
  assumes "caches_ok X G d" and "G n = None"
  shows "map_of (tc_tables (db_table_cache d)) n = None"
proof (rule ccontr)
  assume "map_of (tc_tables (db_table_cache d)) n \<noteq> None"
  then obtain rd where "map_of (tc_tables (db_table_cache d)) n = Some rd" by blast
  with assms(1) have "reader_ok G (db_path d) n rd" by (simp add: caches_ok_def)
  with assms(2) show False by (simp add: reader_ok_def)
qed

lemma get_or_open_new:
  assumes new: "new_table X G n c idx es d" and caches: "caches_ok X G d"
    and run: "on_tables (get_or_open X n (table_path (db_path d) n)) d = (r, d')"
  shows "keeps {} d d' \<and> db_versions d' = db_versions d \<and> caches_ok X (G(n \<mapsto> (c, idx, es))) d' \<and>
    (\<forall>rd. r = Inr rd \<longrightarrow> rd = reader_for es idx (table_path (db_path d) n))"
proof -
  let ?p = "table_path (db_path d) n" and ?G = "G(n \<mapsto> (c, idx, es))"
  from new obtain blks where t: "table_with X c es idx blks" and c: "content_of (db_env d) ?p = Some c" and n: "G n = None"
    by (auto simp: new_table_def)
  note none = new_table_uncached [OF caches n]
  obtain r1 e1 where o: "reader_open_with_env X ?p (db_env d) = (r1, e1)" by fastforce
  from reader_open_outcome [OF t c o] have e1: "env_files e1 = env_files (db_env d)"
    and r1: "r1 = Inl (Io OtherIo) \<or> r1 = Inr (reader_for es idx ?p)" by auto
  note caches' = caches_ok_upd [OF caches n, of c idx es]
  have other: "reader_ok ?G (db_path d) m rd" if "map_of (evict_if_full pk k (tc_tables (db_table_cache d))) m = Some rd" for m rd pk k
    using caches' map_of_evict [OF that] by (simp add: caches_ok_def)
  have new_rd: "reader_ok ?G (db_path d) n (reader_for es idx ?p)" by (auto simp: reader_ok_def)
  from r1 run none o e1 caches' show ?thesis
    by (elim disjE) (auto simp: on_tables_def get_or_open_def keeps_def caches_ok_def map_of_hash_insert
        split: if_splits intro: other new_rd)
qed

lemma open_new_table_ok:
  assumes new: "new_table X G n c idx es d" and caches: "caches_ok X G d"
    and run: "open_new_table X n (table_path (db_path d) n) f d = (r, d')"
  shows "keeps {} d d' \<and> db_versions d' = db_versions d \<and> caches_ok X (G(n \<mapsto> (c, idx, es))) d' \<and>
    (\<forall>rd m. r = Inr (rd, m) \<longrightarrow> fm_number m = n \<and> ref_ok X (G(n \<mapsto> (c, idx, es))) (db_env d') (db_path d) (m, rd))"
proof -
  let ?p = "table_path (db_path d) n" and ?G = "G(n \<mapsto> (c, idx, es))"
  have n: "G n = None" using new by (simp add: new_table_def)
  obtain r1 d1 where s1: "on_env (metadata_len ?p) d = (r1, d1)" by fastforce
  from keeps_on_env [OF touches_metadata_len s1, of "{}"] have d1: "keeps {} d d1" "db_versions d1 = db_versions d"
    "db_table_cache d1 = db_table_cache d" by simp_all
  have c1: "caches_ok X ?G d1" using keeps_caches_ok [OF d1(1,3) caches] n by (rule caches_ok_upd)
  show ?thesis
  proof (cases r1)
    case (Inl x)
    with run s1 d1 c1 show ?thesis by (auto simp: op_then_def)
  next
    case (Inr size1)
    obtain r2 d2 where s2: "metric (f size1) d1 = (r2, d2)" by fastforce
    from keeps_metric [OF s2, of "{}"] d1 have d2: "keeps {} d d2" "db_versions d2 = db_versions d"
      "db_table_cache d2 = db_table_cache d" "r2 = Inr ()" by (auto intro: keeps_trans)
    have new2: "new_table X G n c idx es d2"
      using new keeps_sel(1,12) [OF d2(1)] by (simp add: new_table_def content_of_def)
    have dir2: "db_path d2 = db_path d" by (rule keeps_sel(1) [OF d2(1)])
    obtain r3 d3 where s3: "on_tables (get_or_open X n ?p) d2 = (r3, d3)" by fastforce
    from get_or_open_new [OF new2 keeps_caches_ok [OF d2(1,3) caches], unfolded dir2, OF s3] d2
    have d3: "keeps {} d d3" "db_versions d3 = db_versions d" "caches_ok X ?G d3"
      "\<And>rd. r3 = Inr rd \<Longrightarrow> rd = reader_for es idx ?p" by (auto intro: keeps_trans)
    show ?thesis
    proof (cases r3)
      case (Inl x)
      with run s1 \<open>r1 = Inr size1\<close> s2 d2(4) s3 d3 show ?thesis by (auto simp: op_then_def)
    next
      case r3: (Inr rd)
      with d3(4) have rd: "rd = reader_for es idx ?p" by simp
      have new3: "new_table X G n c idx es d3"
        using new keeps_sel(1,12) [OF d3(1)] by (simp add: new_table_def content_of_def)
      then obtain blks where t: "table_with X c es idx blks" and c3: "content_of (db_env d3) ?p = Some c" and ne: "es \<noteq> []"
        by (auto simp: new_table_def keeps_sel(1) [OF d3(1)])
      obtain r4 e4 where s4: "file_meta_from_table X n size1 rd (db_env d3) = (r4, e4)" by fastforce
      from file_meta_outcome [OF t c3 ne s4 [unfolded rd]] have e4: "env_files e4 = env_files (db_env d3)"
        and meta: "\<And>m. r4 = Inr m \<Longrightarrow> meta_of es m \<and> fm_number m = n" by auto
      have d': "d' = d3\<lparr>db_env := e4\<rparr>" "r = (case r4 of Inl x \<Rightarrow> Inl x | Inr m \<Rightarrow> Inr (rd, m))"
        using run s1 \<open>r1 = Inr size1\<close> s2 d2(4) s3 r3 s4
        by (auto simp: op_then_def on_env_def op_lift_def split: sum.splits)
      have k: "keeps {} d3 d'" using e4 by (simp add: d'(1) keeps_def)
      have "keeps {} d d'" using d3(1) k by (rule keeps_trans)
      moreover have "caches_ok X ?G d'" using keeps_caches_ok [OF k _ d3(3)] by (simp add: d'(1))
      moreover have "ref_ok X ?G (db_env d') (db_path d) (m, rd)" if "r4 = Inr m" for m
        using meta [OF that] new3 e4 keeps_sel(1) [OF d3(1)]
        by (auto simp: ref_ok_def table_ok_def ref_ents_def ents_of_def reader_ok_def rd new_table_def d'(1) content_of_def)
      ultimately show ?thesis using d3(2) meta by (auto simp: d' split: sum.splits)
    qed
  qed
qed

lemma touches_reader_open [touch_intros]: "touches P (reader_open_with_env X p)"
  unfolding reader_open_with_env_def Let_def by (auto intro!: touch_intros)

lemma touches_file_meta [touch_intros]: "touches P (file_meta_from_table X n file_size rd)"
proof -
  have "touches P (reader_entries X rd)"
    using touchesD [OF touches_open_readable]
    by (auto simp: touches_def reader_entries_def entries_with_cache_def with_file_def split: prod.splits sum.splits)
  then show ?thesis unfolding file_meta_from_table_def by (intro touch_intros)
qed

lemma open_new_table_files:
  assumes "open_new_table X n p f d = (r, d')"
  shows "env_files (db_env d') = env_files (db_env d)"
proof -
  have env: "env_files (db_env d2) = env_files (db_env d1)" if "on_env m d1 = (x, d2)" "touches {} m" for m x d1 d2
    using keeps_on_env [OF that(2,1)] by (auto simp: keeps_def fun_eq_iff)
  have met: "env_files (db_env d2) = env_files (db_env d1)" if "metric g d1 = (x, d2)" for g x d1 d2
    using keeps_metric [OF that] by auto
  have tab: "env_files (db_env d2) = env_files (db_env d1)" if "on_tables (get_or_open X n p) d1 = (x, d2)" for x d1 d2
    using that touchesD [OF touches_reader_open [of "{}" X p], of "db_env d1"]
    by (auto simp: on_tables_def get_or_open_def fun_eq_iff split: prod.splits sum.splits option.splits)
  from assms show ?thesis
    by (auto elim!: op_thenE simp: op_lift_def dest!: met tab env [OF _ touches_metadata_len] env [OF _ touches_file_meta])
qed

abbreviation write_table :: "'m externs \<Rightarrow> u64 \<Rightarrow> path \<Rightarrow> nat \<Rightarrow> compression_type \<Rightarrow> entry list \<Rightarrow> (u64 \<Rightarrow> metrics \<Rightarrow> metrics) \<Rightarrow>
  'm db \<Rightarrow> (sstable_reader \<times> file_meta) result \<times> 'm db" where
  "write_table X n dir bs cm es f \<equiv>
     op_then (on_env (build_table X (path_join dir (table_file_name n @ ''.tmp'')) bs cm es)) (\<lambda>_.
     op_then (on_env (env_rename (path_join dir (table_file_name n @ ''.tmp'')) (table_path dir n))) (\<lambda>_.
       open_new_table X n (table_path dir n) f))"

definition table_fits :: "entry list \<Rightarrow> bool" where
  "table_fits es \<longleftrightarrow> list_all entry_ok es \<and> length es * DEFAULT_BITS_PER_KEY < 2 ^ 32"

text \<open>\<open>G'\<close> knows at most one table more than \<open>G\<close>, with the given number and entries.\<close>

definition grows :: "ghost \<Rightarrow> u64 \<Rightarrow> entry list \<Rightarrow> ghost \<Rightarrow> bool" where
  "grows G n es G' \<longleftrightarrow> G' = G \<or> G n = None \<and> (\<exists>c idx. G' = G(n \<mapsto> (c, idx, es)))"

lemma write_table_ok:
  assumes X: "externals X" and caches: "caches_ok X G d" and n: "G n = None"
    and es: "table_fits es" "sorted_entries es" "es \<noteq> []" and dir: "dir = db_path d"
    and run: "write_table X n dir bs cm es f d = (r, d')"
    and fit: "\<And>c. content_of (db_env d') (table_path dir n) = Some c \<Longrightarrow> length c < 2 ^ 64"
  shows "\<exists>G'. grows G n es G' \<and> keeps {path_join dir (table_file_name n @ ''.tmp''), table_path dir n} d d' \<and>
    db_versions d' = db_versions d \<and> caches_ok X G' d' \<and>
    (\<forall>rd m. r = Inr (rd, m) \<longrightarrow> ents_of G' n = es \<and> fm_number m = n \<and> ref_ok X G' (db_env d') dir (m, rd))"
proof -
  let ?tmp = "path_join dir (table_file_name n @ ''.tmp'')" and ?p = "table_path dir n"
  let ?P = "{?tmp, ?p}"
  have grows: "grows G n es G" "grows G n es (G(n \<mapsto> (c, idx, es)))" for c idx using n by (auto simp: grows_def)
  obtain r1 d1 where s1: "on_env (build_table X ?tmp bs cm es) d = (r1, d1)" by fastforce
  have "touches ?P (build_table X ?tmp bs cm es)" by (intro touch_intros) simp
  from keeps_on_env [OF this s1] have d1: "keeps ?P d d1" "db_versions d1 = db_versions d" "db_table_cache d1 = db_table_cache d"
    and build: "build_table X ?tmp bs cm es (db_env d) = (r1, db_env d1)" by simp_all
  show ?thesis
  proof (cases r1)
    case (Inl x)
    with run s1 have "r = Inl x" "d' = d1" by (auto simp: op_then_def)
    with d1 keeps_caches_ok [OF d1(1,3) caches] grows(1) show ?thesis by auto
  next
    case (Inr u)
    obtain r2 d2 where s2: "on_env (env_rename ?tmp ?p) d1 = (r2, d2)" by fastforce
    have "touches ?P (env_rename ?tmp ?p)" by (intro touch_intros) simp_all
    from keeps_on_env [OF this s2] d1 have d2: "keeps ?P d d2" "db_versions d2 = db_versions d" "db_table_cache d2 = db_table_cache d"
      and rename: "env_rename ?tmp ?p (db_env d1) = (r2, db_env d2)" by (auto intro: keeps_trans)
    note caches2 = keeps_caches_ok [OF d2(1,3) caches]
    show ?thesis
    proof (cases r2)
      case (Inl x)
      with run s1 \<open>r1 = Inr u\<close> s2 have "r = Inl x" "d' = d2" by (auto simp: op_then_def)
      with d2 caches2 grows(1) show ?thesis by auto
    next
      case r2: (Inr u')
      have open': "open_new_table X n ?p f d2 = (r, d')"
        using run s1 \<open>r1 = Inr u\<close> s2 r2 by (simp add: op_then_Inr)
      have moved: "content_of (db_env d2) ?p = content_of (db_env d1) ?tmp"
        using env_rename_ok [of ?tmp ?p "db_env d1" u' "db_env d2"] rename r2 by (simp add: content_of_def)
      have "length c < 2 ^ 64" if "content_of (db_env d1) ?tmp = Some c" for c
        using that unfolding moved [symmetric] content_of_files [OF open_new_table_files [OF open'], symmetric] by (rule fit)
      from externals.build_table_file [OF X es(1) [unfolded table_fits_def, THEN conjunct1]
          es(1) [unfolded table_fits_def, THEN conjunct2] build [unfolded Inr] this]
      obtain c idx blks where c: "content_of (db_env d1) ?tmp = Some c" "table_with X c es idx blks"
        by (auto simp: table_file_def)
      have new: "new_table X G n c idx es d2"
        using c moved n es keeps_sel(1) [OF d2(1)] by (auto simp: new_table_def dir table_fits_def)
      from open_new_table_ok [OF new caches2] open' keeps_sel(1) [OF d2(1)]
      have "keeps {} d2 d'" "db_versions d' = db_versions d2" "caches_ok X (G(n \<mapsto> (c, idx, es))) d'"
        "\<forall>rd m. r = Inr (rd, m) \<longrightarrow> fm_number m = n \<and> ref_ok X (G(n \<mapsto> (c, idx, es))) (db_env d') dir (m, rd)"
        by (simp_all add: dir)
      moreover from this(1) have "keeps ?P d d'" using d2(1) keeps_trans keeps_mono by blast
      ultimately show ?thesis using d2 grows(2) [of c idx] by (intro exI [of _ "G(n \<mapsto> (c, idx, es))"]) (simp add: ents_of_def)
    qed
  qed
qed

subsection \<open>Publishing a table\<close>

definition meta_paths :: "path \<Rightarrow> path set" where
  "meta_paths dir = range (\<lambda>k. path_join dir (manifest_file_name k)) \<union> range (\<lambda>k. path_join dir (wal_file_name k))"

definition manifest_ok :: "'m db \<Rightarrow> bool" where
  "manifest_ok d \<longleftrightarrow> (\<forall>p. vs_manifest_writer (db_versions d) = Some p \<longrightarrow> p \<in> meta_paths (db_path d))"

abbreviation next_number :: "'m db \<Rightarrow> u64" where
  "next_number d \<equiv> vs_next_file_number (db_versions d)"

lemma table_path_inj [simp]: "table_path dir m = table_path dir n \<longleftrightarrow> m = n"
  by (simp add: table_path_def)

lemma table_not_meta: "table_path dir n \<notin> meta_paths dir"
  by (auto simp: meta_paths_def table_path_def)

lemma db_log_and_apply_ok:
  assumes "db_log_and_apply X edit d = (r, d')" and "manifest_ok d"
  shows "keeps (meta_paths (db_path d)) d d' \<and> db_table_cache d' = db_table_cache d \<and> manifest_ok d' \<and>
    next_number d \<le> next_number d' \<and>
    next_number d' \<le> max (next_number d) (case edit of AddFile _ m \<Rightarrow> fm_number m + 1 | NextFileNumber k \<Rightarrow> k
      | LogNumber k \<Rightarrow> k + 1 | _ \<Rightarrow> 0)"
proof -
  obtain e' vs' where l: "log_and_apply_state (crc32c X) edit (db_env d, db_versions d) = (r, (e', vs'))"
    and d': "d' = d\<lparr>db_env := e', db_versions := vs'\<rparr>"
    using assms(1) by (auto simp: db_log_and_apply_def on_versions_def split: prod.splits)
  have "env_files e' q = env_files (db_env d) q" if "q \<notin> meta_paths (db_path d)" for q
  proof (cases "vs_manifest_writer (db_versions d)")
    case None
    then show ?thesis using log_and_apply_files [OF l, of "q @ ''x''" q] by simp
  next
    case (Some p)
    with assms(2) that have "q \<noteq> p" by (auto simp: manifest_ok_def)
    with Some show ?thesis using log_and_apply_files [OF l, of p q] by simp
  qed
  moreover have "vs_next_file_number vs' \<le> max (next_number d) (case edit of AddFile _ m \<Rightarrow> fm_number m + 1
      | NextFileNumber k \<Rightarrow> k | LogNumber k \<Rightarrow> k + 1 | _ \<Rightarrow> 0)"
    using l by (cases edit) (auto simp: log_and_apply_state_def Let_def result_simps split: prod.splits sum.splits option.splits)
  ultimately show ?thesis
    using log_and_apply_writer [OF l] log_and_apply_next [OF l] assms(2) by (simp add: d' keeps_def manifest_ok_def)
qed

lemma next_less: "unat (k :: u64) + 1 < 2 ^ 64 \<Longrightarrow> k < k + 1"
  using u64_Suc(1) [of k 0] by simp

lemma less_next_le: "(n :: u64) < k \<Longrightarrow> n + 1 \<le> k"
  by (rule inc_le)

text \<open>The version set and the tables, whatever a call meets.\<close>

lemma write_l0_versions:
  fixes X :: "'m externs" and d d' :: "'m db"
  assumes "write_l0_table X mem n d = (r, d')"
  shows "db_versions d' = db_versions d \<and> db_path d' = db_path d"
proof -
  have same: "db_versions d2 = db_versions d1 \<and> db_path d2 = db_path d1"
    if "on_env m d1 = (x, d2) \<or> metric g d1 = (x', d2) \<or> on_tables m' d1 = (x'', d2)" for m x g x' m' x'' and d1 d2 :: "'m db"
    using that by (auto simp: on_env_def metric_def on_tables_def split: prod.splits)
  from assms show ?thesis
    by (auto simp: write_l0_table_def Let_def op_lift_def split: if_splits elim!: op_thenE dest!: same [OF disjI1]
        same [OF disjI2, OF disjI1] same [OF disjI2, OF disjI2])
qed

lemma publish_files:
  fixes X :: "'m externs" and d d' :: "'m db"
  assumes "publish_l0_table X meta s d = (r, d')" and "manifest_ok d"
  shows "env_files (db_env d') (table_path (db_path d) n) = env_files (db_env d) (table_path (db_path d) n)"
proof -
  have log: "env_files (db_env d2) (table_path dir n) = env_files (db_env d1) (table_path dir n) \<and> manifest_ok d2 \<and> db_path d2 = dir"
    if "db_log_and_apply X ed d1 = (x, d2)" "manifest_ok d1" "db_path d1 = dir" for ed x dir and d1 d2 :: "'m db"
    using db_log_and_apply_ok [OF that(1,2)] keeps_sel(1) [of _ d1 d2] keeps_sel(12) [of _ d1 d2] table_not_meta [of dir n] that(3)
    by auto
  have next': "manifest_ok d2"
    if "manifest_ok d1" "db_versions d2 = (db_versions d1)\<lparr>vs_next_file_number := k\<rparr>" "db_path d2 = dir" "db_path d1 = dir"
    for k dir and d1 d2 :: "'m db"
    using that by (simp add: manifest_ok_def)
  have wal: "env_files (db_env d2) (table_path dir n) = env_files (db_env d1) (table_path dir n) \<and>
      db_versions d2 = db_versions d1 \<and> db_path d2 = db_path d1"
    if "on_env (wal_writer_create (path_join dir (wal_file_name k))) d1 = (x, d2)" for k x dir and d1 d2 :: "'m db"
  proof -
    have "touches (meta_paths dir) (wal_writer_create (path_join dir (wal_file_name k)))"
      by (intro touch_intros) (simp add: meta_paths_def)
    from keeps_on_env [OF this that] show ?thesis
      using table_not_meta [of dir n] keeps_sel(1,12) [of "meta_paths dir" d1 d2] by auto
  qed
  show ?thesis using assms
    unfolding publish_l0_table_def
    by (auto elim!: op_thenE simp: db_allocate_file_number_def allocate_file_number_def dest!: log wal intro: next')
qed

lemma publish_ok:
  assumes ok: "manifest_ok d" and num: "fm_number meta < next_number d" "unat (next_number d) + 1 < 2 ^ 64"
    and run: "publish_l0_table X meta s d = (r, d')"
  shows "\<exists>d1. keeps (meta_paths (db_path d)) d d1 \<and> db_table_cache d1 = db_table_cache d \<and> manifest_ok d1 \<and>
    next_number d \<le> next_number d1 \<and>
    (if r = Inr () then \<exists>k. d' = d1\<lparr>db_wal := path_join (db_path d) (wal_file_name k)\<rparr> else d' = d1)"
proof -
  let ?P = "meta_paths (db_path d)"
  obtain r1 d1 where s1: "db_log_and_apply X (AddFile 0 meta) d = (r1, d1)" by fastforce
  from db_log_and_apply_ok [OF s1 ok] have d1: "keeps ?P d d1" "db_table_cache d1 = db_table_cache d" "manifest_ok d1"
    "next_number d1 = next_number d" using less_next_le [OF num(1)] by (auto simp: max_absorb1)
  show ?thesis
  proof (cases r1)
    case (Inl x)
    with run s1 have "r = Inl x \<and> d' = d1" by (simp add: publish_l0_table_def op_then_Inl)
    with d1 show ?thesis by (intro exI [of _ d1]) simp
  next
    case (Inr u1)
    obtain r2 d2 where s2: "db_log_and_apply X (LastSequence s) d1 = (r2, d2)" by fastforce
    from db_log_and_apply_ok [OF s2 d1(3)] d1 have d2: "keeps ?P d d2" "db_table_cache d2 = db_table_cache d" "manifest_ok d2"
      "next_number d2 = next_number d" by (auto simp: keeps_sel(1) [OF d1(1)] max_absorb1 intro: keeps_trans)
    show ?thesis
    proof (cases r2)
      case (Inl x)
      with run s1 Inr s2 have "r = Inl x \<and> d' = d2" by (simp add: publish_l0_table_def op_then_Inr op_then_Inl)
      with d2 show ?thesis by (intro exI [of _ d2]) simp
    next
      case r2: (Inr u2)
      let ?k = "next_number d"
      obtain d3 where s3: "db_allocate_file_number d2 = (Inr ?k, d3)"
        and d3: "d3 = d2\<lparr>db_versions := (db_versions d2)\<lparr>vs_next_file_number := ?k + 1\<rparr>\<rparr>"
        by (simp add: db_allocate_file_number_def allocate_file_number_def d2(4))
      have k3: "keeps ?P d d3" "db_table_cache d3 = db_table_cache d" "manifest_ok d3" "next_number d3 = ?k + 1"
        using d2 by (simp_all add: d3 keeps_def manifest_ok_def)
      let ?w = "path_join (db_path d) (wal_file_name ?k)"
      have dir3: "db_path d3 = db_path d" by (rule keeps_sel(1) [OF k3(1)])
      obtain r4 d4 where s4: "on_env (wal_writer_create ?w) d3 = (r4, d4)" by fastforce
      have "touches ?P (wal_writer_create ?w)" by (intro touch_intros) (simp add: meta_paths_def)
      from keeps_on_env [OF this s4] k3 have d4: "keeps ?P d d4" "db_table_cache d4 = db_table_cache d" "manifest_ok d4"
        "next_number d4 = ?k + 1" and create: "wal_writer_create ?w (db_env d3) = (r4, db_env d4)"
        by (auto simp: manifest_ok_def keeps_sel(1) dir3 intro: keeps_trans)
      have less: "next_number d \<le> ?k + 1" using next_less [OF num(2)] by simp
      show ?thesis
      proof (cases r4)
        case (Inl x)
        with run s1 Inr s2 r2 s3 s4 dir3 have "r = Inl x \<and> d' = d4"
          by (simp add: publish_l0_table_def op_then_Inr op_then_Inl)
        with d4 less show ?thesis by (intro exI [of _ d4]) simp
      next
        case r4: (Inr w)
        have w: "w = ?w" using create r4
          by (auto simp: wal_writer_create_def open_writable_def faultable_def split: prod.splits option.splits if_splits)
        obtain r5 d5 where s5: "db_log_and_apply X (LogNumber ?k) d4 = (r5, d5)" by fastforce
        from db_log_and_apply_ok [OF s5 d4(3)] d4 have d5: "keeps ?P d d5" "db_table_cache d5 = db_table_cache d" "manifest_ok d5"
          "next_number d \<le> next_number d5" using less by (auto simp: keeps_sel(1) [OF d4(1)] intro: keeps_trans order_trans)
        have run5: "op_then (db_log_and_apply X (LogNumber ?k)) (\<lambda>_ d. (Inr (), d\<lparr>db_wal := ?w\<rparr>)) d4 = (r, d')"
          using run s1 Inr s2 r2 s3 s4 r4 w dir3 by (simp add: publish_l0_table_def op_then_Inr)
        show ?thesis
        proof (cases r5)
          case (Inl x)
          with run5 s5 d5 show ?thesis by (intro exI [of _ d5]) (auto simp: op_then_Inl)
        next
          case (Inr u5)
          with run5 s5 d5 show ?thesis by (intro exI [of _ d5]) (auto simp: op_then_Inr)
        qed
      qed
    qed
  qed
qed

subsection \<open>The flush\<close>

definition numbered :: "ghost \<Rightarrow> 'm db \<Rightarrow> bool" where
  "numbered G d \<longleftrightarrow> (\<forall>n. G n \<noteq> None \<longrightarrow> n < next_number d)"

definition db_ok :: "'m externs \<Rightarrow> ghost \<Rightarrow> 'm db \<Rightarrow> bool" where
  "db_ok X G d \<longleftrightarrow> readable X G d \<and> wal_ok d \<and> manifest_ok d \<and> numbered G d"

definition mems_fit :: "'m externs \<Rightarrow> 'm db \<Rightarrow> bool" where
  "mems_fit X d \<longleftrightarrow> (\<forall>m\<in>set (db_mutable d # db_immutables d). table_fits (mem_entries X m))"

definition file_fits :: "env \<Rightarrow> path \<Rightarrow> bool" where
  "file_fits e p \<longleftrightarrow> (case content_of e p of None \<Rightarrow> True | Some c \<Rightarrow> length c < 2 ^ 64)"

definition with_mems :: "'m memtable \<Rightarrow> 'm memtable list \<Rightarrow> 'm db \<Rightarrow> 'm db" where
  "with_mems mem imms d = d\<lparr>db_mutable := mem, db_immutables := imms\<rparr>"

lemma with_mems_sel [simp]:
  "db_path (with_mems m ms d) = db_path d" "db_options (with_mems m ms d) = db_options d"
  "db_mutable (with_mems m ms d) = m" "db_immutables (with_mems m ms d) = ms"
  "db_l0_tables (with_mems m ms d) = db_l0_tables d" "db_level_tables (with_mems m ms d) = db_level_tables d"
  "db_last_sequence (with_mems m ms d) = db_last_sequence d" "db_closed (with_mems m ms d) = db_closed d"
  "db_versions (with_mems m ms d) = db_versions d" "db_block_cache (with_mems m ms d) = db_block_cache d"
  "db_table_cache (with_mems m ms d) = db_table_cache d" "db_watermark (with_mems m ms d) = db_watermark d"
  "db_wal (with_mems m ms d) = db_wal d" "db_env (with_mems m ms d) = db_env d"
  by (simp_all add: with_mems_def)

lemma with_mems_same: "db_immutables d = ms \<Longrightarrow> d\<lparr>db_mutable := m\<rparr> = with_mems m ms d"
  by (cases d) (simp add: with_mems_def)

text \<open>What the memtable side of a flush does: the taken memtable, and how it is put back.\<close>

lemma take_oldest_cases:
  assumes X: "externals X" and run: "take_oldest_flushable_memtable X d = (t, d1)"
  obtains (none) "t = None" and "d1 = d" and "db_immutables d = []" and "mem_entries X (db_mutable d) = []"
  | (oldest) m ms where "db_immutables d = m # ms" and "t = Some (m, FlushImmutableOldest)" and "d1 = with_mems (db_mutable d) ms d"
  | (mutable) m where "db_immutables d = []" and "mem_entries X (db_mutable d) \<noteq> []" and "t = Some (db_mutable d, FlushMutable)"
    and "d1 = with_mems m [] d" and "mem_entries X m = []"
proof (cases "db_immutables d")
  case (Cons m ms)
  with run oldest show ?thesis by (simp add: take_oldest_flushable_memtable_def with_mems_def)
next
  case Nil
  show ?thesis
  proof (cases "mem_is_empty X (db_mutable d)")
    case True
    with run Nil none externals.mem_empty_entries [OF X] show ?thesis by (simp add: take_oldest_flushable_memtable_def)
  next
    case False
    with run Nil mutable [of "mem_new X (opt_memtable_kind (db_options d))"] externals.mem_empty_entries [OF X]
      externals.mem_entries_new [OF X] show ?thesis
      by (simp add: take_oldest_flushable_memtable_def with_mems_same)
  qed
qed

lemma grows_sub: "grows G n es G' \<Longrightarrow> G k \<noteq> None \<Longrightarrow> G' k = G k"
  by (auto simp: grows_def)

lemma grows_dom: "grows G n es G' \<Longrightarrow> G' k \<noteq> None \<Longrightarrow> G k \<noteq> None \<or> k = n"
  by (auto simp: grows_def split: if_splits)

lemma grows_refs:
  assumes "grows G n es G'" and "refs_ok X G d"
  shows "refs_ok X G' d" "l0_layers G' d = l0_layers G d" "level_layers G' d = level_layers G d"
  using assms refs_upd [OF assms(2)] by (auto simp: grows_def)

lemma write_l0_table_ok:
  assumes X: "externals X" and caches: "caches_ok X G d" and n: "G n = None"
    and es: "table_fits (mem_entries X mem)" "sorted_entries (mem_entries X mem)" "mem_entries X mem \<noteq> []"
    and run: "write_l0_table X mem n d = (r, d')"
    and fit: "\<And>c. content_of (db_env d') (table_path (db_path d) n) = Some c \<Longrightarrow> length c < 2 ^ 64"
  shows "\<exists>G'. grows G n (mem_entries X mem) G' \<and>
    keeps {path_join (db_path d) (table_file_name n @ ''.tmp''), table_path (db_path d) n} d d' \<and>
    db_versions d' = db_versions d \<and> caches_ok X G' d' \<and>
    (\<forall>rd m. r = Inr (rd, m) \<longrightarrow> ents_of G' n = mem_entries X mem \<and> fm_number m = n \<and> ref_ok X G' (db_env d') (db_path d) (m, rd))"
proof (cases "env_exists (table_path (db_path d) n) (db_env d)")
  case True
  with run caches show ?thesis
    by (auto simp: write_l0_table_def Let_def table_path_def grows_def intro!: exI [of _ G])
next
  case False
  with run have "write_table X n (db_path d) (block_size (db_options d)) (table_compression (db_options d)) (mem_entries X mem)
      record_sst_write d = (r, d')"
    by (simp add: write_l0_table_def Let_def table_path_def)
  from write_table_ok [OF X caches n es refl this fit] show ?thesis .
qed

text \<open>
  The core of a flush, from the state without the memtable: the memtable \<open>mem\<close> is put back by
  \<open>undo\<close> when a call fails.
\<close>

lemma flush_steps:
  fixes d :: "'m db" and undo :: "'m db \<Rightarrow> 'm db"
  assumes X: "externals X" and ok: "refs_ok X G d" "caches_ok X G d" "wal_ok d" "manifest_ok d" "numbered G d"
    and es: "table_fits (mem_entries X mem)" "sorted_entries (mem_entries X mem)" "mem_entries X mem \<noteq> []"
    and num: "unat (next_number d) + 2 < 2 ^ 64"
    and fit: "file_fits (db_env d') (table_path (db_path d) (next_number d))" and undo: "\<And>d. db_env (undo d) = db_env d"
    and run: "op_then db_allocate_file_number (\<lambda>file_number d.
      case write_l0_table X mem file_number d of
        (Inr (reader, meta), d) \<Rightarrow>
          (case publish_l0_table X meta (db_last_sequence d) d of
             (Inl err, d) \<Rightarrow> (Inl err, undo d)
           | (Inr _, d) \<Rightarrow> (Inr (), d\<lparr>db_l0_tables := (meta, reader) # db_l0_tables d\<rparr>))
      | (Inl err, d) \<Rightarrow> (Inl err, undo d)) d = (r, d')"
  shows "\<exists>G' d2. keeps (- range (table_path (db_path d)) \<union> {table_path (db_path d) (next_number d)}) d (d2\<lparr>db_wal := db_wal d\<rparr>) \<and>
    grows G (next_number d) (mem_entries X mem) G' \<and> refs_ok X G' d2 \<and> caches_ok X G' d2 \<and> wal_ok d2 \<and> manifest_ok d2 \<and> numbered G' d2 \<and>
    (case r of
       Inl e \<Rightarrow> d' = undo d2 \<and> db_wal d2 = db_wal d
     | Inr _ \<Rightarrow> \<exists>meta rd. d' = d2\<lparr>db_l0_tables := (meta, rd) # db_l0_tables d2\<rparr> \<and> fm_number meta = next_number d \<and>
         ents_of G' (next_number d) = mem_entries X mem \<and> ref_ok X G' (db_env d2) (db_path d) (meta, rd))"
proof -
  let ?n = "next_number d" and ?dir = "db_path d"
  let ?P = "- range (table_path ?dir) \<union> {table_path ?dir ?n}"
  define d1 where "d1 = d\<lparr>db_versions := (db_versions d)\<lparr>vs_next_file_number := ?n + 1\<rparr>\<rparr>"
  have s1: "db_allocate_file_number d = (Inr ?n, d1)"
    by (simp add: db_allocate_file_number_def allocate_file_number_def d1_def)
  have n: "G ?n = None" using ok(5) unfolding numbered_def by (metis less_irrefl)
  have lt: "?n < ?n + 1" "unat (?n + 1) + 1 < 2 ^ 64" using u64_Suc [of ?n 0] num by simp_all
  have k1: "keeps ?P d d1" "next_number d1 = ?n + 1" "db_table_cache d1 = db_table_cache d" "manifest_ok d1" "db_path d1 = ?dir"
    using ok(4) by (simp_all add: d1_def keeps_def manifest_ok_def)
  obtain r2 d2 where s2: "write_l0_table X mem ?n d1 = (r2, d2)" by fastforce
  have caches1: "caches_ok X G d1" using keeps_caches_ok [OF k1(1,3) ok(2)] .
  have tmp: "{path_join ?dir (table_file_name ?n @ ''.tmp''), table_path ?dir ?n} \<subseteq> ?P"
    by (auto simp: table_path_def)
  have metaP: "meta_paths ?dir \<subseteq> ?P" using table_not_meta by auto
  have use: "\<exists>G'. grows G ?n (mem_entries X mem) G' \<and> keeps ?P d d2 \<and> db_versions d2 = db_versions d1 \<and> caches_ok X G' d2 \<and>
      refs_ok X G' d2 \<and> (\<forall>rd m. r2 = Inr (rd, m) \<longrightarrow> ents_of G' ?n = mem_entries X mem \<and> fm_number m = ?n \<and>
        ref_ok X G' (db_env d2) ?dir (m, rd))"
    if fit2: "\<And>c. content_of (db_env d2) (table_path ?dir ?n) = Some c \<Longrightarrow> length c < 2 ^ 64"
  proof -
    have "length c < 2 ^ 64" if "content_of (db_env d2) (table_path (db_path d1) ?n) = Some c" for c
      using fit2 that by (simp add: k1(5))
    from write_l0_table_ok [OF X caches1 n es s2 this] obtain G' where G': "grows G ?n (mem_entries X mem) G'"
      "keeps {path_join ?dir (table_file_name ?n @ ''.tmp''), table_path ?dir ?n} d1 d2" "db_versions d2 = db_versions d1" "caches_ok X G' d2"
      "\<forall>rd m. r2 = Inr (rd, m) \<longrightarrow> ents_of G' ?n = mem_entries X mem \<and> fm_number m = ?n \<and> ref_ok X G' (db_env d2) ?dir (m, rd)"
      unfolding k1(5) by blast
    have k2: "keeps ?P d d2" using k1(1) keeps_mono [OF G'(2) tmp] by (rule keeps_trans)
    have "refs_ok X G d2"
      using k2 ok(1) by (rule keeps_refs_ok) (use n in auto)
    with G' k2 grows_refs(1) [OF G'(1)] show ?thesis by blast
  qed
  have numbered: "numbered G' d3" if "grows G ?n (mem_entries X mem) G'" "?n + 1 \<le> next_number d3" for G' and d3 :: "'m db"
    unfolding numbered_def
  proof (intro allI impI)
    fix k assume "G' k \<noteq> None"
    with grows_dom [OF that(1)] ok(5) have "k \<le> ?n" unfolding numbered_def by (metis less_imp_le order_refl)
    with lt(1) that(2) show "k < next_number d3" by simp
  qed
  show ?thesis
  proof (cases r2)
    case (Inl x)
    with run s1 s2 have d': "r = Inl x" "d' = undo d2" by (simp_all add: op_then_Inr)
    have "length c < 2 ^ 64" if "content_of (db_env d2) (table_path ?dir ?n) = Some c" for c
      using fit that undo by (simp add: file_fits_def d')
    from use [OF this] obtain G' where G': "grows G ?n (mem_entries X mem) G'" "keeps ?P d d2" "db_versions d2 = db_versions d1"
      "caches_ok X G' d2" "refs_ok X G' d2" by blast
    have "manifest_ok d2" "wal_ok d2" "keeps ?P d (d2\<lparr>db_wal := db_wal d\<rparr>)"
      using k1(4,5) ok(3) keeps_sel(1,11) [OF G'(2)] G'(2,3) by (simp_all add: manifest_ok_def wal_ok_def keeps_def)
    with G' numbered [OF G'(1), of d2] k1(2) d' keeps_sel(11) [OF G'(2)] show ?thesis by (intro exI [of _ G'] exI [of _ d2]) simp
  next
    case (Inr x)
    obtain rd meta where x: "x = (rd, meta)" by fastforce
    obtain r3 d3 where s3: "publish_l0_table X meta (db_last_sequence d2) d2 = (r3, d3)" by fastforce
    have v2: "db_versions d2 = db_versions d1" "db_path d2 = ?dir" using write_l0_versions [OF s2] k1(5) by simp_all
    have m2: "manifest_ok d2" using k1(4,5) v2 by (simp add: manifest_ok_def)
    have env': "db_env d' = db_env d3"
      using run s1 s2 Inr x s3 undo by (auto simp: op_then_Inr split: sum.splits)
    have same: "env_files (db_env d') (table_path ?dir ?n) = env_files (db_env d2) (table_path ?dir ?n)"
      using publish_files [OF s3 m2, of ?n] by (simp add: env' v2(2))
    have "length c < 2 ^ 64" if "content_of (db_env d2) (table_path ?dir ?n) = Some c" for c
    proof -
      have "content_of (db_env d') (table_path ?dir ?n) = Some c" using that same by (simp add: content_of_def)
      with fit show ?thesis by (simp add: file_fits_def)
    qed
    from use [OF this] Inr x obtain G' where G': "grows G ?n (mem_entries X mem) G'" "keeps ?P d d2"
      "caches_ok X G' d2" "refs_ok X G' d2" "ents_of G' ?n = mem_entries X mem" "fm_number meta = ?n"
      "ref_ok X G' (db_env d2) ?dir (meta, rd)" by auto
    have "fm_number meta < next_number d2" "unat (next_number d2) + 1 < 2 ^ 64" using G'(6) lt k1(2) v2(1) by simp_all
    from publish_ok [OF m2 this s3] obtain d4 where d4: "keeps (meta_paths ?dir) d2 d4" "db_table_cache d4 = db_table_cache d2"
      "manifest_ok d4" "next_number d2 \<le> next_number d4"
      "if r3 = Inr () then \<exists>k. d3 = d4\<lparr>db_wal := path_join ?dir (wal_file_name k)\<rparr> else d3 = d4" unfolding v2(2) by blast
    have k4: "keeps ?P d d4" using G'(2) keeps_mono [OF d4(1) metaP] by (rule keeps_trans)
    have refs4: "refs_ok X G' d4" using keeps_refs_ok [OF d4(1) G'(4)] table_not_meta by (simp add: v2(2))
    have caches4: "caches_ok X G' d4" by (rule keeps_caches_ok [OF d4(1,2) G'(3)])
    have num4: "numbered G' d4" using d4(4) k1(2) v2(1) by (intro numbered [OF G'(1)]) simp
    have ref4: "ref_ok X G' (db_env d4) ?dir (meta, rd)"
      using G'(7) by (rule ref_ok_files) (use keeps_sel(12) [OF d4(1)] table_not_meta in auto)
    show ?thesis
    proof (cases r3)
      case (Inl y)
      with run s1 s2 Inr x s3 d4(5) have d': "r = Inl y" "d' = undo d4" by (simp_all add: op_then_Inr)
      have "wal_ok d4" "keeps ?P d (d4\<lparr>db_wal := db_wal d\<rparr>)"
        using ok(3) keeps_sel(1,11) [OF k4] k4 by (simp_all add: wal_ok_def keeps_def)
      with G'(1) k4 refs4 caches4 d4(3) num4 d' keeps_sel(11) [OF k4] show ?thesis
        by (intro exI [of _ G'] exI [of _ d4]) simp
    next
      case r3: (Inr u)
      with d4(5) obtain k where d3: "d3 = d4\<lparr>db_wal := path_join ?dir (wal_file_name k)\<rparr>" by auto
      from run s1 s2 Inr x s3 r3 have d': "r = Inr ()" "d' = d3\<lparr>db_l0_tables := (meta, rd) # db_l0_tables d3\<rparr>"
        by (simp_all add: op_then_Inr)
      have "keeps ?P d (d3\<lparr>db_wal := db_wal d\<rparr>)" using k4 by (simp add: keeps_def d3)
      moreover have "refs_ok X G' d3" "caches_ok X G' d3" "manifest_ok d3" "numbered G' d3" "wal_ok d3"
        using refs4 caches4 d4(3) num4 keeps_sel(1) [OF k4]
        by (auto simp: refs_ok_def all_refs_def caches_ok_def manifest_ok_def numbered_def wal_ok_def d3)
      ultimately show ?thesis
        using G'(1,5,6) ref4 d' by (intro exI [of _ G'] exI [of _ d3]) (auto simp: d3)
    qed
  qed
qed

text \<open>
  The state after a flush, put together again: \<open>d1\<close> is the state without the memtable, \<open>d2\<close> the
  one the steps left.
\<close>

lemma flush_finish:
  assumes "readable X G d" and d1: "d1 = with_mems a b d" and k: "keeps P d1 (d2\<lparr>db_wal := w\<rparr>)"
    and g: "grows G n es G'" and d2: "refs_ok X G' d2" "caches_ok X G' d2" "wal_ok d2" "manifest_ok d2" "numbered G' d2"
  shows "d' = with_mems (db_mutable d) (db_immutables d) d2 \<Longrightarrow>
      db_ok X G' d' \<and> db_entries X G' d' = db_entries X G d \<and> db_last_sequence d' = db_last_sequence d"
    and "d' = d2\<lparr>db_l0_tables := (meta, rd) # db_l0_tables d2\<rparr> \<Longrightarrow> ents_of G' (fm_number meta) = es \<Longrightarrow>
      ref_ok X G' (db_env d2) (db_path d) (meta, rd) \<Longrightarrow> sorted_entries (mem_entries X a) \<Longrightarrow>
      \<forall>m\<in>set b. sorted_entries (mem_entries X m) \<Longrightarrow>
      concat (map (mem_entries X) (a # rev b) @ [es]) = concat (mem_layers X d) \<Longrightarrow>
      newest_first (map (mem_entries X) (a # rev b) @ es # l0_layers G d @ level_layers G d) \<Longrightarrow>
      db_ok X G' d' \<and> db_entries X G' d' = db_entries X G d \<and> db_last_sequence d' = db_last_sequence d"
proof -
  from assms(1) have ok: "mems_ok X d" "refs_ok X G d" "layers_ok X G d" by (simp_all add: readable_def)
  have sel: "db_path d2 = db_path d" "db_mutable d2 = a" "db_immutables d2 = b" "db_l0_tables d2 = db_l0_tables d"
    "db_level_tables d2 = db_level_tables d" "db_last_sequence d2 = db_last_sequence d"
    using keeps_sel(1,3-7) [OF k] by (simp_all add: d1)
  have low: "l0_layers G' d2 = l0_layers G d" "level_layers G' d2 = level_layers G d"
    using grows_refs(2,3) [OF g ok(2)] by (simp_all add: l0_layers_def level_layers_def sel)
  show "db_ok X G' d' \<and> db_entries X G' d' = db_entries X G d \<and> db_last_sequence d' = db_last_sequence d"
    if d': "d' = with_mems (db_mutable d) (db_immutables d) d2"
  proof -
    have "layers X G' d' = layers X G d"
      using low by (simp add: layers_def mem_layers_def l0_layers_def level_layers_def d')
    then show ?thesis using ok d2
      by (simp add: db_ok_def readable_def mems_ok_def refs_ok_def all_refs_def caches_ok_def layers_ok_def db_entries_def
          wal_ok_def manifest_ok_def numbered_def d' sel)
  qed
  show "db_ok X G' d' \<and> db_entries X G' d' = db_entries X G d \<and> db_last_sequence d' = db_last_sequence d"
    if d': "d' = d2\<lparr>db_l0_tables := (meta, rd) # db_l0_tables d2\<rparr>" and es: "ents_of G' (fm_number meta) = es"
      and ref: "ref_ok X G' (db_env d2) (db_path d) (meta, rd)"
      and mems: "sorted_entries (mem_entries X a)" "\<forall>m\<in>set b. sorted_entries (mem_entries X m)"
      and same: "concat (map (mem_entries X) (a # rev b) @ [es]) = concat (mem_layers X d)"
      and nf: "newest_first (map (mem_entries X) (a # rev b) @ es # l0_layers G d @ level_layers G d)"
  proof -
    have l: "layers X G' d' = map (mem_entries X) (a # rev b) @ es # l0_layers G d @ level_layers G d"
      using low es by (simp add: layers_def mem_layers_def l0_layers_def level_layers_def d' sel ref_ents_def)
    have e: "db_entries X G' d' = db_entries X G d"
      unfolding db_entries_def l using same by (simp add: layers_def)
    have "layers_ok X G' d'" using ok(3) nf unfolding layers_ok_def e l by (simp add: d' sel)
    then show ?thesis using d2 ref mems e
      by (simp add: db_ok_def readable_def mems_ok_def refs_ok_def all_refs_def caches_ok_def
          wal_ok_def manifest_ok_def numbered_def d' sel)
  qed
qed

lemma db_flush_take:
  assumes "\<not> db_closed d" and "take_oldest_flushable_memtable X d = (Some (mem, source), d1)"
  shows "db_flush X d = op_then db_allocate_file_number (\<lambda>file_number d.
      case write_l0_table X mem file_number d of
        (Inr (reader, meta), d) \<Rightarrow>
          (case publish_l0_table X meta (db_last_sequence d) d of
             (Inl err, d) \<Rightarrow> (Inl err, restore_flush_memtable X mem source d)
           | (Inr _, d) \<Rightarrow> (Inr (), d\<lparr>db_l0_tables := (meta, reader) # db_l0_tables d\<rparr>))
      | (Inl err, d) \<Rightarrow> (Inl err, restore_flush_memtable X mem source d)) d1"
  using assms by (simp add: db_flush_def)

lemma env_restore: "db_env (restore_flush_memtable X mem source d) = db_env d"
  by (cases source) simp_all

lemma db_ok_with_mems:
  assumes "db_ok X G d" and "d1 = with_mems a b d"
  shows "refs_ok X G d1" "caches_ok X G d1" "wal_ok d1" "manifest_ok d1" "numbered G d1"
  using assms
  by (simp_all add: db_ok_def readable_def refs_ok_def all_refs_def caches_ok_def wal_ok_def manifest_ok_def numbered_def)

text \<open>A flush of the memtable \<open>mem\<close>, which leaves the memtables \<open>a\<close> and \<open>b\<close>.\<close>

lemma flush_taken:
  assumes X: "externals X" and ok: "db_ok X G d" and num: "unat (next_number d) + 2 < 2 ^ 64"
    and run: "db_flush X d = (r, d')" and fit: "file_fits (db_env d') (table_path (db_path d) (next_number d))" and opened: "\<not> db_closed d"
    and take: "take_oldest_flushable_memtable X d = (Some (mem, source), d1)" "d1 = with_mems a b d"
    and es: "table_fits (mem_entries X mem)" "sorted_entries (mem_entries X mem)" "mem_entries X mem \<noteq> []"
    and mems: "sorted_entries (mem_entries X a)" "\<forall>m\<in>set b. sorted_entries (mem_entries X m)"
    and restore: "\<And>d2. db_mutable d2 = a \<Longrightarrow> db_immutables d2 = b \<Longrightarrow>
      restore_flush_memtable X mem source d2 = with_mems (db_mutable d) (db_immutables d) d2"
    and split: "concat (map (mem_entries X) (a # rev b) @ [mem_entries X mem]) = concat (mem_layers X d)"
      "newest_first (map (mem_entries X) (a # rev b) @ mem_entries X mem # l0_layers G d @ level_layers G d)"
  shows "\<exists>G'. db_ok X G' d' \<and> (\<forall>n. G n \<noteq> None \<longrightarrow> G' n = G n) \<and> db_entries X G' d' = db_entries X G d \<and>
    db_last_sequence d' = db_last_sequence d \<and> db_path d' = db_path d \<and> db_options d' = db_options d \<and> db_closed d' = db_closed d \<and>
    (db_mutable d', db_immutables d') = (case r of Inl e \<Rightarrow> (db_mutable d, db_immutables d) | Inr _ \<Rightarrow> (a, b))"
proof -
  let ?es = "mem_entries X mem"
  have num1: "unat (next_number d1) + 2 < 2 ^ 64" "file_fits (db_env d') (table_path (db_path d1) (next_number d1))"
    using num fit by (simp_all add: take(2))
  from flush_steps [OF X db_ok_with_mems [OF ok take(2)] es num1 env_restore run [unfolded db_flush_take [OF opened take(1)]]]
  obtain G' d2 where st: "keeps (- range (table_path (db_path d1)) \<union> {table_path (db_path d1) (next_number d1)}) d1 (d2\<lparr>db_wal := db_wal d1\<rparr>)"
    "grows G (next_number d1) ?es G'" "refs_ok X G' d2" "caches_ok X G' d2" "wal_ok d2" "manifest_ok d2" "numbered G' d2"
    and res: "case r of
      Inl e \<Rightarrow> d' = restore_flush_memtable X mem source d2 \<and> db_wal d2 = db_wal d1
    | Inr _ \<Rightarrow> \<exists>meta rd. d' = d2\<lparr>db_l0_tables := (meta, rd) # db_l0_tables d2\<rparr> \<and> fm_number meta = next_number d1 \<and>
        ents_of G' (next_number d1) = ?es \<and> ref_ok X G' (db_env d2) (db_path d1) (meta, rd)"
    by blast
  have rd: "readable X G d" using ok by (simp add: db_ok_def)
  note finish = flush_finish [OF rd take(2) st]
  have sel: "db_path d2 = db_path d" "db_options d2 = db_options d" "db_closed d2 = db_closed d" "db_mutable d2 = a"
    "db_immutables d2 = b" using keeps_sel [OF st(1)] by (simp_all add: take(2))
  show ?thesis
  proof (cases r)
    case (Inl e)
    with res restore [OF sel(4,5)] have d': "d' = with_mems (db_mutable d) (db_immutables d) d2" by simp
    from finish(1) [OF d'] grows_sub [OF st(2)] Inl sel show ?thesis by (intro exI [of _ G']) (simp add: d')
  next
    case (Inr u)
    with res obtain meta reader where d': "d' = d2\<lparr>db_l0_tables := (meta, reader) # db_l0_tables d2\<rparr>"
      "ents_of G' (fm_number meta) = ?es" "ref_ok X G' (db_env d2) (db_path d) (meta, reader)" by (auto simp: take(2))
    from finish(2) [OF d' mems split] grows_sub [OF st(2)] Inr sel show ?thesis
      by (intro exI [of _ G']) (simp add: d'(1))
  qed
qed

definition frozen_full :: "'m externs \<Rightarrow> 'm db \<Rightarrow> bool" where
  "frozen_full X d \<longleftrightarrow> (\<forall>m\<in>set (db_immutables d). mem_entries X m \<noteq> [])"

lemma flush_outcome:
  assumes X: "externals X" and ok: "db_ok X G d" and fits: "mems_fit X d" "frozen_full X d"
    and num: "unat (next_number d) + 2 < 2 ^ 64"
    and run: "db_flush X d = (r, d')" and fit: "file_fits (db_env d') (table_path (db_path d) (next_number d))" and opened: "\<not> db_closed d"
  shows "\<exists>G'. db_ok X G' d' \<and> (\<forall>n. G n \<noteq> None \<longrightarrow> G' n = G n) \<and> db_entries X G' d' = db_entries X G d \<and>
    db_last_sequence d' = db_last_sequence d \<and> db_path d' = db_path d \<and> db_options d' = db_options d \<and> db_closed d' = db_closed d \<and>
    (case r of
       Inl e \<Rightarrow> db_mutable d' = db_mutable d \<and> db_immutables d' = db_immutables d
     | Inr _ \<Rightarrow> (case db_immutables d of
           [] \<Rightarrow> db_immutables d' = [] \<and> mem_entries X (db_mutable d') = []
         | m # ms \<Rightarrow> db_mutable d' = db_mutable d \<and> db_immutables d' = ms))"
proof -
  obtain t d1 where take: "take_oldest_flushable_memtable X d = (t, d1)" by fastforce
  have mems: "sorted_entries (mem_entries X (db_mutable d))" "\<forall>m\<in>set (db_immutables d). sorted_entries (mem_entries X m)"
    and nf: "newest_first (layers X G d)"
    using ok by (auto simp: db_ok_def readable_def mems_ok_def layers_ok_def)
  from X take show ?thesis
  proof (cases rule: take_oldest_cases)
    case none
    with run opened take have "r = Inr ()" "d' = d" by (simp_all add: db_flush_def)
    with none ok show ?thesis by (intro exI [of _ G]) simp
  next
    case (oldest m ms)
    have es: "table_fits (mem_entries X m)" "sorted_entries (mem_entries X m)" "mem_entries X m \<noteq> []"
      and b: "\<forall>m\<in>set ms. sorted_entries (mem_entries X m)"
      using fits mems(2) oldest(1) by (simp_all add: mems_fit_def frozen_full_def)
    have restore: "restore_flush_memtable X m FlushImmutableOldest d2 = with_mems (db_mutable d) (db_immutables d) d2"
      if "db_mutable d2 = db_mutable d" "db_immutables d2 = ms" for d2
      using that oldest(1) by (cases d2) (simp add: with_mems_def)
    have split: "concat (map (mem_entries X) (db_mutable d # rev ms) @ [mem_entries X m]) = concat (mem_layers X d)"
      "newest_first (map (mem_entries X) (db_mutable d # rev ms) @ mem_entries X m # l0_layers G d @ level_layers G d)"
      using nf by (simp_all add: layers_def mem_layers_def oldest(1))
    from flush_taken [OF X ok num run fit opened take [unfolded oldest(2)] oldest(3) es mems(1) b restore split] oldest(1)
    show ?thesis by (cases r) auto
  next
    case (mutable m)
    have es: "table_fits (mem_entries X (db_mutable d))" using fits by (simp add: mems_fit_def)
    have empty: "sorted_entries (mem_entries X m)" "\<forall>m\<in>set []. sorted_entries (mem_entries X m)" using mutable(5) by simp_all
    have restore: "restore_flush_memtable X (db_mutable d) FlushMutable d2 = with_mems (db_mutable d) (db_immutables d) d2"
      if "db_mutable d2 = m" "db_immutables d2 = []" for d2
      using that mutable(1,5) externals.mem_empty_entries [OF X] by (cases d2) (simp add: with_mems_def)
    have split: "concat (map (mem_entries X) (m # rev []) @ [mem_entries X (db_mutable d)]) = concat (mem_layers X d)"
      "newest_first (map (mem_entries X) (m # rev []) @ mem_entries X (db_mutable d) # l0_layers G d @ level_layers G d)"
      using nf mutable(5) by (simp_all add: layers_def mem_layers_def mutable(1))
    from flush_taken [OF X ok num run fit opened take [unfolded mutable(3)] mutable(4) es mems(1) mutable(2) empty restore split]
      mutable(1,5) show ?thesis by (cases r) auto
  qed
qed

end
