(* ===== verification/Database_Progress.thy ===== *)
theory Database_Progress
  imports Database_Flush
begin

section \<open>Flushes make progress\<close>

text \<open>
  What holds of a flush whatever fails, and that it succeeds when nothing fails: \<open>calm m Q\<close>
  says that \<open>m\<close>, started when no fault is due, returns a result with \<open>Q\<close> and leaves it so.
\<close>

subsection \<open>Operations without faults\<close>

named_theorems calm_intros \<open>operations that succeed when no fault is due\<close>

definition calm :: "(env, 'a) op \<Rightarrow> ('a \<Rightarrow> bool) \<Rightarrow> bool" where
  "calm m Q \<longleftrightarrow> (\<forall>e. env_faults e = [] \<longrightarrow> (\<exists>x e'. m e = (Inr x, e') \<and> env_faults e' = [] \<and> Q x))"

lemma calmE:
  assumes "calm m Q" and "env_faults e = []"
  obtains x e' where "m e = (Inr x, e')" "env_faults e' = []" "Q x"
  using assms by (auto simp: calm_def)

lemma calm_then:
  assumes "calm m Q" and "\<And>x. Q x \<Longrightarrow> calm (f x) R"
  shows "calm (op_then m f) R"
  unfolding calm_def
proof (intro allI impI)
  fix e :: env assume e: "env_faults e = []"
  obtain x e1 where 1: "m e = (Inr x, e1)" "env_faults e1 = []" "Q x" by (rule calmE [OF assms(1) e])
  obtain y e2 where "f x e1 = (Inr y, e2)" "env_faults e2 = []" "R y" by (rule calmE [OF assms(2) [OF 1(3)] 1(2)])
  with 1(1) show "\<exists>y e'. op_then m f e = (Inr y, e') \<and> env_faults e' = [] \<and> R y" by (simp add: op_then_Inr)
qed

lemma calm_lift [calm_intros]: "Q x \<Longrightarrow> calm (op_lift (Inr x)) Q"
  by (simp add: calm_def op_lift_def)

lemma calm_write_all [calm_intros]: "calm (write_all p bs) (\<lambda>_. True)"
  by (simp add: calm_def write_all_def take_fault_def append_bytes_def set_file_def)

lemma calm_sync_all [calm_intros]: "calm (sync_all p) (\<lambda>_. True)"
  by (simp add: calm_def sync_all_def faultable_def take_fault_def set_file_def)

lemma calm_create [calm_intros]: "calm (open_writable p options_create) (\<lambda>q. q = p)"
  by (auto simp: calm_def open_writable_def faultable_def take_fault_def set_file_def options_create_def split: option.splits)

lemma calm_wal_create [calm_intros]: "calm (wal_writer_create p) (\<lambda>q. q = p)"
  by (auto simp: calm_def wal_writer_create_def open_writable_def faultable_def take_fault_def set_file_def
      options_append_def split: option.splits)

text \<open>Blocks are stored as they are, or the compression crate does not fail on a block in memory.\<close>

definition packs :: "'m externs \<Rightarrow> compression_type \<Rightarrow> bool" where
  "packs X cm \<longleftrightarrow> (\<forall>bs. \<exists>cs. compress_block X bs cm = Inr cs)"

lemma packs_NoCompression [simp]: "packs X NoCompression"
  by (simp add: packs_def compress_block_def)

lemma calm_lift_packs: "packs X cm \<Longrightarrow> calm (op_lift (compress_block X bs cm)) (\<lambda>_. True)"
  unfolding packs_def by (metis calm_lift)

lemma calm_write_block:
  assumes "packs X (sb_compression b)"
  shows "calm (write_block X b blk) (\<lambda>(h, b'). \<exists>off. b' = b\<lparr>sb_offset := off\<rparr>)"
  unfolding write_block_def Let_def
  by (rule calm_then [OF calm_lift_packs [OF assms]]) (auto intro!: calm_then [of _ "\<lambda>_. True"] calm_intros)

text \<open>A builder that cannot panic: a block with entries has its first and last key.\<close>

definition builder_ready :: "'m externs \<Rightarrow> sstable_builder \<Rightarrow> bool" where
  "builder_ready X b \<longleftrightarrow> packs X (sb_compression b) \<and>
     (block_builder_is_empty (sb_current_block b) \<or> sb_current_block_first_key b \<noteq> None \<and> sb_largest_key b \<noteq> None)"

lemma calm_flush_block: "builder_ready X b \<Longrightarrow> calm (flush_current_block X b) (builder_ready X)"
  by (auto simp: flush_current_block_def builder_ready_def Let_def block_builder_is_empty_def block_builder_new_def
      split: option.splits intro!: calm_intros calm_then [OF calm_write_block])

lemma calm_builder_add: "builder_ready X b \<Longrightarrow> calm (builder_add X b k v) (builder_ready X)"
  unfolding builder_add_def Let_def
  by (auto simp: builder_ready_def intro!: calm_intros calm_flush_block split: option.splits)

lemma calm_builder_add_all: "builder_ready X b \<Longrightarrow> calm (builder_add_all X b es) (builder_ready X)"
proof (induction es arbitrary: b)
  case (Cons a es)
  then show ?case by (cases a) (auto intro: calm_then [OF calm_builder_add])
qed (auto intro: calm_intros)

lemma calm_builder_finish: "builder_ready X b \<Longrightarrow> calm (builder_finish X b) (\<lambda>_. True)"
  unfolding builder_finish_def Let_def
  by (rule calm_then [OF calm_flush_block], assumption)
    (auto simp: builder_ready_def intro!: calm_then [OF calm_write_block] calm_then [OF calm_write_all] calm_intros)

lemma calm_build_table: "packs X cm \<Longrightarrow> calm (build_table X p bs cm es) (\<lambda>_. True)"
  unfolding build_table_def builder_create_with_env_def
  by (rule calm_then [of _ "builder_ready X"])
    (auto simp: builder_ready_def block_builder_is_empty_def block_builder_new_def
      intro!: calm_then [OF calm_create] calm_then [OF calm_builder_add_all] calm_builder_finish calm_intros)

subsection \<open>The steps of a flush\<close>

lemma on_env_calm:
  assumes "calm m Q" and "env_faults (db_env d) = []"
  obtains x e' where "on_env m d = (Inr x, d\<lparr>db_env := e'\<rparr>)" "m (db_env d) = (Inr x, e')" "env_faults e' = []" "Q x"
  using assms by (elim calmE) (auto simp: on_env_def)

lemma calm_manifest_append [calm_intros]: "calm (manifest_append crc p edit) (\<lambda>_. True)"
  unfolding manifest_append_def Let_def by (auto intro!: calm_then [OF calm_write_all] calm_intros)

lemma log_edit_calm:
  assumes "env_faults (db_env d) = []" and "apply_edit edit (db_versions d) = Inr vs"
  obtains d' where "db_log_and_apply X edit d = (Inr (), d')" "env_faults (db_env d') = []"
proof (cases "vs_manifest_writer (db_versions d)")
  case None
  with assms that show ?thesis by (simp add: db_log_and_apply_def on_versions_def log_and_apply_state_def)
next
  case (Some p)
  obtain x e' where "manifest_append (crc32c X) p edit (db_env d) = (Inr x, e')" "env_faults e' = []"
    by (rule calmE [OF calm_manifest_append assms(1)])
  with assms(2) Some that show ?thesis by (simp add: db_log_and_apply_def on_versions_def log_and_apply_state_def)
qed

lemma apply_edit_level0:
  "\<exists>vs'. apply_edit (AddFile 0 meta) vs = Inr vs'" "\<exists>vs'. apply_edit (LastSequence s) vs = Inr vs'"
  "\<exists>vs'. apply_edit (LogNumber n) vs = Inr vs'"
  by (simp_all add: add_file_def Let_def)

lemma publish_calm:
  assumes "env_faults (db_env d) = []"
  obtains d' where "publish_l0_table X meta s d = (Inr (), d')" "env_faults (db_env d') = []"
proof -
  obtain d1 where 1: "db_log_and_apply X (AddFile 0 meta) d = (Inr (), d1)" "env_faults (db_env d1) = []"
    using log_edit_calm [OF assms] apply_edit_level0(1) by metis
  obtain d2 where 2: "db_log_and_apply X (LastSequence s) d1 = (Inr (), d2)" "env_faults (db_env d2) = []"
    using log_edit_calm [OF 1(2)] apply_edit_level0(2) by metis
  obtain n d3 where 3: "db_allocate_file_number d2 = (Inr n, d3)" "env_faults (db_env d3) = []"
    using 2(2) by (auto simp: db_allocate_file_number_def allocate_file_number_def)
  let ?w = "path_join (db_path d3) (wal_file_name n)"
  obtain w e4 where 4: "on_env (wal_writer_create ?w) d3 = (Inr w, d3\<lparr>db_env := e4\<rparr>)" "env_faults e4 = []"
    using on_env_calm [OF calm_wal_create [of ?w] 3(2)] by metis
  have f4: "env_faults (db_env (d3\<lparr>db_env := e4\<rparr>)) = []" using 4(2) by simp
  obtain d5 where 5: "db_log_and_apply X (LogNumber n) (d3\<lparr>db_env := e4\<rparr>) = (Inr (), d5)" "env_faults (db_env d5) = []"
    using log_edit_calm [OF f4] apply_edit_level0(3) by metis
  show ?thesis
    by (rule that [of "d5\<lparr>db_wal := w\<rparr>"]) (use 1 2 3 4 5 in \<open>simp_all add: publish_l0_table_def op_then_Inr\<close>)
qed

text \<open>A new complete table opens when nothing fails.\<close>

lemma open_new_table_calm:
  assumes new: "new_table X G n c idx es d" and caches: "caches_ok X G d" and calm: "env_faults (db_env d) = []"
  obtains rd meta d' where "open_new_table X n (table_path (db_path d) n) f d = (Inr (rd, meta), d')"
    "env_faults (db_env d') = []"
proof -
  let ?p = "table_path (db_path d) n" and ?e = "db_env d"
  from new obtain blks where t: "table_with X c es idx blks" and c: "content_of ?e ?p = Some c" and n: "G n = None"
    and ne: "es \<noteq> []" by (auto simp: new_table_def)
  have len: "metadata_len ?p ?e = (Inr (word_of_nat (length c)), ?e)"
    using c calm by (auto simp: metadata_len_def faultable_def take_fault_def content_of_def)
  have open': "reader_open_with_env X ?p ?e = (Inr (reader_for es idx ?p), ?e)"
    using reader_open_outcome [OF t c] calm by (cases "reader_open_with_env X ?p ?e") auto
  obtain r e1 where m: "file_meta_from_table X n (word_of_nat (length c)) (reader_for es idx ?p) ?e = (r, e1)" by fastforce
  obtain r1 e2 c1 where ent: "entries_with_cache X (reader_for es idx ?p) 0 True (?e, None) = (r1, (e2, c1))"
    by (metis surj_pair)
  from entries_with_cache_outcome [OF t c _ _ ent, of "\<lambda>_. Some (c, idx)"] calm
  have ent': "r1 = Inr es" "e2 = ?e" by auto
  obtain lo hi where range: "sequence_range (map (sequence \<circ> fst) es) None = Some (lo, hi)" by (rule sequence_range_some [OF ne])
  from m ent ent' range reader_for_keys [OF ne] obtain meta where meta: "r = Inr meta" "e1 = ?e"
    by (auto simp: file_meta_from_table_def reader_entries_def op_then_def op_lift_def)
  show ?thesis
    by (rule that [of "reader_for es idx ?p" meta "d\<lparr>db_metrics := f (word_of_nat (length c)) (db_metrics d),
        db_table_cache := (db_table_cache d)\<lparr>tc_tables := hash_insert n (reader_for es idx ?p)
          (evict_if_full (tc_pick (db_table_cache d)) (tc_max_entries (db_table_cache d)) (tc_tables (db_table_cache d)))\<rparr>\<rparr>"])
      (use len open' m meta new_table_uncached [OF caches n] calm in \<open>simp_all add: op_then_def on_env_def metric_def on_tables_def get_or_open_def op_lift_def\<close>)
qed

text \<open>A table is written when no call fails, its blocks can be compressed and its length fits in 64 bits.\<close>

definition healthy :: "'m externs \<Rightarrow> 'm db \<Rightarrow> bool" where
  "healthy X d \<longleftrightarrow> packs X (table_compression (db_options d)) \<and> env_faults (db_env d) = []"

lemma write_table_calm:
  assumes X: "externals X" and caches: "caches_ok X G d" and n: "G n = None"
    and es: "table_fits es" "sorted_entries es" "es \<noteq> []" and cm: "packs X cm" and calm: "env_faults (db_env d) = []"
    and run: "write_table X n (db_path d) bs cm es f d = (r, d')" and fit: "file_fits (db_env d') (table_path (db_path d) n)"
  obtains rd meta where "r = Inr (rd, meta)" and "env_faults (db_env d') = []"
proof -
  let ?p = "table_path (db_path d) n" and ?tmp = "path_join (db_path d) (table_file_name n @ ''.tmp'')"
  let ?build = "build_table X ?tmp bs cm es"
  obtain u e1 where 1: "on_env ?build d = (Inr u, d\<lparr>db_env := e1\<rparr>)" "?build (db_env d) = (Inr u, e1)" "env_faults e1 = []"
    by (rule on_env_calm [OF calm_build_table [OF cm] calm])
  have 2: "on_env (env_rename ?tmp ?p) (d\<lparr>db_env := e1\<rparr>) = (Inr (), d\<lparr>db_env := set_file ?p (Some g) (set_file ?tmp None e1)\<rparr>)"
    if "env_files e1 ?tmp = Some g" for g using that 1(3) by (simp add: on_env_def env_rename_def faultable_def take_fault_def)
  have run2: "open_new_table X n ?p f (d\<lparr>db_env := set_file ?p (Some g) (set_file ?tmp None e1)\<rparr>) = (r, d')"
    if "env_files e1 ?tmp = Some g" for g using run 1(1) 2 [OF that] by (simp add: op_then_Inr)
  have len: "length c < 2 ^ 64" if "content_of e1 ?tmp = Some c" for c
  proof -
    from that obtain g where g: "env_files e1 ?tmp = Some g" "file_content g = c" by (auto simp: content_of_def)
    from content_of_files [OF open_new_table_files [OF run2 [OF g(1)]], of ?p] g(2) have "content_of (db_env d') ?p = Some c"
      by (simp add: content_of_def set_file_def)
    with fit show ?thesis by (simp add: file_fits_def)
  qed
  from externals.build_table_file [OF X es(1) [unfolded table_fits_def, THEN conjunct1] es(1) [unfolded table_fits_def, THEN conjunct2] 1(2) len]
  obtain c idx blks where c: "content_of e1 ?tmp = Some c" "table_with X c es idx blks" by (auto simp: table_file_def)
  obtain g where g: "env_files e1 ?tmp = Some g" "file_content g = c" using c(1) by (auto simp: content_of_def)
  define d2 where "d2 = d\<lparr>db_env := set_file ?p (Some g) (set_file ?tmp None e1)\<rparr>"
  have new2: "new_table X G n c idx es d2"
    using c g n es by (auto simp: new_table_def d2_def content_of_def table_fits_def)
  have caches2: "caches_ok X G d2" and calm2: "env_faults (db_env d2) = []" and dir: "db_path d2 = db_path d"
    using caches 1(3) by (simp_all add: caches_ok_def d2_def set_file_def)
  obtain rd meta d3 where "open_new_table X n (table_path (db_path d2) n) f d2 = (Inr (rd, meta), d3)" "env_faults (db_env d3) = []"
    by (rule open_new_table_calm [OF new2 caches2 calm2])
  with run2 [OF g(1), folded d2_def] that show ?thesis by (simp add: dir)
qed

text \<open>The file that a flush of the memtable \<open>m\<close> builds has a length that fits in 64 bits.\<close>

abbreviation tmp_path :: "'m db \<Rightarrow> path" where
  "tmp_path d \<equiv> path_join (db_path d) (table_file_name (next_number d) @ ''.tmp'')"

definition built_fits :: "'m externs \<Rightarrow> 'm db \<Rightarrow> 'm memtable \<Rightarrow> bool" where
  "built_fits X d m \<longleftrightarrow>
     file_fits (snd (build_table X (tmp_path d) (block_size (db_options d)) (table_compression (db_options d)) (mem_entries X m) (db_env d))) (tmp_path d)"

lemma write_l0_calm:
  assumes X: "externals X" and caches: "caches_ok X G d" and n: "G n = None"
    and es: "table_fits (mem_entries X mem)" "sorted_entries (mem_entries X mem)" "mem_entries X mem \<noteq> []"
    and none: "packs X (table_compression (db_options d))" and calm: "env_faults (db_env d) = []"
    and new: "\<not> env_exists (table_path (db_path d) n) (db_env d)"
    and fit: "file_fits (snd (build_table X tmp (block_size (db_options d)) (table_compression (db_options d)) (mem_entries X mem) (db_env d))) tmp"
    and tmp: "tmp = path_join (db_path d) (table_file_name n @ ''.tmp'')"
  obtains rd meta d' where "write_l0_table X mem n d = (Inr (rd, meta), d')" "env_faults (db_env d') = []"
    "file_fits (db_env d') (table_path (db_path d) n)"
proof -
  let ?p = "table_path (db_path d) n" and ?es = "mem_entries X mem"
  let ?build = "build_table X tmp (block_size (db_options d)) (table_compression (db_options d)) ?es"
  obtain e1 where 1: "on_env ?build d = (Inr (), d\<lparr>db_env := e1\<rparr>)" "?build (db_env d) = (Inr (), e1)" "env_faults e1 = []"
    using on_env_calm [OF calm_build_table [OF none, of tmp "block_size (db_options d)" ?es] calm] by (metis old.unit.exhaust)
  have len: "length c < 2 ^ 64" if "content_of e1 tmp = Some c" for c using fit that by (simp add: 1(2) file_fits_def)
  from externals.build_table_file [OF X es(1) [unfolded table_fits_def, THEN conjunct1]
      es(1) [unfolded table_fits_def, THEN conjunct2] 1(2) this]
  obtain c idx blks where c: "content_of e1 tmp = Some c" "table_with X c ?es idx blks" by (auto simp: table_file_def)
  obtain f where f: "env_files e1 tmp = Some f" "file_content f = c" using c(1) by (auto simp: content_of_def)
  define d2 where "d2 = d\<lparr>db_env := set_file ?p (Some f) (set_file tmp None e1)\<rparr>"
  have 2: "on_env (env_rename tmp ?p) (d\<lparr>db_env := e1\<rparr>) = (Inr (), d2)"
    using f(1) 1(3) by (simp add: on_env_def env_rename_def faultable_def take_fault_def d2_def)
  have new2: "new_table X G n c idx ?es d2"
    using c f n es by (auto simp: new_table_def d2_def content_of_def table_fits_def)
  have "caches_ok X G d2" "env_faults (db_env d2) = []" and dir: "db_path d2 = db_path d"
    using caches 1(3) by (simp_all add: caches_ok_def d2_def set_file_def)
  then obtain rd meta d'
    where 3: "open_new_table X n ?p record_sst_write d2 = (Inr (rd, meta), d')" "env_faults (db_env d') = []"
    using open_new_table_calm [OF new2, unfolded dir] by blast
  have "content_of (db_env d') ?p = Some c"
    using new2 content_of_files [OF open_new_table_files [OF 3(1)], of ?p] by (simp add: new_table_def d2_def)
  then have fits: "file_fits (db_env d') ?p" using len c by (simp add: file_fits_def)
  have "write_l0_table X mem n d = (Inr (rd, meta), d')"
    using new 1(1) 2 3(1) by (simp add: write_l0_table_def Let_def table_path_def [symmetric] tmp [symmetric] op_then_Inr)
  with 3(2) fits that show ?thesis by blast
qed

lemma flush_taken_calm:
  assumes X: "externals X" and ok: "db_ok X G d" and opened: "\<not> db_closed d"
    and take: "take_oldest_flushable_memtable X d = (Some (mem, source), d1)" "d1 = with_mems a b d"
    and es: "table_fits (mem_entries X mem)" "sorted_entries (mem_entries X mem)" "mem_entries X mem \<noteq> []"
    and none: "packs X (table_compression (db_options d))" and calm: "env_faults (db_env d) = []"
    and new: "\<not> env_exists (table_path (db_path d) (next_number d)) (db_env d)" and fit: "built_fits X d mem"
  obtains d' where "db_flush X d = (Inr (), d')" "env_faults (db_env d') = []"
    "file_fits (db_env d') (table_path (db_path d) (next_number d))"
proof -
  let ?n = "next_number d"
  define d2 where "d2 = d1\<lparr>db_versions := (db_versions d)\<lparr>vs_next_file_number := ?n + 1\<rparr>\<rparr>"
  have 1: "db_allocate_file_number d1 = (Inr ?n, d2)"
    by (simp add: db_allocate_file_number_def allocate_file_number_def d2_def take(2))
  have sel: "db_path d2 = db_path d" "db_options d2 = db_options d" "db_env d2 = db_env d"
    by (simp_all add: d2_def take(2))
  have "G ?n = None" using ok unfolding db_ok_def numbered_def by (metis less_irrefl)
  moreover have "caches_ok X G d2" using db_ok_with_mems(2) [OF ok take(2)] by (simp add: d2_def caches_ok_def)
  ultimately obtain rd meta d3 where 2: "write_l0_table X mem ?n d2 = (Inr (rd, meta), d3)" "env_faults (db_env d3) = []"
    "file_fits (db_env d3) (table_path (db_path d) ?n)"
    using write_l0_calm [OF X _ _ es, of G d2 ?n "tmp_path d"] none calm new fit unfolding sel built_fits_def by metis
  obtain d4 where 3: "publish_l0_table X meta (db_last_sequence d3) d3 = (Inr (), d4)" "env_faults (db_env d4) = []"
    by (rule publish_calm [OF 2(2)])
  have "manifest_ok d3" "db_path d3 = db_path d"
    using ok write_l0_versions [OF 2(1)] by (simp_all add: db_ok_def manifest_ok_def d2_def take(2))
  then have "file_fits (db_env d4) (table_path (db_path d) ?n)"
    using publish_files [OF 3(1), of ?n] 2(3) by (simp add: file_fits_def content_of_def)
  with 1 2 3 that show ?thesis by (simp add: db_flush_take [OF opened take(1)] op_then_Inr)
qed

lemma flush_calm:
  assumes X: "externals X" and ok: "db_ok X G d" and fits: "mems_fit X d" "frozen_full X d" and opened: "\<not> db_closed d"
    and none: "packs X (table_compression (db_options d))" and calm: "env_faults (db_env d) = []"
    and new: "\<not> env_exists (table_path (db_path d) (next_number d)) (db_env d)"
    and built: "\<forall>m\<in>set (db_mutable d # db_immutables d). built_fits X d m"
  obtains d' where "db_flush X d = (Inr (), d')" "env_faults (db_env d') = []"
    "file_fits (db_env d') (table_path (db_path d) (next_number d))"
proof -
  obtain t d1 where take: "take_oldest_flushable_memtable X d = (t, d1)" by fastforce
  have mems: "sorted_entries (mem_entries X (db_mutable d))" "\<forall>m\<in>set (db_immutables d). sorted_entries (mem_entries X m)"
    using ok by (auto simp: db_ok_def readable_def mems_ok_def)
  note step = flush_taken_calm [OF X ok opened _ _ _ _ _ none calm new]
  from X take show ?thesis
  proof (cases rule: take_oldest_cases)
    case none
    with opened take have "db_flush X d = (Inr (), d)" by (simp add: db_flush_def)
    moreover have "file_fits (db_env d) (table_path (db_path d) (next_number d))"
      using new by (simp add: file_fits_def content_of_def env_exists_def)
    ultimately show ?thesis using calm that by blast
  next
    case (oldest m ms)
    with fits mems(2) built have "table_fits (mem_entries X m)" "sorted_entries (mem_entries X m)" "mem_entries X m \<noteq> []"
      "built_fits X d m" by (simp_all add: mems_fit_def frozen_full_def)
    from step [OF take [unfolded oldest(2)] oldest(3) this] that show ?thesis by blast
  next
    case (mutable m)
    have "table_fits (mem_entries X (db_mutable d))" "built_fits X d (db_mutable d)" using fits built by (simp_all add: mems_fit_def)
    from step [OF take [unfolded mutable(3)] mutable(4) this(1) mems(1) mutable(2) this(2)] that show ?thesis by blast
  qed
qed

subsection \<open>Properties\<close>

text \<open>
  C10: a flush loses nothing and changes no read.  On a closed database it fails; otherwise,
  whatever calls fail on the way, the database stays consistent with every stored entry it
  had.  When the flush succeeds, the oldest memtable has become a level-0 table: a frozen one
  if there is any, else the mutable one, which is replaced by an empty one.  When it fails,
  the memtables are as before.
\<close>

theorem flush_correct:
  assumes "externals X" and "db_ok X G d" and "mems_fit X d" and "frozen_full X d"
    and "unat (next_number d) + 2 < 2 ^ 64"
    and "db_flush X d = (r, d')" and "file_fits (db_env d') (table_path (db_path d) (next_number d))"
  shows "if db_closed d then r = Inl Closed \<and> d' = d
    else \<exists>G'. db_ok X G' d' \<and> (\<forall>n. G n \<noteq> None \<longrightarrow> G' n = G n) \<and> db_entries X G' d' = db_entries X G d \<and>
      db_last_sequence d' = db_last_sequence d \<and>
      (case r of
         Inl e \<Rightarrow> db_mutable d' = db_mutable d \<and> db_immutables d' = db_immutables d
       | Inr _ \<Rightarrow> (case db_immutables d of
             [] \<Rightarrow> db_immutables d' = [] \<and> mem_entries X (db_mutable d') = []
           | m # ms \<Rightarrow> db_mutable d' = db_mutable d \<and> db_immutables d' = ms))"
proof (cases "db_closed d")
  case True
  with assms(6) show ?thesis by (simp add: db_flush_def)
next
  case False
  from flush_outcome [OF assms False] False show ?thesis by simp blast
qed

definition demo_options :: options where
  "demo_options =
     \<lparr>create_if_missing = True, error_if_exists = False, memtable_size = 64,
      max_immutable_memtables = 3, block_size = 64, target_file_size_base = 64,
      max_levels = 7, level0_file_num_compaction_trigger = 4, level0_slowdown_writes_trigger = 12,
      level0_stop_writes_trigger = 20, max_bytes_for_level_base = 64,
      max_bytes_for_level_multiplier = Finite False 10, wal_enabled = True, wal_sync_opt = Never,
      bloom_false_positive_rate = Finite False (1 / 128), block_cache_capacity = 8,
      max_background_flushes = 1, max_background_compactions = 1, max_subcompactions = 1,
      opt_memtable_kind = KindBTree, table_compression = NoCompression,
      write_rate_limit_bytes_per_sec = None, write_group_max_delay = 0\<rparr>"

definition demo_full :: "entry list db" where
  "demo_full =
     \<lparr>db_path = ''d'', db_options = demo_options,
      db_mutable = mem_put demo_externs (mem_new demo_externs KindBTree) 1 [1] [7], db_immutables = [],
      db_l0_tables = [], db_level_tables = [[], [], [], [], [], [], []], db_last_sequence = 1, db_closed = False,
      db_versions = demo_version_set, db_block_cache = block_cache_new (\<lambda>_. 0) 8,
      db_table_cache = table_cache_new_with_env (\<lambda>_. 0) 8, db_watermark = watermark_new,
      db_metrics = metrics_new, db_wal = path_join ''d'' (wal_file_name 0), db_env = demo_manifest_env\<rparr>"

lemma demo_full_sel:
  "db_path demo_full = ''d''" "db_options demo_full = demo_options" "db_immutables demo_full = []" "db_l0_tables demo_full = []"
  "db_level_tables demo_full = [[], [], [], [], [], [], []]" "db_last_sequence demo_full = 1" "\<not> db_closed demo_full"
  "db_versions demo_full = demo_version_set" "db_wal demo_full = path_join ''d'' (wal_file_name 0)"
  "db_env demo_full = demo_manifest_env" "vs_next_file_number demo_version_set = 2"
  "mem_entries demo_externs (db_mutable demo_full) = [(InternalKey [1] 1 TypePut, Put [7])]"
  by (simp_all add: demo_full_def demo_version_set_def recovered_def mem_new_def bt_defs demo_externs_def btree_externs_def)

lemma demo_full_entries:
  "layers demo_externs Map.empty demo_full = [[(InternalKey [1] 1 TypePut, Put [7])], [], [], [], [], [], []]"
  by (simp add: layers_def mem_layers_def l0_layers_def level_layers_def demo_full_sel)

lemma demo_full_ok: "db_ok demo_externs Map.empty demo_full" "mems_fit demo_externs demo_full" "frozen_full demo_externs demo_full"
  "packs demo_externs (table_compression (db_options demo_full))" "env_faults (db_env demo_full) = []"
  "\<not> env_exists (table_path (db_path demo_full) (next_number demo_full)) (db_env demo_full)"
  "\<forall>m\<in>set (db_mutable demo_full # db_immutables demo_full). built_fits demo_externs demo_full m"
proof -
  have "readable demo_externs Map.empty demo_full"
    by (simp add: readable_def mems_ok_def refs_ok_def all_refs_def caches_ok_def layers_ok_layered demo_full_entries
        demo_full_sel layered_def distinct_versions_def level_disjoint_def)
      (simp add: demo_full_def cache_coherent_def block_cache_new_def table_cache_new_with_env_def)
  then show "db_ok demo_externs Map.empty demo_full"
    by (auto simp: db_ok_def wal_ok_def manifest_ok_def numbered_def demo_full_sel demo_version_set_def meta_paths_def)
  show "mems_fit demo_externs demo_full" "frozen_full demo_externs demo_full"
    by (simp_all add: mems_fit_def frozen_full_def demo_full_sel table_fits_def entry_ok_def DEFAULT_BITS_PER_KEY_def)
  show "packs demo_externs (table_compression (db_options demo_full))" "env_faults (db_env demo_full) = []"
    by (simp_all add: demo_full_sel demo_options_def demo_manifest_env_def)
  show "\<not> env_exists (table_path (db_path demo_full) (next_number demo_full)) (db_env demo_full)"
    unfolding table_path_def demo_full_sel by code_simp
  have "case content_of (snd (build_table demo_externs (path_join ''d'' (table_file_name 2 @ ''.tmp'')) 64 NoCompression
      [(InternalKey [1] 1 TypePut, Put [7])] demo_manifest_env)) (path_join ''d'' (table_file_name 2 @ ''.tmp'')) of
      None \<Rightarrow> False | Some c \<Rightarrow> length c < 300" by code_simp
  then show "\<forall>m\<in>set (db_mutable demo_full # db_immutables demo_full). built_fits demo_externs demo_full m"
    by (auto simp: built_fits_def file_fits_def demo_full_sel demo_options_def split: option.splits)
qed

lemma demo_flush:
  obtains d' where "db_flush demo_externs demo_full = (Inr (), d')" "env_faults (db_env d') = []"
    "file_fits (db_env d') (table_path (db_path demo_full) (next_number demo_full))"
  by (rule flush_calm [OF demo_ok(1) demo_full_ok(1-3) demo_full_sel(7) demo_full_ok(4-7)])

theorem flush_correct_witness:
  "\<exists>G' d'. db_flush demo_externs demo_full = (Inr (), d') \<and> db_ok demo_externs G' d' \<and>
     db_entries demo_externs G' d' = [(InternalKey [1] 1 TypePut, Put [7])] \<and> mem_entries demo_externs (db_mutable d') = []"
proof -
  obtain d' where run: "db_flush demo_externs demo_full = (Inr (), d')"
    and fit: "file_fits (db_env d') (table_path (db_path demo_full) (next_number demo_full))" by (rule demo_flush)
  have "unat (next_number demo_full) + 2 < 2 ^ 64" by (simp add: demo_full_sel)
  from flush_correct [OF demo_ok(1) demo_full_ok(1-3) this run fit] run show ?thesis
    by (auto simp: demo_full_sel db_entries_def [of _ _ demo_full] demo_full_entries)
qed

text \<open>
  C19: a flush makes progress.  On an open database, when no call fails, blocks can be
  compressed as the options ask, no file has the next table's name and that table is not too
  long, a flush succeeds.
\<close>

theorem flush_succeeds:
  assumes "externals X" and "db_ok X G d" and "mems_fit X d" and "frozen_full X d" and "\<not> db_closed d"
    and "packs X (table_compression (db_options d))" and "env_faults (db_env d) = []"
    and "\<not> env_exists (table_path (db_path d) (next_number d)) (db_env d)"
    and "\<forall>m\<in>set (db_mutable d # db_immutables d). built_fits X d m"
  shows "\<exists>d'. db_flush X d = (Inr (), d') \<and> env_faults (db_env d') = []"
  using flush_calm [OF assms] by blast


theorem flush_succeeds_witness: "\<exists>d'. db_flush demo_externs demo_full = (Inr (), d')"
  using flush_succeeds [OF demo_ok(1) demo_full_ok(1-3) demo_full_sel(7) demo_full_ok(4-7)] by blast

end
