(* ===== verification/Database_Api.thy ===== *)
theory Database_Api
  imports Database_Progress
begin

section \<open>Writing through the interface\<close>

text \<open>
  \<^verbatim>\<open>DB::write\<close> as a whole: the write pressure, the group with its log and its memtable, and
  the flush it starts when a memtable has been frozen.
\<close>

subsection \<open>What the memtables hold after a group\<close>

abbreviation memtables :: "'m db \<Rightarrow> 'm memtable list" where
  "memtables d \<equiv> db_mutable d # db_immutables d"

definition mems_within :: "'m externs \<Rightarrow> entry set \<Rightarrow> 'm db \<Rightarrow> bool" where
  "mems_within X S d \<longleftrightarrow> (\<forall>m\<in>set (memtables d). set (mem_entries X m) \<subseteq> S)"

lemma set_btree_insert_subset: "set (btree_insert k v m) \<subseteq> insert (k, v) (set m)"
  by (induction k v m rule: btree_insert.induct) auto

context externals
begin

lemma apply_batch_within:
  assumes "set (mem_entries X mem) \<subseteq> S" and "set (batch_entries q rs) \<subseteq> S"
  shows "set (mem_entries X (fst (apply_batch X q rs (mem, s)))) \<subseteq> S"
  using assms
proof (induction rs arbitrary: mem q s)
  case (Cons r rs)
  have "set (mem_entries X (mem_write X (record_write q r) mem)) \<subseteq> S"
    unfolding entries_mem_write using set_btree_insert_subset Cons.prems by fastforce
  with Cons show ?case by (simp add: apply_record)
qed simp

lemma freeze_within:
  assumes "mems_within X S d" and "freeze_mutable_if_needed X d = (frozen, d')" and "frozen_full X d"
  shows "mems_within X S d'" and "frozen_full X d'"
  using assms mem_entries_new mem_empty_entries
  by (auto simp: freeze_mutable_if_needed_def mems_within_def frozen_full_def subset_iff split: if_splits)

lemma apply_items_within:
  assumes "mems_within X S d" and "frozen_full X d" and "set (batch_entries q (group_records items)) \<subseteq> S"
    and "apply_items X (assign_sequences q items) flushing d = (b, d')"
  shows "mems_within X S d' \<and> frozen_full X d'"
  using assms
proof (induction items arbitrary: d q flushing)
  case (Cons item items)
  let ?d1 = "db_apply_batch X q (gw_batch item) d"
  obtain frozen d2 where fr: "freeze_mutable_if_needed X ?d1 = (frozen, d2)" by fastforce
  have new: "set (batch_entries q (records (gw_batch item))) \<subseteq> S"
    "set (batch_entries (q + word_of_nat (length (records (gw_batch item)))) (group_records items)) \<subseteq> S"
    using Cons.prems(3) by (simp_all add: group_records_def batch_entries_append)
  have "mems_within X S ?d1" "frozen_full X ?d1"
    using Cons.prems(1,2) apply_batch_within [OF _ new(1), of "db_mutable d" "db_last_sequence d"]
    by (auto simp: db_apply_batch_def mems_within_def frozen_full_def split: prod.splits)
  from freeze_within [OF this(1) fr this(2)] have "mems_within X S d2" "frozen_full X d2" .
  from Cons.IH [OF this new(2)] Cons.prems(4) fr show ?case by simp
qed simp

end

lemma fits_subset:
  assumes "sorted_entries es" and "set es \<subseteq> set all" and "table_fits all"
  shows "table_fits es"
proof -
  have "distinct es"
    using assms(1) strict_sorted_iff [of "map fst es"] by (auto simp: distinct_map)
  then have "length es \<le> length all"
    using assms(2) by (metis List.finite_set card_length card_mono distinct_card order_trans)
  then show ?thesis
    using assms(2,3) by (auto simp: table_fits_def list_all_iff elim: le_less_trans [rotated])
qed

lemma mems_fit_within: "mems_within X (set es) d \<Longrightarrow> mems_ok X d \<Longrightarrow> table_fits es \<Longrightarrow> mems_fit X d"
  unfolding mems_fit_def mems_within_def mems_ok_def by (blast intro: fits_subset)

text \<open>There is room for the records: sequence numbers do not run out and no table grows too large.\<close>

definition room :: "'m externs \<Rightarrow> batch_record list \<Rightarrow> 'm db \<Rightarrow> bool" where
  "room X rs d \<longleftrightarrow> unat (db_last_sequence d) + length rs < 2 ^ 64 \<and>
     table_fits (concat (map (mem_entries X) (memtables d)) @ batch_entries (db_last_sequence d + 1) rs)"

lemma write_group_mems:
  assumes X: "externals X" and full: "frozen_full X d" and room: "room X (group_records items) d"
    and run: "apply_write_group_to_memtable X items d = (r, d')" and opened: "\<not> db_closed d" and ok: "mems_ok X d'"
  shows "frozen_full X d'" and "mems_fit X d'"
proof -
  let ?es = "concat (map (mem_entries X) (memtables d)) @ batch_entries (db_last_sequence d + 1) (group_records items)"
  have within: "mems_within X (set ?es) d2" if "keeps P d d2" for P d2
    using keeps_sel(3,4) [OF that] by (auto simp: mems_within_def)
  have full2: "frozen_full X d2" if "keeps P d d2" for P d2
    using keeps_sel(4) [OF that] full by (simp add: frozen_full_def)
  from run opened have "mems_within X (set ?es) d' \<and> frozen_full X d'"
  proof (cases rule: write_group_split)
    case (fail e)
    with log_group_ok [OF fail(1)] within full2 show ?thesis by blast
  next
    case (ok b d1)
    from log_group_ok [OF ok(1)] have "mems_within X (set ?es) d1" "frozen_full X d1" using within full2 by blast+
    then show ?thesis by (rule externals.apply_items_within [OF X _ _ _ ok(2)]) auto
  qed
  with mems_fit_within [of X ?es d'] ok room show "frozen_full X d'" "mems_fit X d'" by (simp_all add: room_def)
qed

subsection \<open>A group and the flush it starts\<close>

abbreviation write_and_flush :: "'m externs \<Rightarrow> group_write_item list \<Rightarrow> 'm db \<Rightarrow> unit result \<times> 'm db" where
  "write_and_flush X items \<equiv> op_then (apply_write_group_to_memtable X items) (\<lambda>should_flush.
     if should_flush then db_flush X else op_lift (Inr ()))"

text \<open>The state after a write: everything that was there, and the records either all or not at all.\<close>

definition written :: "'m externs \<Rightarrow> ghost \<Rightarrow> batch_record list \<Rightarrow> 'm db \<Rightarrow> ghost \<Rightarrow> 'm db \<Rightarrow> bool" where
  "written X G rs d G' d' \<longleftrightarrow> db_last_sequence d' = db_last_sequence d + word_of_nat (length rs) \<and>
     set (db_entries X G' d') = set (db_entries X G d) \<union> set (batch_entries (db_last_sequence d + 1) rs)"

definition extends :: "ghost \<Rightarrow> ghost \<Rightarrow> bool" where
  "extends G G' \<longleftrightarrow> (\<forall>n. G n \<noteq> None \<longrightarrow> G' n = G n)"

lemma extends_refl [simp]: "extends G G"
  by (simp add: extends_def)

lemma written_Nil: "db_last_sequence d' = db_last_sequence d \<Longrightarrow> db_entries X G' d' = db_entries X G d \<Longrightarrow> written X G [] d G' d'"
  by (simp add: written_def)

lemma flush_frozen_full:
  assumes "frozen_full X d" and "case (r :: unit result) of
       Inl e \<Rightarrow> db_mutable d' = db_mutable d \<and> db_immutables d' = db_immutables d
     | Inr _ \<Rightarrow> (case db_immutables d of
           [] \<Rightarrow> db_immutables d' = [] \<and> mem_entries X (db_mutable d') = []
         | m # ms \<Rightarrow> db_mutable d' = db_mutable d \<and> db_immutables d' = ms)"
  shows "frozen_full X d'"
  using assms by (auto simp: frozen_full_def split: sum.splits list.splits)

lemma write_and_flush_ok:
  assumes X: "externals X" and ok: "db_ok X G d" and full: "frozen_full X d" and room: "room X (group_records items) d"
    and num: "unat (next_number d) + 2 < 2 ^ 64" and opened: "\<not> db_closed d"
    and run: "write_and_flush X items d = (r, d')" and fit: "file_fits (db_env d') (table_path (db_path d) (next_number d))"
  shows "\<exists>G'. db_ok X G' d' \<and> frozen_full X d' \<and> extends G G' \<and> \<not> db_closed d' \<and>
    (written X G (group_records items) d G' d' \<or> r \<noteq> Inr () \<and> written X G [] d G' d')"
proof -
  obtain r1 d1 where w: "apply_write_group_to_memtable X items d = (r1, d1)" by fastforce
  from ok have rd: "readable X G d" and wal: "wal_ok d" by (simp_all add: db_ok_def)
  from room have few: "unat (db_last_sequence d) + length (group_records items) < 2 ^ 64" by (simp add: room_def)
  note out = write_group_outcome [OF X rd wal few w opened]
  from out have d1: "readable X G d1" "wal_ok d1" "db_versions d1 = db_versions d" "db_path d1 = db_path d" "\<not> db_closed d1"
    using opened by simp_all
  have ok1: "db_ok X G d1" using ok d1 by (simp add: db_ok_def manifest_ok_def numbered_def)
  have mems: "frozen_full X d1" "mems_fit X d1"
    using write_group_mems [OF X full room w opened] d1(1) by (simp_all add: readable_def)
  show ?thesis
  proof (cases r1)
    case (Inl e)
    with run w have "r = Inl e" "d' = d1" by (simp_all add: op_then_Inl)
    with out Inl ok1 mems d1 show ?thesis by (intro exI [of _ G]) (simp add: written_Nil)
  next
    case (Inr flushing)
    with out have wr: "written X G (group_records items) d G d1" by (simp add: written_def)
    show ?thesis
    proof (cases flushing)
      case False
      with run w Inr have "d' = d1" by (simp add: op_then_Inr op_lift_def)
      with wr ok1 mems d1 show ?thesis by (intro exI [of _ G]) simp
    next
      case True
      with run w Inr have fl: "db_flush X d1 = (r, d')" by (simp add: op_then_Inr)
      from flush_outcome [OF X ok1 mems(2,1) _ fl _ d1(5)] num fit d1
      obtain G' where G': "db_ok X G' d'" "extends G G'" "db_entries X G' d' = db_entries X G d1"
        "db_last_sequence d' = db_last_sequence d1" "db_closed d' = db_closed d1" and m: "case r of
          Inl e \<Rightarrow> db_mutable d' = db_mutable d1 \<and> db_immutables d' = db_immutables d1
        | Inr _ \<Rightarrow> (case db_immutables d1 of
              [] \<Rightarrow> db_immutables d' = [] \<and> mem_entries X (db_mutable d') = []
            | m # ms \<Rightarrow> db_mutable d' = db_mutable d1 \<and> db_immutables d' = ms)"
        unfolding extends_def by fastforce
      from G' wr flush_frozen_full [OF mems(1) m] d1(5) show ?thesis by (intro exI [of _ G']) (simp add: written_def)
    qed
  qed
qed

subsection \<open>DB::write\<close>

lemma db_ok_metrics [simp]:
  "db_ok X G (d\<lparr>db_metrics := m\<rparr>) = db_ok X G d" "frozen_full X (d\<lparr>db_metrics := m\<rparr>) = frozen_full X d"
  "room X rs (d\<lparr>db_metrics := m\<rparr>) = room X rs d" "db_entries X G (d\<lparr>db_metrics := m\<rparr>) = db_entries X G d"
  "written X G rs (d\<lparr>db_metrics := m\<rparr>) G' d' = written X G rs d G' d'"
  by (simp_all add: db_ok_def readable_def mems_ok_def refs_ok_def all_refs_def caches_ok_def layers_ok_def wal_ok_def
      manifest_ok_def numbered_def frozen_full_def room_def written_def db_entries_def layers_def mem_layers_def
      l0_layers_def level_layers_def)

lemma repeat_group_error_one: "hd (repeat_group_error X e 1) \<noteq> Inr ()" "hd (repeat_group_error X Closed 1) = Inl Closed"
  by (cases e) simp_all

lemma db_write_steps:
  assumes run: "db_write X batch opts d = (r, d')" and ne: "records batch \<noteq> []"
    and calm: "length (db_l0_tables d) < level0_stop_writes_trigger (db_options d)"
  obtains m r' where "write_and_flush X (group_items [(batch, opts)]) (d\<lparr>db_metrics := m\<rparr>) = (r', d')"
    "r' = Inr () \<longleftrightarrow> r = Inr ()" "r' = Inl Closed \<longrightarrow> r = Inl Closed"
proof -
  let ?m = "record_user_write (sum_list (map gw_user_write_bytes (group_items [(batch, opts)]))) (db_metrics d)"
  obtain r' d1 where w: "write_and_flush X (group_items [(batch, opts)]) (d\<lparr>db_metrics := ?m\<rparr>) = (r', d1)" by fastforce
  have r: "r = (case r' of Inl e \<Rightarrow> hd (repeat_group_error X e 1) | Inr _ \<Rightarrow> Inr ())" and "d' = d1"
    using run ne calm w
    by (auto simp: db_write_def write_batch_is_empty_def apply_write_group_def Let_def metric_def apply_write_pressure_def
        op_then_Inr op_then_def [of "\<lambda>d. (Inr (), _ d)"] split: sum.splits)
  with w have "write_and_flush X (group_items [(batch, opts)]) (d\<lparr>db_metrics := ?m\<rparr>) = (r', d')" by simp
  then show ?thesis by (rule that) (use r repeat_group_error_one in \<open>auto split: sum.splits\<close>)
qed

lemma group_records_one [simp]: "group_records (group_items [(batch, opts)]) = records batch"
  by (simp add: group_records_def group_items_def)

lemma write_and_flush_closed: "db_closed d \<Longrightarrow> write_and_flush X items d = (Inl Closed, d)"
  by (simp add: apply_write_group_to_memtable_def op_then_def)

lemma db_write_outcome:
  assumes X: "externals X" and ok: "db_ok X G d" and full: "frozen_full X d" and room: "room X (records batch) d"
    and num: "unat (next_number d) + 2 < 2 ^ 64"
    and calm: "length (db_l0_tables d) < level0_stop_writes_trigger (db_options d)"
    and run: "db_write X batch opts d = (r, d')" and fit: "file_fits (db_env d') (table_path (db_path d) (next_number d))"
  shows "\<exists>G'. db_ok X G' d' \<and> frozen_full X d' \<and> extends G G' \<and> db_closed d' = db_closed d \<and>
    (db_closed d \<and> records batch \<noteq> [] \<longrightarrow> r = Inl Closed) \<and>
    (written X G (records batch) d G' d' \<or> r \<noteq> Inr () \<and> written X G [] d G' d')"
proof (cases "records batch = []")
  case True
  with run have "r = Inr ()" "d' = d" by (simp_all add: db_write_def write_batch_is_empty_def)
  with ok full True show ?thesis by (intro exI [of _ G]) (simp add: written_Nil)
next
  case False
  from run this calm obtain m r' where w: "write_and_flush X (group_items [(batch, opts)]) (d\<lparr>db_metrics := m\<rparr>) = (r', d')"
    and r: "r' = Inr () \<longleftrightarrow> r = Inr ()" "r' = Inl Closed \<longrightarrow> r = Inl Closed" by (rule db_write_steps)
  show ?thesis
  proof (cases "db_closed d")
    case True
    with w have "r' = Inl Closed" "d' = d\<lparr>db_metrics := m\<rparr>"
      using write_and_flush_closed [of "d\<lparr>db_metrics := m\<rparr>" X] by auto
    with r ok full True show ?thesis by (intro exI [of _ G]) (simp add: written_Nil)
  next
    case opened: False
    have "room X (group_records (group_items [(batch, opts)])) (d\<lparr>db_metrics := m\<rparr>)" using room by simp
    from write_and_flush_ok [OF X _ _ this _ _ w, of G] ok full num fit opened r(1) show ?thesis by simp
  qed
qed

lemma written_reads:
  assumes ok: "db_ok X G d" "db_ok X G' d'" and few: "unat (db_last_sequence d) + length rs < 2 ^ 64"
    and w: "written X G rs d G' d'"
  shows "lookup_at (db_entries X G' d') k (db_last_sequence d') =
      (case latest_record k rs of Some v \<Rightarrow> Some v | None \<Rightarrow> lookup_at (db_entries X G d) k (db_last_sequence d))"
    and "s \<le> db_last_sequence d \<Longrightarrow> lookup_at (db_entries X G' d') k s = lookup_at (db_entries X G d) k s"
proof -
  have "\<forall>e\<in>set (db_entries X G d). sequence (fst e) \<le> db_last_sequence d" "distinct_versions (set (db_entries X G' d'))"
    using ok by (simp_all add: db_ok_def readable_def layers_ok_def)
  note reads_after_batch [OF few this]
  with w show "lookup_at (db_entries X G' d') k (db_last_sequence d') =
      (case latest_record k rs of Some v \<Rightarrow> Some v | None \<Rightarrow> lookup_at (db_entries X G d) k (db_last_sequence d))"
    and "s \<le> db_last_sequence d \<Longrightarrow> lookup_at (db_entries X G' d') k s = lookup_at (db_entries X G d) k s"
    by (simp_all add: written_def)
qed

subsection \<open>Properties\<close>


definition demo_batch :: write_batch where
  "demo_batch = \<lparr>records = [BatchPut [1] [7], BatchDelete [2]]\<rparr>"

lemma demo_write_ok:
  "db_ok demo_externs Map.empty demo_fresh" "frozen_full demo_externs demo_fresh" "room demo_externs (records demo_batch) demo_fresh"
  "unat (next_number demo_fresh) + 2 < 2 ^ 64"
  "length (db_l0_tables demo_fresh) < level0_stop_writes_trigger (db_options demo_fresh)"
proof -
  show "db_ok demo_externs Map.empty demo_fresh"
    using demo_fresh_ok by (auto simp: db_ok_def manifest_ok_def numbered_def demo_fresh_sel demo_version_set_def meta_paths_def)
  show "frozen_full demo_externs demo_fresh" by (simp add: frozen_full_def demo_fresh_sel)
  show "room demo_externs (records demo_batch) demo_fresh"
    by (simp add: room_def demo_fresh_sel demo_batch_def externals.mem_entries_new [OF demo_ok(1)] table_fits_def entry_ok_def
        DEFAULT_BITS_PER_KEY_def)
  show "unat (next_number demo_fresh) + 2 < 2 ^ 64" by (simp add: demo_fresh_sel demo_full_sel(11))
  show "length (db_l0_tables demo_fresh) < level0_stop_writes_trigger (db_options demo_fresh)"
    by (simp add: demo_fresh_sel default_options_def)
qed

lemma demo_no_table: "env_files (db_env demo_fresh) (table_path (db_path demo_fresh) (next_number demo_fresh)) = None"
proof -
  have "db_env demo_fresh = set_file (path_join ''d'' (wal_file_name 0)) (Some empty_file) demo_manifest_env" by (simp add: demo_fresh_def)
  moreover have "env_files (set_file (path_join ''d'' (wal_file_name 0)) (Some empty_file) demo_manifest_env)
    (path_join ''d'' (table_file_name 2)) = None" by code_simp
  ultimately show ?thesis by (simp add: table_path_def demo_fresh_sel demo_full_sel(11))
qed

text \<open>Without faults, a batch that does not fill the memtable is written.\<close>

definition small_batch :: "write_batch \<Rightarrow> bool" where
  "small_batch batch \<longleftrightarrow> (\<forall>d1 b d2. apply_items demo_externs (assign_sequences 1 (group_items [(batch, default_write_options)])) False d1 = (b, d2) \<longrightarrow>
     db_mutable d1 = mem_new demo_externs KindBTree \<longrightarrow> db_options d1 = default_options \<longrightarrow> db_last_sequence d1 = 0 \<longrightarrow> \<not> b)"

lemma demo_small: "small_batch demo_batch"
  using demo_not_frozen unfolding small_batch_def demo_batch_def demo_items_def by blast

lemma demo_group_run:
  assumes small: "small_batch batch" and sel: "db_closed d = db_closed demo_fresh" "db_last_sequence d = db_last_sequence demo_fresh"
    "db_env d = db_env demo_fresh" "db_wal d = db_wal demo_fresh" "db_mutable d = db_mutable demo_fresh" "db_options d = db_options demo_fresh"
  obtains d' where "write_and_flush demo_externs (group_items [(batch, default_write_options)]) d = (Inr (), d')"
    "file_fits (db_env d') (table_path (db_path demo_fresh) (next_number demo_fresh))" "env_faults (db_env d') = []"
proof -
  let ?group = "group_items [(batch, default_write_options)]" and ?p = "table_path (db_path demo_fresh) (next_number demo_fresh)"
  let ?items = "assign_sequences (db_last_sequence d + 1) ?group"
  have opened: "\<not> db_closed d" and calm: "env_faults (db_env d) = []" by (simp_all add: sel demo_fresh_sel)
  obtain r1 d2 where g: "apply_write_group_to_memtable demo_externs ?group d = (r1, d2)" by fastforce
  obtain d1 where l: "log_group demo_externs ?items d = (Inr (), d1)" "env_faults (db_env d1) = []"
    using log_group_faultless [OF calm, of demo_externs ?items] by blast
  obtain b where i: "apply_items demo_externs ?items False d1 = (b, d2)" and r1: "r1 = Inr b"
    using g opened by (cases rule: write_group_split) (use l in auto)
  from log_group_ok [OF l(1)] have k: "keeps {db_wal d} d d1" by simp
  have "\<not> b"
    using small i keeps_sel(2,3,7) [OF k] unfolding small_batch_def by (simp add: sel demo_fresh_sel) blast
  with g r1 have run: "write_and_flush demo_externs ?group d = (Inr (), d2)" by (simp add: op_then_Inr op_lift_def)
  have "?p \<notin> {db_wal d}" using wal_not_table_path [OF demo_fresh_ok(2)] sel(4) by simp
  then have "env_files (db_env d2) ?p = None" "db_env d2 = db_env d1"
    using keeps_sel(12) [OF k] demo_no_table sel(3) same_store_sel(11) [OF apply_items_store [OF i]] by auto
  with run l(2) that show ?thesis by (simp add: file_fits_def content_of_def)
qed

lemma demo_write_run:
  assumes ne: "records batch \<noteq> []" and small: "small_batch batch"
  obtains d' where "db_write demo_externs batch default_write_options demo_fresh = (Inr (), d')"
    "file_fits (db_env d') (table_path (db_path demo_fresh) (next_number demo_fresh))" "env_faults (db_env d') = []"
proof -
  obtain r d' where run: "db_write demo_externs batch default_write_options demo_fresh = (r, d')" by fastforce
  from run ne demo_write_ok(5) obtain m r' where
    w: "write_and_flush demo_externs (group_items [(batch, default_write_options)]) (demo_fresh\<lparr>db_metrics := m\<rparr>) = (r', d')"
    and r: "r' = Inr () \<longleftrightarrow> r = Inr ()" by (rule db_write_steps)
  from demo_group_run [OF small, of "demo_fresh\<lparr>db_metrics := m\<rparr>"] w r run that show ?thesis by auto
qed




end
