(* ===== verification/Transactions.thy ===== *)
theory Transactions
  imports Database_Reads
begin

section \<open>Transactions (mvcc/transaction.rs, mvcc/conflict.rs)\<close>

text \<open>
  \<^verbatim>\<open>src/src/mvcc/transaction.rs\<close> and the commit path of \<^verbatim>\<open>db.rs\<close>.  A
  transaction reads at the sequence of its snapshot, collects its writes in a batch, and
  records the keys and ranges it has read; a commit fails when a version newer than the
  snapshot exists for a key it read, a key it writes or a range it scanned.  The
  \<^verbatim>\<open>BTreeSet\<close> of read keys is the sorted list of its elements.

  The snapshot inside the read options is a clone that lives as long as the call: it is
  added to the watermark before the read and removed after it.
\<close>

subsection \<open>State\<close>

type_synonym read_range = "bytes bound \<times> bytes bound"

record transaction =
  tx_read_seq :: u64
  tx_snapshot :: snapshot
  tx_read_only :: bool
  tx_writes :: write_batch
  tx_read_keys :: "bytes list"
  tx_read_ranges :: "read_range list"
  tx_closed :: bool

definition transaction_new :: "snapshot \<Rightarrow> bool \<Rightarrow> transaction" where
  "transaction_new snap read_only =
     \<lparr>tx_read_seq = snap_read_seq snap, tx_snapshot = snap, tx_read_only = read_only,
      tx_writes = write_batch_new, tx_read_keys = [], tx_read_ranges = [], tx_closed = False\<rparr>"

definition db_transaction :: "bool \<Rightarrow> ('m db, transaction) op" where
  "db_transaction read_only d =
     (if db_closed d then (Inl Closed, d)
      else case snapshot_new (db_last_sequence d) (db_watermark d) of
             (snap, w) \<Rightarrow> (Inr (transaction_new snap read_only), d\<lparr>db_watermark := w\<rparr>))"

definition ensure_open :: "transaction \<Rightarrow> unit result" where
  "ensure_open t = (if tx_closed t then Inl Closed else Inr ())"

definition ensure_writable :: "transaction \<Rightarrow> unit result" where
  "ensure_writable t =
     (if tx_read_only t then Inl (InvalidArgument ''read-only transaction cannot write'') else Inr ())"

fun record_for_key :: "bytes \<Rightarrow> batch_record \<Rightarrow> value_record option" where
  "record_for_key key (BatchPut record_key val) = (if record_key = key then Some (Put val) else None)"
| "record_for_key key (BatchDelete record_key) = (if record_key = key then Some Delete else None)"

fun find_record :: "bytes \<Rightarrow> batch_record list \<Rightarrow> value_record option" where
  "find_record key [] = None"
| "find_record key (r # rs) =
     (case record_for_key key r of Some v \<Rightarrow> Some v | None \<Rightarrow> find_record key rs)"

definition local_value :: "transaction \<Rightarrow> bytes \<Rightarrow> value_record option" where
  "local_value t key = find_record key (rev (records (tx_writes t)))"

subsection \<open>Reads and buffered writes\<close>

text \<open>A read with a clone of the transaction's snapshot in its options.\<close>

definition with_snapshot :: "snapshot \<Rightarrow> (read_options \<Rightarrow> 'm db \<Rightarrow> 'a result \<times> 'm db) \<Rightarrow> ('m db, 'a) op" where
  "with_snapshot snap m d =
     (case snapshot_clone snap (db_watermark d) of
        (clone, w) \<Rightarrow>
          (case m (default_read_options\<lparr>ro_snapshot := Some (snap_read_seq clone)\<rparr>) (d\<lparr>db_watermark := w\<rparr>) of
             (r, d') \<Rightarrow>
               (case snapshot_drop clone (db_watermark d') of
                  Inl e \<Rightarrow> (Inl e, d')
                | Inr w' \<Rightarrow> (r, d'\<lparr>db_watermark := w'\<rparr>))))"

definition tx_get :: "'m externs \<Rightarrow> bytes \<Rightarrow> transaction \<Rightarrow> 'm db \<Rightarrow> bytes option result \<times> transaction \<times> 'm db" where
  "tx_get X key t d =
     (case ensure_open t of
        Inl e \<Rightarrow> (Inl e, t, d)
      | Inr _ \<Rightarrow>
          (case local_value t key of
             Some v \<Rightarrow> (Inr (into_visible_value v), t, d)
           | None \<Rightarrow>
               let t' = t\<lparr>tx_read_keys := insort_insert key (tx_read_keys t)\<rparr>
               in case with_snapshot (tx_snapshot t) (get_opt X key) d of (r, d') \<Rightarrow> (r, t', d')))"

text \<open>The \<^verbatim>\<open>BTreeMap\<close> of the rows, with the buffered writes laid over it.\<close>

fun overlay_writes :: "bytes bound \<Rightarrow> bytes bound \<Rightarrow> batch_record list \<Rightarrow> (bytes \<times> bytes) list \<Rightarrow> (bytes \<times> bytes) list" where
  "overlay_writes lower upper [] rows = rows"
| "overlay_writes lower upper (BatchPut key val # rs) rows =
     overlay_writes lower upper rs (if within_bounds key lower upper then btree_insert key val rows else rows)"
| "overlay_writes lower upper (BatchDelete key # rs) rows =
     overlay_writes lower upper rs (if within_bounds key lower upper then btree_remove key rows else rows)"

definition collect_rows :: "(bytes \<times> bytes) list \<Rightarrow> (bytes \<times> bytes) list" where
  "collect_rows rows = fold (\<lambda>(k, v). btree_insert k v) rows []"

definition tx_scan :: "'m externs \<Rightarrow> nat \<Rightarrow> bytes bound \<Rightarrow> bytes bound \<Rightarrow> transaction \<Rightarrow> 'm db \<Rightarrow>
  ((bytes \<times> bytes) list result \<times> transaction \<times> 'm db) option" where
  "tx_scan X fuel lower upper t d =
     (case ensure_open t of
        Inl e \<Rightarrow> Some (Inl e, t, d)
      | Inr _ \<Rightarrow>
          let t' = t\<lparr>tx_read_ranges := tx_read_ranges t @ [(lower, upper)]\<rparr>
          in case snapshot_clone (tx_snapshot t) (db_watermark d) of
               (clone, w) \<Rightarrow>
                 (case scan_opt X fuel lower upper (default_read_options\<lparr>ro_snapshot := Some (snap_read_seq clone)\<rparr>)
                    (d\<lparr>db_watermark := w\<rparr>) of
                    None \<Rightarrow> None
                  | Some (r, d') \<Rightarrow>
                      (case snapshot_drop clone (db_watermark d') of
                         Inl e \<Rightarrow> Some (Inl e, t', d')
                       | Inr w' \<Rightarrow>
                           Some (and_then r (\<lambda>rows. Inr (overlay_writes lower upper (records (tx_writes t)) (collect_rows rows))),
                             t', d'\<lparr>db_watermark := w'\<rparr>))))"

definition tx_put :: "bytes \<Rightarrow> bytes \<Rightarrow> (transaction, unit) op" where
  "tx_put key val t =
     (case and_then (ensure_open t) (\<lambda>_. ensure_writable t) of
        Inl e \<Rightarrow> (Inl e, t)
      | Inr _ \<Rightarrow> (Inr (), t\<lparr>tx_writes := write_batch_put (tx_writes t) key val\<rparr>))"

definition tx_delete :: "bytes \<Rightarrow> (transaction, unit) op" where
  "tx_delete key t =
     (case and_then (ensure_open t) (\<lambda>_. ensure_writable t) of
        Inl e \<Rightarrow> (Inl e, t)
      | Inr _ \<Rightarrow> (Inr (), t\<lparr>tx_writes := write_batch_delete (tx_writes t) key\<rparr>))"

subsection \<open>Conflicts (db.rs)\<close>

definition changed_entry :: "u64 \<Rightarrow> (internal_key \<Rightarrow> bool) \<Rightarrow> entry \<Rightarrow> bool" where
  "changed_entry read_seq predicate e \<longleftrightarrow> sequence (fst e) > read_seq \<and> predicate (fst e)"

fun any_table_entry_after :: "'m externs \<Rightarrow> u64 \<Rightarrow> (internal_key \<Rightarrow> bool) \<Rightarrow> table_ref list \<Rightarrow> ('m db, bool) op" where
  "any_table_entry_after X read_seq predicate [] = op_lift (Inr False)"
| "any_table_entry_after X read_seq predicate ((meta, table) # tables) =
     (if fm_largest_seq meta \<le> read_seq then any_table_entry_after X read_seq predicate tables
      else op_then (on_blocks (entries_with_cache X table (fm_number meta) True)) (\<lambda>entries.
        if list_ex (changed_entry read_seq predicate) entries then op_lift (Inr True)
        else any_table_entry_after X read_seq predicate tables))"

definition any_entry_after :: "'m externs \<Rightarrow> u64 \<Rightarrow> (internal_key \<Rightarrow> bool) \<Rightarrow> ('m db, bool) op" where
  "any_entry_after X read_seq predicate d =
     (if list_ex (\<lambda>mem. list_ex (changed_entry read_seq predicate) (mem_entries X mem))
           (db_mutable d # db_immutables d)
      then (Inr True, d)
      else any_table_entry_after X read_seq predicate (db_l0_tables d @ concat (db_level_tables d)) d)"

definition key_changed_after :: "'m externs \<Rightarrow> bytes \<Rightarrow> u64 \<Rightarrow> ('m db, bool) op" where
  "key_changed_after X key read_seq = any_entry_after X read_seq (\<lambda>k. user_key k = key)"

definition range_changed_after :: "'m externs \<Rightarrow> read_range \<Rightarrow> u64 \<Rightarrow> ('m db, bool) op" where
  "range_changed_after X = (\<lambda>(lower, upper) read_seq.
     any_entry_after X read_seq (\<lambda>k. within_bounds (user_key k) lower upper))"

text \<open>
  \<^verbatim>\<open>String::from_utf8_lossy\<close> of the standard library, as the bytes of the string: every
  maximal prefix of a character that breaks off is replaced by U+FFFD.
\<close>

definition replacement_char :: bytes where
  "replacement_char = [0xEF, 0xBF, 0xBD]"

definition utf8_second_ok :: "u8 \<Rightarrow> u8 \<Rightarrow> bool" where
  "utf8_second_ok a b \<longleftrightarrow> utf8_cont b \<and> (a = 0xE0 \<longrightarrow> 0xA0 \<le> b) \<and> (a = 0xED \<longrightarrow> b \<le> 0x9F) \<and>
     (a = 0xF0 \<longrightarrow> 0x90 \<le> b) \<and> (a = 0xF4 \<longrightarrow> b \<le> 0x8F)"

fun from_utf8_lossy :: "bytes \<Rightarrow> bytes" where
  "from_utf8_lossy [] = []"
| "from_utf8_lossy (a # bs) =
     (if a < 0x80 then a # from_utf8_lossy bs
      else if 0xC2 \<le> a \<and> a \<le> 0xDF then
        (case bs of
           b # cs \<Rightarrow> if utf8_cont b then a # b # from_utf8_lossy cs else replacement_char @ from_utf8_lossy bs
         | [] \<Rightarrow> replacement_char)
      else if 0xE0 \<le> a \<and> a \<le> 0xEF then
        (case bs of
           b # cs \<Rightarrow>
             if utf8_second_ok a b then
               (case cs of
                  c # ds \<Rightarrow> if utf8_cont c then a # b # c # from_utf8_lossy ds else replacement_char @ from_utf8_lossy cs
                | [] \<Rightarrow> replacement_char)
             else replacement_char @ from_utf8_lossy bs
         | [] \<Rightarrow> replacement_char)
      else if 0xF0 \<le> a \<and> a \<le> 0xF4 then
        (case bs of
           b # cs \<Rightarrow>
             if utf8_second_ok a b then
               (case cs of
                  c # ds \<Rightarrow>
                    if utf8_cont c then
                      (case ds of
                         d # es \<Rightarrow> if utf8_cont d then a # b # c # d # from_utf8_lossy es else replacement_char @ from_utf8_lossy ds
                       | [] \<Rightarrow> replacement_char)
                    else replacement_char @ from_utf8_lossy cs
                | [] \<Rightarrow> replacement_char)
             else replacement_char @ from_utf8_lossy bs
         | [] \<Rightarrow> replacement_char)
      else replacement_char @ from_utf8_lossy bs)"

fun check_keys :: "'m externs \<Rightarrow> string \<Rightarrow> u64 \<Rightarrow> bytes list \<Rightarrow> ('m db, unit) op" where
  "check_keys X what read_seq [] = op_lift (Inr ())"
| "check_keys X what read_seq (key # keys) =
     op_then (key_changed_after X key read_seq) (\<lambda>changed.
       if changed then
         op_lift (Inl (TransactionConflict (what @ '' key changed after snapshot: '' @ bytes_string (from_utf8_lossy key))))
       else check_keys X what read_seq keys)"

fun check_ranges :: "'m externs \<Rightarrow> u64 \<Rightarrow> read_range list \<Rightarrow> ('m db, unit) op" where
  "check_ranges X read_seq [] = op_lift (Inr ())"
| "check_ranges X read_seq (rng # rngs) =
     op_then (range_changed_after X rng read_seq) (\<lambda>changed.
       if changed then op_lift (Inl (TransactionConflict ''scanned range changed after snapshot''))
       else check_ranges X read_seq rngs)"

definition ensure_no_transaction_conflicts :: "'m externs \<Rightarrow> u64 \<Rightarrow> bytes list \<Rightarrow> read_range list \<Rightarrow> bytes list \<Rightarrow>
  ('m db, unit) op" where
  "ensure_no_transaction_conflicts X read_seq read_keys read_ranges write_keys =
     op_then (check_keys X ''read'' read_seq read_keys) (\<lambda>_.
     op_then (check_keys X ''write'' read_seq write_keys) (\<lambda>_.
       check_ranges X read_seq read_ranges))"

subsection \<open>Commit\<close>

definition batch_write_keys :: "write_batch \<Rightarrow> bytes list" where
  "batch_write_keys batch =
     fold insort_insert (map (\<lambda>r. case r of BatchPut key _ \<Rightarrow> key | BatchDelete key \<Rightarrow> key) (records batch)) []"

definition commit_transaction :: "'m externs \<Rightarrow> u64 \<Rightarrow> write_batch \<Rightarrow> bytes list \<Rightarrow> read_range list \<Rightarrow> ('m db, unit) op" where
  "commit_transaction X read_seq batch read_keys read_ranges =
     op_then (metric (record_user_write (batch_user_write_bytes batch))) (\<lambda>_.
     op_then (apply_write_pressure X) (\<lambda>_.
     op_then (\<lambda>d.
       if db_closed d then (Inl Closed, d)
       else
         op_then (ensure_no_transaction_conflicts X read_seq read_keys read_ranges (batch_write_keys batch)) (\<lambda>_ d.
           if write_batch_is_empty batch then (Inr False, d)
           else
             let start_sequence = db_last_sequence d + 1
             in op_then
                  (if wal_enabled (db_options d) then
                     let payload = encode_with_sequence batch start_sequence in
                     op_then (metric (record_wal_write (wal_record_bytes payload))) (\<lambda>_.
                     op_then (on_env (wal_append (crc32c X) (db_wal d) payload)) (\<lambda>_.
                       if wal_sync_opt (db_options d) = PerWrite then
                         op_then (on_env (wal_sync (db_wal d))) (\<lambda>_. metric record_wal_sync)
                       else op_lift (Inr ())))
                   else op_lift (Inr ())) (\<lambda>_ d.
                  case freeze_mutable_if_needed X (db_apply_batch X start_sequence batch d) of
                    (should_flush, d) \<Rightarrow> (Inr should_flush, d)) d) d) (\<lambda>should_flush.
       if should_flush then db_flush X else op_lift (Inr ()))))"

text \<open>A commit or a rollback consumes the transaction, whose snapshot is dropped at the end.\<close>

definition drop_transaction :: "transaction \<Rightarrow> 'a result \<times> 'm db \<Rightarrow> 'a result \<times> 'm db" where
  "drop_transaction t = (\<lambda>(r, d).
     case snapshot_drop (tx_snapshot t) (db_watermark d) of
       Inl e \<Rightarrow> (Inl e, d)
     | Inr w \<Rightarrow> (r, d\<lparr>db_watermark := w\<rparr>))"

definition tx_commit :: "'m externs \<Rightarrow> transaction \<Rightarrow> ('m db, unit) op" where
  "tx_commit X t d =
     drop_transaction t
       (case ensure_open t of
          Inl e \<Rightarrow> (Inl e, d)
        | Inr _ \<Rightarrow> commit_transaction X (tx_read_seq t) (tx_writes t) (tx_read_keys t) (tx_read_ranges t) d)"

definition tx_rollback :: "transaction \<Rightarrow> ('m db, unit) op" where
  "tx_rollback t d = drop_transaction t (ensure_open t, d)"

end
