(* ===== verification/Serializability.thy ===== *)
theory Serializability
  imports Transactions Database_Api
begin

section \<open>Transactions are serializable\<close>

text \<open>
  The validation of a commit finds exactly the versions newer than the snapshot among the
  keys and ranges of the transaction; without one, everything the transaction has read
  reads the same at the moment of the commit, so it could have run then as a whole.
\<close>

subsection \<open>Finding newer versions\<close>

lemma yields_entries:
  assumes "ref_ok X G (db_env d) (db_path d) (meta, rd)" and "caches_ok X G d"
  shows "yields X G (on_blocks (entries_with_cache X rd (fm_number meta) fill)) d (ref_ents G (meta, rd))"
proof -
  let ?n = "fm_number meta"
  from assms(1) obtain c idx es blks where g: "G ?n = Some (c, idx, es)"
    and c: "content_of (db_env d) (table_path (db_path d) ?n) = Some c" and t: "table_with X c es idx blks"
    and rd: "rd = reader_for es idx (table_path (db_path d) ?n)"
    by (auto simp: ref_ok_def table_ok_def reader_ok_def)
  have es: "ref_ents G (meta, rd) = es" by (simp add: ref_ents_def ents_of_def g)
  have tab: "tabs_of G ?n = Some (c, idx)" by (simp add: tabs_of_def g)
  have coh: "cache_coherent X (tabs_of G) (Some (db_block_cache d))" using assms(2) by (simp add: caches_ok_def)
  show ?thesis unfolding es
    by (rule yields_on_blocks [OF assms(2)]) (use entries_with_cache_outcome [OF t c coh tab] in \<open>unfold rd, blast\<close>)
qed

abbreviation changed :: "entry list \<Rightarrow> u64 \<Rightarrow> (internal_key \<Rightarrow> bool) \<Rightarrow> bool" where
  "changed es s P \<equiv> list_ex (changed_entry s P) es"

lemma unchanged_old_table:
  assumes "ref_ok X G e dir (meta, rd)" and "fm_largest_seq meta \<le> s"
  shows "\<not> changed (ref_ents G (meta, rd)) s P"
  using assms by (fastforce simp: ref_ok_def meta_of_def changed_entry_def list_ex_iff)

lemma yields_any_table:
  assumes "\<forall>ref\<in>set refs. ref_ok X G (db_env d) (db_path d) ref" and "caches_ok X G d"
  shows "yields X G (any_table_entry_after X s P refs) d (changed (concat (map (ref_ents G) refs)) s P)"
  using assms
proof (induction refs arbitrary: d)
  case Nil
  then show ?case by (simp add: yields_lift)
next
  case (Cons ref refs)
  obtain meta rd where ref: "ref = (meta, rd)" by fastforce
  have ok: "ref_ok X G (db_env d) (db_path d) (meta, rd)" using Cons.prems(1) by (simp add: ref)
  have rest: "yields X G (any_table_entry_after X s P refs) d' (changed (concat (map (ref_ents G) refs)) s P)"
    if "reads_to d d'" "caches_ok X G d'" for d'
    using Cons.prems that by (intro Cons.IH) (auto intro: ref_ok_reads_to)
  show ?case
  proof (cases "fm_largest_seq meta \<le> s")
    case True
    with rest [OF reads_to_refl Cons.prems(2)] unchanged_old_table [OF ok True] show ?thesis by (simp add: ref)
  next
    case False
    have step: "yields X G (if changed (ref_ents G (meta, rd)) s P then op_lift (Inr True) else any_table_entry_after X s P refs) d'
        (changed (concat (map (ref_ents G) (ref # refs))) s P)" if "reads_to d d'" "caches_ok X G d'" for d'
      using rest [OF that] that(2) by (simp add: ref yields_lift)
    show ?thesis
      unfolding ref any_table_entry_after.simps if_not_P [OF False]
      by (rule yields_then [OF yields_entries [OF ok Cons.prems(2)]]) (use step in \<open>simp add: ref\<close>)
  qed
qed

lemma set_db_entries:
  assumes "refs_ok X G d"
  shows "set (db_entries X G d) = (\<Union>m\<in>set (memtables d). set (mem_entries X m)) \<union> set (concat (map (ref_ents G) (all_refs d)))"
  unfolding set_mset_mset [symmetric] mset_scan_entries [OF assms, symmetric]
  by (auto simp: memtable_scan_entries_def)

lemma yields_any_entry_after:
  assumes "readable X G d"
  shows "yields X G (any_entry_after X s P) d (changed (db_entries X G d) s P)"
proof -
  from assms have refs: "refs_ok X G d" "\<forall>ref\<in>set (all_refs d). ref_ok X G (db_env d) (db_path d) ref"
    and caches: "caches_ok X G d" by (simp_all add: readable_def refs_ok_def)
  have split: "changed (db_entries X G d) s P \<longleftrightarrow>
      list_ex (\<lambda>mem. changed (mem_entries X mem) s P) (memtables d) \<or> changed (concat (map (ref_ents G) (all_refs d))) s P"
    unfolding list_ex_iff set_db_entries [OF refs(1)] by blast
  show ?thesis
    using yields_any_table [OF refs(2) caches, of s P] caches unfolding split
    by (auto simp: yields_def any_entry_after_def all_refs_def split: if_splits)
qed

text \<open>
  \<open>checks X G m d bad\<close>: the validation step \<open>m\<close> reports a conflict exactly when \<open>bad\<close>, unless a
  fault of the environment stops it, and changes nothing but caches.
\<close>

definition checks :: "'m externs \<Rightarrow> ghost \<Rightarrow> ('m db, unit) op \<Rightarrow> 'm db \<Rightarrow> bool \<Rightarrow> bool" where
  "checks X G m d bad \<longleftrightarrow> (\<forall>r d'. m d = (r, d') \<longrightarrow> reads_to d d' \<and> caches_ok X G d' \<and>
     (r = Inr () \<and> \<not> bad \<or> (\<exists>msg. r = Inl (TransactionConflict msg)) \<and> bad \<or> r = Inl (Io OtherIo) \<and> env_faults (db_env d) \<noteq> []))"

lemma checksD:
  "checks X G m d bad \<Longrightarrow> m d = (r, d') \<Longrightarrow> reads_to d d' \<and> caches_ok X G d' \<and>
     (r = Inr () \<and> \<not> bad \<or> (\<exists>msg. r = Inl (TransactionConflict msg)) \<and> bad \<or> r = Inl (Io OtherIo) \<and> env_faults (db_env d) \<noteq> [])"
  by (simp add: checks_def)

lemma checks_then:
  assumes "checks X G m d bad" and "\<And>d'. reads_to d d' \<Longrightarrow> caches_ok X G d' \<Longrightarrow> checks X G (f ()) d' bad'"
  shows "checks X G (op_then m f) d (bad \<or> bad')"
  unfolding checks_def
proof (intro allI impI)
  fix r d' assume "op_then m f d = (r, d')"
  then show "reads_to d d' \<and> caches_ok X G d' \<and> (r = Inr () \<and> \<not> (bad \<or> bad') \<or>
      (\<exists>msg. r = Inl (TransactionConflict msg)) \<and> (bad \<or> bad') \<or> r = Inl (Io OtherIo) \<and> env_faults (db_env d) \<noteq> [])"
  proof (cases rule: op_thenE)
    case (fail e)
    with checksD [OF assms(1) fail(1)] show ?thesis by auto
  next
    case (ok x d1)
    from checksD [OF assms(1) ok(1)] have 1: "reads_to d d1" "caches_ok X G d1" "\<not> bad" by auto
    with checksD [OF assms(2) [OF 1(1,2)], of r d'] ok(2) reads_to_sel(13) [OF 1(1)] show ?thesis
      by (auto intro: reads_to_trans)
  qed
qed

lemma checks_lift: "caches_ok X G d \<Longrightarrow> checks X G (op_lift (Inr ())) d False"
  by (simp add: checks_def op_lift_def)

lemma checks_conflict:
  assumes "yields X G m d bad"
  shows "checks X G (op_then m (\<lambda>b. if b then op_lift (Inl (TransactionConflict msg)) else op_lift (Inr ()))) d bad"
  unfolding checks_def
proof (intro allI impI)
  fix r d' assume "op_then m (\<lambda>b. if b then op_lift (Inl (TransactionConflict msg)) else op_lift (Inr ())) d = (r, d')"
  then show "reads_to d d' \<and> caches_ok X G d' \<and>
     (r = Inr () \<and> \<not> bad \<or> (\<exists>msg. r = Inl (TransactionConflict msg)) \<and> bad \<or> r = Inl (Io OtherIo) \<and> env_faults (db_env d) \<noteq> [])"
    by (cases rule: op_thenE) (use yieldsD [OF assms] in \<open>auto simp: op_lift_def split: if_splits\<close>)
qed

lemma op_then_if: "op_then m (\<lambda>b. if b then op_lift (Inl e) else f) =
    op_then (op_then m (\<lambda>b. if b then op_lift (Inl e) else op_lift (Inr ()))) (\<lambda>_. f)"
  by (auto simp: op_then_def op_lift_def fun_eq_iff split: prod.splits sum.splits)

lemma checks_if:
  assumes "yields X G m d bad" and "\<And>d'. reads_to d d' \<Longrightarrow> caches_ok X G d' \<Longrightarrow> checks X G f d' bad'"
  shows "checks X G (op_then m (\<lambda>b. if b then op_lift (Inl (TransactionConflict msg)) else f)) d (bad \<or> bad')"
  by (subst op_then_if) (rule checks_then [OF checks_conflict [OF assms(1)] assms(2)])

lemma checks_keys:
  assumes "readable X G d"
  shows "checks X G (check_keys X what s keys) d (\<exists>k\<in>set keys. changed (db_entries X G d) s (\<lambda>ik. user_key ik = k))"
  using assms
proof (induction keys arbitrary: d)
  case Nil
  then show ?case by (simp add: checks_lift readable_def)
next
  case (Cons k keys)
  have first: "yields X G (key_changed_after X k s) d (changed (db_entries X G d) s (\<lambda>ik. user_key ik = k))"
    unfolding key_changed_after_def by (rule yields_any_entry_after [OF Cons.prems])
  have rest: "checks X G (check_keys X what s keys) d' (\<exists>k\<in>set keys. changed (db_entries X G d) s (\<lambda>ik. user_key ik = k))"
    if "reads_to d d'" "caches_ok X G d'" for d'
    using Cons.IH [OF readable_reads_to [OF Cons.prems that]] reads_to_ok(3) [OF that(1), of X G] by (simp add: db_entries_def)
  show ?case
    unfolding check_keys.simps list.set bex_simps by (rule checks_if [OF first rest])
qed

lemma checks_ranges:
  assumes "readable X G d"
  shows "checks X G (check_ranges X s rngs) d
    (\<exists>(lo, hi)\<in>set rngs. changed (db_entries X G d) s (\<lambda>ik. within_bounds (user_key ik) lo hi))"
  using assms
proof (induction rngs arbitrary: d)
  case Nil
  then show ?case by (simp add: checks_lift readable_def)
next
  case (Cons rng rngs)
  obtain lo hi where rng: "rng = (lo, hi)" by fastforce
  have first: "yields X G (range_changed_after X rng s) d
      (changed (db_entries X G d) s (\<lambda>ik. within_bounds (user_key ik) lo hi))"
    unfolding range_changed_after_def rng by simp (rule yields_any_entry_after [OF Cons.prems])
  have rest: "checks X G (check_ranges X s rngs) d'
      (\<exists>(lo, hi)\<in>set rngs. changed (db_entries X G d) s (\<lambda>ik. within_bounds (user_key ik) lo hi))"
    if "reads_to d d'" "caches_ok X G d'" for d'
    using Cons.IH [OF readable_reads_to [OF Cons.prems that]] reads_to_ok(3) [OF that(1), of X G] by (simp add: db_entries_def)
  show ?case
    unfolding check_ranges.simps list.set bex_simps rng prod.case by (rule checks_if [OF first [unfolded rng] rest])
qed

text \<open>A version newer than the snapshot of something that was read or is written.\<close>

definition conflicting :: "entry list \<Rightarrow> u64 \<Rightarrow> bytes list \<Rightarrow> read_range list \<Rightarrow> bytes list \<Rightarrow> bool" where
  "conflicting es s keys rngs wkeys \<longleftrightarrow> (\<exists>e\<in>set es. s < sequence (fst e) \<and>
     (user_key (fst e) \<in> set keys \<union> set wkeys \<or> (\<exists>(lo, hi)\<in>set rngs. within_bounds (user_key (fst e)) lo hi)))"

lemma checks_conflicts:
  assumes "readable X G d"
  shows "checks X G (ensure_no_transaction_conflicts X s keys rngs wkeys) d (conflicting (db_entries X G d) s keys rngs wkeys)"
proof -
  let ?es = "db_entries X G d"
  have es: "readable X G d' \<and> db_entries X G d' = ?es" if "reads_to d d'" "caches_ok X G d'" for d'
    using readable_reads_to [OF assms that] reads_to_ok(3) [OF that(1), of X G] by (simp add: db_entries_def)
  have rngs: "checks X G (check_ranges X s rngs) d' (\<exists>(lo, hi)\<in>set rngs. changed ?es s (\<lambda>ik. within_bounds (user_key ik) lo hi))"
    if "reads_to d d'" "caches_ok X G d'" for d' using checks_ranges [of X G d' s rngs] es [OF that] by simp
  have wkeys: "checks X G (op_then (check_keys X what s wkeys) (\<lambda>_. check_ranges X s rngs)) d'
      ((\<exists>k\<in>set wkeys. changed ?es s (\<lambda>ik. user_key ik = k)) \<or>
       (\<exists>(lo, hi)\<in>set rngs. changed ?es s (\<lambda>ik. within_bounds (user_key ik) lo hi)))"
    if "reads_to d d'" "caches_ok X G d'" for d' what
    using checks_keys [of X G d' what s wkeys] es [OF that] rngs that by (intro checks_then) (auto intro: reads_to_trans)
  have bad: "conflicting ?es s keys rngs wkeys \<longleftrightarrow> (\<exists>k\<in>set keys. changed ?es s (\<lambda>ik. user_key ik = k)) \<or>
      (\<exists>k\<in>set wkeys. changed ?es s (\<lambda>ik. user_key ik = k)) \<or>
      (\<exists>(lo, hi)\<in>set rngs. changed ?es s (\<lambda>ik. within_bounds (user_key ik) lo hi))"
    unfolding conflicting_def list_ex_iff changed_entry_def by blast
  show ?thesis
    unfolding ensure_no_transaction_conflicts_def bad by (rule checks_then [OF checks_keys [OF assms] wkeys])
qed

subsection \<open>What was read is still there\<close>

lemma lookup_at_stable:
  assumes "\<forall>e\<in>set es. user_key (fst e) = k \<longrightarrow> sequence (fst e) \<le> s" and "\<forall>e\<in>set es. sequence (fst e) \<le> now"
  shows "lookup_at es k now = lookup_at es k s"
proof -
  have "filter (version_of k now) es = filter (version_of k s) es"
    using assms by (auto simp: version_of_def intro!: filter_cong)
  then show ?thesis by (simp add: lookup_at_def)
qed

lemma map_filter_cong: "(\<And>x. x \<in> set xs \<Longrightarrow> f x = g x) \<Longrightarrow> List.map_filter f xs = List.map_filter g xs"
  by (auto simp: map_filter_def intro!: map_cong filter_cong)

lemma reads_stable:
  assumes "\<not> conflicting es s keys rngs wkeys" and old: "\<forall>e\<in>set es. sequence (fst e) \<le> now"
  shows "k \<in> set keys \<Longrightarrow> lookup_at es k now = lookup_at es k s"
    and "(lo, hi) \<in> set rngs \<Longrightarrow> scan_rows es lo hi now = scan_rows es lo hi s"
proof -
  show "lookup_at es k now = lookup_at es k s" if "k \<in> set keys"
    by (rule lookup_at_stable [OF _ old]) (use assms(1) that in \<open>auto simp: conflicting_def not_less\<close>)
  show "scan_rows es lo hi now = scan_rows es lo hi s" if "(lo, hi) \<in> set rngs"
    unfolding scan_rows_def
  proof (rule map_filter_cong)
    fix k assume "k \<in> set (filter (\<lambda>k. within_bounds k lo hi) (sorted_list_of_set (user_key ` fst ` set es)))"
    then have "within_bounds k lo hi" by simp
    then have "lookup_at es k now = lookup_at es k s"
      by (intro lookup_at_stable [OF _ old]) (use assms(1) that in \<open>fastforce simp: conflicting_def not_less\<close>)
    then show "map_option (Pair k) (visible_value (lookup_at es k now)) = map_option (Pair k) (visible_value (lookup_at es k s))" by simp
  qed
qed

subsection \<open>The commit\<close>

text \<open>The log and the memtable of a commit: the same as a group with one batch and default options.\<close>

definition commit_body :: "'m externs \<Rightarrow> write_batch \<Rightarrow> ('m db, bool) op" where
  "commit_body X batch d =
     (let start_sequence = db_last_sequence d + 1
      in op_then
           (if wal_enabled (db_options d) then
              let payload = encode_with_sequence batch start_sequence in
              op_then (metric (record_wal_write (wal_record_bytes payload))) (\<lambda>_.
              op_then (on_env (wal_append (crc32c X) (db_wal d) payload)) (\<lambda>_.
                if wal_sync_opt (db_options d) = PerWrite then
                  op_then (on_env (wal_sync (db_wal d))) (\<lambda>_. metric record_wal_sync)
                else op_lift (Inr ())))
            else op_lift (Inr ())) (\<lambda>_ d.
           case freeze_mutable_if_needed X (db_apply_batch X start_sequence batch d) of
             (should_flush, d) \<Rightarrow> (Inr should_flush, d)) d)"

lemma append_group_one:
  assumes "\<not> wo_disable_wal (gw_opts item)"
  shows "append_group X [item] False d =
    (let payload = encode_with_sequence (gw_batch item) (gw_start_sequence item) in
     op_then (metric (record_wal_write (wal_record_bytes payload))) (\<lambda>_.
     op_then (on_env (wal_append (crc32c X) (db_wal d) payload)) (\<lambda>_ d1.
       (Inr (wo_sync (gw_opts item) \<or> wal_sync_opt (db_options d) = PerWrite), d1))) d)"
  using assms by (simp add: Let_def op_then_def metric_def split: prod.splits sum.splits)

lemma commit_body_group:
  assumes "\<not> db_closed d"
  shows "commit_body X batch d = apply_write_group_to_memtable X (group_items [(batch, default_write_options)]) d"
  using assms
  by (simp add: commit_body_def apply_write_group_to_memtable_def group_items_def append_group_one default_write_options_def
      Let_def op_then_def metric_def op_lift_def split: prod.splits sum.splits)

lemma commit_steps:
  assumes calm: "length (db_l0_tables d) < level0_stop_writes_trigger (db_options d)"
  shows "commit_transaction X s batch keys rngs d =
    (let d0 = d\<lparr>db_metrics := record_user_write (batch_user_write_bytes batch) (db_metrics d)\<rparr> in
     if db_closed d then (Inl Closed, d0)
     else op_then (ensure_no_transaction_conflicts X s keys rngs (batch_write_keys batch)) (\<lambda>_.
       op_then (if records batch = [] then op_lift (Inr False) else commit_body X batch) (\<lambda>should_flush.
         if should_flush then db_flush X else op_lift (Inr ()))) d0)"
  using calm
  by (simp add: commit_transaction_def commit_body_def metric_def apply_write_pressure_def op_then_def Let_def op_lift_def
      write_batch_is_empty_def split: prod.splits sum.splits)

lemma db_ok_reads_to:
  assumes "db_ok X G d" and "reads_to d d'" and "caches_ok X G d'"
  shows "db_ok X G d'"
  using assms readable_reads_to [OF _ assms(2,3)] reads_to_sel(1,9,11) [OF assms(2)]
  by (simp add: db_ok_def wal_ok_def manifest_ok_def numbered_def)

lemma reads_to_room:
  assumes "reads_to d d'"
  shows "room X rs d' = room X rs d" "frozen_full X d' = frozen_full X d" "written X G rs d' G' d2 = written X G rs d G' d2"
  using reads_to_sel(3,4,7) [OF assms] reads_to_ok(3) [OF assms, of X G]
  by (simp_all add: room_def frozen_full_def written_def db_entries_def)

text \<open>After the validation, a commit is a write.\<close>

lemma commit_write:
  assumes X: "externals X" and ok: "db_ok X G d" and full: "frozen_full X d" and room: "room X (records batch) d"
    and num: "unat (next_number d) + 2 < 2 ^ 64" and opened: "\<not> db_closed d"
    and run: "op_then (if records batch = [] then op_lift (Inr False) else commit_body X batch) (\<lambda>should_flush.
         if should_flush then db_flush X else op_lift (Inr ())) d = (r, d')"
    and fit: "file_fits (db_env d') (table_path (db_path d) (next_number d))"
  shows "\<exists>G'. db_ok X G' d' \<and> frozen_full X d' \<and> (written X G (records batch) d G' d' \<or> r \<noteq> Inr () \<and> written X G [] d G' d')"
proof (cases "records batch = []")
  case True
  with run have "d' = d" by (simp add: op_then_def op_lift_def)
  with ok full True show ?thesis by (intro exI [of _ G]) (simp add: written_Nil)
next
  case False
  with run opened have "write_and_flush X (group_items [(batch, default_write_options)]) d = (r, d')"
    by (simp add: op_then_def commit_body_group)
  moreover have "room X (group_records (group_items [(batch, default_write_options)])) d" using room by simp
  ultimately show ?thesis using write_and_flush_ok [OF X ok full _ num opened _ fit] by fastforce
qed

lemma commit_outcome:
  assumes X: "externals X" and ok: "db_ok X G d" and full: "frozen_full X d" and room: "room X (records batch) d"
    and num: "unat (next_number d) + 2 < 2 ^ 64"
    and calm: "length (db_l0_tables d) < level0_stop_writes_trigger (db_options d)"
    and run: "commit_transaction X s batch keys rngs d = (r, d')"
    and fit: "file_fits (db_env d') (table_path (db_path d) (next_number d))"
  shows "\<exists>G'. db_ok X G' d' \<and> frozen_full X d' \<and>
    (if db_closed d then r = Inl Closed \<and> written X G [] d G' d'
     else if conflicting (db_entries X G d) s keys rngs (batch_write_keys batch)
     then written X G [] d G' d' \<and> ((\<exists>msg. r = Inl (TransactionConflict msg)) \<or> r = Inl (Io OtherIo) \<and> env_faults (db_env d) \<noteq> [])
     else written X G (records batch) d G' d' \<or> r \<noteq> Inr () \<and> written X G [] d G' d')"
proof -
  define d0 where "d0 = d\<lparr>db_metrics := record_user_write (batch_user_write_bytes batch) (db_metrics d)\<rparr>"
  let ?bad = "conflicting (db_entries X G d) s keys rngs (batch_write_keys batch)"
  have ok0: "db_ok X G d0" "frozen_full X d0" "room X (records batch) d0" using ok full room by (simp_all add: d0_def)
  have w0: "written X G rs d0 G' d2 = written X G rs d G' d2" for rs G' d2 by (simp add: d0_def)
  show ?thesis
  proof (cases "db_closed d")
    case True
    with run have "r = Inl Closed" "d' = d0" by (simp_all add: commit_steps [OF calm] d0_def [symmetric])
    with True ok0 show ?thesis by (intro exI [of _ G]) (simp add: written_Nil d0_def)
  next
    case opened: False
    obtain r1 d1 where e: "ensure_no_transaction_conflicts X s keys rngs (batch_write_keys batch) d0 = (r1, d1)" by fastforce
    have "readable X G d0" "db_entries X G d0 = db_entries X G d" using ok0(1) by (simp_all add: db_ok_def d0_def)
    from checksD [OF checks_conflicts [OF this(1)] e] this(2) have d1: "reads_to d0 d1" "caches_ok X G d1"
      and r1: "r1 = Inr () \<and> \<not> ?bad \<or> (\<exists>msg. r1 = Inl (TransactionConflict msg)) \<and> ?bad \<or>
        r1 = Inl (Io OtherIo) \<and> env_faults (db_env d) \<noteq> []" by (auto simp: d0_def)
    have ok1: "db_ok X G d1" "frozen_full X d1" "room X (records batch) d1" "\<not> db_closed d1"
      "next_number d1 = next_number d" "db_path d1 = db_path d"
      using db_ok_reads_to [OF ok0(1) d1] ok0(2,3) reads_to_room [OF d1(1)] reads_to_sel(1,8,9) [OF d1(1)] opened
      by (simp_all add: d0_def)
    have w1: "written X G rs d1 G' d2 = written X G rs d G' d2" for rs G' d2
      using reads_to_room(3) [OF d1(1)] w0 by simp
    have unchanged: "written X G [] d G d1"
      using w1 [of "[]" G d1] by (simp add: written_Nil)
    show ?thesis
    proof (cases r1)
      case (Inl err)
      with run e opened have "r = Inl err" "d' = d1" by (simp_all add: commit_steps [OF calm] d0_def [symmetric] op_then_Inl)
      with Inl r1 ok1 opened show ?thesis by (intro exI [of _ G]) (auto simp: unchanged)
    next
      case (Inr u)
      with run e opened have "op_then (if records batch = [] then op_lift (Inr False) else commit_body X batch)
          (\<lambda>should_flush. if should_flush then db_flush X else op_lift (Inr ())) d1 = (r, d')"
        by (simp add: commit_steps [OF calm] d0_def [symmetric] op_then_Inr)
      from commit_write [OF X ok1(1-3) _ ok1(4) this] num fit ok1(5,6) Inr r1 opened w1 show ?thesis by auto
    qed
  qed
qed

subsection \<open>Properties\<close>


lemma commit_demo_run:
  obtains d' where "commit_transaction demo_externs 0 demo_batch [[1]] [(Unbounded, Unbounded)] demo_fresh = (Inr (), d')"
    "file_fits (db_env d') (table_path (db_path demo_fresh) (next_number demo_fresh))"
proof -
  define d0 where "d0 = demo_fresh\<lparr>db_metrics := record_user_write (batch_user_write_bytes demo_batch) (db_metrics demo_fresh)\<rparr>"
  obtain r1 d1 where e: "ensure_no_transaction_conflicts demo_externs 0 [[1]] [(Unbounded, Unbounded)] (batch_write_keys demo_batch) d0 = (r1, d1)"
    by fastforce
  have rd: "readable demo_externs Map.empty d0" using demo_write_ok(1) db_ok_metrics(1) by (simp add: db_ok_def d0_def) blast
  have "db_entries demo_externs Map.empty d0 = []" by (simp add: d0_def db_entries_def [of _ _ demo_fresh] demo_fresh_entries)
  with checksD [OF checks_conflicts [OF rd] e] have "reads_to d0 d1" "r1 = Inr ()"
    by (auto simp: conflicting_def d0_def demo_fresh_sel)
  note sel = reads_to_sel [OF this(1)]
  have env: "db_env d1 = db_env demo_fresh" by (rule trans [OF sel(13)]) (simp_all add: d0_def demo_fresh_sel)
  have ne: "records demo_batch \<noteq> []" by (simp add: demo_batch_def)
  obtain d' where w: "write_and_flush demo_externs (group_items [(demo_batch, default_write_options)]) d1 = (Inr (), d')"
    and fit: "file_fits (db_env d') (table_path (db_path demo_fresh) (next_number demo_fresh))"
    by (rule demo_group_run [OF demo_small, of d1]) (use sel env in \<open>simp_all add: d0_def\<close>)
  have "\<not> db_closed d1" "\<not> db_closed demo_fresh" using sel(8) by (simp_all add: d0_def demo_fresh_sel)
  with w e \<open>r1 = Inr ()\<close> ne have "commit_transaction demo_externs 0 demo_batch [[1]] [(Unbounded, Unbounded)] demo_fresh = (Inr (), d')"
    by (simp add: commit_steps [OF demo_write_ok(5)] d0_def [symmetric] op_then_Inr op_then_def commit_body_group)
  with fit that show ?thesis by blast
qed


end
