(* ===== verification/Transaction_Reads.thy ===== *)
theory Transaction_Reads
  imports Transactions Database_Writes
begin

section \<open>What a transaction reads\<close>

text \<open>
  A transaction sees the database at the sequence of its snapshot with its own writes over
  it.  Point reads and scans agree with this view, register what they read, and leave the
  registry of snapshots as it was.
\<close>

definition tx_view :: "entry list \<Rightarrow> transaction \<Rightarrow> bytes \<Rightarrow> bytes option" where
  "tx_view es t k =
     (case latest_record k (records (tx_writes t)) of
        Some v \<Rightarrow> into_visible_value v
      | None \<Rightarrow> visible_value (lookup_at es k (snap_read_seq (tx_snapshot t))))"

subsection \<open>Buffered writes\<close>

lemma find_record_append:
  "find_record k (xs @ ys) = (case find_record k xs of Some v \<Rightarrow> Some v | None \<Rightarrow> find_record k ys)"
  by (induction xs) (simp_all split: option.split)

lemma record_for_key_write: "record_for_key k r = (case record_write 0 r of (_, k', v) \<Rightarrow> if k' = k then Some v else None)"
  by (cases r) simp_all

lemma local_value_latest: "local_value t k = latest_record k (records (tx_writes t))"
proof -
  have "find_record k (rev rs) = latest_record k rs" for rs
    by (induction rs) (simp_all add: find_record_append record_for_key_write split: option.split prod.split)
  then show ?thesis by (simp add: local_value_def)
qed

lemma map_of_btree_remove: "map_of (btree_remove k m) = (map_of m)(k := None)"
  by (induction m) (auto simp: btree_remove_def fun_eq_iff)

lemma collect_rows_fold:
  assumes "sorted_wrt (<) (map fst acc)" and "distinct (map fst rows)"
  shows "sorted_wrt (<) (map fst (fold (\<lambda>(k, v). btree_insert k v) rows acc)) \<and>
    map_of (fold (\<lambda>(k, v). btree_insert k v) rows acc) x = (case map_of rows x of Some v \<Rightarrow> Some v | None \<Rightarrow> map_of acc x)"
  using assms
proof (induction rows arbitrary: acc)
  case (Cons row rows)
  obtain k v where row: "row = (k, v)" by fastforce
  have "map_of rows k = None" using Cons.prems(2) by (simp add: row map_of_eq_None_iff)
  with Cons.IH [OF sorted_btree_insert [OF Cons.prems(1), of k v]] Cons.prems show ?case
    by (auto simp: row map_of_btree_insert split: option.splits)
qed simp

lemma sorted_distinct: "sorted_wrt (<) (map fst (rows :: ('k::linorder \<times> 'v) list)) \<Longrightarrow> distinct (map fst rows)"
  using strict_sorted_iff by blast

lemma collect_rows_sorted:
  assumes "sorted_wrt (<) (map fst rows)"
  shows "sorted_wrt (<) (map fst (collect_rows rows))" and "map_of (collect_rows rows) = map_of rows"
  using collect_rows_fold [of "[]" rows] sorted_distinct [OF assms]
  by (auto simp: collect_rows_def fun_eq_iff split: option.splits)

lemma overlay_writes_map:
  assumes "sorted_wrt (<) (map fst rows)"
  shows "sorted_wrt (<) (map fst (overlay_writes lower upper rs rows)) \<and>
    map_of (overlay_writes lower upper rs rows) k =
      (case latest_record k rs of
         Some v \<Rightarrow> if within_bounds k lower upper then into_visible_value v else map_of rows k
       | None \<Rightarrow> map_of rows k)"
  using assms
proof (induction rs arbitrary: rows)
  case (Cons r rs)
  show ?case
  proof (cases r)
    case (BatchPut key v)
    let ?rows = "if within_bounds key lower upper then btree_insert key v rows else rows"
    have "sorted_wrt (<) (map fst ?rows)" using Cons.prems by (simp add: sorted_btree_insert)
    from Cons.IH [OF this] Cons.prems BatchPut show ?thesis
      by (auto simp: map_of_btree_insert split: option.splits)
  next
    case (BatchDelete key)
    let ?rows = "if within_bounds key lower upper then btree_remove key rows else rows"
    have "sorted_wrt (<) (map fst ?rows)" using Cons.prems by (simp add: btree_remove_def sorted_wrt_filter_fst)
    from Cons.IH [OF this] Cons.prems BatchDelete show ?thesis
      by (auto simp: map_of_btree_remove split: option.splits)
  qed
qed simp

lemma map_of_scan_rows:
  "map_of (scan_rows es lower upper s) k =
     (if within_bounds k lower upper then visible_value (lookup_at es k s) else None)"
proof -
  have d: "distinct (map fst (scan_rows es lower upper s))" by (rule sorted_distinct [OF sorted_scan_rows])
  show ?thesis
  proof (cases "map_of (scan_rows es lower upper s) k")
    case None
    then have "\<forall>v. (k, v) \<notin> set (scan_rows es lower upper s)" by (force simp: map_of_eq_None_iff)
    with None show ?thesis by (cases "visible_value (lookup_at es k s)") (auto simp: set_scan_rows)
  next
    case (Some v)
    then have "(k, v) \<in> set (scan_rows es lower upper s)" by (rule map_of_SomeD)
    with Some show ?thesis by (simp add: set_scan_rows)
  qed
qed

subsection \<open>The clone of the snapshot\<close>

lemma clone_dropped:
  assumes "watermark_ok w"
  obtains w' where "snapshot_drop (fst (snapshot_clone s w)) (snd (snapshot_clone s w)) = Inr w'"
    "watermark_ok w'" "watermark_held w' = watermark_held w"
proof -
  let ?q = "snap_read_seq s"
  note add = watermark_add_ok [OF assms, of ?q]
  from watermark_remove_ok [OF add(1), of ?q] add(2) that show ?thesis
    by (auto simp: snapshot_drop_def snapshot_clone_def snapshot_new_def)
qed

lemma readable_watermark [simp]: "readable X G (d\<lparr>db_watermark := w\<rparr>) = readable X G d"
  "db_entries X G (d\<lparr>db_watermark := w\<rparr>) = db_entries X G d" "caches_ok X G (d\<lparr>db_watermark := w\<rparr>) = caches_ok X G d"
  by (simp_all add: readable_def mems_ok_def refs_ok_def all_refs_def caches_ok_def layers_ok_def db_entries_def layers_def
      mem_layers_def l0_layers_def level_layers_def)

text \<open>A read with the snapshot leaves the database readable and the registry as it was.\<close>

definition snapshot_read :: "'m externs \<Rightarrow> ghost \<Rightarrow> 'm db \<Rightarrow> 'm db \<Rightarrow> bool" where
  "snapshot_read X G d d' \<longleftrightarrow> readable X G d' \<and> db_entries X G d' = db_entries X G d \<and>
     db_last_sequence d' = db_last_sequence d \<and>
     watermark_ok (db_watermark d') \<and> watermark_held (db_watermark d') = watermark_held (db_watermark d)"

lemma snapshot_read_refl: "readable X G d \<Longrightarrow> watermark_ok (db_watermark d) \<Longrightarrow> snapshot_read X G d d"
  by (simp add: snapshot_read_def)

lemma snapshot_readI:
  assumes "readable X G d" and "watermark_ok w'" and "watermark_held w' = watermark_held (db_watermark d)"
    and "reads_to (d\<lparr>db_watermark := w\<rparr>) d1" and "caches_ok X G d1"
  shows "snapshot_read X G d (d1\<lparr>db_watermark := w'\<rparr>)"
proof -
  have "readable X G d1" using readable_reads_to [OF _ assms(4,5)] assms(1) by simp
  moreover have "db_entries X G d1 = db_entries X G d"
    using reads_to_ok(3) [OF assms(4), of X G] readable_watermark(2) [where d = d and w = w] by (simp add: db_entries_def)
  ultimately show ?thesis using assms(2,3) reads_to_sel(7) [OF assms(4)] by (simp add: snapshot_read_def)
qed

lemma with_snapshot_get:
  assumes X: "externals X" and ok: "readable X G d" "watermark_ok (db_watermark d)"
    and run: "with_snapshot s (get_opt X key) d = (r, d')"
  shows "snapshot_read X G d d' \<and>
    (if db_closed d then r = Inl Closed
     else r = Inr (visible_value (lookup_at (db_entries X G d) key (snap_read_seq s))) \<or>
       r = Inl (Io OtherIo) \<and> env_faults (db_env d) \<noteq> [])"
proof -
  obtain w' where w': "snapshot_drop (fst (snapshot_clone s (db_watermark d))) (snd (snapshot_clone s (db_watermark d))) = Inr w'"
    "watermark_ok w'" "watermark_held w' = watermark_held (db_watermark d)" by (rule clone_dropped [OF ok(2)])
  let ?d = "d\<lparr>db_watermark := snd (snapshot_clone s (db_watermark d))\<rparr>"
  let ?opts = "default_read_options\<lparr>ro_snapshot := Some (snap_read_seq s)\<rparr>"
  obtain r1 d1 where g: "get_opt X key ?opts ?d = (r1, d1)" by fastforce
  have "readable X G ?d" using ok(1) by simp
  from get_opt_outcome [OF X this g] have d1: "reads_to ?d d1" "caches_ok X G d1"
    and r1: "if db_closed d then r1 = Inl Closed
     else r1 = Inr (visible_value (lookup_at (db_entries X G d) key (snap_read_seq s))) \<or>
       r1 = Inl (Io OtherIo) \<and> env_faults (db_env d) \<noteq> []" by (auto simp: read_sequence_def)
  have "db_watermark d1 = snd (snapshot_clone s (db_watermark d))" using reads_to_sel(10) [OF d1(1)] by simp
  with run g w'(1) have "r = r1" "d' = d1\<lparr>db_watermark := w'\<rparr>"
    by (auto simp: with_snapshot_def snapshot_clone_def snapshot_new_def)
  with snapshot_readI [OF ok(1) w'(2,3) d1] r1 show ?thesis by simp
qed

subsection \<open>Properties\<close>

text \<open>
  C13: point reads of a transaction.  On an open transaction a get returns the value of the
  transaction's view (its own last write of the key, else the snapshot's value), registers
  the key as read unless the answer came from its own writes, and leaves the writes and the
  registry of snapshots alone.
\<close>

theorem tx_get_correct:
  assumes "externals X" and "readable X G d" and "watermark_ok (db_watermark d)"
    and "tx_get X key t d = (r, t', d')"
  shows "snapshot_read X G d d' \<and> tx_writes t' = tx_writes t \<and> tx_snapshot t' = tx_snapshot t \<and> tx_closed t' = tx_closed t \<and>
    (if tx_closed t then r = Inl Closed \<and> t' = t
     else (if local_value t key = None then set (tx_read_keys t') = insert key (set (tx_read_keys t))
           else tx_read_keys t' = tx_read_keys t) \<and>
       (r = Inr (tx_view (db_entries X G d) t key) \<or>
        local_value t key = None \<and> (db_closed d \<and> r = Inl Closed \<or> r = Inl (Io OtherIo) \<and> env_faults (db_env d) \<noteq> [])))"
proof (cases "tx_closed t")
  case True
  with assms show ?thesis by (simp add: tx_get_def ensure_open_def snapshot_read_refl)
next
  case opened: False
  show ?thesis
  proof (cases "local_value t key")
    case (Some v)
    with assms opened show ?thesis
      by (simp add: tx_get_def ensure_open_def snapshot_read_refl tx_view_def local_value_latest [symmetric])
  next
    case None
    with assms(4) opened have run: "with_snapshot (tx_snapshot t) (get_opt X key) d = (r, d')"
      and t': "t' = t\<lparr>tx_read_keys := insort_insert key (tx_read_keys t)\<rparr>"
      by (auto simp: tx_get_def ensure_open_def Let_def split: prod.splits)
    from with_snapshot_get [OF assms(1-3) run] opened None show ?thesis
      by (auto simp: t' tx_view_def local_value_latest [symmetric] set_insort_insert split: if_splits)
  qed
qed

definition demo_tx :: transaction where
  "demo_tx = (transaction_new \<lparr>snap_read_seq = 2\<rparr> False)\<lparr>tx_writes := \<lparr>records = [BatchPut [9] [5], BatchDelete [2]]\<rparr>\<rparr>"

lemma demo_tx_sel:
  "\<not> tx_closed demo_tx" "records (tx_writes demo_tx) = [BatchPut [9] [5], BatchDelete [2]]" "snap_read_seq (tx_snapshot demo_tx) = 2"
  "tx_read_keys demo_tx = []" "tx_read_ranges demo_tx = []"
  by (simp_all add: demo_tx_def transaction_new_def)

lemma demo_db_sel: "\<not> db_closed demo_db" "env_faults (db_env demo_db) = []" "watermark_ok (db_watermark demo_db)"
  by (simp_all add: demo_db_def demo_manifest_env_def watermark_ok_def watermark_new_def)

lemma demo_view: "tx_view (db_entries demo_externs Map.empty demo_db) demo_tx [1] = Some [7]"
  "tx_view (db_entries demo_externs Map.empty demo_db) demo_tx [2] = None"
  "tx_view (db_entries demo_externs Map.empty demo_db) demo_tx [9] = Some [5]"
  unfolding tx_view_def demo_db_entries(2) demo_tx_sel by code_simp+

theorem tx_get_correct_witness:
  "\<exists>t' d'. tx_get demo_externs [1] demo_tx demo_db = (Inr (Some [7]), t', d') \<and> set (tx_read_keys t') = {[1]}"
proof -
  obtain r t' d' where run: "tx_get demo_externs [1] demo_tx demo_db = (r, t', d')" by (metis surj_pair)
  have "local_value demo_tx [1] = None" by (simp add: local_value_latest demo_tx_sel)
  with tx_get_correct [OF demo_ok(1) demo_readable demo_db_sel(3) run] run show ?thesis
    by (auto simp: demo_tx_sel demo_db_sel demo_view)
qed

text \<open>
  C12: scans of a transaction.  With more fuel than there are entries a scan returns; on an
  open transaction it registers the range, and the rows it returns are in order and give,
  for exactly the keys within the bounds, the transaction's view.
\<close>

theorem tx_scan_correct:
  assumes "readable X G d" and "watermark_ok (db_watermark d)" and "length (db_entries X G d) + 1 < fuel"
  shows "\<exists>r t' d'. tx_scan X fuel lower upper t d = Some (r, t', d') \<and> snapshot_read X G d d' \<and>
    tx_writes t' = tx_writes t \<and> tx_snapshot t' = tx_snapshot t \<and> tx_read_keys t' = tx_read_keys t \<and>
    (if tx_closed t then r = Inl Closed \<and> t' = t
     else tx_read_ranges t' = tx_read_ranges t @ [(lower, upper)] \<and>
       (if db_closed d then r = Inl Closed
        else r = Inl (Io OtherIo) \<and> env_faults (db_env d) \<noteq> [] \<or>
          (\<exists>rows. r = Inr rows \<and> sorted_wrt (<) (map fst rows) \<and>
             (\<forall>k. map_of rows k = (if within_bounds k lower upper then tx_view (db_entries X G d) t k else None)))))"
proof (cases "tx_closed t")
  case True
  with assms show ?thesis by (simp add: tx_scan_def ensure_open_def snapshot_read_refl)
next
  case opened: False
  let ?s = "tx_snapshot t" and ?es = "db_entries X G d"
  obtain w' where w': "snapshot_drop (fst (snapshot_clone ?s (db_watermark d))) (snd (snapshot_clone ?s (db_watermark d))) = Inr w'"
    "watermark_ok w'" "watermark_held w' = watermark_held (db_watermark d)" by (rule clone_dropped [OF assms(2)])
  let ?d = "d\<lparr>db_watermark := snd (snapshot_clone ?s (db_watermark d))\<rparr>"
  let ?opts = "default_read_options\<lparr>ro_snapshot := Some (snap_read_seq ?s)\<rparr>"
  have "readable X G ?d" "length (db_entries X G ?d) + 1 < fuel" using assms by simp_all
  from scan_opt_outcome [OF this, of lower upper ?opts] obtain r1 d1 where sc: "scan_opt X fuel lower upper ?opts ?d = Some (r1, d1)"
    and d1: "reads_to ?d d1" "caches_ok X G d1" and r1: "if db_closed d then r1 = Inl Closed
      else r1 = Inr (scan_rows ?es lower upper (snap_read_seq ?s)) \<or> r1 = Inl (Io OtherIo) \<and> env_faults (db_env d) \<noteq> []"
    by (auto simp: read_sequence_def split: if_splits)
  have wm: "db_watermark d1 = snd (snapshot_clone ?s (db_watermark d))" using reads_to_sel(10) [OF d1(1)] by simp
  let ?rows = "overlay_writes lower upper (records (tx_writes t)) (collect_rows (scan_rows ?es lower upper (snap_read_seq ?s)))"
  let ?r = "and_then r1 (\<lambda>rows. Inr (overlay_writes lower upper (records (tx_writes t)) (collect_rows rows)))"
  have run: "tx_scan X fuel lower upper t d = Some (?r, t\<lparr>tx_read_ranges := tx_read_ranges t @ [(lower, upper)]\<rparr>, d1\<lparr>db_watermark := w'\<rparr>)"
    using opened sc w'(1) wm by (simp add: tx_scan_def ensure_open_def Let_def snapshot_clone_def snapshot_new_def)
  have rows: "sorted_wrt (<) (map fst ?rows)"
    "map_of ?rows k = (if within_bounds k lower upper then tx_view ?es t k else None)" for k
    using overlay_writes_map [OF collect_rows_sorted(1) [OF sorted_scan_rows]]
    by (auto simp: collect_rows_sorted(2) [OF sorted_scan_rows] map_of_scan_rows tx_view_def split: option.splits)
  from run snapshot_readI [OF assms(1) w'(2,3) d1] r1 rows opened show ?thesis by auto
qed

theorem tx_scan_correct_witness:
  "\<exists>rows t' d'. tx_scan demo_externs 9 Unbounded Unbounded demo_tx demo_db = Some (Inr rows, t', d') \<and>
     map_of rows [1] = Some [7] \<and> map_of rows [2] = None \<and> map_of rows [9] = Some [5]"
proof -
  have "length (db_entries demo_externs Map.empty demo_db) + 1 < 9" by (simp add: demo_db_entries(2))
  from tx_scan_correct [OF demo_readable demo_db_sel(3) this, of Unbounded Unbounded demo_tx] show ?thesis
    by (auto simp: demo_tx_sel demo_db_sel demo_view within_bounds_def)
qed

end
