(* ===== verification/Group_Commit.thy ===== *)
theory Group_Commit
  imports Database_Reads
begin

section \<open>Group commit (db.rs)\<close>

text \<open>
  Concurrent calls of \<^verbatim>\<open>DB::write\<close> as a state machine.  A call puts its request into the
  queue \<^verbatim>\<open>write_group\<close>; the call that finds the queue empty leads the group: it drains
  the queue, writes all the batches with one \<^verbatim>\<open>apply_write_group\<close>, and hands every request
  its result, for which the other calls wait.  A new leader may appear as soon as the queue is
  drained, before the old one has finished, so several groups can be on their way at once.

  The steps of a call are the sections of its code between the locks: entering the queue,
  draining it, applying the group with the completion of its requests, and taking the result.
  Steps of different calls interleave freely.  A request is named by the call that made it.
\<close>

subsection \<open>Requests\<close>

record pending_write =
  pw_batch :: "write_batch option"
  pw_opts :: write_options
  pw_result :: "unit result option"

definition pending_write_new :: "write_batch \<Rightarrow> write_options \<Rightarrow> pending_write" where
  "pending_write_new batch opts = \<lparr>pw_batch = Some batch, pw_opts = opts, pw_result = None\<rparr>"

definition take_batch :: "pending_write \<Rightarrow> (write_batch \<times> pending_write) result" where
  "take_batch p =
     (case pw_batch p of
        None \<Rightarrow> Inl (Panic ''pending write batch is present'')
      | Some batch \<Rightarrow> Inr (batch, p\<lparr>pw_batch := None\<rparr>))"

definition complete :: "unit result \<Rightarrow> pending_write \<Rightarrow> pending_write" where
  "complete r p = p\<lparr>pw_result := Some r\<rparr>"

text \<open>\<^verbatim>\<open>wait\<close> takes the result when there is one and blocks otherwise.\<close>

definition pending_wait :: "pending_write \<Rightarrow> (unit result \<times> pending_write) option" where
  "pending_wait p = map_option (\<lambda>r. (r, p\<lparr>pw_result := None\<rparr>)) (pw_result p)"

subsection \<open>The calls\<close>

datatype writer = Leading | Applying "nat list" | Waiting | Returned "unit result"

record 'm group_commit =
  gc_db :: "'m db"
  gc_queue :: "nat list"
  gc_requests :: "nat \<Rightarrow> pending_write option"
  gc_writers :: "nat \<Rightarrow> writer option"

definition group_init :: "'m db \<Rightarrow> 'm group_commit" where
  "group_init d = \<lparr>gc_db = d, gc_queue = [], gc_requests = Map.empty, gc_writers = Map.empty\<rparr>"

definition enqueue :: "nat \<Rightarrow> write_batch \<Rightarrow> write_options \<Rightarrow> 'm group_commit \<Rightarrow> 'm group_commit" where
  "enqueue i batch opts g =
     g\<lparr>gc_queue := gc_queue g @ [i], gc_requests := (gc_requests g)(i \<mapsto> pending_write_new batch opts),
       gc_writers := (gc_writers g)(i \<mapsto> if gc_queue g = [] then Leading else Waiting)\<rparr>"

definition drain_group :: "nat \<Rightarrow> 'm group_commit \<Rightarrow> 'm group_commit" where
  "drain_group i g = g\<lparr>gc_queue := [], gc_writers := (gc_writers g)(i \<mapsto> Applying (gc_queue g))\<rparr>"

fun take_batches :: "nat list \<Rightarrow> (nat \<Rightarrow> pending_write option) \<Rightarrow>
  ((write_batch \<times> write_options) list \<times> (nat \<Rightarrow> pending_write option)) result" where
  "take_batches [] reqs = Inr ([], reqs)"
| "take_batches (i # is) reqs =
     (case reqs i of
        None \<Rightarrow> Inl (Panic ''no such request'')
      | Some p \<Rightarrow>
          and_then (take_batch p) (\<lambda>(batch, p').
          and_then (take_batches is (reqs(i \<mapsto> p'))) (\<lambda>(items, reqs').
            Inr ((batch, pw_opts p) # items, reqs'))))"

fun complete_all :: "(nat \<times> unit result) list \<Rightarrow> (nat \<Rightarrow> pending_write option) \<Rightarrow> nat \<Rightarrow> pending_write option" where
  "complete_all [] reqs = reqs"
| "complete_all ((i, r) # rs) reqs = complete_all rs (reqs(i := map_option (complete r) (reqs i)))"

definition lead_group :: "'m externs \<Rightarrow> nat \<Rightarrow> nat list \<Rightarrow> 'm group_commit \<Rightarrow> 'm group_commit result" where
  "lead_group X i ids g =
     and_then (take_batches ids (gc_requests g)) (\<lambda>(items, reqs).
       case apply_write_group X items (gc_db g) of
         (results, d) \<Rightarrow>
           Inr (g\<lparr>gc_db := d, gc_requests := complete_all (zip ids results) reqs,
                  gc_writers := (gc_writers g)(i \<mapsto> Waiting)\<rparr>))"

datatype group_event =
  Arrive nat write_batch write_options
| Drain nat
| Lead "nat list"
| Return nat "unit result"

inductive group_step :: "'m externs \<Rightarrow> 'm group_commit \<Rightarrow> group_event \<Rightarrow> 'm group_commit \<Rightarrow> bool" for X where
  arrive: "gc_writers g i = None \<Longrightarrow> \<not> write_batch_is_empty batch \<Longrightarrow>
    group_step X g (Arrive i batch opts) (enqueue i batch opts g)"
| drain: "gc_writers g i = Some Leading \<Longrightarrow> group_step X g (Drain i) (drain_group i g)"
| lead: "gc_writers g i = Some (Applying ids) \<Longrightarrow> lead_group X i ids g = Inr g' \<Longrightarrow> group_step X g (Lead ids) g'"
| return: "gc_writers g i = Some Waiting \<Longrightarrow> gc_requests g i = Some p \<Longrightarrow> pending_wait p = Some (r, p') \<Longrightarrow>
    group_step X g (Return i r) (g\<lparr>gc_requests := (gc_requests g)(i \<mapsto> p'), gc_writers := (gc_writers g)(i \<mapsto> Returned r)\<rparr>)"

inductive_cases group_stepE [elim]:
  "group_step X g (Arrive i batch opts) g'" "group_step X g (Drain i) g'" "group_step X g (Lead ids) g'"
  "group_step X g (Return i r) g'"

inductive group_run :: "'m externs \<Rightarrow> 'm group_commit \<Rightarrow> group_event list \<Rightarrow> 'm group_commit \<Rightarrow> bool" for X g where
  start: "group_run X g [] g"
| step: "group_run X g evs g' \<Longrightarrow> group_step X g' ev g'' \<Longrightarrow> group_run X g (evs @ [ev]) g''"

subsection \<open>The history of a run\<close>

text \<open>Which batch each call brought, and the groups in the order in which they were written.\<close>

definition arrival :: "group_event \<Rightarrow> (nat \<times> write_batch \<times> write_options) option" where
  "arrival ev = (case ev of Arrive i batch opts \<Rightarrow> Some (i, batch, opts) | _ \<Rightarrow> None)"

definition arrivals :: "group_event list \<Rightarrow> (nat \<times> write_batch \<times> write_options) list" where
  "arrivals evs = List.map_filter arrival evs"

definition led :: "group_event list \<Rightarrow> nat list list" where
  "led evs = List.map_filter (\<lambda>ev. case ev of Lead ids \<Rightarrow> Some ids | _ \<Rightarrow> None) evs"

definition request_of :: "group_event list \<Rightarrow> nat \<Rightarrow> write_batch \<times> write_options" where
  "request_of evs i = the (map_of (arrivals evs) i)"

text \<open>The reference: the groups written one after the other, and the result of each request.\<close>

fun write_groups :: "'m externs \<Rightarrow> (nat \<Rightarrow> write_batch \<times> write_options) \<Rightarrow> nat list list \<Rightarrow> 'm db \<Rightarrow>
  (nat \<times> unit result) list \<times> 'm db" where
  "write_groups X req [] d = ([], d)"
| "write_groups X req (ids # groups) d =
     (case apply_write_group X (map req ids) d of
        (results, d1) \<Rightarrow> (case write_groups X req groups d1 of (rest, d2) \<Rightarrow> (zip ids results @ rest, d2)))"

lemma history_simps [simp]:
  "arrivals [] = []" "arrivals (evs @ [ev]) = arrivals evs @ (case arrival ev of None \<Rightarrow> [] | Some a \<Rightarrow> [a])"
  "led [] = []" "led (evs @ [Lead ids]) = led evs @ [ids]" "led (evs @ [Arrive i b opts]) = led evs" "led (evs @ [Drain i]) = led evs"
  "led (evs @ [Return i r]) = led evs"
  by (simp_all add: arrivals_def led_def map_filter_def split: option.split)

lemma arrival_simps [simp]:
  "arrival (Arrive i b opts) = Some (i, b, opts)" "arrival (Drain i) = None" "arrival (Lead ids) = None" "arrival (Return i r) = None"
  by (simp_all add: arrival_def)

lemma write_groups_append:
  "write_groups X req (gs @ hs) d =
     (case write_groups X req gs d of (rs, d1) \<Rightarrow> (case write_groups X req hs d1 of (rs', d2) \<Rightarrow> (rs @ rs', d2)))"
  by (induction gs arbitrary: d) (simp_all split: prod.splits)

lemma write_groups_cong:
  "(\<And>i. i \<in> set (concat gs) \<Longrightarrow> req i = req' i) \<Longrightarrow> write_groups X req gs d = write_groups X req' gs d"
proof (induction gs arbitrary: d)
  case (Cons ids gs)
  have ids: "map req ids = map req' ids" using Cons.prems by simp
  have "write_groups X req gs d1 = write_groups X req' gs d1" for d1 using Cons by simp
  then show ?case unfolding write_groups.simps ids by simp
qed simp

lemma length_apply_write_group: "length (fst (apply_write_group X items d)) = length items"
proof -
  have "length (repeat_group_error X err n) = n" for err n by (cases err) simp_all
  then show ?thesis by (simp add: apply_write_group_def Let_def split: prod.split sum.split)
qed

lemma write_groups_ids: "map fst (fst (write_groups X req gs d)) = concat gs"
proof (induction gs arbitrary: d)
  case (Cons ids gs)
  have "length (fst (apply_write_group X (map req ids) d)) = length ids" by (simp add: length_apply_write_group)
  with Cons show ?case by (simp add: split_beta)
qed simp

subsection \<open>The invariant\<close>

text \<open>The requests in the queue or in a group that is on its way.\<close>

definition in_flight :: "'m group_commit \<Rightarrow> nat set" where
  "in_flight g = set (gc_queue g) \<union> {i. \<exists>j ids. gc_writers g j = Some (Applying ids) \<and> i \<in> set ids}"

definition group_ok :: "group_event list \<Rightarrow> 'm group_commit \<Rightarrow> bool" where
  "group_ok evs g \<longleftrightarrow>
     distinct (map fst (arrivals evs)) \<and> dom (gc_writers g) = set (map fst (arrivals evs)) \<and>
     distinct (gc_queue g) \<and>
     (\<forall>i. gc_writers g i = Some Leading \<longleftrightarrow> gc_queue g \<noteq> [] \<and> i = hd (gc_queue g)) \<and>
     (\<forall>j ids. gc_writers g j = Some (Applying ids) \<longrightarrow> j \<in> set ids \<and> distinct ids \<and> set ids \<inter> set (gc_queue g) = {}) \<and>
     (\<forall>j ids j' ids'. gc_writers g j = Some (Applying ids) \<longrightarrow> gc_writers g j' = Some (Applying ids') \<longrightarrow> j \<noteq> j' \<longrightarrow>
        set ids \<inter> set ids' = {}) \<and>
     (\<forall>i\<in>in_flight g. (\<forall>r. gc_writers g i \<noteq> Some (Returned r)) \<and> i \<notin> set (concat (led evs)) \<and>
        (\<exists>batch opts. map_of (arrivals evs) i = Some (batch, opts) \<and> gc_requests g i = Some (pending_write_new batch opts))) \<and>
     distinct (concat (led evs)) \<and> set (concat (led evs)) \<subseteq> dom (gc_writers g) - in_flight g"

text \<open>The database and the results are those of the groups in the order of their writing.\<close>

definition group_results :: "'m externs \<Rightarrow> 'm db \<Rightarrow> group_event list \<Rightarrow> 'm group_commit \<Rightarrow> bool" where
  "group_results X d evs g \<longleftrightarrow>
     gc_db g = snd (write_groups X (request_of evs) (led evs) d) \<and>
     (\<forall>i r. map_of (fst (write_groups X (request_of evs) (led evs) d)) i = Some r \<longrightarrow>
        gc_writers g i = Some (Returned r) \<or>
        gc_writers g i = Some Waiting \<and> (\<exists>p. gc_requests g i = Some p \<and> pw_result p = Some r)) \<and>
     (\<forall>i\<in>dom (gc_writers g). i \<in> in_flight g \<or> i \<in> set (concat (led evs)))"

lemma group_ok_init: "group_ok [] (group_init d)" "group_results X d [] (group_init d)"
  by (simp_all add: group_ok_def group_results_def group_init_def in_flight_def)

subsection \<open>Every step keeps the invariant\<close>

lemma take_batches_ok:
  assumes "distinct ids" and "\<forall>i\<in>set ids. reqs i = Some (pending_write_new (fst (req i)) (snd (req i)))"
  shows "\<exists>reqs'. take_batches ids reqs = Inr (map req ids, reqs') \<and> (\<forall>j. j \<notin> set ids \<longrightarrow> reqs' j = reqs j) \<and>
    (\<forall>j\<in>set ids. reqs' j \<noteq> None)"
  using assms
proof (induction ids arbitrary: reqs)
  case (Cons i ids)
  let ?p = "(pending_write_new (fst (req i)) (snd (req i)))\<lparr>pw_batch := None\<rparr>"
  define reqs1 where "reqs1 = reqs(i \<mapsto> ?p)"
  have "distinct ids" "\<forall>j\<in>set ids. reqs1 j = Some (pending_write_new (fst (req j)) (snd (req j)))"
    using Cons.prems by (auto simp: reqs1_def)
  from Cons.IH [OF this] obtain reqs' where
    "take_batches ids reqs1 = Inr (map req ids, reqs')" "\<forall>j. j \<notin> set ids \<longrightarrow> reqs' j = reqs1 j"
    "\<forall>j\<in>set ids. reqs' j \<noteq> None" by blast
  moreover have "take_batch (pending_write_new (fst (req i)) (snd (req i))) = Inr (fst (req i), ?p)"
    "pw_opts (pending_write_new (fst (req i)) (snd (req i))) = snd (req i)"
    by (simp_all add: take_batch_def pending_write_new_def)
  moreover have "reqs i = Some (pending_write_new (fst (req i)) (snd (req i)))" using Cons.prems(2) by simp
  ultimately show ?case
    using Cons.prems(1) by (intro exI [of _ reqs']) (auto simp: reqs1_def [symmetric], auto simp: reqs1_def)
qed simp

lemma complete_all_eq:
  "distinct (map fst rs) \<Longrightarrow>
   complete_all rs reqs j = (case map_of rs j of None \<Rightarrow> reqs j | Some r \<Rightarrow> map_option (complete r) (reqs j))"
proof (induction rs arbitrary: reqs)
  case (Cons a rs)
  obtain i r where a: "a = (i, r)" by fastforce
  have "map_of rs i = None" using Cons.prems by (simp add: a map_of_eq_None_iff)
  with Cons show ?case by (auto simp: a split: option.split)
qed simp

lemma map_of_zip_distinct:
  "length rs = length ids \<Longrightarrow> i \<in> set ids \<Longrightarrow> \<exists>r. map_of (zip ids rs) i = Some r"
  by (metis map_of_zip_is_Some)

text \<open>What leading a group does: the leader cannot panic, and every member gets its result.\<close>

lemma lead_group_ok:
  assumes ok: "group_ok evs g" and i: "gc_writers g i = Some (Applying ids)"
  shows "\<exists>reqs. lead_group X i ids g = Inr (g\<lparr>gc_db := snd (apply_write_group X (map (request_of evs) ids) (gc_db g)),
      gc_requests := reqs, gc_writers := (gc_writers g)(i \<mapsto> Waiting)\<rparr>) \<and>
    (\<forall>j. j \<notin> set ids \<longrightarrow> reqs j = gc_requests g j) \<and>
    (\<forall>j r. map_of (zip ids (fst (apply_write_group X (map (request_of evs) ids) (gc_db g)))) j = Some r \<longrightarrow>
      (\<exists>p. reqs j = Some p \<and> pw_result p = Some r))"
proof -
  obtain rs d where a: "apply_write_group X (map (request_of evs) ids) (gc_db g) = (rs, d)" by fastforce
  have len: "length rs = length ids" using length_apply_write_group [of X "map (request_of evs) ids" "gc_db g"] by (simp add: a)
  have dist: "distinct ids" using ok i unfolding group_ok_def by blast
  have fl: "j \<in> in_flight g" if "j \<in> set ids" for j using i that by (auto simp: in_flight_def)
  have "gc_requests g j = Some (pending_write_new (fst (request_of evs j)) (snd (request_of evs j)))" if "j \<in> set ids" for j
  proof -
    from ok fl [OF that] obtain batch opts where "map_of (arrivals evs) j = Some (batch, opts)"
      "gc_requests g j = Some (pending_write_new batch opts)" unfolding group_ok_def by blast
    then show ?thesis by (simp add: request_of_def)
  qed
  with take_batches_ok [OF dist, of "gc_requests g" "request_of evs"] obtain reqs' where
    t: "take_batches ids (gc_requests g) = Inr (map (request_of evs) ids, reqs')" "\<forall>j. j \<notin> set ids \<longrightarrow> reqs' j = gc_requests g j"
    "\<forall>j\<in>set ids. reqs' j \<noteq> None" by blast
  let ?reqs = "complete_all (zip ids rs) reqs'"
  have dz: "distinct (map fst (zip ids rs))" using dist len by simp
  have "?reqs j = gc_requests g j" if "j \<notin> set ids" for j
    using that t(2) map_of_zip_is_None [OF len [symmetric], of j] by (simp add: complete_all_eq [OF dz])
  moreover have "\<exists>p. ?reqs j = Some p \<and> pw_result p = Some r" if "map_of (zip ids rs) j = Some r" for j r
  proof -
    from that have "j \<in> set ids" by (meson map_of_SomeD set_zip_leftD)
    with t(3) obtain p where "reqs' j = Some p" by blast
    with that show ?thesis by (simp add: complete_all_eq [OF dz] complete_def)
  qed
  ultimately show ?thesis by (intro exI [of _ ?reqs]) (simp add: lead_group_def t a)
qed

lemma group_okD:
  assumes "group_ok evs g"
  shows "distinct (map fst (arrivals evs))" "dom (gc_writers g) = set (map fst (arrivals evs))" "distinct (gc_queue g)"
    "gc_writers g i = Some Leading \<longleftrightarrow> gc_queue g \<noteq> [] \<and> i = hd (gc_queue g)"
    "gc_writers g j = Some (Applying ids) \<Longrightarrow> j \<in> set ids \<and> distinct ids \<and> set ids \<inter> set (gc_queue g) = {}"
    "gc_writers g j = Some (Applying ids) \<Longrightarrow> gc_writers g j' = Some (Applying ids') \<Longrightarrow> j \<noteq> j' \<Longrightarrow> set ids \<inter> set ids' = {}"
    "i \<in> in_flight g \<Longrightarrow> gc_writers g i \<noteq> Some (Returned r)" "i \<in> in_flight g \<Longrightarrow> i \<notin> set (concat (led evs))"
    "i \<in> in_flight g \<Longrightarrow> \<exists>batch opts. map_of (arrivals evs) i = Some (batch, opts) \<and> gc_requests g i = Some (pending_write_new batch opts)"
    "distinct (concat (led evs))" "set (concat (led evs)) \<subseteq> dom (gc_writers g) - in_flight g"
  using assms unfolding group_ok_def by blast+

lemma in_flight_dom: "group_ok evs g \<Longrightarrow> i \<in> in_flight g \<Longrightarrow> i \<in> dom (gc_writers g)"
  using group_okD(2,9) [of evs g] by (force dest: map_of_SomeD)

lemma enqueue_sel [simp]:
  "gc_db (enqueue i b opts g) = gc_db g" "gc_queue (enqueue i b opts g) = gc_queue g @ [i]"
  "gc_requests (enqueue i b opts g) = (gc_requests g)(i \<mapsto> pending_write_new b opts)"
  "gc_writers (enqueue i b opts g) = (gc_writers g)(i \<mapsto> if gc_queue g = [] then Leading else Waiting)"
  by (simp_all add: enqueue_def)

lemma in_flight_enqueue: "gc_writers g i = None \<Longrightarrow> in_flight (enqueue i b opts g) = insert i (in_flight g)"
  by (auto simp: in_flight_def) (metis option.distinct(1))+

lemma arrive_ok:
  assumes ok: "group_ok evs g" and new: "gc_writers g i = None"
  shows "group_ok (evs @ [Arrive i b opts]) (enqueue i b opts g)"
proof -
  note D = group_okD [OF ok]
  have "i \<notin> dom (gc_writers g)" using new by auto
  then have i: "i \<notin> set (map fst (arrivals evs))" "i \<notin> in_flight g" "map_of (arrivals evs) i = None"
    using D(2) in_flight_dom [OF ok, of i] by (auto simp: map_of_eq_None_iff)
  have q: "i \<notin> set (gc_queue g)" using i(2) by (simp add: in_flight_def)
  have app: "i \<notin> set ids" if "gc_writers g j = Some (Applying ids)" for j ids using i(2) that by (auto simp: in_flight_def)
  have fl: "\<exists>batch opts'. map_of (arrivals (evs @ [Arrive i b opts])) k = Some (batch, opts') \<and>
      gc_requests (enqueue i b opts g) k = Some (pending_write_new batch opts')" if "k \<in> in_flight (enqueue i b opts g)" for k
    using that D(9) [of k] i by (cases "k = i") (auto simp: in_flight_enqueue [OF new] map_add_def)
  have lead: "gc_writers (enqueue i b opts g) k = Some Leading \<longleftrightarrow> k = hd (gc_queue g @ [i])" for k
    using D(4) [of k] q new by (cases "gc_queue g") auto
  show ?thesis
    unfolding group_ok_def
  proof (intro conjI allI ballI impI)
    show "distinct (map fst (arrivals (evs @ [Arrive i b opts])))" using D(1) i by simp
    show "dom (gc_writers (enqueue i b opts g)) = set (map fst (arrivals (evs @ [Arrive i b opts])))" using D(2) by auto
    show "distinct (gc_queue (enqueue i b opts g))" using D(3) q by simp
    show "gc_writers (enqueue i b opts g) k = Some Leading \<longleftrightarrow>
        gc_queue (enqueue i b opts g) \<noteq> [] \<and> k = hd (gc_queue (enqueue i b opts g))" for k using lead by simp
    show "distinct (concat (led (evs @ [Arrive i b opts])))" using D(10) by simp
    show "set (concat (led (evs @ [Arrive i b opts]))) \<subseteq> dom (gc_writers (enqueue i b opts g)) - in_flight (enqueue i b opts g)"
      using D(11) new unfolding in_flight_enqueue [OF new] by auto
  next
    fix j ids assume j: "gc_writers (enqueue i b opts g) j = Some (Applying ids)"
    then have "gc_writers g j = Some (Applying ids)" by (auto split: if_splits)
    with D(5) app show "j \<in> set ids" "distinct ids" "set ids \<inter> set (gc_queue (enqueue i b opts g)) = {}" by auto
    fix j' ids' assume "gc_writers (enqueue i b opts g) j' = Some (Applying ids')" "j \<noteq> j'"
    with j show "set ids \<inter> set ids' = {}" by (intro D(6) [of j ids j' ids']) (auto split: if_splits)
  next
    fix k assume k: "k \<in> in_flight (enqueue i b opts g)"
    from k D(7,8) [of k] i D(11) new show "gc_writers (enqueue i b opts g) k \<noteq> Some (Returned r)"
      "k \<notin> set (concat (led (evs @ [Arrive i b opts])))" for r by (auto simp: in_flight_enqueue [OF new])
    from fl [OF k] show "\<exists>batch opts'. map_of (arrivals (evs @ [Arrive i b opts])) k = Some (batch, opts') \<and>
      gc_requests (enqueue i b opts g) k = Some (pending_write_new batch opts')" .
  qed
qed

lemma drain_sel [simp]:
  "gc_db (drain_group i g) = gc_db g" "gc_queue (drain_group i g) = []" "gc_requests (drain_group i g) = gc_requests g"
  "gc_writers (drain_group i g) = (gc_writers g)(i \<mapsto> Applying (gc_queue g))"
  by (simp_all add: drain_group_def)

lemma in_flight_drain: "gc_writers g i = Some Leading \<Longrightarrow> in_flight (drain_group i g) = in_flight g"
  by (auto simp: in_flight_def split: if_splits) (metis option.inject writer.distinct(1))

lemma drain_ok:
  assumes ok: "group_ok evs g" and i: "gc_writers g i = Some Leading"
  shows "group_ok (evs @ [Drain i]) (drain_group i g)"
proof -
  note D = group_okD [OF ok] and fl = in_flight_drain [OF i]
  have hd: "gc_queue g \<noteq> []" "i = hd (gc_queue g)" using D(4) [of i] i by auto
  have only: "k = i" if "gc_writers g k = Some Leading" for k using D(4) [of k] that hd by simp
  show ?thesis
    unfolding group_ok_def fl
  proof (intro conjI allI ballI impI)
    show "distinct (map fst (arrivals (evs @ [Drain i])))" "distinct (concat (led (evs @ [Drain i])))" using D(1,10) by simp_all
    show "dom (gc_writers (drain_group i g)) = set (map fst (arrivals (evs @ [Drain i])))" using D(2) i by auto
    show "gc_writers (drain_group i g) k = Some Leading \<longleftrightarrow> gc_queue (drain_group i g) \<noteq> [] \<and> k = hd (gc_queue (drain_group i g))" for k
      using only by auto
    show "set (concat (led (evs @ [Drain i]))) \<subseteq> dom (gc_writers (drain_group i g)) - in_flight g" using D(11) by auto
    show "distinct (gc_queue (drain_group i g))" by simp
  next
    fix j ids assume j: "gc_writers (drain_group i g) j = Some (Applying ids)"
    then show "j \<in> set ids" "distinct ids" "set ids \<inter> set (gc_queue (drain_group i g)) = {}"
      using D(3) D(5) [of j ids] hd by (auto split: if_splits)
    fix j' ids' assume "gc_writers (drain_group i g) j' = Some (Applying ids')" "j \<noteq> j'"
    with j show "set ids \<inter> set ids' = {}" using D(5) [of j ids] D(5) [of j' ids'] D(6) [of j ids j' ids'] by (auto split: if_splits)
  next
    fix k assume k: "k \<in> in_flight g"
    show "gc_writers (drain_group i g) k \<noteq> Some (Returned r)" for r using D(7) [OF k] by simp
    show "k \<notin> set (concat (led (evs @ [Drain i])))" using D(8) [OF k] by simp
    show "\<exists>batch opts. map_of (arrivals (evs @ [Drain i])) k = Some (batch, opts) \<and>
      gc_requests (drain_group i g) k = Some (pending_write_new batch opts)" using D(9) [OF k] by simp
  qed
qed

lemma in_flight_lead:
  assumes ok: "group_ok evs g" and i: "gc_writers g i = Some (Applying ids)"
  shows "in_flight (g\<lparr>gc_db := d, gc_requests := reqs, gc_writers := (gc_writers g)(i \<mapsto> Waiting)\<rparr>) = in_flight g - set ids"
proof -
  have "set ids \<inter> set (gc_queue g) = {}" using group_okD(5) [OF ok i] by simp
  moreover have "set ids \<inter> set ids' = {}" if "gc_writers g j = Some (Applying ids')" "j \<noteq> i" for j ids'
    using group_okD(6) [OF ok i that(1)] that(2) by simp
  ultimately show ?thesis using i unfolding in_flight_def by (auto split: if_splits) (metis option.inject writer.inject(1))
qed

lemma lead_ok:
  assumes ok: "group_ok evs g" and i: "gc_writers g i = Some (Applying ids)"
    and reqs: "\<forall>j. j \<notin> set ids \<longrightarrow> reqs j = gc_requests g j"
  shows "group_ok (evs @ [Lead ids]) (g\<lparr>gc_db := d, gc_requests := reqs, gc_writers := (gc_writers g)(i \<mapsto> Waiting)\<rparr>)"
proof -
  note D = group_okD [OF ok] and fl = in_flight_lead [OF ok i]
  have ids: "i \<in> set ids" "distinct ids" using D(5) [OF i] by simp_all
  have inf: "set ids \<subseteq> in_flight g" using i by (auto simp: in_flight_def)
  show ?thesis
    unfolding group_ok_def fl
  proof (intro conjI allI ballI impI)
    let ?g = "g\<lparr>gc_db := d, gc_requests := reqs, gc_writers := (gc_writers g)(i \<mapsto> Waiting)\<rparr>"
    show "distinct (map fst (arrivals (evs @ [Lead ids])))" using D(1) by simp
    show "dom (gc_writers ?g) = set (map fst (arrivals (evs @ [Lead ids])))" using D(2) i by auto
    show "distinct (gc_queue ?g)" using D(3) by simp
    show "gc_writers ?g k = Some Leading \<longleftrightarrow> gc_queue ?g \<noteq> [] \<and> k = hd (gc_queue ?g)" for k
      using D(4) [of k] D(4) [of i] i by auto
    show "distinct (concat (led (evs @ [Lead ids])))" using D(8,10) ids(2) inf by auto
    show "set (concat (led (evs @ [Lead ids]))) \<subseteq> dom (gc_writers ?g) - (in_flight g - set ids)"
    proof -
      have "set ids \<subseteq> dom (gc_writers g)" using inf in_flight_dom [OF ok] by blast
      moreover have "dom (gc_writers ?g) = insert i (dom (gc_writers g))" by simp
      ultimately show ?thesis using D(11) unfolding history_simps concat_append set_append by auto
    qed
    fix j ids' assume j: "gc_writers ?g j = Some (Applying ids')"
    then show "j \<in> set ids'" "distinct ids'" "set ids' \<inter> set (gc_queue ?g) = {}"
      using D(5) [of j ids'] by (auto split: if_splits)
    fix j' ids'' assume "gc_writers ?g j' = Some (Applying ids'')" "j \<noteq> j'"
    with j show "set ids' \<inter> set ids'' = {}" by (intro D(6) [of j ids' j' ids'']) (auto split: if_splits)
  next
    fix k assume k: "k \<in> in_flight g - set ids"
    then have "k \<in> in_flight g" "k \<notin> set ids" by auto
    with D(7-9) [of k] reqs show
      "gc_writers (g\<lparr>gc_db := d, gc_requests := reqs, gc_writers := (gc_writers g)(i \<mapsto> Waiting)\<rparr>) k \<noteq> Some (Returned r)"
      "k \<notin> set (concat (led (evs @ [Lead ids])))"
      "\<exists>batch opts. map_of (arrivals (evs @ [Lead ids])) k = Some (batch, opts) \<and>
        gc_requests (g\<lparr>gc_db := d, gc_requests := reqs, gc_writers := (gc_writers g)(i \<mapsto> Waiting)\<rparr>) k = Some (pending_write_new batch opts)"
      for r by auto
  qed
qed

lemma return_ok:
  assumes ok: "group_ok evs g" and i: "gc_writers g i = Some Waiting" "gc_requests g i = Some p" "pw_result p = Some r"
  shows "group_ok (evs @ [Return i r]) (g\<lparr>gc_requests := (gc_requests g)(i \<mapsto> p'), gc_writers := (gc_writers g)(i \<mapsto> Returned r)\<rparr>)"
proof -
  let ?g = "g\<lparr>gc_requests := (gc_requests g)(i \<mapsto> p'), gc_writers := (gc_writers g)(i \<mapsto> Returned r)\<rparr>"
  note D = group_okD [OF ok]
  have i_out: "i \<notin> in_flight g" using D(9) [of i] i by (auto simp: pending_write_new_def)
  have fl: "in_flight ?g = in_flight g"
    using i(1) unfolding in_flight_def by (auto split: if_splits) (metis option.inject writer.distinct(7))
  show ?thesis
    unfolding group_ok_def fl
  proof (intro conjI allI ballI impI)
    show "distinct (map fst (arrivals (evs @ [Return i r])))" "distinct (gc_queue ?g)" "distinct (concat (led (evs @ [Return i r])))"
      using D(1,3,10) by simp_all
    show "dom (gc_writers ?g) = set (map fst (arrivals (evs @ [Return i r])))" using D(2) i by auto
    show "gc_writers ?g k = Some Leading \<longleftrightarrow> gc_queue ?g \<noteq> [] \<and> k = hd (gc_queue ?g)" for k
      using D(4) [of k] D(4) [of i] i by auto
    show "set (concat (led (evs @ [Return i r]))) \<subseteq> dom (gc_writers ?g) - in_flight g" using D(11) by auto
    fix j ids assume j: "gc_writers ?g j = Some (Applying ids)"
    then show "j \<in> set ids" "distinct ids" "set ids \<inter> set (gc_queue ?g) = {}" using D(5) [of j ids] by (auto split: if_splits)
    fix j' ids' assume "gc_writers ?g j' = Some (Applying ids')" "j \<noteq> j'"
    with j show "set ids \<inter> set ids' = {}" by (intro D(6) [of j ids j' ids']) (auto split: if_splits)
  next
    fix k assume k: "k \<in> in_flight g"
    with i_out have "k \<noteq> i" by auto
    with D(7-9) [OF k] show "gc_writers ?g k \<noteq> Some (Returned q)" "k \<notin> set (concat (led (evs @ [Return i r])))"
      "\<exists>batch opts. map_of (arrivals (evs @ [Return i r])) k = Some (batch, opts) \<and> gc_requests ?g k = Some (pending_write_new batch opts)"
      for q by auto
  qed
qed

subsection \<open>Results\<close>

lemma request_of_old:
  assumes "group_ok evs g" and "set (concat gs) \<subseteq> dom (gc_writers g)"
  shows "write_groups X (request_of (evs @ [ev])) gs d = write_groups X (request_of evs) gs d"
proof (rule write_groups_cong)
  fix i assume "i \<in> set (concat gs)"
  with assms group_okD(2) [OF assms(1)] have "i \<in> fst ` set (arrivals evs)" by auto
  then have "map_of (arrivals evs) i \<noteq> None" by (simp add: map_of_eq_None_iff)
  then show "request_of (evs @ [ev]) i = request_of evs i" by (auto simp: request_of_def map_add_def split: option.split)
qed

lemma group_resultsD:
  assumes "group_results X d evs g"
  shows "gc_db g = snd (write_groups X (request_of evs) (led evs) d)"
    "map_of (fst (write_groups X (request_of evs) (led evs) d)) i = Some r \<Longrightarrow> gc_writers g i = Some (Returned r) \<or>
        gc_writers g i = Some Waiting \<and> (\<exists>p. gc_requests g i = Some p \<and> pw_result p = Some r)"
    "i \<in> dom (gc_writers g) \<Longrightarrow> i \<in> in_flight g \<or> i \<in> set (concat (led evs))"
  using assms unfolding group_results_def by blast+

lemma member_waiting:
  assumes ok: "group_ok evs g" and i: "gc_writers g i = Some (Applying ids)" and j: "j \<in> set ids" "j \<noteq> i"
  shows "gc_writers g j = Some Waiting"
proof -
  note D = group_okD [OF ok]
  have fl: "j \<in> in_flight g" using i j(1) by (auto simp: in_flight_def)
  from in_flight_dom [OF ok fl] obtain w where w: "gc_writers g j = Some w" by auto
  show ?thesis
  proof (cases w)
    case Leading
    with w D(4) [of j] have "j \<in> set (gc_queue g)" by (auto intro: hd_in_set)
    with D(5) [OF i] j(1) show ?thesis by auto
  next
    case (Applying ids')
    with w D(5) [of j ids'] D(6) [OF i, of j ids'] j show ?thesis by auto
  qed (use w D(7) [OF fl] in auto)
qed

lemma led_dom: "group_ok evs g \<Longrightarrow> set (concat (led evs)) \<subseteq> dom (gc_writers g)"
  using group_okD(11) by blast

lemma map_of_results: "map_of (fst (write_groups X req gs d)) i = Some r \<Longrightarrow> i \<in> set (concat gs)"
  unfolding write_groups_ids [of X req gs d, symmetric] by (force dest: map_of_SomeD)

lemma arrive_results:
  assumes ok: "group_ok evs g" "group_results X d evs g" and new: "gc_writers g i = None"
  shows "group_results X d (evs @ [Arrive i b opts]) (enqueue i b opts g)"
proof -
  have "k \<noteq> i" if "map_of (fst (write_groups X (request_of evs) (led evs) d)) k = Some r" for k r
    using map_of_results [OF that] led_dom [OF ok(1)] new by auto
  with group_resultsD [OF ok(2)] show ?thesis
    unfolding group_results_def history_simps arrival_simps request_of_old [OF ok(1) led_dom [OF ok(1)]] in_flight_enqueue [OF new]
    by auto
qed

lemma drain_results:
  assumes ok: "group_ok evs g" "group_results X d evs g" and i: "gc_writers g i = Some Leading"
  shows "group_results X d (evs @ [Drain i]) (drain_group i g)"
proof -
  have "k \<noteq> i" if "map_of (fst (write_groups X (request_of evs) (led evs) d)) k = Some r" for k r
    using group_resultsD(2) [OF ok(2) that] i by auto
  with group_resultsD [OF ok(2)] i show ?thesis
    unfolding group_results_def history_simps arrival_simps request_of_old [OF ok(1) led_dom [OF ok(1)]] in_flight_drain [OF i]
    by auto
qed

lemma return_results:
  assumes ok: "group_ok evs g" "group_results X d evs g"
    and i: "gc_writers g i = Some Waiting" "gc_requests g i = Some p" "pw_result p = Some r"
  shows "group_results X d (evs @ [Return i r]) (g\<lparr>gc_requests := (gc_requests g)(i \<mapsto> p'), gc_writers := (gc_writers g)(i \<mapsto> Returned r)\<rparr>)"
proof -
  have fl: "in_flight (g\<lparr>gc_requests := (gc_requests g)(i \<mapsto> p'), gc_writers := (gc_writers g)(i \<mapsto> Returned r)\<rparr>) = in_flight g"
    using i(1) unfolding in_flight_def by (auto split: if_splits) (metis option.inject writer.distinct(7))
  have "q = r" if "map_of (fst (write_groups X (request_of evs) (led evs) d)) i = Some q" for q
    using group_resultsD(2) [OF ok(2) that] i by auto
  with group_resultsD [OF ok(2)] i show ?thesis
    unfolding group_results_def history_simps arrival_simps request_of_old [OF ok(1) led_dom [OF ok(1)]] fl
    by (auto split: if_splits)
qed

lemma lead_results:
  assumes ok: "group_ok evs g" "group_results X d evs g" and i: "gc_writers g i = Some (Applying ids)"
    and a: "apply_write_group X (map (request_of evs) ids) (gc_db g) = (rs, d1)"
    and reqs: "\<forall>j. j \<notin> set ids \<longrightarrow> reqs j = gc_requests g j"
      "\<forall>j r. map_of (zip ids rs) j = Some r \<longrightarrow> (\<exists>p. reqs j = Some p \<and> pw_result p = Some r)"
  shows "group_results X d (evs @ [Lead ids]) (g\<lparr>gc_db := d1, gc_requests := reqs, gc_writers := (gc_writers g)(i \<mapsto> Waiting)\<rparr>)"
proof -
  let ?g = "g\<lparr>gc_db := d1, gc_requests := reqs, gc_writers := (gc_writers g)(i \<mapsto> Waiting)\<rparr>"
  obtain old d0 where w: "write_groups X (request_of evs) (led evs) d = (old, d0)" by fastforce
  have inf: "set ids \<subseteq> in_flight g" using i by (auto simp: in_flight_def)
  have "set ids \<subseteq> dom (gc_writers g)" using inf in_flight_dom [OF ok(1)] by blast
  then have dom: "set (concat (led evs @ [ids])) \<subseteq> dom (gc_writers g)" using led_dom [OF ok(1)] by simp
  have d0: "gc_db g = d0" using group_resultsD(1) [OF ok(2)] by (simp add: w)
  have all: "write_groups X (request_of (evs @ [Lead ids])) (led evs @ [ids]) d = (old @ zip ids rs, d1)"
    by (subst request_of_old [OF ok(1) dom]) (simp add: write_groups_append w a d0 [symmetric])
  have "gc_writers ?g k = Some (Returned r) \<or> gc_writers ?g k = Some Waiting \<and> (\<exists>p. gc_requests ?g k = Some p \<and> pw_result p = Some r)"
    if "map_of (old @ zip ids rs) k = Some r" for k r
  proof (cases "map_of old k")
    case None
    with that have z: "map_of (zip ids rs) k = Some r" by (simp add: map_add_def split: option.splits)
    then have "k \<in> set ids" by (meson map_of_SomeD set_zip_leftD)
    with member_waiting [OF ok(1) i] reqs(2) z show ?thesis by auto
  next
    case (Some q)
    with that have q: "q = r" by (simp add: map_add_def)
    from map_of_results [of X "request_of evs" "led evs" d k r] Some q w have "k \<in> set (concat (led evs))" by simp
    with group_okD(11) [OF ok(1)] inf i have "k \<notin> set ids" by auto
    moreover have "k \<noteq> i" using \<open>k \<notin> set ids\<close> group_okD(5) [OF ok(1) i] by auto
    ultimately show ?thesis using group_resultsD(2) [OF ok(2), of k r] Some q w reqs(1) by simp
  qed
  moreover have "k \<in> in_flight ?g \<or> k \<in> set (concat (led evs @ [ids]))" if "k \<in> dom (gc_writers ?g)" for k
  proof -
    have "k \<in> dom (gc_writers g)" using that i by (auto split: if_splits)
    with group_resultsD(3) [OF ok(2)] show ?thesis unfolding in_flight_lead [OF ok(1) i] by auto
  qed
  ultimately show ?thesis unfolding group_results_def history_simps all by simp
qed

lemma group_step_ok:
  assumes ok: "group_ok evs g" "group_results X d evs g" and step: "group_step X g ev g'"
  shows "group_ok (evs @ [ev]) g' \<and> group_results X d (evs @ [ev]) g'"
  using step
proof cases
  case (arrive i batch opts)
  with arrive_ok [OF ok(1)] arrive_results [OF ok] show ?thesis by simp
next
  case (drain i)
  with drain_ok [OF ok(1)] drain_results [OF ok] show ?thesis by simp
next
  case (lead i ids)
  obtain rs d1 where a: "apply_write_group X (map (request_of evs) ids) (gc_db g) = (rs, d1)" by fastforce
  from lead_group_ok [OF ok(1) lead(2), of X] lead(3) a obtain reqs where
    g': "g' = g\<lparr>gc_db := d1, gc_requests := reqs, gc_writers := (gc_writers g)(i \<mapsto> Waiting)\<rparr>"
    and reqs: "\<forall>j. j \<notin> set ids \<longrightarrow> reqs j = gc_requests g j"
      "\<forall>j r. map_of (zip ids rs) j = Some r \<longrightarrow> (\<exists>p. reqs j = Some p \<and> pw_result p = Some r)" by auto
  from lead_ok [OF ok(1) lead(2) reqs(1)] lead_results [OF ok lead(2) a reqs] show ?thesis unfolding lead(1) g' by blast
next
  case (return i p r p')
  then have "pw_result p = Some r" by (auto simp: pending_wait_def)
  from return_ok [OF ok(1) return(3,4) this] return_results [OF ok return(3,4) this] return(1,2) show ?thesis by simp
qed

lemma group_run_ok: "group_run X (group_init d) evs g \<Longrightarrow> group_ok evs g \<and> group_results X d evs g"
  by (induction rule: group_run.induct) (auto simp: group_ok_init dest: group_step_ok)

subsection \<open>Progress\<close>

text \<open>How many steps a call has before it.\<close>

fun writer_weight :: "writer option \<Rightarrow> nat" where
  "writer_weight (Some Leading) = 3"
| "writer_weight (Some (Applying ids)) = 2"
| "writer_weight (Some Waiting) = 1"
| "writer_weight _ = 0"

definition group_weight :: "'m group_commit \<Rightarrow> nat" where
  "group_weight g = (\<Sum>i\<in>dom (gc_writers g). writer_weight (gc_writers g i))"

lemma weight_update:
  assumes "finite (dom f)" and "f i = Some w" and "writer_weight (Some w') + 1 = writer_weight (Some w)"
  shows "(\<Sum>k\<in>dom (f(i \<mapsto> w')). writer_weight ((f(i \<mapsto> w')) k)) + 1 = (\<Sum>k\<in>dom f. writer_weight (f k))"
proof -
  have i: "i \<in> dom f" using assms(2) by auto
  then have dom: "dom (f(i \<mapsto> w')) = dom f" by auto
  have "(\<Sum>k\<in>dom f - {i}. writer_weight ((f(i \<mapsto> w')) k)) = (\<Sum>k\<in>dom f - {i}. writer_weight (f k))" by (rule sum.cong) auto
  with sum.remove [OF assms(1) i, of "\<lambda>k. writer_weight (f k)"] sum.remove [OF assms(1) i, of "\<lambda>k. writer_weight ((f(i \<mapsto> w')) k)"]
    assms(2,3) show ?thesis unfolding dom by simp
qed

definition is_arrival :: "group_event \<Rightarrow> bool" where
  "is_arrival ev \<longleftrightarrow> arrival ev \<noteq> None"

lemma step_weight:
  assumes "group_step X g ev g'" and "\<not> is_arrival ev" and fin: "finite (dom (gc_writers g))"
  shows "group_weight g' + 1 = group_weight g" and "dom (gc_writers g') = dom (gc_writers g)"
proof -
  from assms(1,2) obtain i w w' where "gc_writers g i = Some w" "gc_writers g' = (gc_writers g)(i \<mapsto> w')"
    "writer_weight (Some w') + 1 = writer_weight (Some w)"
    by cases (auto simp: is_arrival_def lead_group_def and_then_def split: sum.splits prod.splits)
  with weight_update [OF fin this(1,3)] show "group_weight g' + 1 = group_weight g" "dom (gc_writers g') = dom (gc_writers g)"
    by (auto simp: group_weight_def)
qed

lemma finite_writers: "group_ok evs g \<Longrightarrow> finite (dom (gc_writers g))"
  by (simp add: group_okD(2))

text \<open>No deadlock: while a call has not returned, some step of a call is possible.\<close>

lemma group_progress:
  assumes ok: "group_ok evs g" "group_results X d evs g" and i: "gc_writers g i = Some w" "\<forall>r. w \<noteq> Returned r"
  shows "\<exists>ev g'. group_step X g ev g' \<and> \<not> is_arrival ev"
proof -
  have lead: ?thesis if "gc_writers g j = Some (Applying ids)" for j ids
    using lead_group_ok [OF ok(1) that, of X] group_step.lead [OF that, of X] by (fastforce simp: is_arrival_def)
  have drain: ?thesis if "gc_writers g j = Some Leading" for j
    using group_step.drain [OF that, of X] by (fastforce simp: is_arrival_def)
  show ?thesis
  proof (cases w)
    case Waiting
    have "i \<in> in_flight g \<or> i \<in> set (concat (led evs))" using group_resultsD(3) [OF ok(2)] i(1) by auto
    then show ?thesis
    proof
      assume "i \<in> in_flight g"
      then consider "gc_queue g \<noteq> []" | j ids where "gc_writers g j = Some (Applying ids)" unfolding in_flight_def by fastforce
      then show ?thesis by cases (use drain group_okD(4) [OF ok(1)] lead in blast)+
    next
      let ?res = "fst (write_groups X (request_of evs) (led evs) d)"
      assume "i \<in> set (concat (led evs))"
      then have "i \<in> fst ` set ?res" using write_groups_ids [of X "request_of evs" "led evs" d] by (metis list.set_map)
      then obtain r where "map_of ?res i = Some r" by (metis map_of_eq_None_iff not_None_eq)
      from group_resultsD(2) [OF ok(2) this] i Waiting obtain p where "gc_requests g i = Some p" "pw_result p = Some r" by auto
      with i(1) Waiting show ?thesis
        using group_step.return [of g i p r "p\<lparr>pw_result := None\<rparr>" X] by (fastforce simp: pending_wait_def is_arrival_def)
    qed
  qed (use i lead drain in auto)
qed

lemma group_run_Cons:
  assumes "group_step X g ev g1" and "group_run X g1 evs g'"
  shows "group_run X g (ev # evs) g'"
  using assms(2)
proof (induction rule: group_run.induct)
  case start
  from group_run.step [OF group_run.start assms(1)] show ?case by simp
next
  case (step evs g' ev' g'')
  from group_run.step [OF step.IH step(2)] show ?case by simp
qed

lemma run_weight:
  assumes "group_run X g evs g'" and "\<forall>ev\<in>set evs. \<not> is_arrival ev" and "finite (dom (gc_writers g))"
  shows "group_weight g' + length evs = group_weight g \<and> dom (gc_writers g') = dom (gc_writers g)"
  using assms
proof (induction rule: group_run.induct)
  case (step evs g' ev g'')
  then have 1: "group_weight g' + length evs = group_weight g" "dom (gc_writers g') = dom (gc_writers g)" by simp_all
  from step_weight [OF step(2)] step.prems 1(2) have "group_weight g'' + 1 = group_weight g'" "dom (gc_writers g'') = dom (gc_writers g')"
    by simp_all
  with 1 show ?case by simp
qed simp

lemma group_completes:
  assumes "group_ok evs g" and "group_results X d evs g"
  shows "\<exists>evs' g'. group_run X g evs' g' \<and> (\<forall>ev\<in>set evs'. \<not> is_arrival ev) \<and>
    (\<forall>i\<in>dom (gc_writers g'). \<exists>r. gc_writers g' i = Some (Returned r))"
  using assms
proof (induction "group_weight g" arbitrary: evs g rule: less_induct)
  case less
  show ?case
  proof (cases "\<forall>i\<in>dom (gc_writers g). \<exists>r. gc_writers g i = Some (Returned r)")
    case True
    then show ?thesis using group_run.start [of X g] by (intro exI [of _ "[]"] exI [of _ g]) simp
  next
    case False
    then obtain i w where "gc_writers g i = Some w" "\<forall>r. w \<noteq> Returned r" by blast
    from group_progress [OF less.prems this] obtain ev g1 where st: "group_step X g ev g1" "\<not> is_arrival ev" by blast
    have "group_weight g1 < group_weight g" using step_weight(1) [OF st finite_writers [OF less.prems(1)]] by simp
    from less.hyps [OF this] group_step_ok [OF less.prems st(1)] obtain evs' g' where
      r: "group_run X g1 evs' g'" "\<forall>ev\<in>set evs'. \<not> is_arrival ev" "\<forall>i\<in>dom (gc_writers g'). \<exists>r. gc_writers g' i = Some (Returned r)"
      by blast
    from group_run_Cons [OF st(1) r(1)] r(2,3) st(2) show ?thesis by (intro exI [of _ "ev # evs'"] exI [of _ g']) simp
  qed
qed

subsection \<open>Properties\<close>


definition demo_put_batch :: "nat \<Rightarrow> write_batch" where
  "demo_put_batch n = \<lparr>records = [BatchPut [1] [word_of_nat n]]\<rparr>"

text \<open>Two calls, of which the first leads the group of both.\<close>

lemma demo_group_states:
  obtains g1 g2 where
    "group_run demo_externs (group_init demo_db) [Arrive 0 (demo_put_batch 5) default_write_options, Arrive 2 (demo_put_batch 6) default_write_options] g1"
    "dom (gc_writers g1) = {0, 2}"
    "group_run demo_externs (group_init demo_db) [Arrive 0 (demo_put_batch 5) default_write_options, Arrive 2 (demo_put_batch 6) default_write_options,
       Drain 0, Lead [0, 2]] g2"
proof -
  define e1 where "e1 = [Arrive 0 (demo_put_batch 5) default_write_options]"
  define e2 where "e2 = e1 @ [Arrive 2 (demo_put_batch 6) default_write_options]"
  define h1 where "h1 = enqueue 0 (demo_put_batch 5) default_write_options (group_init demo_db)"
  define h2 where "h2 = enqueue 2 (demo_put_batch 6) default_write_options h1"
  have ne: "\<not> write_batch_is_empty (demo_put_batch n)" for n by (simp add: demo_put_batch_def write_batch_is_empty_def)
  have "group_step demo_externs (group_init demo_db) (Arrive 0 (demo_put_batch 5) default_write_options) h1"
    unfolding h1_def by (rule group_step.arrive) (simp_all add: ne group_init_def)
  from group_run.step [OF group_run.start this] have 1: "group_run demo_externs (group_init demo_db) e1 h1" by (simp add: e1_def)
  have "group_step demo_externs h1 (Arrive 2 (demo_put_batch 6) default_write_options) h2"
    unfolding h2_def by (rule group_step.arrive) (simp_all add: ne h1_def group_init_def)
  from group_run.step [OF 1 this] have 2: "group_run demo_externs (group_init demo_db) e2 h2" by (simp add: e2_def)
  have w: "gc_writers h2 0 = Some Leading" "gc_queue h2 = [0, 2]" "dom (gc_writers h2) = {0, 2}"
    by (auto simp: h2_def h1_def group_init_def)
  from group_run.step [OF 2 group_step.drain [OF w(1)]]
  have 3: "group_run demo_externs (group_init demo_db) (e2 @ [Drain 0]) (drain_group 0 h2)" .
  have a: "gc_writers (drain_group 0 h2) 0 = Some (Applying [0, 2])" by (simp add: w(2))
  from lead_group_ok [OF _ a, of "e2 @ [Drain 0]" demo_externs] group_run_ok [OF 3]
  obtain g2 where "lead_group demo_externs 0 [0, 2] (drain_group 0 h2) = Inr g2" by auto
  from group_run.step [OF 3 group_step.lead [OF a this]] 2 w(3) that show ?thesis by (simp add: e2_def e1_def)
qed





end
