(* ===== verification/Table_Opening.thy ===== *)
theory Table_Opening
  imports Database_Reads
begin

section \<open>Opening tables\<close>

text \<open>
  Tables are opened through the table cache, one by one or all those of a version.  Whatever
  fails, the cache holds the right readers afterwards and no file has changed.
\<close>

definition readers_ok :: "ghost \<Rightarrow> path \<Rightarrow> table_cache \<Rightarrow> bool" where
  "readers_ok G dir tc \<longleftrightarrow> (\<forall>n rd. map_of (tc_tables tc) n = Some rd \<longrightarrow> reader_ok G dir n rd)"

lemma caches_ok_readers: "caches_ok X G d \<longleftrightarrow>
    cache_coherent X (tabs_of G) (Some (db_block_cache d)) \<and> readers_ok G (db_path d) (db_table_cache d)"
  by (simp add: caches_ok_def readers_ok_def)

text \<open>The reader of a table, as its file determines it.\<close>

definition the_reader :: "ghost \<Rightarrow> path \<Rightarrow> u64 \<Rightarrow> sstable_reader" where
  "the_reader G dir n = (case G n of None \<Rightarrow> reader_for [] [] (table_path dir n)
     | Some (c, idx, es) \<Rightarrow> reader_for es idx (table_path dir n))"

definition the_ref :: "ghost \<Rightarrow> path \<Rightarrow> file_meta \<Rightarrow> table_ref" where
  "the_ref G dir f = (f, the_reader G dir (fm_number f))"

lemma reader_ok_the: "reader_ok G dir n rd \<Longrightarrow> rd = the_reader G dir n"
  by (auto simp: reader_ok_def the_reader_def)

lemma ref_ok_the: "ref_ok X G e dir ref \<Longrightarrow> the_ref G dir (fst ref) = ref"
  by (auto simp: ref_ok_def the_ref_def dest!: reader_ok_the) (simp add: prod_eq_iff)

lemma reader_ok_the_reader: "table_ok X G e dir n \<Longrightarrow> reader_ok G dir n (the_reader G dir n)"
  by (auto simp: reader_ok_def the_reader_def table_ok_def)

subsection \<open>Runs that open tables\<close>

definition opens :: "ghost \<Rightarrow> path \<Rightarrow> (env \<times> table_cache, 'a) op \<Rightarrow> env \<Rightarrow> table_cache \<Rightarrow> 'a \<Rightarrow> bool" where
  "opens G dir m e tc v \<longleftrightarrow> (\<forall>r e' tc'. m (e, tc) = (r, (e', tc')) \<longrightarrow> env_files e' = env_files e \<and> readers_ok G dir tc' \<and>
     (r = Inr v \<or> r = Inl (Io OtherIo) \<and> env_faults e \<noteq> []) \<and> (env_faults e = [] \<longrightarrow> e' = e))"

lemma opensD:
  "opens G dir m e tc v \<Longrightarrow> m (e, tc) = (r, (e', tc')) \<Longrightarrow> env_files e' = env_files e \<and> readers_ok G dir tc' \<and>
     (r = Inr v \<or> r = Inl (Io OtherIo) \<and> env_faults e \<noteq> []) \<and> (env_faults e = [] \<longrightarrow> e' = e)"
  by (simp add: opens_def)

lemma opens_lift: "readers_ok G dir tc \<Longrightarrow> opens G dir (op_lift (Inr v)) e tc v"
  by (simp add: opens_def op_lift_def)

lemma opens_then:
  assumes "opens G dir m e tc v"
    and "\<And>e' tc'. env_files e' = env_files e \<Longrightarrow> readers_ok G dir tc' \<Longrightarrow> opens G dir (f v) e' tc' w"
  shows "opens G dir (op_then m f) e tc w"
  unfolding opens_def
proof (intro allI impI)
  fix r e' tc' assume "op_then m f (e, tc) = (r, (e', tc'))"
  then show "env_files e' = env_files e \<and> readers_ok G dir tc' \<and> (r = Inr w \<or> r = Inl (Io OtherIo) \<and> env_faults e \<noteq> []) \<and>
      (env_faults e = [] \<longrightarrow> e' = e)"
  proof (cases rule: op_thenE)
    case (fail x)
    with opensD [OF assms(1) fail(1)] show ?thesis by auto
  next
    case (ok x s)
    obtain e1 tc1 where s: "s = (e1, tc1)" by fastforce
    from opensD [OF assms(1) ok(1) [unfolded s]] have 1: "env_files e1 = env_files e" "readers_ok G dir tc1" "x = v"
      "env_faults e = [] \<longrightarrow> e1 = e" by auto
    from opensD [OF assms(2) [OF 1(1,2)], of r e' tc'] ok(2) s 1 show ?thesis by auto
  qed
qed

lemma opens_get_or_open:
  assumes "table_ok X G e dir n" and "readers_ok G dir tc"
  shows "opens G dir (get_or_open X n (table_path dir n)) e tc (the_reader G dir n)"
  unfolding opens_def
proof (intro allI impI)
  fix r e' tc' assume run: "get_or_open X n (table_path dir n) (e, tc) = (r, (e', tc'))"
  from assms(1) obtain c idx es blks where t: "G n = Some (c, idx, es)" "content_of e (table_path dir n) = Some c"
    "table_with X c es idx blks" by (auto simp: table_ok_def)
  have the: "the_reader G dir n = reader_for es idx (table_path dir n)" by (simp add: the_reader_def t(1))
  show "env_files e' = env_files e \<and> readers_ok G dir tc' \<and> (r = Inr (the_reader G dir n) \<or> r = Inl (Io OtherIo) \<and> env_faults e \<noteq> []) \<and>
      (env_faults e = [] \<longrightarrow> e' = e)"
  proof (cases "map_of (tc_tables tc) n")
    case (Some rd)
    with assms(2) have "rd = the_reader G dir n" by (intro reader_ok_the) (simp add: readers_ok_def)
    with Some run assms(2) show ?thesis by (simp add: get_or_open_def)
  next
    case None
    obtain r1 e1 where o: "reader_open_with_env X (table_path dir n) e = (r1, e1)" by fastforce
    from reader_open_outcome [OF t(3,2) o] have o': "env_files e1 = env_files e" "env_faults e = [] \<longrightarrow> e1 = e"
      "r1 = Inl (Io OtherIo) \<and> env_faults e \<noteq> [] \<or> r1 = Inr (the_reader G dir n)" by (simp_all add: the)
    have "readers_ok G dir (tc\<lparr>tc_tables := hash_insert n (the_reader G dir n) (evict_if_full (tc_pick tc) (tc_max_entries tc) (tc_tables tc))\<rparr>)"
      using assms(2) reader_ok_the_reader [OF assms(1)]
      by (auto simp: readers_ok_def map_of_hash_insert split: if_splits dest: map_of_evict)
    with o' None run o assms(2) show ?thesis by (auto simp: get_or_open_def)
  qed
qed

definition tables_ok :: "'m externs \<Rightarrow> ghost \<Rightarrow> env \<Rightarrow> path \<Rightarrow> file_meta list \<Rightarrow> bool" where
  "tables_ok X G e dir fs \<longleftrightarrow> (\<forall>f\<in>set fs. table_ok X G e dir (fm_number f))"

lemma tables_ok_files: "env_files e' = env_files e \<Longrightarrow> tables_ok X G e' dir fs = tables_ok X G e dir fs"
  by (simp add: tables_ok_def table_ok_def content_of_def)

lemma opens_tables:
  assumes "tables_ok X G e dir fs" and "readers_ok G dir tc"
  shows "opens G dir (open_tables X dir fs) e tc (map (the_ref G dir) fs)"
  using assms
proof (induction fs arbitrary: e tc)
  case Nil
  then show ?case by (simp add: opens_lift)
next
  case (Cons f fs)
  have step: "opens G dir (op_then (open_tables X dir fs) (\<lambda>refs. op_lift (Inr ((f, the_reader G dir (fm_number f)) # refs)))) e' tc'
      (map (the_ref G dir) (f # fs))" if e: "env_files e' = env_files e" and tc': "readers_ok G dir tc'" for e' tc'
  proof (rule opens_then)
    show "opens G dir (open_tables X dir fs) e' tc' (map (the_ref G dir) fs)"
      using Cons.prems(1) tables_ok_files [OF e, of X G dir fs] tc' by (intro Cons.IH) (simp_all add: tables_ok_def)
  qed (simp add: the_ref_def opens_lift)
  have "table_ok X G e dir (fm_number f)" using Cons.prems(1) by (simp add: tables_ok_def)
  from opens_get_or_open [OF this Cons.prems(2)] show ?case
    unfolding open_tables.simps table_path_def [symmetric] by (rule opens_then) (rule step)
qed

lemma opens_levels:
  assumes "\<forall>fs\<in>set lvs. tables_ok X G e dir fs" and "readers_ok G dir tc"
  shows "opens G dir (open_levels X dir lvs) e tc (map (map (the_ref G dir)) lvs)"
  using assms
proof (induction lvs arbitrary: e tc)
  case Nil
  then show ?case by (simp add: opens_lift)
next
  case (Cons fs lvs)
  have step: "opens G dir (op_then (open_levels X dir lvs) (\<lambda>rest. op_lift (Inr (map (the_ref G dir) fs # rest)))) e' tc'
      (map (map (the_ref G dir)) (fs # lvs))" if e: "env_files e' = env_files e" and tc': "readers_ok G dir tc'" for e' tc'
  proof (rule opens_then)
    show "opens G dir (open_levels X dir lvs) e' tc' (map (map (the_ref G dir)) lvs)"
      using Cons.prems(1) tc' by (intro Cons.IH) (simp_all add: tables_ok_files [OF e])
  qed (simp add: opens_lift)
  have "tables_ok X G e dir fs" using Cons.prems(1) by simp
  from opens_tables [OF this Cons.prems(2)] show ?case
    unfolding open_levels.simps by (rule opens_then) (rule step)
qed

lemma opens_version_tables:
  assumes "tables_ok X G e dir (l0_files v)" and "\<forall>fs\<in>set (levels v). tables_ok X G e dir fs" and "readers_ok G dir tc"
  shows "opens G dir (open_version_tables X dir v) e tc (map (the_ref G dir) (l0_files v), map (map (the_ref G dir)) (levels v))"
proof -
  have step: "opens G dir (op_then (open_levels X dir (levels v)) (\<lambda>lvs. op_lift (Inr (map (the_ref G dir) (l0_files v), lvs)))) e' tc'
      (map (the_ref G dir) (l0_files v), map (map (the_ref G dir)) (levels v))"
    if e: "env_files e' = env_files e" and tc': "readers_ok G dir tc'" for e' tc'
  proof (rule opens_then)
    show "opens G dir (open_levels X dir (levels v)) e' tc' (map (map (the_ref G dir)) (levels v))"
      using assms(2) tc' by (intro opens_levels) (simp_all add: tables_ok_files [OF e])
  qed (simp add: opens_lift)
  from opens_tables [OF assms(1,3)] show ?thesis unfolding open_version_tables_def by (rule opens_then) (rule step)
qed

text \<open>The same as reads of the database.\<close>

lemma yields_opens:
  assumes "caches_ok X G d" and "opens G (db_path d) m (db_env d) (db_table_cache d) v"
  shows "yields X G (on_tables m) d v"
  using assms by (intro yields_on_tables) (auto simp: readers_ok_def dest!: opensD)

end
