(* ===== verification/Recovery.thy ===== *)
theory Recovery
  imports Database_Api Table_Opening
begin

section \<open>Opening a database again\<close>

text \<open>
  \<^verbatim>\<open>DB::open\<close> on the files of a database: the manifest gives the version, every table of
  it is opened, and the log gives the memtable.
\<close>

subsection \<open>A database whose files are up to date\<close>

text \<open>The tables in memory are those of the version, and the version is the one in the manifest.\<close>

definition tables_match :: "'m db \<Rightarrow> bool" where
  "tables_match d \<longleftrightarrow> map fst (db_l0_tables d) = l0_files (vs_current (db_versions d)) \<and>
     map (map fst) (db_level_tables d) = levels (vs_current (db_versions d))"

definition stored :: "'m externs \<Rightarrow> ghost \<Rightarrow> version_edit list \<Rightarrow> (u64 \<times> write_batch) list \<Rightarrow> 'm db \<Rightarrow> bool" where
  "stored X G eds bs d \<longleftrightarrow> readable X G d \<and> db_immutables d = [] \<and> tables_match d \<and> replays X d bs \<and>
     manifest_holds (crc32c X) (db_path d) (max_levels (db_options d)) eds (db_versions d) (db_env d) \<and>
     db_wal d = path_join (db_path d) (wal_file_name (vs_log_number (db_versions d))) \<and>
     db_path d \<in> set (env_dirs (db_env d))"

lemma readable_tables:
  assumes "refs_ok X G d" and "tables_match d"
  shows "tables_ok X G (db_env d) (db_path d) (l0_files (vs_current (db_versions d)))"
    and "\<forall>fs\<in>set (levels (vs_current (db_versions d))). tables_ok X G (db_env d) (db_path d) fs"
    and "map (the_ref G (db_path d)) (l0_files (vs_current (db_versions d))) = db_l0_tables d"
    and "map (map (the_ref G (db_path d))) (levels (vs_current (db_versions d))) = db_level_tables d"
proof -
  have refs: "ref_ok X G (db_env d) (db_path d) ref" if "ref \<in> set (all_refs d)" for ref
    using assms(1) that by (simp add: refs_ok_def)
  have l0: "l0_files (vs_current (db_versions d)) = map fst (db_l0_tables d)"
    and lv: "levels (vs_current (db_versions d)) = map (map fst) (db_level_tables d)"
    using assms(2) by (simp_all add: tables_match_def)
  show "tables_ok X G (db_env d) (db_path d) (l0_files (vs_current (db_versions d)))"
    using refs by (auto simp: l0 tables_ok_def ref_ok_def all_refs_def)
  show "\<forall>fs\<in>set (levels (vs_current (db_versions d))). tables_ok X G (db_env d) (db_path d) fs"
    using refs by (fastforce simp: lv tables_ok_def ref_ok_def all_refs_def)
  show "map (the_ref G (db_path d)) (l0_files (vs_current (db_versions d))) = db_l0_tables d"
    unfolding l0 map_map using refs by (intro map_idI) (fastforce simp: all_refs_def dest: ref_ok_the)
  show "map (map (the_ref G (db_path d))) (levels (vs_current (db_versions d))) = db_level_tables d"
    unfolding lv map_map o_def using refs by (intro map_idI) (fastforce simp: all_refs_def dest: ref_ok_the intro!: map_idI)
qed

lemma open_version_tables_match:
  assumes "refs_ok X G d" and "tables_match d" and "env_faults (db_env d) = []" and "readers_ok G (db_path d) tc"
  shows "\<exists>tc'. open_version_tables X (db_path d) (vs_current (db_versions d)) (db_env d, tc) =
    (Inr (db_l0_tables d, db_level_tables d), (db_env d, tc')) \<and> readers_ok G (db_path d) tc'"
proof -
  note t = readable_tables [OF assms(1,2)]
  obtain r e' tc' where run: "open_version_tables X (db_path d) (vs_current (db_versions d)) (db_env d, tc) = (r, (e', tc'))"
    by (metis surj_pair)
  from opensD [OF opens_version_tables [OF t(1,2) assms(4)] run] assms(3) run show ?thesis by (simp add: t(3,4))
qed

lemma replays_content: "replays X d bs \<Longrightarrow> \<exists>c. content_of (db_env d) (db_wal d) = Some c"
  by (simp add: replays_def)

text \<open>
  Opening the files of a database in whose memory no memtable is frozen; the caches of the
  old database do not matter.
\<close>

lemma reopen_outcome:
  assumes rd: "mems_ok X d" "refs_ok X G d" "layers_ok X G d" and imm: "db_immutables d = []" and tm: "tables_match d"
    and rep: "replays X d bs" and man: "manifest_holds (crc32c X) (db_path d) (max_levels (db_options d)) eds (db_versions d) (db_env d)"
    and wal: "db_wal d = path_join (db_path d) (wal_file_name (vs_log_number (db_versions d)))"
    and dir: "db_path d \<in> set (env_dirs (db_env d))" and quiet: "env_faults (db_env d) = []" and fresh: "\<not> error_if_exists (db_options d)"
  obtains vs0 d' where "apply_edits eds (recovered (max_levels (db_options d)) (vs_manifest_number (db_versions d))) = Inr vs0"
    and "same_state vs0 (db_versions d)"
    and "db_versions d' = vs0\<lparr>vs_manifest_writer := vs_manifest_writer (db_versions d)\<rparr>"
    and "db_open X pick_block pick_table (db_path d) (db_options d) (db_env d) = (Inr d', db_env d)"
    and "readable X G d'" and "db_entries X G d' = db_entries X G d" and "db_last_sequence d' = db_last_sequence d"
    and "db_wal d' = db_wal d" and "\<not> db_closed d'" and "tables_match d'" and "replays X d' bs" and "db_immutables d' = []"
    and "db_path d' = db_path d" and "db_options d' = db_options d" and "db_watermark d' = watermark_new" and "db_env d' = db_env d"
proof -
  let ?p = "db_path d" and ?o = "db_options d" and ?e = "db_env d"
  let ?w = "Some (path_join ?p (manifest_file_name (vs_manifest_number (db_versions d))))"
  from recover_exact [OF man quiet] obtain vs0 where vs0: "apply_edits eds (recovered (max_levels ?o) (vs_manifest_number (db_versions d))) = Inr vs0"
    "same_state vs0 (db_versions d)" "version_set_recover (crc32c X) ?p ?o ?e = (Inr (vs0\<lparr>vs_manifest_writer := ?w\<rparr>), ?e)" by blast
  define vs where "vs = vs0\<lparr>vs_manifest_writer := ?w\<rparr>"
  have w: "vs_manifest_writer (db_versions d) = ?w" using man by (simp add: manifest_holds_def)
  have vs: "version_set_recover (crc32c X) ?p ?o ?e = (Inr vs, ?e)" "same_state vs (db_versions d)"
    using vs0(2,3) by (simp_all add: vs_def same_state_def)
  have cur: "env_exists (path_join ?p ''CURRENT'') ?e" using man by (auto simp: manifest_holds_def current_names_def env_exists_def)
  have mkdir: "create_dir_all ?p ?e = (Inr (), ?e)"
    using dir quiet by (simp add: create_dir_all_def faultable_def take_fault_def)
  have "readers_ok G ?p (table_cache_new_with_env pick_table 512)" by (simp add: readers_ok_def table_cache_new_with_env_def)
  from open_version_tables_match [OF rd(2) tm quiet this] vs(2) obtain tc where
    tabs: "open_version_tables X ?p (vs_current vs) (?e, table_cache_new_with_env pick_table 512) =
      (Inr (db_l0_tables d, db_level_tables d), (?e, tc))" "readers_ok G ?p tc" by (auto simp: same_state_def)
  from replays_content [OF rep] obtain f where f: "env_files ?e (db_wal d) = Some f" by (auto simp: content_of_def)
  have recov: "recover_wal X (db_wal d) (mem_new X (opt_memtable_kind ?o), vs_last_sequence vs) ?e =
      (Inr (db_mutable d, db_last_sequence d), ?e)" using replays_recover [OF rep quiet] vs(2) by (simp add: same_state_def)
  have writer: "wal_writer_create (db_wal d) ?e = (Inr (db_wal d), ?e)"
    using f quiet by (simp add: wal_writer_create_def open_writable_def faultable_def take_fault_def options_append_def)
  let ?d = "\<lparr>db_path = ?p, db_options = ?o, db_mutable = db_mutable d, db_immutables = [], db_l0_tables = db_l0_tables d,
    db_level_tables = db_level_tables d, db_last_sequence = db_last_sequence d, db_closed = False, db_versions = vs,
    db_block_cache = block_cache_new pick_block (block_cache_capacity ?o), db_table_cache = tc, db_watermark = watermark_new,
    db_metrics = metrics_new, db_wal = db_wal d, db_env = ?e\<rparr>"
  have "vs_log_number vs = vs_log_number (db_versions d)" using vs(2) by (simp add: same_state_def)
  then have path: "path_join ?p (wal_file_name (vs_log_number vs)) = db_wal d" using wal by simp
  have exists: "env_exists ?p ?e" "env_exists (db_wal d) ?e" using dir f by (simp_all add: env_exists_def)
  have open': "db_open X pick_block pick_table ?p ?o ?e = (Inr ?d, ?e)"
    using fresh mkdir vs(1) cur tabs(1) recov writer exists path
    by (simp add: db_open_def op_then_Inr Let_def)
  have l: "layers X G ?d = layers X G d" by (simp add: layers_def mem_layers_def l0_layers_def level_layers_def imm)
  then have es: "db_entries X G ?d = db_entries X G d" by (simp add: db_entries_def)
  have "caches_ok X G ?d"
    using tabs(2) by (simp add: caches_ok_def readers_ok_def cache_coherent_def block_cache_new_def)
  then have r: "readable X G ?d"
    using rd by (simp add: readable_def mems_ok_def refs_ok_def all_refs_def layers_ok_def l es imm)
  have t: "tables_match ?d" "replays X ?d bs" using tm rep vs(2) by (simp_all add: tables_match_def replays_def same_state_def)
  have v: "db_versions ?d = vs0\<lparr>vs_manifest_writer := vs_manifest_writer (db_versions d)\<rparr>" by (simp add: vs_def w)
  show ?thesis by (rule that [OF vs0(1,2) v open' r es _ _ _ t]) simp_all
qed

subsection \<open>Properties\<close>

text \<open>
  C16: opening recovers the database.  When the manifest holds the version, the log the
  memtable, and no memtable is frozen, opening the directory again succeeds, gives the same
  tables, memtable and last sequence, and every read of the new database is a read of the old
  one: it has the same entries, over consistent caches.
\<close>

theorem reopen_recovers:
  assumes "stored X G eds bs d" and "env_faults (db_env d) = []" and "\<not> error_if_exists (db_options d)"
  shows "\<exists>d'. db_open X pick_block pick_table (db_path d) (db_options d) (db_env d) = (Inr d', db_env d) \<and>
    readable X G d' \<and> db_entries X G d' = db_entries X G d \<and> db_last_sequence d' = db_last_sequence d \<and>
    db_wal d' = db_wal d \<and> \<not> db_closed d' \<and> tables_match d' \<and> replays X d' bs"
proof -
  from assms(1) have s: "mems_ok X d" "refs_ok X G d" "layers_ok X G d" "db_immutables d = []" "tables_match d" "replays X d bs"
    "manifest_holds (crc32c X) (db_path d) (max_levels (db_options d)) eds (db_versions d) (db_env d)"
    "db_wal d = path_join (db_path d) (wal_file_name (vs_log_number (db_versions d)))" "db_path d \<in> set (env_dirs (db_env d))"
    by (simp_all add: stored_def readable_def)
  show ?thesis by (rule reopen_outcome [OF s assms(2,3), of pick_block pick_table]) blast
qed

text \<open>A database after one write, with its log.\<close>

definition demo_log :: "(u64 \<times> write_batch) list" where
  "demo_log = [(1, \<lparr>records = [BatchPut [1] [7]]\<rparr>)]"

definition demo_stored :: "entry list db" where
  "demo_stored = demo_full\<lparr>db_wal := path_join ''d'' (wal_file_name 1),
     db_env := set_file (path_join ''d'' (wal_file_name 1))
       (Some \<lparr>file_content = log_image (crc32c demo_externs) demo_log, file_synced = 0\<rparr>) demo_manifest_env\<rparr>"

lemma demo_stored_ok: "stored demo_externs Map.empty [] demo_log demo_stored"
proof -
  let ?w = "path_join ''d'' (wal_file_name 1)"
  have rd: "readable demo_externs Map.empty demo_stored"
    using demo_full_ok(1)
    by (simp add: db_ok_def readable_def mems_ok_def refs_ok_def all_refs_def caches_ok_def layers_ok_def db_entries_def
        layers_def mem_layers_def l0_layers_def level_layers_def demo_stored_def demo_full_sel)
  have tm: "tables_match demo_stored"
    by (simp add: tables_match_def demo_stored_def demo_full_sel demo_version_set_def recovered_def version_new_def
        replicate_Suc [of 6, symmetric] numeral_eq_Suc)
  have rep: "replays demo_externs demo_stored demo_log"
    by (simp add: replays_def demo_stored_def demo_full_sel demo_full_def demo_version_set_def recovered_def replay_def demo_log_def
        demo_options_def loggable_def batch_encodable_def batch_payload_def encode_with_sequence_eq put_var_u32_def
        put_var_u64.simps content_of_def)
  have names: "wal_file_name 1 \<noteq> ''CURRENT''" "wal_file_name 1 \<noteq> manifest_file_name 1" by code_simp+
  have man: "manifest_holds (crc32c demo_externs) ''d'' 7 [] demo_version_set (db_env demo_stored)"
    using demo_manifest_holds [of "crc32c demo_externs"] names
    by (auto simp: manifest_holds_def current_names_def demo_stored_def demo_version_set_def recovered_def)
  show ?thesis
    unfolding stored_def
  proof (intro conjI rd tm rep)
    show "db_immutables demo_stored = []" by (simp add: demo_stored_def demo_full_sel)
    show "manifest_holds (crc32c demo_externs) (db_path demo_stored) (max_levels (db_options demo_stored)) []
        (db_versions demo_stored) (db_env demo_stored)"
      using man by (simp add: demo_stored_def demo_full_sel demo_options_def)
    show "db_wal demo_stored = path_join (db_path demo_stored) (wal_file_name (vs_log_number (db_versions demo_stored)))"
      by (simp add: demo_stored_def demo_full_sel demo_version_set_def recovered_def)
    show "db_path demo_stored \<in> set (env_dirs (db_env demo_stored))"
      by (simp add: demo_stored_def demo_full_sel demo_manifest_env_def set_file_def)
  qed
qed

theorem reopen_recovers_witness:
  "\<exists>d'. db_open demo_externs (\<lambda>_. 0) (\<lambda>_. 0) ''d'' demo_options (db_env demo_stored) = (Inr d', db_env demo_stored) \<and>
     db_entries demo_externs Map.empty d' = [(InternalKey [1] 1 TypePut, Put [7])]"
proof -
  have "env_faults (db_env demo_stored) = []" "\<not> error_if_exists (db_options demo_stored)"
    "db_path demo_stored = ''d''" "db_options demo_stored = demo_options"
    "db_entries demo_externs Map.empty demo_stored = [(InternalKey [1] 1 TypePut, Put [7])]"
    by (simp_all add: demo_stored_def demo_full_sel demo_manifest_env_def set_file_def demo_options_def db_entries_def layers_def
        mem_layers_def l0_layers_def level_layers_def)
  with reopen_recovers [OF demo_stored_ok, of "\<lambda>_. 0" "\<lambda>_. 0"] show ?thesis by auto
qed

end
