(* ===== verification/Compacted_Versions.thy ===== *)
theory Compacted_Versions
  imports Database_Writes
begin

section \<open>Versions before and after a compaction\<close>

text \<open>
  What a compaction does to the files of a version and to the layers of entries behind them,
  apart from how the files are written: the inputs leave their levels and the outputs join the
  level below.  The order of the layers stays from new to old, and no read at or above the
  watermark changes.
\<close>

subsection \<open>The layers of a version\<close>

definition file_ents :: "ghost \<Rightarrow> file_meta \<Rightarrow> entry list" where
  "file_ents G f = ents_of G (fm_number f)"

definition level_ents :: "ghost \<Rightarrow> file_meta list \<Rightarrow> entry list" where
  "level_ents G fs = concat (map (file_ents G) fs)"

definition version_layers :: "ghost \<Rightarrow> version \<Rightarrow> entry list list" where
  "version_layers G v = map (file_ents G) (l0_files v) @ map (level_ents G) (drop 1 (levels v))"

definition version_sound :: "ghost \<Rightarrow> version \<Rightarrow> bool" where
  "version_sound G v \<longleftrightarrow> (\<forall>l<length (levels v). \<forall>f\<in>set (files_at v l). meta_of (file_ents G f) f \<and> sorted_entries (file_ents G f)) \<and>
     (\<forall>l<length (levels v). 0 < l \<longrightarrow> level_disjoint (levels v ! l))"

text \<open>The layers in front of the inputs of a task, those of its input level, and those behind its output level.\<close>

definition above_layers :: "ghost \<Rightarrow> version \<Rightarrow> compaction_task \<Rightarrow> entry list list" where
  "above_layers G v t = (if ct_input_level t = 0 then []
     else map (file_ents G) (l0_files v) @ map (level_ents G) (take (ct_input_level t - 1) (drop 1 (levels v))))"

definition input_layers :: "ghost \<Rightarrow> version \<Rightarrow> compaction_task \<Rightarrow> entry list list" where
  "input_layers G v t = (if ct_input_level t = 0 then map (file_ents G) (l0_files v)
     else [level_ents G (levels v ! ct_input_level t)])"

definition below_layers :: "ghost \<Rightarrow> version \<Rightarrow> compaction_task \<Rightarrow> entry list list" where
  "below_layers G v t = map (level_ents G) (drop (ct_output_level t + 1) (levels v))"

lemma drop_two: "l + 1 < length xs \<Longrightarrow> drop l xs = xs ! l # xs ! (l + 1) # drop (l + 2) xs"
  by (metis Cons_nth_drop_Suc Suc_eq_plus1 Suc_lessD add_2_eq_Suc')

lemma version_layers_split:
  assumes "ct_output_level t = ct_input_level t + 1" and "ct_output_level t < length (levels v)"
  shows "version_layers G v = above_layers G v t @ input_layers G v t @ level_ents G (levels v ! ct_output_level t) # below_layers G v t"
proof (cases "ct_input_level t")
  case 0
  with assms have "drop 1 (levels v) = levels v ! 1 # drop 2 (levels v)" by (metis Cons_nth_drop_Suc Suc_1 One_nat_def add_0)
  with 0 assms(1) show ?thesis
    by (simp add: version_layers_def above_layers_def input_layers_def below_layers_def numeral_2_eq_2)
next
  case (Suc k)
  have "drop 1 (levels v) = take k (drop 1 (levels v)) @ drop (k + 1) (levels v)"
    by (metis append_take_drop_id drop_drop add.commute)
  also have "drop (k + 1) (levels v) = levels v ! (k + 1) # levels v ! (k + 2) # drop (k + 3) (levels v)"
    using drop_two [of "k + 1" "levels v"] assms Suc by (simp add: numeral_3_eq_3)
  finally have "map (level_ents G) (drop 1 (levels v)) = map (level_ents G) (take k (drop 1 (levels v))) @
      level_ents G (levels v ! (k + 1)) # level_ents G (levels v ! (k + 2)) # map (level_ents G) (drop (k + 3) (levels v))"
    by (metis list.simps(9) map_append)
  with Suc assms(1) show ?thesis
    by (simp add: version_layers_def above_layers_def input_layers_def below_layers_def numeral_3_eq_3)
qed

subsection \<open>Moving files down\<close>

text \<open>The inputs of a task have given way to the files \<open>outs\<close> of its output level.\<close>

definition moved :: "version \<Rightarrow> compaction_task \<Rightarrow> file_meta list \<Rightarrow> version \<Rightarrow> bool" where
  "moved v t outs v' \<longleftrightarrow> length (levels v') = length (levels v) \<and>
     (\<forall>l<length (levels v). (l = 0 \<or> l \<noteq> ct_input_level t) \<longrightarrow> l \<noteq> ct_output_level t \<longrightarrow> levels v' ! l = levels v ! l) \<and>
     (0 < ct_input_level t \<longrightarrow> l0_files v' = l0_files v) \<and>
     files_at v' (ct_input_level t) = filter (\<lambda>f. f \<notin> set (ct_input_files t)) (files_at v (ct_input_level t)) \<and>
     set (levels v' ! ct_output_level t) = set (levels v ! ct_output_level t) - set (ct_overlap_files t) \<union> set outs \<and>
     sorted (map fm_smallest (levels v' ! ct_output_level t)) \<and> distinct (levels v' ! ct_output_level t)"

definition kept_at_output :: "version \<Rightarrow> compaction_task \<Rightarrow> file_meta list" where
  "kept_at_output v t = filter (\<lambda>f. f \<notin> set (ct_overlap_files t)) (levels v ! ct_output_level t)"

lemma set_level_ents: "set (level_ents G fs) = (\<Union>f\<in>set fs. set (file_ents G f))"
  by (simp add: level_ents_def)

text \<open>The entries of the database that are not among the inputs of the task.\<close>

definition rest_ents :: "ghost \<Rightarrow> version \<Rightarrow> version \<Rightarrow> compaction_task \<Rightarrow> entry list list \<Rightarrow> entry list" where
  "rest_ents G v v' t M = concat M @ concat (above_layers G v t) @ concat (input_layers G v' t) @
     level_ents G (kept_at_output v t) @ concat (below_layers G v t)"

definition input_ents :: "ghost \<Rightarrow> compaction_task \<Rightarrow> entry list" where
  "input_ents G t = level_ents G (all_input_files t)"

lemma set_input_ents: "set (input_ents G t) = set (level_ents G (ct_input_files t)) \<union> set (level_ents G (ct_overlap_files t))"
  by (simp add: input_ents_def all_input_files_def level_ents_def)

lemma newest_first_move:
  assumes "newest_first (A @ B @ C # D)" and "newest_first B'" and "set (concat B') \<subseteq> set (concat B)"
    and "set C' \<subseteq> set (concat B) \<union> set C" and "older_than C' (concat B')"
  shows "newest_first (A @ B' @ C' # D)"
proof -
  have sub: "older_than ys xs" if "older_than ys' xs'" "set ys \<subseteq> set ys'" "set xs \<subseteq> set xs'" for xs ys xs' ys' :: "entry list"
    using that unfolding older_than_def by blast
  from assms(1) have nf: "newest_first A" "newest_first D" "older_than (concat B @ C @ concat D) (concat A)"
    "older_than (concat D) (concat B @ C)"
    by (auto simp: newest_first_append)
  have "older_than (concat B' @ C' @ concat D) (concat A)" by (rule sub [OF nf(3)]) (use assms(3,4) in auto)
  moreover have "older_than (concat D) (concat B' @ C')" by (rule sub [OF nf(4)]) (use assms(3,4) in auto)
  ultimately show ?thesis using nf assms(2,5) by (simp add: newest_first_append)
qed

lemma file_keys:
  assumes "version_sound G v" and "l < length (levels v)" and "f \<in> set (files_at v l)" and "e \<in> set (file_ents G f)"
  shows "user_key (fm_smallest f) \<le> user_key (fst e)" and "user_key (fst e) \<le> user_key (fm_largest f)"
proof -
  from assms(1-3) have m: "meta_of (file_ents G f) f" "sorted_entries (file_ents G f)" by (auto simp: version_sound_def)
  from entries_between [OF m(2) assms(4)] m(1) show "user_key (fm_smallest f) \<le> user_key (fst e)"
    "user_key (fst e) \<le> user_key (fm_largest f)" by (simp_all add: meta_of_def)
qed

subsection \<open>What the task guarantees\<close>

lemma task_okD:
  assumes "task_ok v t"
  shows "ct_output_level t = ct_input_level t + 1" "ct_output_level t < length (levels v)" "ct_input_level t < length (levels v)"
    "f \<in> set (ct_input_files t) \<Longrightarrow> f \<in> set (files_at v (ct_input_level t))"
    "f \<in> set (ct_overlap_files t) \<Longrightarrow> f \<in> set (files_at v (ct_output_level t))"
    "files_at v (ct_output_level t) = levels v ! ct_output_level t"
  using assms by (auto simp: task_ok_def files_at_def)

lemma input_ents_in_hull:
  assumes "task_ok v t" and "version_sound G v" and "e \<in> set (input_ents G t)"
  shows "ct_smallest_user_key t \<le> user_key (fst e)" and "user_key (fst e) \<le> ct_largest_user_key t"
proof -
  from assms(3) obtain f where f: "f \<in> set (all_input_files t)" "e \<in> set (file_ents G f)"
    by (auto simp: input_ents_def set_level_ents)
  obtain l where "l < length (levels v)" "f \<in> set (files_at v l)"
    using f(1) task_okD(2-5) [OF assms(1)] by (metis all_input_files_def UnE set_append)
  from file_keys [OF assms(2) this f(2)] f(1) assms(1)
  show "ct_smallest_user_key t \<le> user_key (fst e)" "user_key (fst e) \<le> ct_largest_user_key t"
    by (force simp: task_ok_def)+
qed

lemma outside_hull:
  assumes "version_sound G v" and "l < length (levels v)" and "f \<in> set (files_at v l)" and "e \<in> set (file_ents G f)"
    and "\<not> user_key_overlaps f (ct_smallest_user_key t) (ct_largest_user_key t)"
    and "task_ok v t" and "e' \<in> set (input_ents G t)"
  shows "user_key (fst e') \<noteq> user_key (fst e)"
  using file_keys [OF assms(1-4)] input_ents_in_hull [OF assms(6,1,7)] assms(5)
  by (auto simp: user_key_overlaps_def)

text \<open>Two files of one level below 0 have no key in common.\<close>

lemma level_files_apart:
  assumes "version_sound G v" and "l < length (levels v)" and "0 < l" and "f \<in> set (levels v ! l)" and "g \<in> set (levels v ! l)"
    and "f \<noteq> g" and "e \<in> set (file_ents G f)" and "e' \<in> set (file_ents G g)"
  shows "user_key (fst e) \<noteq> user_key (fst e')"
proof -
  have "level_disjoint (levels v ! l)" using assms(1-3) by (simp add: version_sound_def)
  from level_disjoint_pair [OF this assms(4-6)]
    file_keys [OF assms(1,2) _ assms(7)] file_keys [OF assms(1,2) _ assms(8)] assms(3-5)
  show ?thesis by (auto simp: user_key_overlaps_def files_at_def)
qed

text \<open>The versions behind the inputs are gone when tombstones may be dropped.\<close>

definition nothing_below :: "version \<Rightarrow> compaction_task \<Rightarrow> bool" where
  "nothing_below v t \<longleftrightarrow> (\<forall>l. ct_output_level t < l \<longrightarrow> l < length (levels v) \<longrightarrow>
     (\<forall>f\<in>set (levels v ! l). \<not> user_key_overlaps f (ct_smallest_user_key t) (ct_largest_user_key t)))"

definition whole_l0 :: "version \<Rightarrow> compaction_task \<Rightarrow> bool" where
  "whole_l0 v t \<longleftrightarrow> (ct_input_level t = 0 \<longrightarrow> set (l0_files v) \<subseteq> set (ct_input_files t))"

text \<open>A ghost that knows more tables agrees on the files of the version.\<close>

definition agrees :: "ghost \<Rightarrow> ghost \<Rightarrow> version \<Rightarrow> bool" where
  "agrees G G' v \<longleftrightarrow> (\<forall>l<length (levels v). \<forall>f\<in>set (files_at v l). file_ents G' f = file_ents G f)"

lemma level_ents_cong: "\<forall>f\<in>set fs. file_ents G' f = file_ents G f \<Longrightarrow> level_ents G' fs = level_ents G fs"
  by (induction fs) (simp_all add: level_ents_def)

lemma agrees_level:
  assumes "agrees G G' v" and "0 < l" and "l < length (levels v)" and "set fs \<subseteq> set (levels v ! l)"
  shows "level_ents G' fs = level_ents G fs"
  using assms by (intro level_ents_cong) (auto simp: agrees_def files_at_def)

lemma moved_above:
  assumes "moved v t outs v'" and "task_ok v t" and "agrees G G' v"
  shows "above_layers G' v' t = above_layers G v t" and "below_layers G' v' t = below_layers G v t"
proof -
  note t = task_okD(1-3) [OF assms(2)]
  have lvl: "level_ents G' (levels v' ! l) = level_ents G (levels v ! l)"
    if "0 < l" "l < length (levels v)" "l \<noteq> ct_input_level t" "l \<noteq> ct_output_level t" for l
    using assms(1) that agrees_level [OF assms(3) that(1,2) order_refl] by (simp add: moved_def)
  have len: "length (levels v') = length (levels v)" using assms(1) by (simp add: moved_def)
  show "below_layers G' v' t = below_layers G v t"
    unfolding below_layers_def by (rule nth_equalityI) (use len lvl t in auto)
  have l0: "map (file_ents G') (l0_files v') = map (file_ents G) (l0_files v)" if "0 < ct_input_level t"
  proof -
    have "0 < length (levels v)" using t by linarith
    then have "\<forall>f\<in>set (l0_files v). file_ents G' f = file_ents G f" using assms(3) unfolding agrees_def files_at_def by auto
    with that assms(1) show ?thesis by (simp add: moved_def)
  qed
  have "map (level_ents G') (take (ct_input_level t - 1) (drop 1 (levels v'))) =
      map (level_ents G) (take (ct_input_level t - 1) (drop 1 (levels v)))"
    by (rule nth_equalityI) (use len lvl t in auto)
  with l0 show "above_layers G' v' t = above_layers G v t" by (simp add: above_layers_def)
qed

lemma moved_input:
  assumes "moved v t outs v'" and "task_ok v t" and "agrees G G' v"
  shows "set (concat (input_layers G' v' t)) = (\<Union>f\<in>set (files_at v (ct_input_level t)) - set (ct_input_files t). set (file_ents G f))"
    and "input_layers G' v' t = input_layers G v' t"
    and "set (concat (input_layers G v t)) = (\<Union>f\<in>set (files_at v (ct_input_level t)). set (file_ents G f))"
proof -
  have at: "files_at v' (ct_input_level t) = filter (\<lambda>f. f \<notin> set (ct_input_files t)) (files_at v (ct_input_level t))"
    using assms(1) by (simp add: moved_def)
  have same: "file_ents G' f = file_ents G f" if "f \<in> set (files_at v (ct_input_level t))" for f
    using assms(3) task_okD(3) [OF assms(2)] that by (auto simp: agrees_def)
  have lay: "set (concat (input_layers H w t)) = (\<Union>f\<in>set (files_at w (ct_input_level t)). set (file_ents H f))" for H w
    by (simp add: input_layers_def files_at_def set_level_ents)
  from lay show "set (concat (input_layers G v t)) = (\<Union>f\<in>set (files_at v (ct_input_level t)). set (file_ents G f))" .
  show "set (concat (input_layers G' v' t)) = (\<Union>f\<in>set (files_at v (ct_input_level t)) - set (ct_input_files t). set (file_ents G f))"
    unfolding lay at using same by auto
  have "\<forall>f\<in>set (files_at v' (ct_input_level t)). file_ents G' f = file_ents G f" unfolding at using same by simp
  then show "input_layers G' v' t = input_layers G v' t"
    by (auto simp: input_layers_def files_at_def intro: level_ents_cong split: if_splits)
qed

lemma moved_output:
  assumes "moved v t outs v'" and "task_ok v t" and "agrees G G' v"
  shows "set (level_ents G' (levels v' ! ct_output_level t)) = set (level_ents G' outs) \<union> set (level_ents G (kept_at_output v t))"
    and "set (level_ents G (levels v ! ct_output_level t)) =
      set (level_ents G (ct_overlap_files t)) \<union> set (level_ents G (kept_at_output v t))"
proof -
  have pos: "0 < ct_output_level t" "ct_output_level t < length (levels v)" using task_okD(1,2) [OF assms(2)] by simp_all
  have "level_ents G' (kept_at_output v t) = level_ents G (kept_at_output v t)"
    by (rule agrees_level [OF assms(3) pos]) (auto simp: kept_at_output_def)
  then have "set (level_ents G (kept_at_output v t)) = (\<Union>f\<in>set (kept_at_output v t). set (file_ents G' f))"
    by (metis set_level_ents)
  moreover have "set (levels v' ! ct_output_level t) = set (kept_at_output v t) \<union> set outs"
    using assms(1) by (auto simp: moved_def kept_at_output_def)
  ultimately show "set (level_ents G' (levels v' ! ct_output_level t)) = set (level_ents G' outs) \<union> set (level_ents G (kept_at_output v t))"
    by (auto simp: set_level_ents)
  show "set (level_ents G (levels v ! ct_output_level t)) =
      set (level_ents G (ct_overlap_files t)) \<union> set (level_ents G (kept_at_output v t))"
    using task_okD(5,6) [OF assms(2)] unfolding set_level_ents kept_at_output_def by auto
qed

lemma moved_sets:
  assumes "moved v t outs v'" and "task_ok v t" and "agrees G G' v"
  shows "set (concat (M @ version_layers G v)) = set (input_ents G t) \<union> set (rest_ents G v v' t M)"
    and "set (concat (M @ version_layers G' v')) = set (level_ents G' outs) \<union> set (rest_ents G v v' t M)"
proof -
  note t = task_okD [OF assms(2)]
  have ins: "set (level_ents G (ct_input_files t)) \<subseteq> set (concat (input_layers G v t))"
    unfolding moved_input(3) [OF assms] using t(4) by (auto simp: set_level_ents)
  have split: "set (concat (input_layers G v t)) = set (level_ents G (ct_input_files t)) \<union> set (concat (input_layers G v' t))"
    using ins moved_input(1) [OF assms] unfolding moved_input(3) [OF assms] moved_input(2) [OF assms]
    by (auto simp: set_level_ents)
  show "set (concat (M @ version_layers G v)) = set (input_ents G t) \<union> set (rest_ents G v v' t M)"
    unfolding version_layers_split [OF t(1,2)] rest_ents_def input_ents_def all_input_files_def
    using split moved_output(2) [OF assms] by (auto simp: level_ents_def)
  have t': "ct_output_level t < length (levels v')" using t(2) assms(1) by (simp add: moved_def)
  show "set (concat (M @ version_layers G' v')) = set (level_ents G' outs) \<union> set (rest_ents G v v' t M)"
    unfolding version_layers_split [OF t(1) t'] rest_ents_def moved_above [OF assms] moved_input(2) [OF assms]
    using moved_output(1) [OF assms] by auto
qed

lemma whole_l0_left: "whole_l0 v t \<Longrightarrow> ct_input_level t = 0 \<Longrightarrow> filter (\<lambda>f. f \<notin> set (ct_input_files t)) (files_at v 0) = []"
  by (auto simp: whole_l0_def files_at_def filter_empty_conv)

text \<open>What stays at the input level is newer than what has moved down.\<close>

lemma inputs_older_than_left:
  assumes "moved v t outs v'" and "task_ok v t" and "agrees G G' v" and "version_sound G v" and "whole_l0 v t"
    and "newest_first (M @ version_layers G v)"
  shows "older_than (input_ents G t @ level_ents G (kept_at_output v t)) (concat (input_layers G v' t))"
proof (cases "ct_input_level t = 0")
  case True
  with assms(1) whole_l0_left [OF assms(5)] have "l0_files v' = []" by (simp add: moved_def files_at_def)
  with True show ?thesis by (simp add: input_layers_def)
next
  case False
  note t = task_okD [OF assms(2)]
  have old: "older_than (level_ents G (levels v ! ct_output_level t)) (concat (input_layers G v t))"
    using assms(6) by (simp add: version_layers_split [OF t(1,2)] newest_first_append)
  have left: "set (concat (input_layers G v' t)) = (\<Union>f\<in>set (levels v ! ct_input_level t) - set (ct_input_files t). set (file_ents G f))"
    using moved_input(1,2) [OF assms(1-3)] False by (simp add: files_at_def)
  have moved: "user_key (fst e) \<noteq> user_key (fst e')"
    if "e \<in> set (level_ents G (ct_input_files t))" "e' \<in> set (concat (input_layers G v' t))" for e e'
  proof -
    from that obtain f g where fg: "f \<in> set (ct_input_files t)" "e \<in> set (file_ents G f)"
      "g \<in> set (levels v ! ct_input_level t)" "g \<notin> set (ct_input_files t)" "e' \<in> set (file_ents G g)"
      unfolding left set_level_ents by blast
    then have "f \<in> set (levels v ! ct_input_level t)" using t(4) False by (simp add: files_at_def)
    with fg level_files_apart [OF assms(4) t(3), of f g e e'] False show ?thesis by blast
  qed
  have "set (concat (input_layers G v' t)) \<subseteq> set (concat (input_layers G v t))"
    using moved_input [OF assms(1-3)] by auto
  moreover have "set (input_ents G t @ level_ents G (kept_at_output v t)) =
      set (level_ents G (ct_input_files t)) \<union> set (level_ents G (levels v ! ct_output_level t))"
    unfolding moved_output(2) [OF assms(1-3)] by (auto simp: input_ents_def all_input_files_def set_level_ents)
  ultimately show ?thesis using old moved unfolding older_than_def by blast
qed

lemma moved_layered:
  assumes "moved v t outs v'" and "task_ok v t" and "agrees G G' v" and "version_sound G v" and "whole_l0 v t"
    and "set (level_ents G' outs) \<subseteq> set (input_ents G t)" and "layered (M @ version_layers G v) s"
  shows "layered (M @ version_layers G' v') s"
proof -
  note t = task_okD [OF assms(2)] and parts = moved_above [OF assms(1-3)] moved_input(2) [OF assms(1-3)]
  have t': "ct_output_level t < length (levels v')" using t(2) assms(1) by (simp add: moved_def)
  have nf: "newest_first (M @ version_layers G v)" using assms(7) by (simp add: layered_def)
  let ?C = "level_ents G (levels v ! ct_output_level t)" and ?C' = "level_ents G' (levels v' ! ct_output_level t)"
  let ?B = "input_layers G v t" and ?B' = "input_layers G v' t"
  have sub: "set ?C' \<subseteq> set (input_ents G t @ level_ents G (kept_at_output v t))"
    using moved_output(1) [OF assms(1-3)] assms(6) by auto
  have "newest_first ((M @ above_layers G v t) @ ?B' @ ?C' # below_layers G v t)"
  proof (rule newest_first_move)
    show "newest_first ((M @ above_layers G v t) @ ?B @ ?C # below_layers G v t)"
      using nf by (simp add: version_layers_split [OF t(1,2)])
    show "newest_first ?B'"
    proof (cases "ct_input_level t = 0")
      case True
      with assms(1) whole_l0_left [OF assms(5)] show ?thesis by (simp add: moved_def files_at_def input_layers_def)
    qed (simp add: input_layers_def)
    show "set (concat ?B') \<subseteq> set (concat ?B)" using moved_input [OF assms(1-3)] by auto
    have "set (level_ents G (ct_input_files t)) \<subseteq> set (concat ?B)"
      unfolding moved_input(3) [OF assms(1-3)] using t(4) by (auto simp: set_level_ents)
    then show "set ?C' \<subseteq> set (concat ?B) \<union> set ?C"
      using sub unfolding moved_output(2) [OF assms(1-3)] set_append set_input_ents by blast
    show "older_than ?C' (concat ?B')"
      using inputs_older_than_left [OF assms(1-5) nf] sub unfolding older_than_def by blast
  qed
  then have "newest_first (M @ version_layers G' v')" by (simp add: version_layers_split [OF t(1) t'] parts)
  moreover have "set (concat (M @ version_layers G' v')) \<subseteq> set (concat (M @ version_layers G v))"
    unfolding moved_sets [OF assms(1-3)] using assms(6) by blast
  ultimately show ?thesis using assms(7) distinct_versions_subset unfolding layered_def by blast
qed

lemma moved_rest_newer:
  assumes "moved v t outs v'" and "task_ok v t" and "agrees G G' v" and "version_sound G v" and "whole_l0 v t"
    and "newest_first (M @ version_layers G v)" and "nothing_below v t"
  shows "older_than (input_ents G t) (rest_ents G v v' t M)"
proof -
  note t = task_okD [OF assms(2)]
  have front: "older_than (input_ents G t) (concat M @ concat (above_layers G v t))"
  proof -
    have "older_than (concat (input_layers G v t) @ level_ents G (levels v ! ct_output_level t)) (concat M @ concat (above_layers G v t))"
      using assms(6) by (simp add: version_layers_split [OF t(1,2)] newest_first_append)
    moreover have "set (input_ents G t) \<subseteq> set (concat (input_layers G v t) @ level_ents G (levels v ! ct_output_level t))"
      unfolding set_append moved_input(3) [OF assms(1-3)] moved_output(2) [OF assms(1-3)] using t(4)
      by (auto simp: input_ents_def all_input_files_def set_level_ents)
    ultimately show ?thesis unfolding older_than_def by blast
  qed
  have same: "older_than (input_ents G t) (level_ents G (kept_at_output v t))"
  proof -
    have "user_key (fst e) \<noteq> user_key (fst e')"
      if e: "e \<in> set (input_ents G t)" and e': "e' \<in> set (level_ents G (kept_at_output v t))" for e e'
    proof -
      from e' obtain f where f: "f \<in> set (files_at v (ct_output_level t))" "f \<notin> set (ct_overlap_files t)" "e' \<in> set (file_ents G f)"
        by (auto simp: set_level_ents kept_at_output_def t(6))
      have "\<not> user_key_overlaps f (ct_smallest_user_key t) (ct_largest_user_key t)"
        using assms(2) f(1,2) unfolding task_ok_def t(6) by blast
      from outside_hull [OF assms(4) t(2) f(1,3) this assms(2) e] show ?thesis .
    qed
    then show ?thesis by (auto simp: older_than_def)
  qed
  have below: "older_than (input_ents G t) (concat (below_layers G v t))"
  proof -
    have "user_key (fst e) \<noteq> user_key (fst e')"
      if e: "e \<in> set (input_ents G t)" and e': "e' \<in> set (concat (below_layers G v t))" for e e'
    proof -
      from e' obtain fs f where fs: "fs \<in> set (drop (ct_output_level t + 1) (levels v))" "f \<in> set fs" "e' \<in> set (file_ents G f)"
        by (auto simp: below_layers_def set_level_ents)
      then obtain l where l: "ct_output_level t < l" "l < length (levels v)" "f \<in> set (levels v ! l)"
        by (auto simp: set_conv_nth) (metis add.commute add_Suc_right less_add_Suc1 less_diff_conv nth_mem set_conv_nth)
      with assms(7) have "\<not> user_key_overlaps f (ct_smallest_user_key t) (ct_largest_user_key t)" by (auto simp: nothing_below_def)
      from outside_hull [OF assms(4) l(2) _ fs(3) this assms(2) e] l show ?thesis by (simp add: files_at_def)
    qed
    then show ?thesis by (auto simp: older_than_def)
  qed
  from front same below inputs_older_than_left [OF assms(1-6)] show ?thesis by (simp add: rest_ents_def)
qed

text \<open>Reads at or above the watermark do not see the compaction.\<close>

theorem moved_reads:
  assumes mv: "moved v t outs v'" "task_ok v t" "agrees G G' v" and "version_sound G v" and "whole_l0 v t"
    and lay: "layered (M @ version_layers G v) high" and "dt \<longrightarrow> nothing_below v t" and "w \<le> s"
    and outs: "set (level_ents G' outs) = set (compact_entries (input_ents G t) w dt)"
  shows "visible_value (lookup_at (concat (M @ version_layers G' v')) k s) =
    visible_value (lookup_at (concat (M @ version_layers G v)) k s)"
proof -
  let ?in = "input_ents G t" and ?rest = "rest_ents G v v' t M"
  note sets = moved_sets [OF mv, of M]
  have dist: "distinct_versions (set (concat (M @ version_layers G v)))" and nf: "newest_first (M @ version_layers G v)"
    using lay by (simp_all add: layered_def)
  then have d: "distinct_versions (set (?in @ ?rest))" unfolding sets by simp
  have sub: "set (compact_entries ?in w dt) \<subseteq> set ?in"
    using set_compact_loop_subset by (fastforce simp: compact_entries_def)
  have "visible_value (lookup_at (compact_entries ?in w dt @ ?rest) k s) = visible_value (lookup_at (?in @ ?rest) k s)"
    using compact_visible [OF d assms(8), of dt] moved_rest_newer [OF mv assms(4,5) nf] assms(7) by auto
  moreover have "lookup_at (concat (M @ version_layers G v)) k s = lookup_at (?in @ ?rest) k s"
    by (rule lookup_at_cong_set [OF d]) (use sets(1) in simp)
  moreover have "lookup_at (concat (M @ version_layers G' v')) k s = lookup_at (compact_entries ?in w dt @ ?rest) k s"
    by (rule lookup_at_cong_set) (use sets(2) outs sub d in \<open>auto elim: distinct_versions_subset\<close>)
  ultimately show ?thesis by simp
qed

subsection \<open>The level of the outputs\<close>

lemma level_disjointI:
  assumes "sorted (map fm_smallest fs)" and "distinct fs" and "\<forall>f\<in>set fs. meta_ordered f"
    and "\<And>f g. f \<in> set fs \<Longrightarrow> g \<in> set fs \<Longrightarrow> f \<noteq> g \<Longrightarrow> \<not> user_key_overlaps f (user_key (fm_smallest g)) (user_key (fm_largest g))"
  shows "level_disjoint fs"
proof -
  have "user_key (fm_largest (fs ! i)) < user_key (fm_smallest (fs ! j))" if ij: "i < j" "j < length fs" for i j
  proof -
    have "fm_smallest (fs ! i) \<le> fm_smallest (fs ! j)" using assms(1) ij by (auto simp: sorted_iff_nth_mono)
    then have "user_key (fm_smallest (fs ! i)) \<le> user_key (fm_smallest (fs ! j))" by (rule user_key_mono)
    also have "\<dots> \<le> user_key (fm_largest (fs ! j))" using assms(3) ij by (simp add: meta_ordered_def)
    finally have le: "user_key (fm_smallest (fs ! i)) \<le> user_key (fm_largest (fs ! j))" .
    have "fs ! i \<noteq> fs ! j" using assms(2) ij by (simp add: nth_eq_iff_index_eq)
    with assms(4) [of "fs ! i" "fs ! j"] ij le show ?thesis by (auto simp: user_key_overlaps_def)
  qed
  then show ?thesis using assms(3) by (auto simp: level_disjoint_def sorted_wrt_iff_nth_less list_all_iff)
qed

lemma meta_of_ends: "meta_of es f \<Longrightarrow> \<exists>a\<in>set es. fst a = fm_smallest f" "meta_of es f \<Longrightarrow> \<exists>b\<in>set es. fst b = fm_largest f"
  unfolding meta_of_def by (metis hd_in_set, metis last_in_set)

lemma meta_of_ordered:
  assumes "meta_of es f" and "sorted_entries es"
  shows "meta_ordered f"
proof -
  from meta_of_ends(1) [OF assms(1)] obtain a where "a \<in> set es" "fst a = fm_smallest f" by blast
  with entries_between(2) [OF assms(2)] assms(1) show ?thesis by (metis meta_of_def meta_ordered_def)
qed

text \<open>The outputs: each describes its entries, which come from the inputs, and no key is in two of them.\<close>

definition outputs_ok :: "ghost \<Rightarrow> ghost \<Rightarrow> compaction_task \<Rightarrow> file_meta list \<Rightarrow> bool" where
  "outputs_ok G G' t outs \<longleftrightarrow> (\<forall>m\<in>set outs. meta_of (file_ents G' m) m \<and> sorted_entries (file_ents G' m)) \<and>
     set (level_ents G' outs) \<subseteq> set (input_ents G t) \<and>
     (\<forall>m\<in>set outs. \<forall>m'\<in>set outs. m \<noteq> m' \<longrightarrow>
        (\<forall>e\<in>set (file_ents G' m). \<forall>e'\<in>set (file_ents G' m'). user_key (fst e) < user_key (fst e')) \<or>
        (\<forall>e\<in>set (file_ents G' m). \<forall>e'\<in>set (file_ents G' m'). user_key (fst e') < user_key (fst e)))"

lemma outputs_apart:
  assumes "outputs_ok G G' t outs" and "m \<in> set outs" and "m' \<in> set outs" and "m \<noteq> m'"
  shows "\<not> user_key_overlaps m (user_key (fm_smallest m')) (user_key (fm_largest m'))"
proof -
  from assms have "meta_of (file_ents G' m) m" "meta_of (file_ents G' m') m'" by (simp_all add: outputs_ok_def)
  from meta_of_ends [OF this(1)] meta_of_ends [OF this(2)] obtain a b a' b' where
    "a \<in> set (file_ents G' m)" "fst a = fm_smallest m" "b \<in> set (file_ents G' m)" "fst b = fm_largest m"
    "a' \<in> set (file_ents G' m')" "fst a' = fm_smallest m'" "b' \<in> set (file_ents G' m')" "fst b' = fm_largest m'" by blast
  moreover from assms have "(\<forall>e\<in>set (file_ents G' m). \<forall>e'\<in>set (file_ents G' m'). user_key (fst e) < user_key (fst e')) \<or>
      (\<forall>e\<in>set (file_ents G' m). \<forall>e'\<in>set (file_ents G' m'). user_key (fst e') < user_key (fst e))"
    unfolding outputs_ok_def by blast
  ultimately show ?thesis unfolding user_key_overlaps_def by (metis not_le)
qed

lemma output_in_hull:
  assumes "outputs_ok G G' t outs" and "task_ok v t" and "version_sound G v" and "m \<in> set outs"
  shows "ct_smallest_user_key t \<le> user_key (fm_smallest m)" and "user_key (fm_largest m) \<le> ct_largest_user_key t"
proof -
  from assms(1,4) have m: "meta_of (file_ents G' m) m" and sub: "set (file_ents G' m) \<subseteq> set (input_ents G t)"
    by (auto simp: outputs_ok_def set_level_ents)
  from meta_of_ends [OF m] sub input_ents_in_hull [OF assms(2,3)]
  show "ct_smallest_user_key t \<le> user_key (fm_smallest m)" "user_key (fm_largest m) \<le> ct_largest_user_key t" by fastforce+
qed

lemma level_disjoint_filter: "level_disjoint fs \<Longrightarrow> level_disjoint (filter P fs)"
  by (auto simp: level_disjoint_def list_all_iff sorted_wrt_filter)

lemma moved_sound:
  assumes mv: "moved v t outs v'" "task_ok v t" "agrees G G' v" and sound: "version_sound G v" and outs: "outputs_ok G G' t outs"
  shows "version_sound G' v'"
proof -
  note t = task_okD [OF mv(2)]
  have len: "length (levels v') = length (levels v)" using mv(1) by (simp add: moved_def)
  let ?out = "levels v' ! ct_output_level t"
  have set_out: "set ?out = set (kept_at_output v t) \<union> set outs" using mv(1) by (auto simp: moved_def kept_at_output_def)
  have old: "meta_of (file_ents G' f) f \<and> sorted_entries (file_ents G' f)" if "f \<in> set (files_at v l)" "l < length (levels v)" for f l
    using sound mv(3) that by (simp add: version_sound_def agrees_def)
  have kept: "f \<in> set (files_at v (ct_output_level t)) \<and> f \<notin> set (ct_overlap_files t)" if "f \<in> set (kept_at_output v t)" for f
    using that by (simp add: kept_at_output_def t(6))
  have out: "meta_of (file_ents G' f) f \<and> sorted_entries (file_ents G' f)" if "f \<in> set ?out" for f
    using that old [OF _ t(2)] kept outs unfolding set_out outputs_ok_def by blast
  have files: "meta_of (file_ents G' f) f \<and> sorted_entries (file_ents G' f)" if l: "l < length (levels v')" and f: "f \<in> set (files_at v' l)" for l f
  proof -
    consider "l = ct_output_level t" | "l = ct_input_level t" | "l \<noteq> ct_output_level t" "l \<noteq> ct_input_level t" by blast
    then show ?thesis
    proof cases
      case 1
      with f out t(1) show ?thesis by (simp add: files_at_def)
    next
      case 2
      with f mv(1) have "f \<in> set (files_at v l)" by (simp add: moved_def)
      with old l len show ?thesis by simp
    next
      case 3
      with mv(1) l len have "files_at v' l = files_at v l" by (auto simp: moved_def files_at_def)
      with f old l len show ?thesis by simp
    qed
  qed
  have "level_disjoint ?out"
  proof (rule level_disjointI)
    show "sorted (map fm_smallest ?out)" "distinct ?out" using mv(1) by (simp_all add: moved_def)
    show "\<forall>f\<in>set ?out. meta_ordered f" using out meta_of_ordered by blast
    have apart: "\<not> user_key_overlaps f (user_key (fm_smallest m)) (user_key (fm_largest m)) \<and>
        \<not> user_key_overlaps m (user_key (fm_smallest f)) (user_key (fm_largest f))"
      if f: "f \<in> set (kept_at_output v t)" and m: "m \<in> set outs" for f m
    proof -
      have "\<not> user_key_overlaps f (ct_smallest_user_key t) (ct_largest_user_key t)"
        using mv(2) kept [OF f] unfolding task_ok_def t(6) by blast
      with output_in_hull [OF outs mv(2) sound m] show ?thesis by (auto simp: user_key_overlaps_def)
    qed
    have lvl: "level_disjoint (levels v ! ct_output_level t)" using sound t(1,2) by (simp add: version_sound_def)
    show "\<not> user_key_overlaps f (user_key (fm_smallest g)) (user_key (fm_largest g))"
      if "f \<in> set ?out" "g \<in> set ?out" "f \<noteq> g" for f g
      using that apart outputs_apart [OF outs] level_disjoint_pair [OF lvl] kept unfolding set_out t(6) by blast
  qed
  moreover have "level_disjoint (levels v' ! l)" if "l < length (levels v')" "0 < l" "l \<noteq> ct_output_level t" for l
  proof (cases "l = ct_input_level t")
    case True
    with mv(1) that have "levels v' ! l = filter (\<lambda>f. f \<notin> set (ct_input_files t)) (levels v ! l)"
      by (simp add: moved_def files_at_def)
    with sound that len show ?thesis by (simp add: version_sound_def level_disjoint_filter)
  next
    case False
    with mv(1) that len sound show ?thesis by (simp add: moved_def version_sound_def)
  qed
  ultimately show ?thesis using files len unfolding version_sound_def by metis
qed

subsection \<open>The edits of a compaction\<close>

text \<open>A number belongs to one file, at one level.\<close>

definition distinct_numbers :: "version \<Rightarrow> bool" where
  "distinct_numbers v \<longleftrightarrow> (\<forall>l<length (levels v). \<forall>l'<length (levels v). \<forall>f\<in>set (files_at v l). \<forall>f'\<in>set (files_at v l').
     fm_number f = fm_number f' \<longrightarrow> l = l' \<and> f = f')"

lemma distinct_numbersD:
  assumes "distinct_numbers v" and "f \<in> set (files_at v l)" and "f' \<in> set (files_at v l')" and "fm_number f = fm_number f'"
    and "l < length (levels v)" and "l' < length (levels v)"
  shows "l = l'" and "f = f'"
  using assms unfolding distinct_numbers_def by blast+

lemma apply_deletes:
  assumes "\<forall>f\<in>set fs. lev f < length (levels (vs_current vs))"
  shows "\<exists>v. apply_edits (map (\<lambda>f. DeleteFile (lev f) (fm_number f)) fs) vs = Inr (vs\<lparr>vs_current := v\<rparr>) \<and>
    length (levels v) = length (levels (vs_current vs)) \<and>
    l0_files v = filter (\<lambda>g. \<forall>f\<in>set fs. lev f = 0 \<longrightarrow> fm_number g \<noteq> fm_number f) (l0_files (vs_current vs)) \<and>
    (\<forall>l<length (levels v). levels v ! l = (if l = 0 then levels (vs_current vs) ! l
       else filter (\<lambda>g. \<forall>f\<in>set fs. lev f = l \<longrightarrow> fm_number g \<noteq> fm_number f) (levels (vs_current vs) ! l)))"
  using assms
proof (induction fs arbitrary: vs)
  case Nil
  then show ?case by (intro exI [of _ "vs_current vs"]) simp
next
  case (Cons f fs)
  obtain v1 where v1: "delete_file (lev f) (fm_number f) (vs_current vs) = Inr v1" "length (levels v1) = length (levels (vs_current vs))"
    "l0_files v1 = filter (\<lambda>g. lev f = 0 \<longrightarrow> fm_number g \<noteq> fm_number f) (l0_files (vs_current vs))"
    "\<forall>l<length (levels v1). levels v1 ! l = (if l = 0 then levels (vs_current vs) ! l
       else filter (\<lambda>g. lev f = l \<longrightarrow> fm_number g \<noteq> fm_number f) (levels (vs_current vs) ! l))"
    using Cons.prems by (cases "lev f = 0") (auto simp: delete_file_def nth_list_update filter_id_conv)
  from Cons.IH [of "vs\<lparr>vs_current := v1\<rparr>"] Cons.prems v1(2) obtain v where
    v: "apply_edits (map (\<lambda>f. DeleteFile (lev f) (fm_number f)) fs) (vs\<lparr>vs_current := v1\<rparr>) = Inr (vs\<lparr>vs_current := v\<rparr>)"
    "length (levels v) = length (levels v1)"
    "l0_files v = filter (\<lambda>g. \<forall>f\<in>set fs. lev f = 0 \<longrightarrow> fm_number g \<noteq> fm_number f) (l0_files v1)"
    "\<forall>l<length (levels v). levels v ! l = (if l = 0 then levels v1 ! l
       else filter (\<lambda>g. \<forall>f\<in>set fs. lev f = l \<longrightarrow> fm_number g \<noteq> fm_number f) (levels v1 ! l))" by auto
  show ?case
    by (rule exI [of _ v]) (use v v1 in \<open>auto simp: conj_commute intro!: filter_cong\<close>)
qed

lemma apply_adds:
  assumes "0 < out" and "out < length (levels (vs_current vs))" and "sorted (map fm_smallest (levels (vs_current vs) ! out))"
  shows "\<exists>vs'. apply_edits (map (AddFile out) outs) vs = Inr vs' \<and> l0_files (vs_current vs') = l0_files (vs_current vs) \<and>
    length (levels (vs_current vs')) = length (levels (vs_current vs)) \<and>
    (\<forall>l<length (levels (vs_current vs)). l \<noteq> out \<longrightarrow> levels (vs_current vs') ! l = levels (vs_current vs) ! l) \<and>
    mset (levels (vs_current vs') ! out) = mset (levels (vs_current vs) ! out) + mset outs \<and>
    sorted (map fm_smallest (levels (vs_current vs') ! out))"
  using assms
proof (induction outs arbitrary: vs)
  case (Cons m outs)
  let ?v = "vs_current vs"
  let ?v1 = "?v\<lparr>levels := (levels ?v)[out := sort_key fm_smallest (levels ?v ! out @ [m])]\<rparr>"
  obtain k where step: "apply_edit (AddFile out m) vs = Inr (vs\<lparr>vs_next_file_number := k, vs_current := ?v1\<rparr>)"
    using Cons.prems by (simp add: add_file_def Let_def)
  from Cons.IH [of "vs\<lparr>vs_next_file_number := k, vs_current := ?v1\<rparr>"] Cons.prems obtain vs' where
    vs': "apply_edits (map (AddFile out) outs) (vs\<lparr>vs_next_file_number := k, vs_current := ?v1\<rparr>) = Inr vs'"
    "l0_files (vs_current vs') = l0_files ?v" "length (levels (vs_current vs')) = length (levels ?v)"
    "\<forall>l<length (levels ?v). l \<noteq> out \<longrightarrow> levels (vs_current vs') ! l = levels ?v ! l"
    "mset (levels (vs_current vs') ! out) = mset (levels ?v ! out) + {#m#} + mset outs"
    "sorted (map fm_smallest (levels (vs_current vs') ! out))" by auto
  with step show ?case by (intro exI [of _ vs']) (simp add: add.commute)
qed simp

lemma level_disjoint_sorted:
  assumes "level_disjoint fs"
  shows "sorted_wrt (<) (map fm_smallest fs)"
  unfolding sorted_wrt_map
proof (rule sorted_wrt_mono_rel)
  show "sorted_wrt (\<lambda>a b. user_key (fm_largest a) < user_key (fm_smallest b)) fs" using assms by (simp add: level_disjoint_def)
  fix a b assume "a \<in> set fs" "user_key (fm_largest a) < user_key (fm_smallest b)"
  with assms show "fm_smallest a < fm_smallest b"
    by (auto simp: level_disjoint_def list_all_iff meta_ordered_def internal_key_less_iff)
qed

lemma level_disjoint_distinct: "level_disjoint fs \<Longrightarrow> sorted (map fm_smallest fs) \<and> distinct fs"
  using level_disjoint_sorted [of fs] by (metis distinct_map strict_sorted_iff)

text \<open>The level that the deletion of an input names.\<close>

definition input_level_of :: "compaction_task \<Rightarrow> file_meta \<Rightarrow> nat" where
  "input_level_of t f = (if list_ex (\<lambda>i. fm_number i = fm_number f) (ct_input_files t) then ct_input_level t else ct_output_level t)"

lemma delete_edit_eq: "delete_edit t = (\<lambda>f. DeleteFile (input_level_of t f) (fm_number f))"
  by (simp add: fun_eq_iff delete_edit_def input_level_of_def)

lemma input_level_of_file:
  assumes "task_ok v t" and "distinct_numbers v"
  shows "f \<in> set (ct_input_files t) \<Longrightarrow> input_level_of t f = ct_input_level t"
    and "f \<in> set (ct_overlap_files t) \<Longrightarrow> input_level_of t f = ct_output_level t"
proof -
  note t = task_okD [OF assms(1)]
  show "input_level_of t f = ct_input_level t" if "f \<in> set (ct_input_files t)"
    using that by (auto simp: input_level_of_def list_ex_iff)
  show "input_level_of t f = ct_output_level t" if "f \<in> set (ct_overlap_files t)"
    using that distinct_numbersD(1) [OF assms(2) t(4) t(5) _ t(3,2)] t(1) by (auto simp: input_level_of_def list_ex_iff)
qed

lemma filter_inputs:
  assumes t: "task_ok v t" and dn: "distinct_numbers v" and l: "l < length (levels v)" and g: "g \<in> set (files_at v l)"
  shows "(\<forall>f\<in>set (all_input_files t). input_level_of t f = l \<longrightarrow> fm_number g \<noteq> fm_number f) \<longleftrightarrow>
    (l = ct_input_level t \<longrightarrow> g \<notin> set (ct_input_files t)) \<and> (l = ct_output_level t \<longrightarrow> g \<notin> set (ct_overlap_files t))"
proof -
  note T = task_okD [OF t] and lev = input_level_of_file [OF t dn]
  have ins: "fm_number g = fm_number f \<longleftrightarrow> g = f" if "f \<in> set (ct_input_files t)" for f
    using distinct_numbersD(2) [OF dn g T(4) _ l T(3)] that by auto
  have ov: "fm_number g = fm_number f \<longleftrightarrow> g = f" if "f \<in> set (ct_overlap_files t)" for f
    using distinct_numbersD(2) [OF dn g T(5) _ l T(2)] that by auto
  have "(\<forall>f\<in>set (ct_input_files t). input_level_of t f = l \<longrightarrow> fm_number g \<noteq> fm_number f) \<longleftrightarrow>
      (l = ct_input_level t \<longrightarrow> g \<notin> set (ct_input_files t))" using ins lev(1) by metis
  moreover have "(\<forall>f\<in>set (ct_overlap_files t). input_level_of t f = l \<longrightarrow> fm_number g \<noteq> fm_number f) \<longleftrightarrow>
      (l = ct_output_level t \<longrightarrow> g \<notin> set (ct_overlap_files t))" using ov lev(2) by metis
  ultimately show ?thesis by (simp add: all_input_files_def ball_Un)
qed

lemma compaction_edits:
  assumes t: "task_ok (vs_current vs) t" and dn: "distinct_numbers (vs_current vs)" and sound: "version_sound G (vs_current vs)"
    and outs: "distinct (map fm_number outs)"
    and fresh: "\<And>m l f. m \<in> set outs \<Longrightarrow> l < length (levels (vs_current vs)) \<Longrightarrow> f \<in> set (files_at (vs_current vs) l) \<Longrightarrow>
      fm_number f = fm_number m \<Longrightarrow> f \<in> set (all_input_files t)"
  shows "\<exists>vs'. apply_edits (map (delete_edit t) (all_input_files t) @ map (AddFile (ct_output_level t)) outs) vs = Inr vs' \<and>
    moved (vs_current vs) t outs (vs_current vs') \<and> levels (vs_current vs') ! 0 = levels (vs_current vs) ! 0"
proof -
  let ?v = "vs_current vs" and ?out = "ct_output_level t" and ?in = "ct_input_level t"
  note T = task_okD [OF t] and flt = filter_inputs [OF t dn]
  have lev: "\<forall>f\<in>set (all_input_files t). input_level_of t f < length (levels ?v)"
    using T(2,3) by (auto simp: input_level_of_def)
  from apply_deletes [OF lev] obtain v1 where v1:
    "apply_edits (map (delete_edit t) (all_input_files t)) vs = Inr (vs\<lparr>vs_current := v1\<rparr>)"
    "length (levels v1) = length (levels ?v)"
    "l0_files v1 = filter (\<lambda>g. \<forall>f\<in>set (all_input_files t). input_level_of t f = 0 \<longrightarrow> fm_number g \<noteq> fm_number f) (l0_files ?v)"
    "\<forall>l<length (levels v1). levels v1 ! l = (if l = 0 then levels ?v ! l
       else filter (\<lambda>g. \<forall>f\<in>set (all_input_files t). input_level_of t f = l \<longrightarrow> fm_number g \<noteq> fm_number f) (levels ?v ! l))"
    by (auto simp: delete_edit_eq)
  have at: "files_at v1 l = filter (\<lambda>g. (l = ?in \<longrightarrow> g \<notin> set (ct_input_files t)) \<and> (l = ?out \<longrightarrow> g \<notin> set (ct_overlap_files t))) (files_at ?v l)"
    if "l < length (levels ?v)" for l
  proof -
    have "files_at v1 l = filter (\<lambda>g. \<forall>f\<in>set (all_input_files t). input_level_of t f = l \<longrightarrow> fm_number g \<noteq> fm_number f) (files_at ?v l)"
      using v1(2-4) that by (auto simp: files_at_def)
    also have "\<dots> = filter (\<lambda>g. (l = ?in \<longrightarrow> g \<notin> set (ct_input_files t)) \<and> (l = ?out \<longrightarrow> g \<notin> set (ct_overlap_files t))) (files_at ?v l)"
      by (rule filter_cong [OF refl flt [OF that]])
    finally show ?thesis .
  qed
  have pos: "0 < ?out" "?out \<noteq> ?in" using T(1) by simp_all
  have kept: "levels v1 ! ?out = kept_at_output ?v t"
    using at [OF T(2)] pos by (simp add: files_at_def kept_at_output_def)
  have "level_disjoint (kept_at_output ?v t)"
    using sound T(2) pos unfolding kept_at_output_def by (intro level_disjoint_filter) (simp add: version_sound_def)
  then have ks: "sorted (map fm_smallest (kept_at_output ?v t))" "distinct (kept_at_output ?v t)"
    by (simp_all add: level_disjoint_distinct)
  from apply_adds [OF pos(1), of "vs\<lparr>vs_current := v1\<rparr>" outs] T(2) v1(2) ks(1) kept obtain vs' where vs':
    "apply_edits (map (AddFile ?out) outs) (vs\<lparr>vs_current := v1\<rparr>) = Inr vs'" "l0_files (vs_current vs') = l0_files v1"
    "length (levels (vs_current vs')) = length (levels ?v)"
    "\<forall>l<length (levels ?v). l \<noteq> ?out \<longrightarrow> levels (vs_current vs') ! l = levels v1 ! l"
    "mset (levels (vs_current vs') ! ?out) = mset (kept_at_output ?v t) + mset outs"
    "sorted (map fm_smallest (levels (vs_current vs') ! ?out))" by auto
  have disj: "set (kept_at_output ?v t) \<inter> set outs = {}"
  proof -
    have False if "f \<in> set (kept_at_output ?v t)" "f \<in> set outs" for f
    proof -
      have f: "f \<in> set (files_at ?v ?out)" "f \<notin> set (ct_overlap_files t)" using that(1) by (simp_all add: kept_at_output_def T(6))
      with fresh [OF that(2) T(2) f(1) refl] have "f \<in> set (ct_input_files t)" by (simp add: all_input_files_def)
      from distinct_numbersD(1) [OF dn f(1) T(4) [OF this] refl T(2,3)] pos show False by simp
    qed
    then show ?thesis by blast
  qed
  have "distinct (kept_at_output ?v t @ outs)" using ks(2) outs disj by (simp add: distinct_map)
  then have "distinct (levels (vs_current vs') ! ?out)"
    using vs'(5) by (metis mset_append mset_eq_imp_distinct_iff)
  moreover have "set (levels (vs_current vs') ! ?out) = set (kept_at_output ?v t) \<union> set outs"
    using vs'(5) by (metis set_append mset_append set_mset_mset)
  moreover have lv: "levels (vs_current vs') ! l = levels ?v ! l" if "l < length (levels ?v)" "l = 0 \<or> l \<noteq> ?in" "l \<noteq> ?out" for l
    using vs'(4) that v1(2,4) at [OF that(1)] by (auto simp: files_at_def split: if_splits)
  moreover have "files_at (vs_current vs') ?in = filter (\<lambda>f. f \<notin> set (ct_input_files t)) (files_at ?v ?in)"
    using at [OF T(3)] vs'(2,4) T(3) pos by (simp add: files_at_def split: if_splits)
  moreover have "l0_files (vs_current vs') = l0_files ?v" if "0 < ?in"
    using at [OF less_trans [OF that T(3)]] that vs'(2) pos by (simp add: files_at_def)
  ultimately have "moved ?v t outs (vs_current vs')"
    using vs'(3,6) unfolding moved_def kept_at_output_def by auto
  moreover have "0 < length (levels ?v)" using T(3) by linarith
  then have "levels (vs_current vs') ! 0 = levels ?v ! 0" using lv [of 0] pos by simp
  ultimately show ?thesis using v1(1) vs'(1) by (auto simp: apply_edits_append)
qed

lemma moved_files:
  assumes "moved v t outs v'" and "task_ok v t" and "l < length (levels v)" and "f \<in> set (files_at v' l)"
  shows "f \<in> set (files_at v l) \<and> (l = ct_input_level t \<longrightarrow> f \<notin> set (ct_input_files t)) \<and>
      (l = ct_output_level t \<longrightarrow> f \<notin> set (ct_overlap_files t)) \<or> l = ct_output_level t \<and> f \<in> set outs"
proof -
  note T = task_okD(1,2) [OF assms(2)]
  consider "l = ct_output_level t" | "l = ct_input_level t" | "l \<noteq> ct_output_level t" "l \<noteq> ct_input_level t" by blast
  then show ?thesis
  proof cases
    case 1
    with assms T(1) show ?thesis by (auto simp: moved_def files_at_def)
  next
    case 2
    with assms T(1) show ?thesis by (auto simp: moved_def)
  next
    case 3
    with assms have "files_at v' l = files_at v l" by (auto simp: moved_def files_at_def)
    with 3 assms(4) show ?thesis by simp
  qed
qed

lemma moved_distinct:
  assumes mv: "moved v t outs v'" and t: "task_ok v t" and dn: "distinct_numbers v" and outs: "distinct (map fm_number outs)"
    and fresh: "\<And>m l f. m \<in> set outs \<Longrightarrow> l < length (levels v) \<Longrightarrow> f \<in> set (files_at v l) \<Longrightarrow>
      fm_number f = fm_number m \<Longrightarrow> f \<in> set (all_input_files t)"
  shows "distinct_numbers v'"
  unfolding distinct_numbers_def
proof (intro allI impI ballI)
  note T = task_okD [OF t]
  have len: "length (levels v') = length (levels v)" using mv by (simp add: moved_def)
  have new: "fm_number f \<noteq> fm_number m" if m: "m \<in> set outs" and f: "f \<in> set (files_at v' l)" "f \<notin> set outs \<or> l \<noteq> ct_output_level t"
    and l: "l < length (levels v)" for f m l
  proof
    assume eq: "fm_number f = fm_number m"
    from moved_files [OF mv t l f(1)] f(2) have o: "f \<in> set (files_at v l)" "l = ct_input_level t \<longrightarrow> f \<notin> set (ct_input_files t)"
      "l = ct_output_level t \<longrightarrow> f \<notin> set (ct_overlap_files t)" by auto
    from fresh [OF m l o(1) eq] have "f \<in> set (ct_input_files t) \<or> f \<in> set (ct_overlap_files t)" by (simp add: all_input_files_def)
    with distinct_numbersD(1) [OF dn o(1) T(4) refl l T(3)] distinct_numbersD(1) [OF dn o(1) T(5) refl l T(2)] o(2,3) show False by blast
  qed
  fix l l' f f' assume l: "l < length (levels v')" "l' < length (levels v')" and f: "f \<in> set (files_at v' l)" "f' \<in> set (files_at v' l')"
    and eq: "fm_number f = fm_number f'"
  note at = moved_files [OF mv t l(1) [unfolded len] f(1)] moved_files [OF mv t l(2) [unfolded len] f(2)]
  show "l = l' \<and> f = f'"
  proof (cases "l = ct_output_level t \<and> f \<in> set outs")
    case True
    with new [of f f' l'] f eq l len have "l' = ct_output_level t \<and> f' \<in> set outs" by metis
    with True outs eq show ?thesis by (auto simp: distinct_map dest: inj_onD)
  next
    case False
    with new [of f' f l] f eq l len have "\<not> (l' = ct_output_level t \<and> f' \<in> set outs)" by metis
    with at False have "f \<in> set (files_at v l)" "f' \<in> set (files_at v l')" by blast+
    from distinct_numbersD [OF dn this eq] l len show ?thesis by simp
  qed
qed

end
