(* ===== verification/Compaction_Steps.thy ===== *)
theory Compaction_Steps
  imports Compacted_Versions Recovery Serializability
begin

section \<open>The steps of a compaction\<close>

text \<open>
  A compaction reads its inputs, writes the surviving entries as new tables, logs the change of
  the version, opens the new version and removes the old files.  Here is what each of these
  steps leaves behind, whatever call fails.
\<close>

subsection \<open>Distinct keys of the inputs\<close>

lemma files_disjoint:
  assumes "newest_first (version_layers G v)" and "version_sound G v"
    and "f \<in> set (files_at v l)" and "g \<in> set (files_at v l')" and "l < length (levels v)" and "l' < length (levels v)" and "f \<noteq> g"
  shows "fst ` set (file_ents G f) \<inter> fst ` set (file_ents G g) = {}"
proof -
  have apart: "fst ` set xs \<inter> fst ` set ys = {}" if "older_than ys xs \<or> older_than xs ys" for xs ys :: "entry list"
    using that unfolding older_than_def by fastforce
  have nf: "newest_first (map (file_ents G) (l0_files v))" "newest_first (map (level_ents G) (drop 1 (levels v)))"
    "older_than (concat (map (level_ents G) (drop 1 (levels v)))) (concat (map (file_ents G) (l0_files v)))"
    using assms(1) by (simp_all add: version_layers_def newest_first_append)
  have down: "older_than (file_ents G b) (file_ents G a)"
    if "a \<in> set (files_at v i)" "b \<in> set (files_at v j)" "i < j" "j < length (levels v)" for a b i j
  proof (cases "i = 0")
    case True
    have b: "b \<in> set (levels v ! j)" using that by (simp add: files_at_def)
    have "levels v ! j \<in> set (drop 1 (levels v))"
      using nth_mem [of "j - 1" "drop 1 (levels v)"] that(3,4) True by simp
    with b have "set (file_ents G b) \<subseteq> set (concat (map (level_ents G) (drop 1 (levels v))))" by (auto simp: set_level_ents)
    moreover have "set (file_ents G a) \<subseteq> set (concat (map (file_ents G) (l0_files v)))" using that(1) True by (auto simp: files_at_def)
    ultimately show ?thesis using nf(3) unfolding older_than_def by blast
  next
    case False
    have "older_than (level_ents G (drop 1 (levels v) ! (j - 1))) (level_ents G (drop 1 (levels v) ! (i - 1)))"
      using sorted_wrt_nth_less [OF nf(2) [unfolded newest_first_def], of "i - 1" "j - 1"] that(3,4) False by simp
    then have "older_than (level_ents G (levels v ! j)) (level_ents G (levels v ! i))" using that(3,4) False by simp
    moreover have "set (file_ents G b) \<subseteq> set (level_ents G (levels v ! j))" "set (file_ents G a) \<subseteq> set (level_ents G (levels v ! i))"
      using that False by (auto simp: files_at_def set_level_ents)
    ultimately show ?thesis unfolding older_than_def by blast
  qed
  consider "l < l'" | "l' < l" | "l = l'" "l = 0" | "l = l'" "0 < l" by linarith
  then show ?thesis
  proof cases
    case 3
    then have "f \<in> set (l0_files v)" "g \<in> set (l0_files v)" using assms(3,4) by (simp_all add: files_at_def)
    from sorted_wrt_pairE [OF nf(1) [unfolded newest_first_def sorted_wrt_map] this assms(7)] show ?thesis by (rule apart)
  next
    case 4
    with level_files_apart [OF assms(2,5), of f g] assms(3,4,7) show ?thesis by (fastforce simp: files_at_def)
  qed (use down assms(3-6) apart in blast)+
qed

lemma distinct_level_ents:
  assumes "distinct fs" and "\<forall>f\<in>set fs. sorted_entries (file_ents G f)"
    and "\<And>f g. f \<in> set fs \<Longrightarrow> g \<in> set fs \<Longrightarrow> f \<noteq> g \<Longrightarrow> fst ` set (file_ents G f) \<inter> fst ` set (file_ents G g) = {}"
  shows "distinct (map fst (level_ents G fs))"
  using assms
proof (induction fs)
  case (Cons f fs)
  have "distinct (map fst (file_ents G f))" using Cons.prems(2) by (simp add: strict_sorted_iff)
  moreover have "fst ` set (file_ents G f) \<inter> fst ` set (file_ents G g) = {}" if "g \<in> set fs" for g
    using Cons.prems(1) that by (intro Cons.prems(3)) auto
  then have "fst ` set (file_ents G f) \<inter> fst ` set (level_ents G fs) = {}"
    unfolding set_level_ents image_UN by blast
  moreover have "distinct (map fst (level_ents G fs))" using Cons by simp
  ultimately show ?case by (simp add: level_ents_def)
qed (simp add: level_ents_def)

lemma distinct_inputs:
  assumes "newest_first (version_layers G v)" and "version_sound G v" and "task_ok v t" and "distinct_numbers v"
    and "distinct (ct_input_files t)" and "distinct (ct_overlap_files t)"
  shows "distinct (map fst (input_ents G t))"
  unfolding input_ents_def
proof (rule distinct_level_ents)
  note T = task_okD [OF assms(3)]
  have at: "\<exists>l<length (levels v). f \<in> set (files_at v l)" if "f \<in> set (all_input_files t)" for f
    using that T(2-5) by (auto simp: all_input_files_def)
  show "distinct (all_input_files t)"
    using assms(5,6) distinct_numbersD(1) [OF assms(4) T(4) T(5) refl T(3,2)] T(1) by (auto simp: all_input_files_def)
  show "\<forall>f\<in>set (all_input_files t). sorted_entries (file_ents G f)" using at assms(2) unfolding version_sound_def by blast
  show "fst ` set (file_ents G f) \<inter> fst ` set (file_ents G g) = {}"
    if "f \<in> set (all_input_files t)" "g \<in> set (all_input_files t)" "f \<noteq> g" for f g
    using at [OF that(1)] at [OF that(2)] files_disjoint [OF assms(1,2)] that(3) by blast
qed

lemma pick_manual_distinct:
  assumes "pick_manual v lower upper = Inr (Some t)" and "distinct (l0_files v)"
    and "\<forall>l. 0 < l \<and> l < length (levels v) \<longrightarrow> level_disjoint (levels v ! l)" and "1 < length (levels v)"
  shows "distinct (ct_input_files t) \<and> distinct (ct_overlap_files t)"
proof -
  have task: "distinct (ct_overlap_files t) \<and> ct_input_files t = ins"
    if "task_for_files v l ins m = Inr t" "1 < length (levels v)" for l ins m
  proof -
    let ?o = "min (l + 1) (length (levels v) - 1)"
    have "0 < ?o" "?o < length (levels v)" using that(2) by (auto simp: min_def)
    then have "distinct (levels v ! ?o)" using assms(3) level_disjoint_distinct by blast
    with that(1) show ?thesis by (auto simp: task_for_files_def Let_def result_simps split: if_splits)
  qed
  have loop: "distinct (ct_overlap_files t) \<and> distinct (ct_input_files t)"
    if "pick_manual_loop v lower upper ls = Inr (Some t)" "1 < length (levels v)" for ls
    using that by (induction ls) (auto simp: result_simps split: option.splits dest: task)
  from assms(1,2,4) loop show ?thesis
    by (auto simp: pick_manual_def pick_l0_manual_def Let_def result_simps split: if_splits option.splits dest!: task)
qed

subsection \<open>Reading the inputs\<close>

definition file_ok :: "'m externs \<Rightarrow> ghost \<Rightarrow> 'm db \<Rightarrow> file_meta \<Rightarrow> bool" where
  "file_ok X G d f \<longleftrightarrow> ref_ok X G (db_env d) (db_path d) (the_ref G (db_path d) f)"

lemma file_ok_reads_to:
  fixes X :: "'m externs" and d :: "'m db"
  shows "reads_to d d' \<Longrightarrow> file_ok X G d f \<Longrightarrow> file_ok X G d' f"
  using ref_ok_reads_to [of d d' X G] reads_to_sel(1) [of d d'] by (simp add: file_ok_def)

lemma ref_ents_the_ref [simp]: "ref_ents G (the_ref G dir f) = file_ents G f"
  by (simp add: ref_ents_def the_ref_def file_ents_def)

lemma yields_open_input:
  assumes "file_ok X G d f" and "caches_ok X G d"
  shows "yields X G (open_input X f) d (file_ents G f)"
proof -
  let ?m = "op_then (on_tables (get_or_open X (fm_number f) (table_path (db_path d) (fm_number f)))) (\<lambda>table.
    on_blocks (entries_with_cache X table (fm_number f) True))"
  have t: "table_ok X G (db_env d) (db_path d) (fm_number f)" using assms(1) by (simp add: file_ok_def ref_ok_def the_ref_def)
  have o: "yields X G (on_tables (get_or_open X (fm_number f) (table_path (db_path d) (fm_number f)))) d (the_reader G (db_path d) (fm_number f))"
    using assms(2) by (intro yields_opens opens_get_or_open t) (simp_all add: caches_ok_readers)
  have "yields X G ?m d (file_ents G f)"
  proof (rule yields_then [OF o])
    fix d' assume d': "reads_to d d'" "caches_ok X G d'"
    have "ref_ok X G (db_env d') (db_path d') (f, the_reader G (db_path d) (fm_number f))"
      using file_ok_reads_to [OF d'(1) assms(1)] reads_to_sel(1) [OF d'(1)] by (simp add: file_ok_def the_ref_def)
    from yields_entries [OF this d'(2)]
    show "yields X G (on_blocks (entries_with_cache X (the_reader G (db_path d) (fm_number f)) (fm_number f) True)) d' (file_ents G f)"
      by (simp add: ref_ents_def file_ents_def)
  qed
  then show ?thesis by (simp add: yields_def open_input_def table_path_def)
qed

lemma yields_read_inputs:
  assumes "\<forall>f\<in>set fs. file_ok X G d f" and "caches_ok X G d"
  shows "yields X G (read_inputs X fs) d (level_ents G fs)"
  using assms
proof (induction fs arbitrary: d)
  case Nil
  then show ?case by (simp add: yields_lift level_ents_def)
next
  case (Cons f fs)
  have last: "yields X G (op_lift (Inr (file_ents G f @ level_ents G fs))) d2 (level_ents G (f # fs))" if "caches_ok X G d2" for d2
    using that by (simp add: yields_lift level_ents_def)
  have rest: "yields X G (op_then (read_inputs X fs) (\<lambda>rest. op_lift (Inr (file_ents G f @ rest)))) d1 (level_ents G (f # fs))"
    if d1: "reads_to d d1" "caches_ok X G d1" for d1
  proof (rule yields_then)
    show "yields X G (read_inputs X fs) d1 (level_ents G fs)" using Cons d1 file_ok_reads_to by (metis list.set_intros(2))
  qed (rule last)
  show ?case
    unfolding read_inputs.simps
  proof (rule yields_then [OF yields_metric [OF Cons.prems(2)]])
    fix d1 assume d1: "reads_to d d1" "caches_ok X G d1"
    show "yields X G (op_then (open_input X f) (\<lambda>entries. op_then (read_inputs X fs) (\<lambda>rest. op_lift (Inr (entries @ rest))))) d1
        (level_ents G (f # fs))"
    proof (rule yields_then)
      show "yields X G (open_input X f) d1 (file_ents G f)"
        using Cons.prems(1) file_ok_reads_to [OF d1(1)] d1(2) by (intro yields_open_input) simp_all
    qed (use rest d1(1) reads_to_trans in blast)
  qed
qed

lemma yields_needs_rewrite:
  assumes "file_ok X G d (ct_input_files t ! 0)" and "caches_ok X G d"
  shows "yields X G (trivial_move_needs_rewrite X t w dt) d
    (length (compact_entries (file_ents G (ct_input_files t ! 0)) w dt) \<noteq> length (file_ents G (ct_input_files t ! 0)))"
  unfolding trivial_move_needs_rewrite_def
  by (rule yields_then [OF yields_open_input [OF assms]]) (rule yields_lift)

subsection \<open>States with the same tables\<close>

text \<open>
  What holds between the steps of a compaction: more tables may exist, the database is well
  formed, and apart from files that are no tables, caches and counters only the version set
  may differ.
\<close>

definition stable :: "'m externs \<Rightarrow> ghost \<Rightarrow> 'm db \<Rightarrow> ghost \<Rightarrow> 'm db \<Rightarrow> bool" where
  "stable X G d G' d' \<longleftrightarrow> G \<subseteq>\<^sub>m G' \<and> db_ok X G' d' \<and> db_path d' = db_path d \<and> db_options d' = db_options d \<and>
     db_mutable d' = db_mutable d \<and> db_immutables d' = db_immutables d \<and> db_l0_tables d' = db_l0_tables d \<and>
     db_level_tables d' = db_level_tables d \<and> db_last_sequence d' = db_last_sequence d \<and> db_closed d' = db_closed d \<and>
     db_watermark d' = db_watermark d \<and> next_number d \<le> next_number d' \<and>
     (\<forall>n. G n \<noteq> None \<longrightarrow> env_files (db_env d') (table_path (db_path d) n) = env_files (db_env d) (table_path (db_path d) n))"

lemma stable_refl: "db_ok X G d \<Longrightarrow> stable X G d G d"
  by (simp add: stable_def)

lemma stable_sel:
  assumes "stable X G d G' d'"
  shows "G \<subseteq>\<^sub>m G'" "db_ok X G' d'" "db_path d' = db_path d" "db_options d' = db_options d" "db_mutable d' = db_mutable d"
    "db_immutables d' = db_immutables d" "db_l0_tables d' = db_l0_tables d" "db_level_tables d' = db_level_tables d"
    "db_last_sequence d' = db_last_sequence d" "db_closed d' = db_closed d" "db_watermark d' = db_watermark d"
    "next_number d \<le> next_number d'"
  using assms by (simp_all add: stable_def)

lemma stable_files:
  "stable X G d G' d' \<Longrightarrow> G n \<noteq> None \<Longrightarrow> env_files (db_env d') (table_path (db_path d) n) = env_files (db_env d) (table_path (db_path d) n)"
  by (simp add: stable_def)

lemma stable_trans:
  assumes "stable X G d G1 d1" and "stable X G1 d1 G2 d2"
  shows "stable X G d G2 d2"
proof -
  note a = stable_sel [OF assms(1)] and b = stable_sel [OF assms(2)]
  have "env_files (db_env d2) (table_path (db_path d) n) = env_files (db_env d) (table_path (db_path d) n)" if n: "G n \<noteq> None" for n
  proof -
    have "G1 n \<noteq> None" using a(1) n by (metis domIff map_le_def)
    with stable_files [OF assms(1) n] stable_files [OF assms(2)] a(3) show ?thesis by metis
  qed
  with map_le_trans [OF a(1) b(1)] b(2) a(3-11) b(3-11) order_trans [OF a(12) b(12)] show ?thesis by (simp add: stable_def)
qed

lemma reads_to_stable:
  assumes "db_ok X G d" and "reads_to d d'" and "caches_ok X G d'"
  shows "stable X G d G d'"
  using db_ok_reads_to [OF assms] reads_to_sel [OF assms(2)] by (simp add: stable_def)

lemma map_le_ents: "G \<subseteq>\<^sub>m G' \<Longrightarrow> G (fm_number f) \<noteq> None \<Longrightarrow> file_ents G' f = file_ents G f"
  by (auto simp: map_le_def file_ents_def ents_of_def dom_def)

lemma ref_ok_grown:
  assumes "ref_ok X G e dir ref" and "G \<subseteq>\<^sub>m G'"
    and "env_files e' (table_path dir (fm_number (fst ref))) = env_files e (table_path dir (fm_number (fst ref)))"
  shows "ref_ok X G' e' dir ref"
proof -
  from assms(1) have n: "G (fm_number (fst ref)) \<noteq> None" by (auto simp: ref_ok_def table_ok_def)
  with assms(2) have "G' (fm_number (fst ref)) = G (fm_number (fst ref))" by (metis domIff map_le_def)
  with assms show ?thesis by (simp add: ref_ok_def table_ok_def reader_ok_def ref_ents_def ents_of_def content_of_def)
qed

lemma stable_ref_ok:
  assumes "stable X G d G' d'" and "ref_ok X G (db_env d) (db_path d) ref"
  shows "ref_ok X G' (db_env d') (db_path d) ref"
proof -
  from assms(2) have "G (fm_number (fst ref)) \<noteq> None" by (auto simp: ref_ok_def table_ok_def)
  with assms show ?thesis by (intro ref_ok_grown [OF assms(2)]) (simp_all add: stable_def)
qed

lemma stable_layers:
  assumes "stable X G d G' d'" and "refs_ok X G d"
  shows "layers X G' d' = layers X G d"
proof -
  note sel = stable_sel [OF assms(1)]
  have ents: "ref_ents G' ref = ref_ents G ref" if "ref \<in> set (all_refs d)" for ref
  proof -
    from assms(2) that have "ref_ok X G (db_env d) (db_path d) ref" by (simp add: refs_ok_def)
    then have "G (fm_number (fst ref)) \<noteq> None" by (auto simp: ref_ok_def table_ok_def)
    from map_le_ents [OF sel(1) this] show ?thesis by (simp add: ref_ents_def file_ents_def)
  qed
  then have "map (ref_ents G') (db_l0_tables d) = map (ref_ents G) (db_l0_tables d)"
    "map (\<lambda>l. concat (map (ref_ents G') l)) (drop 1 (db_level_tables d)) = map (\<lambda>l. concat (map (ref_ents G) l)) (drop 1 (db_level_tables d))"
    by (auto simp: all_refs_def intro!: arg_cong [of _ _ concat] map_cong dest: in_set_dropD)
  then show ?thesis by (simp add: layers_def mem_layers_def l0_layers_def level_layers_def sel)
qed

subsection \<open>Writing the outputs\<close>

lemma metric_metric: "op_then (metric a) (\<lambda>_. op_then (metric b) (\<lambda>_. k)) = op_then (metric (b \<circ> a)) (\<lambda>_. k)"
  by (simp add: fun_eq_iff op_then_def metric_def)

lemma write_compaction_output_eq:
  "write_compaction_output X n es d = write_table X n (db_path d) (block_size (db_options d)) (table_compression (db_options d)) es
     (\<lambda>size. record_compaction_write size \<circ> record_sst_write size) d"
  by (simp add: write_compaction_output_def Let_def metric_metric table_path_def)

lemma write_table_files:
  assumes "write_table X n dir bs cm es f d = (r, d')" and "q \<noteq> table_path dir n" and "q \<noteq> path_join dir (table_file_name n @ ''.tmp'')"
  shows "env_files (db_env d') q = env_files (db_env d) q \<and> db_path d' = db_path d"
proof -
  let ?tmp = "path_join dir (table_file_name n @ ''.tmp'')" and ?p = "table_path dir n"
  have env: "env_files (db_env d2) q = env_files (db_env d1) q \<and> db_path d2 = db_path d1"
    if "on_env m d1 = (x, d2)" "touches {?tmp, ?p} m" for m x d1 d2
    using keeps_on_env [OF that(2,1)] assms(2,3) by (auto simp: keeps_def)
  have t: "touches {?tmp, ?p} (build_table X ?tmp bs cm es)" "touches {?tmp, ?p} (env_rename ?tmp ?p)"
    by (intro touch_intros; simp)+
  have path: "db_path d2 = db_path d1" if "open_new_table X n ?p f d1 = (x, d2)" for x d1 d2
    using that by (auto elim!: op_thenE simp: op_lift_def on_env_def metric_def on_tables_def split: prod.splits)
  from assms(1) show ?thesis
  proof (cases rule: op_thenE)
    case (fail e)
    with env [OF fail(1) t(1)] show ?thesis by simp
  next
    case (ok x d1)
    note one = env [OF ok(1) t(1)]
    from ok(2) show ?thesis
    proof (cases rule: op_thenE)
      case (fail e)
      with env [OF fail(1) t(2)] one show ?thesis by simp
    next
      case (ok y d2)
      with env [OF ok(1) t(2)] one path [OF ok(2)] open_new_table_files [OF ok(2)] show ?thesis by simp
    qed
  qed
qed

lemma keeps_stable:
  assumes ok: "db_ok X G d" and k: "keeps P d d'" and P: "\<And>n. G n \<noteq> None \<Longrightarrow> table_path (db_path d) n \<notin> P"
    and g: "grows G n es G'" and d': "caches_ok X G' d'" "manifest_ok d'" "numbered G' d'" "next_number d \<le> next_number d'"
  shows "stable X G d G' d'"
proof -
  from ok have o: "readable X G d" "wal_ok d" by (simp_all add: db_ok_def)
  have le: "G \<subseteq>\<^sub>m G'" using grows_sub [OF g] by (auto simp: map_le_def dom_def)
  have refs: "refs_ok X G d'" using keeps_refs_ok [OF k _ P] o(1) by (simp add: readable_def)
  have low: "layers X G' d' = layers X G d"
    using grows_refs(2,3) [OF g refs] keeps_layers(2) [OF k, of X G] by (simp add: layers_def mem_layers_def)
  have "readable X G' d'"
    using o(1) d'(1) grows_refs(1) [OF g refs] keeps_layers(1) [OF k] keeps_sel(7) [OF k]
    by (simp add: readable_def layers_ok_layered low)
  moreover have "wal_ok d'" using o(2) keeps_sel(1,11) [OF k] by (simp add: wal_ok_def)
  ultimately show ?thesis
    using le d' keeps_sel [OF k] P by (simp add: stable_def db_ok_def)
qed

lemma worker_ok:
  assumes X: "externals X" and ok: "db_ok X G d" and es: "table_fits es" "sorted_entries es" "es \<noteq> []"
    and num: "unat (next_number d) + 1 < 2 ^ 64"
    and run: "op_then db_allocate_file_number (\<lambda>n. write_compaction_output X n es) d = (r, d')"
    and fit: "file_fits (db_env d') (table_path (db_path d) (next_number d))"
  shows "\<exists>G'. stable X G d G' d' \<and> vs_current (db_versions d') = vs_current (db_versions d) \<and> next_number d' = next_number d + 1 \<and>
    (healthy X d \<longrightarrow> healthy X d' \<and> (\<exists>x. r = Inr x)) \<and>
    (\<forall>rd m. r = Inr (rd, m) \<longrightarrow> fm_number m = next_number d \<and> file_ents G' m = es \<and> ref_ok X G' (db_env d') (db_path d) (m, rd))"
proof -
  let ?n = "next_number d" and ?dir = "db_path d"
  let ?P = "{path_join ?dir (table_file_name ?n @ ''.tmp''), table_path ?dir ?n}"
  define d1 where "d1 = d\<lparr>db_versions := (db_versions d)\<lparr>vs_next_file_number := ?n + 1\<rparr>\<rparr>"
  have s1: "db_allocate_file_number d = (Inr ?n, d1)"
    by (simp add: db_allocate_file_number_def allocate_file_number_def d1_def)
  have n: "G ?n = None" using ok unfolding db_ok_def numbered_def by (metis less_irrefl)
  have k1: "keeps ?P d d1" "db_table_cache d1 = db_table_cache d" by (simp_all add: d1_def keeps_def)
  have caches1: "caches_ok X G d1" using keeps_caches_ok [OF k1] ok by (simp add: db_ok_def readable_def)
  have w: "write_table X ?n ?dir (block_size (db_options d)) (table_compression (db_options d)) es
      (\<lambda>size. record_compaction_write size \<circ> record_sst_write size) d1 = (r, d')"
    using run s1 by (simp add: op_then_Inr write_compaction_output_eq d1_def)
  have dir1: "?dir = db_path d1" by (simp add: d1_def)
  have "length c < 2 ^ 64" if "content_of (db_env d') (table_path ?dir ?n) = Some c" for c
    using fit that by (simp add: file_fits_def)
  from write_table_ok [OF X caches1 n es dir1 w this] obtain G' where G': "grows G ?n es G'" "keeps ?P d1 d'"
    "db_versions d' = db_versions d1" "caches_ok X G' d'"
    "\<forall>rd m. r = Inr (rd, m) \<longrightarrow> ents_of G' ?n = es \<and> fm_number m = ?n \<and> ref_ok X G' (db_env d') ?dir (m, rd)" by blast
  have k: "keeps ?P d d'" using k1(1) G'(2) by (rule keeps_trans)
  have lt: "?n < ?n + 1" by (rule next_less [OF num])
  have "numbered G' d'"
    unfolding numbered_def
  proof (intro allI impI)
    fix i assume "G' i \<noteq> None"
    with grows_dom [OF G'(1)] ok have "i \<le> ?n" unfolding db_ok_def numbered_def by (metis less_imp_le order_refl)
    with lt show "i < next_number d'" by (simp add: G'(3) d1_def)
  qed
  moreover have "manifest_ok d'" using ok keeps_sel(1) [OF k] by (simp add: db_ok_def manifest_ok_def G'(3) d1_def)
  moreover have "table_path ?dir m \<notin> ?P" if "G m \<noteq> None" for m using that n by (auto simp: table_path_def)
  ultimately have "stable X G d G' d'" using keeps_stable [OF ok k _ G'(1,4)] lt by (simp add: G'(3) d1_def)
  moreover have "healthy X d' \<and> (\<exists>x. r = Inr x)" if h: "healthy X d"
  proof -
    have cm: "packs X (table_compression (db_options d))" and calm: "env_faults (db_env d1) = []" using h by (simp_all add: healthy_def d1_def)
    obtain rd m where "r = Inr (rd, m)" "env_faults (db_env d') = []"
      by (rule write_table_calm [OF X caches1 n es cm calm w [unfolded dir1] fit [unfolded dir1]])
    with h keeps_sel(2) [OF k] show ?thesis by (simp add: healthy_def)
  qed
  ultimately show ?thesis using G'(3,5) by (intro exI [of _ G']) (auto simp: d1_def file_ents_def)
qed

lemma run_workers_files:
  assumes "run_workers X chunks d = (rs, d')"
    and "\<And>i. i < length chunks \<Longrightarrow> q \<noteq> table_path (db_path d) (next_number d + word_of_nat i)"
    and "\<And>n. q \<noteq> path_join (db_path d) (table_file_name n @ ''.tmp'')"
  shows "env_files (db_env d') q = env_files (db_env d) q"
  using assms
proof (induction chunks arbitrary: d rs)
  case (Cons c chunks)
  let ?n = "next_number d"
  define d1 where "d1 = d\<lparr>db_versions := (db_versions d)\<lparr>vs_next_file_number := ?n + 1\<rparr>\<rparr>"
  have s1: "db_allocate_file_number d = (Inr ?n, d1)"
    by (simp add: db_allocate_file_number_def allocate_file_number_def d1_def)
  obtain r2 d2 where s2: "write_compaction_output X ?n c d1 = (r2, d2)" by fastforce
  have p1: "db_path d1 = db_path d" by (simp add: d1_def)
  from write_table_files [OF s2 [unfolded write_compaction_output_eq]] Cons.prems(2) [of 0] Cons.prems(3)
  have f2: "env_files (db_env d2) q = env_files (db_env d) q" "db_path d2 = db_path d" by (simp_all add: d1_def)
  have v2: "db_versions d2 = db_versions d1"
    using s2 unfolding write_compaction_output_def Let_def
    by (auto elim!: op_thenE simp: op_lift_def on_env_def metric_def on_tables_def split: prod.splits)
  obtain rs' where rest: "run_workers X chunks d2 = (rs', d')"
    using Cons.prems(1) s1 s2 by (auto simp: op_then_Inr split: prod.splits)
  have "env_files (db_env d') q = env_files (db_env d2) q"
  proof (rule Cons.IH [OF rest])
    show "q \<noteq> table_path (db_path d2) (next_number d2 + word_of_nat i)" if "i < length chunks" for i
      using Cons.prems(2) [of "Suc i"] that by (simp add: f2(2) v2 d1_def add.assoc)
  qed (use Cons.prems(3) f2(2) in simp)
  with f2(1) show ?case by simp
qed simp

lemma ref_ok_known: "ref_ok X G e dir ref \<Longrightarrow> G (fm_number (fst ref)) \<noteq> None"
  by (auto simp: ref_ok_def table_ok_def)

definition chunk_ok :: "entry list \<Rightarrow> bool" where
  "chunk_ok c \<longleftrightarrow> table_fits c \<and> sorted_entries c \<and> c \<noteq> []"

text \<open>The tables that the workers have written hold the chunks, under new numbers.\<close>

definition outputs_hold :: "'m externs \<Rightarrow> ghost \<Rightarrow> 'm db \<Rightarrow> u64 \<Rightarrow> entry list list \<Rightarrow> (sstable_reader \<times> file_meta) list \<Rightarrow> bool" where
  "outputs_hold X G d n chunks outs \<longleftrightarrow> map (\<lambda>(rd, m). file_ents G m) outs = chunks \<and> distinct (map (\<lambda>(rd, m). fm_number m) outs) \<and>
     (\<forall>(rd, m)\<in>set outs. n \<le> fm_number m \<and> ref_ok X G (db_env d) (db_path d) (m, rd))"

lemma outputs_hold_stable:
  assumes "outputs_hold X G d n chunks outs" and "stable X G d G' d'"
  shows "outputs_hold X G' d' n chunks outs"
proof -
  have ok: "ref_ok X G (db_env d) (db_path d) (m, rd)" if "(rd, m) \<in> set outs" for rd m
    using assms(1) that unfolding outputs_hold_def by blast
  have "file_ents G' m = file_ents G m" if "(rd, m) \<in> set outs" for rd m
    using map_le_ents [OF stable_sel(1) [OF assms(2)]] ref_ok_known [OF ok [OF that]] by simp
  then have "map (\<lambda>(rd, m). file_ents G' m) outs = map (\<lambda>(rd, m). file_ents G m) outs" by auto
  moreover have "ref_ok X G' (db_env d') (db_path d') (m, rd)" if "(rd, m) \<in> set outs" for rd m
    using stable_ref_ok [OF assms(2) ok [OF that]] stable_sel(3) [OF assms(2)] by simp
  ultimately show ?thesis using assms(1) unfolding outputs_hold_def by auto
qed

lemma run_workers_ok:
  assumes X: "externals X" and "db_ok X G d" and "\<forall>c\<in>set chunks. chunk_ok c" and "unat (next_number d) + length chunks < 2 ^ 64"
    and "run_workers X chunks d = (rs, d')" and "\<And>n. next_number d \<le> n \<Longrightarrow> file_fits (db_env d') (table_path (db_path d) n)"
  shows "\<exists>G'. stable X G d G' d' \<and> vs_current (db_versions d') = vs_current (db_versions d) \<and>
    (healthy X d \<longrightarrow> healthy X d' \<and> (\<exists>outs. join_workers rs = Inr outs)) \<and>
    (\<forall>outs. join_workers rs = Inr outs \<longrightarrow> outputs_hold X G' d' (next_number d) chunks outs)"
  using assms(2-)
proof (induction chunks arbitrary: G d rs)
  case Nil
  then show ?case by (auto intro!: exI [of _ G] stable_refl simp: outputs_hold_def)
next
  case (Cons c chunks)
  let ?n = "next_number d"
  obtain r d1 where s1: "op_then db_allocate_file_number (\<lambda>n. write_compaction_output X n c) d = (r, d1)" by fastforce
  obtain rs' where rest: "run_workers X chunks d1 = (rs', d')" and rs: "rs = r # rs'"
    using Cons.prems(4) s1 by (auto split: prod.splits)
  have c: "table_fits c" "sorted_entries c" "c \<noteq> []" using Cons.prems(2) by (simp_all add: chunk_ok_def)
  have num: "unat ?n + 1 < 2 ^ 64" using Cons.prems(3) by simp
  have path1: "db_path d1 = db_path d" and next1: "next_number d1 = ?n + 1"
    using s1 unfolding write_compaction_output_def Let_def
    by (auto elim!: op_thenE simp: op_lift_def on_env_def metric_def on_tables_def db_allocate_file_number_def allocate_file_number_def
        split: prod.splits)
  have later: "table_path (db_path d) ?n \<noteq> table_path (db_path d1) (next_number d1 + word_of_nat i)" if "i < length chunks" for i
  proof -
    have "unat (?n + 1 + word_of_nat i) = unat ?n + 1 + i"
      using Cons.prems(3) that by (simp add: unat_word_ariths unat_of_nat)
    then have "?n \<noteq> ?n + 1 + word_of_nat i" by (metis add.assoc add_cancel_left_right add_is_0 one_neq_zero)
    then show ?thesis by (simp add: path1 next1)
  qed
  have "env_files (db_env d') (table_path (db_path d) ?n) = env_files (db_env d1) (table_path (db_path d) ?n)"
    by (rule run_workers_files [OF rest later]) (simp_all add: table_path_def path1)
  with Cons.prems(5) [of ?n] have "file_fits (db_env d1) (table_path (db_path d) ?n)" by (simp add: file_fits_def content_of_def)
  from worker_ok [OF X Cons.prems(1) c num s1 this] obtain G1 where G1: "stable X G d G1 d1"
    "vs_current (db_versions d1) = vs_current (db_versions d)" and h1: "healthy X d \<longrightarrow> healthy X d1 \<and> (\<exists>x. r = Inr x)"
    and held: "\<And>rd m. r = Inr (rd, m) \<Longrightarrow> fm_number m = ?n \<and> file_ents G1 m = c \<and> ref_ok X G1 (db_env d1) (db_path d) (m, rd)" by blast
  have less: "?n < ?n + 1" by (rule next_less [OF num])
  have "unat (next_number d1) + length chunks < 2 ^ 64" using Cons.prems(3) by (simp add: next1 unat_word_ariths)
  moreover have "file_fits (db_env d') (table_path (db_path d1) n)" if "next_number d1 \<le> n" for n
    using Cons.prems(5) [of n] order_trans [OF less_imp_le [OF less]] that by (simp add: path1 next1)
  ultimately obtain G2 where G2: "stable X G1 d1 G2 d'"
    "vs_current (db_versions d') = vs_current (db_versions d1)"
    and h2: "healthy X d1 \<longrightarrow> healthy X d' \<and> (\<exists>outs. join_workers rs' = Inr outs)"
    and rest_held: "\<And>outs. join_workers rs' = Inr outs \<Longrightarrow> outputs_hold X G2 d' (next_number d1) chunks outs"
    using Cons.IH [OF stable_sel(2) [OF G1(1)] _ _ rest] Cons.prems(2) by auto
  have "outputs_hold X G2 d' ?n (c # chunks) outs" if j: "join_workers rs = Inr outs" for outs
  proof -
    from j obtain rd m outs' where outs: "r = Inr (rd, m)" "join_workers rs' = Inr outs'" "outs = (rd, m) # outs'"
      by (auto simp: rs result_simps)
    note h = rest_held [OF outs(2)]
    have m: "outputs_hold X G1 d1 ?n [c] [(rd, m)]" using held [OF outs(1)] by (simp add: outputs_hold_def path1)
    from outputs_hold_stable [OF m G2(1)] have m': "file_ents G2 m = c" "ref_ok X G2 (db_env d') (db_path d') (m, rd)"
      by (simp_all add: outputs_hold_def)
    have ge: "?n < fm_number m'" if "(rd', m') \<in> set outs'" for rd' m'
      using h that less unfolding outputs_hold_def next1 by (auto dest: less_le_trans)
    have "fm_number m \<notin> (\<lambda>(rd, m). fm_number m) ` set outs'" using held [OF outs(1)] ge by fastforce
    with h m' held [OF outs(1)] ge show ?thesis by (auto simp: outs(3) outputs_hold_def intro: less_imp_le)
  qed
  moreover have "healthy X d \<longrightarrow> healthy X d' \<and> (\<exists>outs. join_workers rs = Inr outs)" using h1 h2 by (auto simp: rs result_simps)
  ultimately show ?case using stable_trans [OF G1(1) G2(1)] G1(2) G2(2) by auto
qed

lemma write_outputs_ok:
  assumes X: "externals X" and ok: "db_ok X G d" and num: "unat (next_number d) + max (max_subcompactions (db_options d)) 1 < 2 ^ 64"
    and es: "table_fits es" "sorted_entries es"
    and run: "write_compaction_outputs X es d = (r, d')" and fit: "\<And>n. next_number d \<le> n \<Longrightarrow> file_fits (db_env d') (table_path (db_path d) n)"
  shows "\<exists>G'. stable X G d G' d' \<and> vs_current (db_versions d') = vs_current (db_versions d) \<and>
    (healthy X d \<longrightarrow> healthy X d' \<and> (\<exists>outs. r = Inr outs)) \<and>
    (\<forall>outs. r = Inr outs \<longrightarrow> outputs_hold X G' d' (next_number d) (if es = [] then [] else
       split_compaction_entries es (target_file_size_base (db_options d)) (max_subcompactions (db_options d))) outs)"
proof (cases "es = []")
  case True
  with run ok show ?thesis by (auto simp: write_compaction_outputs_def outputs_hold_def intro!: exI [of _ G] stable_refl)
next
  case False
  let ?chunks = "split_compaction_entries es (target_file_size_base (db_options d)) (max_subcompactions (db_options d))"
  note split = split_compaction_parts [of es "target_file_size_base (db_options d)" "max_subcompactions (db_options d)"]
  obtain r1 d1 where s1: "metric (record_subcompaction_tasks (word_of_nat (length ?chunks))) d = (r1, d1)" by fastforce
  from keeps_metric [OF s1] have k: "keeps {} d d1" "db_versions d1 = db_versions d" "db_table_cache d1 = db_table_cache d"
    "db_env d1 = db_env d" "r1 = Inr ()" by blast+
  obtain rs where s2: "run_workers X ?chunks d1 = (rs, d')" "r = join_workers rs"
    using run False s1 k(5) by (auto simp: write_compaction_outputs_def Let_def op_then_Inr split: prod.splits)
  have chunk: "chunk_ok c" if "c \<in> set ?chunks" for c
  proof -
    from split_list [OF that] obtain xs ys where "?chunks = xs @ c # ys" by blast
    then have eq: "es = concat xs @ c @ concat ys" using split(1) by (metis concat.simps(2) concat_append)
    have "sorted_entries c" "table_fits c" using es by (simp_all add: eq sorted_wrt_append table_fits_def add_mult_distrib)
    then show ?thesis using that split(2) by (auto simp: chunk_ok_def)
  qed
  have ok1: "stable X G d G d1"
    using ok k by (intro keeps_stable [of X G d "{}" d1 0 "[]" G])
      (auto simp: grows_def db_ok_def readable_def manifest_ok_def numbered_def keeps_sel intro: keeps_caches_ok [OF k(1,3)])
  have num1: "unat (next_number d1) + length ?chunks < 2 ^ 64" using num split(3) k(2) by simp
  have fit1: "file_fits (db_env d') (table_path (db_path d1) n)" if "next_number d1 \<le> n" for n
    using fit that keeps_sel(1) [OF k(1)] k(2) by simp
  from run_workers_ok [OF X stable_sel(2) [OF ok1] _ num1 s2(1) fit1] chunk obtain G' where
    "stable X G d1 G' d'" "vs_current (db_versions d') = vs_current (db_versions d1)"
    "healthy X d1 \<longrightarrow> healthy X d' \<and> (\<exists>outs. join_workers rs = Inr outs)"
    "\<forall>outs. join_workers rs = Inr outs \<longrightarrow> outputs_hold X G' d' (next_number d1) ?chunks outs" by auto
  moreover have "healthy X d1 = healthy X d" using k(4) keeps_sel(2) [OF k(1)] by (simp add: healthy_def)
  ultimately show ?thesis using stable_trans [OF ok1] s2(2) k(2) False by auto
qed

subsection \<open>Logging and installing the new version\<close>

lemma log_edits_ok:
  assumes "log_edits X eds d = (r, d')" and "manifest_ok d"
  shows "keeps (meta_paths (db_path d)) d d' \<and> db_table_cache d' = db_table_cache d \<and> manifest_ok d' \<and>
    next_number d \<le> next_number d' \<and> (r = Inr () \<longrightarrow> apply_edits eds (db_versions d) = Inr (db_versions d'))"
  using assms
proof (induction eds arbitrary: d)
  case Nil
  then show ?case by (simp add: op_lift_def)
next
  case (Cons ed eds)
  obtain r1 d1 where s1: "db_log_and_apply X ed d = (r1, d1)" by fastforce
  from db_log_and_apply_ok [OF s1 Cons.prems(2)] have k: "keeps (meta_paths (db_path d)) d d1" "db_table_cache d1 = db_table_cache d"
    "manifest_ok d1" "next_number d \<le> next_number d1" by blast+
  show ?case
  proof (cases r1)
    case (Inl e)
    with Cons.prems(1) s1 k show ?thesis by (auto simp: op_then_Inl)
  next
    case (Inr u)
    have app: "apply_edit ed (db_versions d) = Inr (db_versions d1)"
      using s1 Inr by (auto simp: db_log_and_apply_def on_versions_def log_and_apply_state_def split: prod.splits sum.splits option.splits)
    have "log_edits X eds d1 = (r, d')" using Cons.prems(1) s1 Inr by (simp add: op_then_Inr)
    from Cons.IH [OF this k(3)] k app show ?thesis by (auto simp: keeps_sel(1) [OF k(1)] intro: keeps_trans)
  qed
qed

lemma log_edits_stable:
  assumes ok: "db_ok X G d" and run: "log_edits X eds d = (r, d')"
  shows "stable X G d G d'" and "r = Inr () \<longrightarrow> apply_edits eds (db_versions d) = Inr (db_versions d')"
proof -
  have m: "manifest_ok d" using ok by (simp add: db_ok_def)
  note l = log_edits_ok [OF run m]
  then have k: "keeps (meta_paths (db_path d)) d d'" "db_table_cache d' = db_table_cache d" "manifest_ok d'"
    "next_number d \<le> next_number d'" by blast+
  from l show "r = Inr () \<longrightarrow> apply_edits eds (db_versions d) = Inr (db_versions d')" by blast
  have "n < next_number d'" if "G n \<noteq> None" for n
  proof -
    have "n < next_number d" using ok that unfolding db_ok_def numbered_def by blast
    with k(4) show ?thesis by (blast intro: less_le_trans)
  qed
  then have "numbered G d'" by (simp add: numbered_def)
  moreover have "caches_ok X G d'"
    using keeps_caches_ok [OF k(1,2)] ok by (simp add: db_ok_def readable_def)
  ultimately show "stable X G d G d'"
    using k table_not_meta by (intro keeps_stable [OF ok, where n = 0 and es = "[]"]) (auto simp: grows_def)
qed

lemma refresh_cases:
  assumes caches: "caches_ok X G d"
    and tabs: "\<forall>f\<in>set (l0_files v). file_ok X G d f" "\<forall>fs\<in>set (levels v). \<forall>f\<in>set fs. file_ok X G d f"
    and v: "vs_current (db_versions d) = v" and run: "refresh_tables_from_version X d = (r, d')"
  obtains (fail) e where "r = Inl e" and "reads_to d d'" and "caches_ok X G d'" and "env_faults (db_env d) \<noteq> []"
  | (installed) d1 where "r = Inr ()" and "reads_to d d1" and "caches_ok X G d1"
      and "d' = d1\<lparr>db_l0_tables := map (the_ref G (db_path d)) (l0_files v), db_level_tables := map (map (the_ref G (db_path d))) (levels v)\<rparr>"
proof -
  obtain r1 d1 where s1: "on_tables (open_version_tables X (db_path d) v) d = (r1, d1)" by fastforce
  have t: "table_ok X G (db_env d) (db_path d) (fm_number f)" if "file_ok X G d f" for f
    using that by (simp add: file_ok_def ref_ok_def the_ref_def)
  have "yields X G (on_tables (open_version_tables X (db_path d) v)) d
      (map (the_ref G (db_path d)) (l0_files v), map (map (the_ref G (db_path d))) (levels v))"
    using caches tabs t by (intro yields_opens opens_version_tables) (auto simp: tables_ok_def caches_ok_readers)
  from yieldsD [OF this s1] have y: "reads_to d d1" "caches_ok X G d1"
    "r1 = Inr (map (the_ref G (db_path d)) (l0_files v), map (map (the_ref G (db_path d))) (levels v)) \<or>
      r1 = Inl (Io OtherIo) \<and> env_faults (db_env d) \<noteq> []" by auto
  from y(3) show ?thesis
  proof
    assume "r1 = Inl (Io OtherIo) \<and> env_faults (db_env d) \<noteq> []"
    with run s1 v y that(1) show ?thesis by (auto simp: refresh_tables_from_version_def op_then_def)
  next
    assume "r1 = Inr (map (the_ref G (db_path d)) (l0_files v), map (map (the_ref G (db_path d))) (levels v))"
    with run s1 v y that(2) show ?thesis by (auto simp: refresh_tables_from_version_def op_then_def)
  qed
qed

lemma delete_files_keeps:
  assumes "delete_obsolete_files ns d = (r, d')"
  shows "keeps (table_path (db_path d) ` set ns) d d' \<and> db_versions d' = db_versions d \<and> db_table_cache d' = db_table_cache d"
  using assms
proof (induction ns arbitrary: d)
  case (Cons n ns)
  let ?P = "table_path (db_path d) ` set (n # ns)"
  obtain r1 d1 where s1: "on_env (remove_file (path_join (db_path d) (table_file_name n))) d = (r1, d1)" by fastforce
  have "touches ?P (remove_file (path_join (db_path d) (table_file_name n)))"
    by (intro touch_intros) (simp add: table_path_def)
  from keeps_on_env [OF this s1] have k: "keeps ?P d d1" "db_versions d1 = db_versions d" "db_table_cache d1 = db_table_cache d" by blast+
  have "delete_obsolete_files ns d1 = (r, d') \<or> d' = d1"
    using Cons.prems s1 by (auto split: sum.splits error.splits io_kind.splits)
  then show ?case
  proof
    assume "delete_obsolete_files ns d1 = (r, d')"
    from Cons.IH [OF this] have "keeps (table_path (db_path d) ` set ns) d1 d'" "db_versions d' = db_versions d1"
      "db_table_cache d' = db_table_cache d1" by (simp_all add: keeps_sel(1) [OF k(1)])
    with k keeps_mono [of "table_path (db_path d) ` set ns" d1 d' ?P] show ?thesis by (auto intro: keeps_trans)
  qed (use k in simp)
qed simp

text \<open>Without faults the edits are logged when they apply, and the removal goes through.\<close>

lemma log_edits_calm:
  assumes "log_edits X eds d = (r, d')" and "env_faults (db_env d) = []" and "apply_edits eds (db_versions d) = Inr vs"
  shows "r = Inr () \<and> env_faults (db_env d') = []"
  using assms
proof (induction eds arbitrary: d)
  case (Cons ed eds)
  from Cons.prems(3) obtain vs1 where v: "apply_edit ed (db_versions d) = Inr vs1" "apply_edits eds vs1 = Inr vs" by (auto simp: result_simps)
  obtain d1 where s1: "db_log_and_apply X ed d = (Inr (), d1)" "env_faults (db_env d1) = []" by (rule log_edit_calm [OF Cons.prems(2) v(1)])
  have "db_versions d1 = vs1"
    using s1(1) v(1) by (auto simp: db_log_and_apply_def on_versions_def log_and_apply_state_def split: prod.splits sum.splits option.splits)
  with Cons.IH [of d1] Cons.prems(1) s1 v(2) show ?case by (simp add: op_then_Inr)
qed (simp add: op_lift_def)

lemma delete_files_calm: "delete_obsolete_files ns d = (r, d') \<Longrightarrow> env_faults (db_env d) = [] \<Longrightarrow> r = Inr () \<and> env_faults (db_env d') = []"
proof (induction ns arbitrary: d)
  case (Cons n ns)
  obtain r1 d1 where s1: "on_env (remove_file (path_join (db_path d) (table_file_name n))) d = (r1, d1)" by fastforce
  with Cons.prems(2) have "env_faults (db_env d1) = [] \<and> (r1 = Inr () \<or> r1 = Inl (Io NotFound))"
    by (auto simp: on_env_def remove_file_def faultable_def take_fault_def set_file_def split: option.splits)
  with Cons.IH [of d1] Cons.prems(1) s1 show ?case by auto
qed simp

subsection \<open>The files after the outputs are written\<close>

definition no_write :: "(env \<times> table_cache, 'a) op \<Rightarrow> bool" where
  "no_write m \<longleftrightarrow> (\<forall>e tc r e' tc'. m (e, tc) = (r, (e', tc')) \<longrightarrow> env_files e' = env_files e)"

lemma no_writeD: "no_write m \<Longrightarrow> m (e, tc) = (r, (e', tc')) \<Longrightarrow> env_files e' = env_files e"
  unfolding no_write_def by blast

lemma no_write_lift: "no_write (op_lift r)"
  by (simp add: no_write_def op_lift_def)

lemma no_write_then: "no_write m \<Longrightarrow> (\<And>x. no_write (f x)) \<Longrightarrow> no_write (op_then m f)"
  unfolding no_write_def by (auto elim!: op_thenE) metis+

lemma no_write_get_or_open: "no_write (get_or_open X n p)"
  unfolding no_write_def
proof (intro allI impI)
  fix e tc r e' tc' assume run: "get_or_open X n p (e, tc) = (r, (e', tc'))"
  obtain r1 e1 where o: "reader_open_with_env X p e = (r1, e1)" by fastforce
  have "env_files e1 = env_files e" using touchesD [OF touches_reader_open [of "{}" X p] o] by (auto simp: fun_eq_iff)
  with run o show "env_files e' = env_files e" by (auto simp: get_or_open_def split: option.splits sum.splits)
qed

lemma no_write_open_tables: "no_write (open_tables X dir fs)"
  by (induction fs) (auto intro!: no_write_then no_write_lift no_write_get_or_open)

lemma no_write_open_version: "no_write (open_version_tables X dir v)"
proof -
  have "no_write (open_levels X dir lvs)" for lvs
    by (induction lvs) (auto intro!: no_write_then no_write_lift no_write_open_tables)
  then show ?thesis unfolding open_version_tables_def by (intro no_write_then no_write_lift no_write_open_tables)
qed

lemma refresh_files:
  assumes "refresh_tables_from_version X d = (r, d')"
  shows "env_files (db_env d') = env_files (db_env d) \<and> db_path d' = db_path d"
proof -
  obtain r1 d1 where s1: "on_tables (open_version_tables X (db_path d) (vs_current (db_versions d))) d = (r1, d1)" by fastforce
  then have "env_files (db_env d1) = env_files (db_env d) \<and> db_path d1 = db_path d"
    by (auto simp: on_tables_def split: prod.splits dest: no_writeD [OF no_write_open_version])
  with assms s1 show ?thesis by (auto simp: refresh_tables_from_version_def op_then_def split: sum.splits)
qed

lemma write_outputs_writer:
  assumes "write_compaction_outputs X es d = (r, d')"
  shows "db_path d' = db_path d \<and> vs_manifest_writer (db_versions d') = vs_manifest_writer (db_versions d)"
proof -
  have worker: "db_path d2 = db_path d1 \<and> vs_manifest_writer (db_versions d2) = vs_manifest_writer (db_versions d1)"
    if "op_then db_allocate_file_number (\<lambda>n. write_compaction_output X n c) d1 = (x, d2)" for c x and d1 d2
    using that unfolding write_compaction_output_def Let_def
    by (auto elim!: op_thenE simp: op_lift_def on_env_def metric_def on_tables_def db_allocate_file_number_def allocate_file_number_def
        split: prod.splits)
  have "db_path d2 = db_path d1 \<and> vs_manifest_writer (db_versions d2) = vs_manifest_writer (db_versions d1)"
    if "run_workers X chunks d1 = (rs, d2)" for chunks rs and d1 d2
    using that by (induction chunks arbitrary: d1 rs) (auto split: prod.splits dest!: worker)
  with assms show ?thesis
    by (auto simp: write_compaction_outputs_def Let_def op_then_def metric_def split: if_splits prod.splits)
qed

abbreviation publish_compaction :: "'m externs \<Rightarrow> compaction_task \<Rightarrow> (sstable_reader \<times> file_meta) list \<Rightarrow> 'm db \<Rightarrow> bool result \<times> 'm db" where
  "publish_compaction X t outs \<equiv>
     op_then (log_edits X (map (delete_edit t) (all_input_files t) @ map (\<lambda>(_, meta). AddFile (ct_output_level t) meta) outs)) (\<lambda>_.
     op_then (refresh_tables_from_version X) (\<lambda>_.
     op_then (delete_obsolete_files (map fm_number (all_input_files t))) (\<lambda>_. op_lift (Inr True))))"

lemma publish_compaction_files:
  assumes "publish_compaction X t outs d = (r, d')" and "manifest_ok d" and "n \<notin> fm_number ` set (all_input_files t)"
  shows "env_files (db_env d') (table_path (db_path d) n) = env_files (db_env d) (table_path (db_path d) n)"
  using assms(1)
proof (cases rule: op_thenE)
  case (fail e)
  with log_edits_ok [OF fail(1) assms(2)] show ?thesis using table_not_meta keeps_sel(12) by blast
next
  case (ok x d1)
  from log_edits_ok [OF ok(1) assms(2)] have 1: "env_files (db_env d1) (table_path (db_path d) n) = env_files (db_env d) (table_path (db_path d) n)"
    "db_path d1 = db_path d" using table_not_meta keeps_sel(1,12) by blast+
  from ok(2) show ?thesis
  proof (cases rule: op_thenE)
    case (fail e)
    with refresh_files [OF fail(1)] 1 show ?thesis by simp
  next
    case (ok y d2)
    note 2 = refresh_files [OF ok(1)]
    obtain r3 d3 where s3: "delete_obsolete_files (map fm_number (all_input_files t)) d2 = (r3, d3)" by fastforce
    have "table_path (db_path d2) n \<notin> table_path (db_path d2) ` set (map fm_number (all_input_files t))" using assms(3) by auto
    with delete_files_keeps [OF s3] have "env_files (db_env d3) (table_path (db_path d2) n) = env_files (db_env d2) (table_path (db_path d2) n)"
      using keeps_sel(12) by blast
    moreover have "d' = d3" using ok(2) s3 by (auto simp: op_then_def op_lift_def split: sum.splits)
    ultimately show ?thesis using 1 2 by simp
  qed
qed

subsection \<open>The database between compactions\<close>

abbreviation current :: "'m db \<Rightarrow> version" where
  "current d \<equiv> vs_current (db_versions d)"

text \<open>The tables in memory are those of the version, which has room for a level below 0.\<close>

definition settled :: "'m externs \<Rightarrow> ghost \<Rightarrow> 'm db \<Rightarrow> bool" where
  "settled X G d \<longleftrightarrow> db_ok X G d \<and> tables_match d \<and> distinct_numbers (current d) \<and> 1 < length (levels (current d))"

lemma settled_levels:
  assumes "settled X G d"
  shows "db_l0_tables d = map (the_ref G (db_path d)) (l0_files (current d))"
    and "db_level_tables d = map (map (the_ref G (db_path d))) (levels (current d))"
  using readable_tables(3,4) [of X G d] assms by (simp_all add: settled_def db_ok_def readable_def)

lemma settled_file_ok:
  assumes "settled X G d" and "l < length (levels (current d))" and "f \<in> set (files_at (current d) l)"
  shows "file_ok X G d f"
proof -
  have "the_ref G (db_path d) f \<in> set (all_refs d)"
    using assms(2,3) by (auto simp: all_refs_def settled_levels [OF assms(1)] files_at_def split: if_splits)
  then show ?thesis using assms(1) by (auto simp: settled_def db_ok_def readable_def refs_ok_def file_ok_def)
qed

lemma settled_layers: "settled X G d \<Longrightarrow> layers X G d = mem_layers X d @ version_layers G (current d)"
  by (simp add: layers_def l0_layers_def level_layers_def version_layers_def settled_levels level_ents_def
      comp_def drop_map)

lemma file_ok_meta: "file_ok X G d f \<Longrightarrow> meta_of (file_ents G f) f \<and> sorted_entries (file_ents G f)"
  using ref_ok_sorted [of X G "db_env d" "db_path d" "the_ref G (db_path d) f"]
  by (simp add: file_ok_def ref_ok_def) (simp add: the_ref_def)

lemma settled_sound:
  assumes "settled X G d"
  shows "version_sound G (current d)" and "levels (current d) ! 0 = []" and "newest_first (mem_layers X d @ version_layers G (current d))"
    and "newest_first (version_layers G (current d))" and "distinct (l0_files (current d))"
proof -
  have refs: "refs_ok X G d" and lay: "layers_ok X G d" and len: "1 < length (levels (current d))"
    using assms by (simp_all add: settled_def db_ok_def readable_def)
  have fst_ref: "map fst (map (the_ref G (db_path d)) fs) = fs" for fs by (simp add: the_ref_def comp_def)
  have "level_disjoint (levels (current d) ! l)" if "l < length (levels (current d))" "0 < l" for l
  proof -
    have "map (the_ref G (db_path d)) (levels (current d) ! l) \<in> set (drop 1 (db_level_tables d))"
      using nth_mem [of "l - 1" "drop 1 (db_level_tables d)"] that by (simp add: settled_levels [OF assms])
    with refs have "level_disjoint (map fst (map (the_ref G (db_path d)) (levels (current d) ! l)))"
      by (auto simp: refs_ok_def list_all_iff)
    then show ?thesis unfolding fst_ref .
  qed
  with settled_file_ok [OF assms] file_ok_meta show sound: "version_sound G (current d)" unfolding version_sound_def by blast
  have "hd (db_level_tables d) \<in> set (take 1 (db_level_tables d))"
    using len by (cases "db_level_tables d") (auto simp: settled_levels [OF assms])
  with refs have "hd (db_level_tables d) = []" by (auto simp: refs_ok_def list_all_iff)
  with len show "levels (current d) ! 0 = []" by (cases "levels (current d)") (simp_all add: settled_levels [OF assms])
  show nf: "newest_first (mem_layers X d @ version_layers G (current d))"
    using lay by (simp add: layers_ok_def settled_layers [OF assms])
  then show nf': "newest_first (version_layers G (current d))" by (simp add: newest_first_append)
  have "newest_first (map (file_ents G) (l0_files (current d)))" using nf' by (simp add: version_layers_def newest_first_append)
  then have w: "sorted_wrt (\<lambda>f g. older_than (file_ents G g) (file_ents G f)) (l0_files (current d))"
    by (simp add: newest_first_def sorted_wrt_map)
  have ne: "file_ents G f \<noteq> []" if "f \<in> set (l0_files (current d))" for f
  proof -
    have "0 < length (levels (current d))" using len by linarith
    from file_ok_meta [OF settled_file_ok [OF assms this]] that show ?thesis by (simp add: files_at_def meta_of_def)
  qed
  show "distinct (l0_files (current d))"
    unfolding distinct_conv_nth
  proof (intro allI impI notI)
    fix i j assume ij: "i < length (l0_files (current d))" "j < length (l0_files (current d))" "i \<noteq> j"
      "l0_files (current d) ! i = l0_files (current d) ! j"
    have "older_than (file_ents G (l0_files (current d) ! i)) (file_ents G (l0_files (current d) ! i))"
      using sorted_wrt_nth_less [OF w, of i j] sorted_wrt_nth_less [OF w, of j i] ij by (cases "i < j") auto
    with ne [of "l0_files (current d) ! i"] ij(1) show False
      by (cases "file_ents G (l0_files (current d) ! i)") (auto simp: older_than_def)
  qed
qed

end
