(* ===== verification/Database_Compaction.thy ===== *)
theory Database_Compaction
  imports Compaction_Steps
begin

section \<open>Compactions of the database\<close>

text \<open>
  Whatever call of a compaction fails, the open database keeps answering every read at or
  above the watermark as before; a compaction that succeeds leaves the tables in memory and the
  version in agreement.
\<close>

subsection \<open>Installing the new tables\<close>

definition reads_as :: "'m externs \<Rightarrow> u64 \<Rightarrow> ghost \<Rightarrow> 'm db \<Rightarrow> ghost \<Rightarrow> 'm db \<Rightarrow> bool" where
  "reads_as X w G d G' d' \<longleftrightarrow> db_ok X G' d' \<and> db_path d' = db_path d \<and> db_options d' = db_options d \<and>
     db_mutable d' = db_mutable d \<and> db_immutables d' = db_immutables d \<and> db_last_sequence d' = db_last_sequence d \<and>
     db_closed d' = db_closed d \<and> db_watermark d' = db_watermark d \<and>
     set (db_entries X G' d') \<subseteq> set (db_entries X G d) \<and>
     (\<forall>k s. w \<le> s \<longrightarrow> visible_value (lookup_at (db_entries X G' d') k s) = visible_value (lookup_at (db_entries X G d) k s))"

lemma stable_reads_as:
  assumes "stable X G d G' d'" and "settled X G d"
  shows "reads_as X w G d G' d'"
proof -
  have "layers X G' d' = layers X G d"
    using assms by (intro stable_layers) (simp_all add: settled_def db_ok_def readable_def)
  with stable_sel [OF assms(1)] show ?thesis by (simp add: reads_as_def db_entries_def)
qed

lemma stable_file_ok: "stable X G d G' d' \<Longrightarrow> file_ok X G d f \<Longrightarrow> file_ok X G' d' f"
proof -
  assume st: "stable X G d G' d'" and f: "file_ok X G d f"
  have r: "ref_ok X G' (db_env d') (db_path d) (the_ref G (db_path d) f)"
    using stable_ref_ok [OF st] f by (simp add: file_ok_def)
  have "the_ref G' (db_path d) f = the_ref G (db_path d) f" using ref_ok_the [OF r] by (simp add: the_ref_def)
  with r stable_sel(3) [OF st] show "file_ok X G' d' f" by (simp add: file_ok_def)
qed

text \<open>The facts about a compaction whose outputs are written and logged.\<close>

definition written_out :: "'m externs \<Rightarrow> ghost \<Rightarrow> 'm db \<Rightarrow> compaction_task \<Rightarrow> file_meta list \<Rightarrow> ghost \<Rightarrow> 'm db \<Rightarrow> bool" where
  "written_out X G d t outs G' d' \<longleftrightarrow> stable X G d G' d' \<and> moved (current d) t outs (current d') \<and>
     levels (current d') ! 0 = levels (current d) ! 0 \<and> outputs_ok G G' t outs \<and> distinct (map fm_number outs) \<and>
     (\<forall>m\<in>set outs. file_ok X G' d' m) \<and>
     (\<forall>m\<in>set outs. \<forall>l<length (levels (current d)). \<forall>f\<in>set (files_at (current d) l). fm_number f = fm_number m \<longrightarrow> f \<in> set (all_input_files t))"

lemma file_ok_known: "file_ok X G d f \<Longrightarrow> G (fm_number f) \<noteq> None"
  using ref_ok_known [of X G "db_env d" "db_path d" "the_ref G (db_path d) f"] by (simp add: file_ok_def) (simp add: the_ref_def)

lemma settled_agrees:
  assumes "settled X G d" and "stable X G d G' d'"
  shows "agrees G G' (current d)"
  unfolding agrees_def
proof (intro allI impI ballI)
  fix l f assume "l < length (levels (current d))" "f \<in> set (files_at (current d) l)"
  from file_ok_known [OF settled_file_ok [OF assms(1) this]] have "G (fm_number f) \<noteq> None" .
  from map_le_ents [OF stable_sel(1) [OF assms(2)] this] show "file_ents G' f = file_ents G f" .
qed

lemma written_out_file_ok:
  assumes "settled X G d" and "task_ok (current d) t" and "written_out X G d t outs G' d'"
    and "l < length (levels (current d'))" and "f \<in> set (files_at (current d') l)"
  shows "file_ok X G' d' f"
proof -
  from assms(3) have mv: "moved (current d) t outs (current d')" and st: "stable X G d G' d'"
    and outs: "\<forall>m\<in>set outs. file_ok X G' d' m" by (simp_all add: written_out_def)
  have l: "l < length (levels (current d))" using mv assms(4) by (simp add: moved_def)
  from moved_files [OF mv assms(2) l assms(5)] settled_file_ok [OF assms(1) l] stable_file_ok [OF st] outs show ?thesis by blast
qed

lemma install_ok:
  assumes set: "settled X G d" and t: "task_ok (current d) t" "whole_l0 (current d) t" and w: "written_out X G d t outs G' d'"
    and d2: "d2 = d'\<lparr>db_l0_tables := map (the_ref G' (db_path d)) (l0_files (current d')),
      db_level_tables := map (map (the_ref G' (db_path d))) (levels (current d'))\<rparr>"
  shows "settled X G' d2" and "layers X G' d2 = mem_layers X d @ version_layers G' (current d')"
proof -
  let ?v = "current d" and ?v' = "current d'" and ?dir = "db_path d"
  from w have st: "stable X G d G' d'" and mv: "moved ?v t outs ?v'" and z: "levels ?v' ! 0 = levels ?v ! 0"
    and outs: "outputs_ok G G' t outs" and dn: "distinct (map fm_number outs)" by (simp_all add: written_out_def)
  note sel = stable_sel [OF st] and agree = settled_agrees [OF set st] and old = settled_sound [OF set]
  have ok': "db_ok X G' d'" by (rule sel(2))
  have len: "length (levels ?v') = length (levels ?v)" "1 < length (levels ?v)" using mv set by (simp_all add: moved_def settled_def)
  have sound: "version_sound G' ?v'" by (rule moved_sound [OF mv t(1) agree old(1) outs])
  have files: "file_ok X G' d' f" if "l < length (levels ?v')" "f \<in> set (files_at ?v' l)" for l f
    by (rule written_out_file_ok [OF set t(1) w that])
  have fst_ref: "map fst (map (the_ref G' ?dir) fs) = fs" for fs by (simp add: the_ref_def comp_def)
  have m: "mem_layers X d2 = mem_layers X d" by (simp add: mem_layers_def d2 sel)
  show lay: "layers X G' d2 = mem_layers X d @ version_layers G' ?v'"
    unfolding layers_def m by (simp add: l0_layers_def level_layers_def version_layers_def d2 level_ents_def comp_def drop_map)
  have l0: "levels ?v' ! 0 = []" using z old(2) by simp
  have refs: "refs_ok X G' d2"
    unfolding refs_ok_def
  proof (intro conjI ballI)
    fix ref assume "ref \<in> set (all_refs d2)"
    then consider f where "ref = the_ref G' ?dir f" "f \<in> set (l0_files ?v')"
      | f fs where "ref = the_ref G' ?dir f" "f \<in> set fs" "fs \<in> set (levels ?v')" by (auto simp: all_refs_def d2)
    then show "ref_ok X G' (db_env d2) (db_path d2) ref"
    proof cases
      case 1
      have "0 < length (levels ?v')" using len by linarith
      from files [OF this, of f] 1 show ?thesis by (simp add: files_at_def file_ok_def d2 sel)
    next
      case 2
      then obtain l where "l < length (levels ?v')" "fs = levels ?v' ! l" by (auto simp: in_set_conv_nth)
      with 2 files [of l f] l0 show ?thesis by (cases "l = 0") (auto simp: files_at_def file_ok_def d2 sel)
    qed
  next
    show "list_all (\<lambda>level. level_disjoint (map fst level)) (drop 1 (db_level_tables d2))"
      using sound by (auto simp: list_all_length d2 fst_ref version_sound_def simp del: map_map)
    show "list_all (\<lambda>level. level = []) (take 1 (db_level_tables d2))"
      using l0 len by (cases "levels ?v'") (simp_all add: d2)
  qed
  have "layered (layers X G' d2) (db_last_sequence d2)"
    unfolding lay using moved_layered [OF mv t(1) agree old(1) t(2), of "mem_layers X d" "db_last_sequence d"] outs set
    by (simp add: outputs_ok_def settled_def db_ok_def readable_def layers_ok_layered settled_layers [OF set] d2 sel)
  then have "readable X G' d2"
    using ok' refs by (simp add: readable_def layers_ok_layered db_ok_def d2 mems_ok_def caches_ok_def)
  then have "db_ok X G' d2" using ok' by (simp add: db_ok_def d2 wal_ok_def manifest_ok_def numbered_def)
  moreover have "tables_match d2" by (simp add: tables_match_def d2 fst_ref comp_def the_ref_def)
  moreover have "distinct_numbers ?v'"
    using moved_distinct [OF mv t(1) _ dn] set w by (simp add: settled_def written_out_def)
  ultimately show "settled X G' d2" using len by (simp add: settled_def d2)
qed

subsection \<open>Removing the inputs\<close>

lemma removed_ok:
  assumes set: "settled X G d" and run: "delete_obsolete_files ns d = (r, d')"
    and keep: "\<And>l f. l < length (levels (current d)) \<Longrightarrow> f \<in> set (files_at (current d) l) \<Longrightarrow> fm_number f \<notin> set ns"
  shows "settled X G d'" and "layers X G d' = layers X G d" and "keeps (table_path (db_path d) ` set ns) d d'"
proof -
  from delete_files_keeps [OF run] have k: "keeps (table_path (db_path d) ` set ns) d d'" "db_versions d' = db_versions d"
    "db_table_cache d' = db_table_cache d" by blast+
  show "keeps (table_path (db_path d) ` set ns) d d'" by (rule k(1))
  show lay: "layers X G d' = layers X G d" by (rule keeps_layers(2) [OF k(1)])
  from set have ok: "db_ok X G d" by (simp add: settled_def)
  then have o: "readable X G d" "wal_ok d" "manifest_ok d" "numbered G d" by (simp_all add: db_ok_def)
  note lv = settled_levels [OF set]
  have "ref_ok X G (db_env d') (db_path d') ref" if "ref \<in> set (all_refs d)" for ref
  proof -
    have r: "ref_ok X G (db_env d) (db_path d) ref" using o(1) that by (simp add: readable_def refs_ok_def)
    have "\<exists>l<length (levels (current d)). fst ref \<in> set (files_at (current d) l)"
    proof -
      have "0 < length (levels (current d))" using set unfolding settled_def by linarith
      then have a: ?thesis if "fst ref \<in> set (l0_files (current d))" using that by (auto simp: files_at_def)
      have b: ?thesis if "fs \<in> set (levels (current d))" "fst ref \<in> set fs" for fs
      proof -
        from that obtain l where l: "l < length (levels (current d))" "fs = levels (current d) ! l" by (auto simp: in_set_conv_nth)
        have "l \<noteq> 0" using that(2) l(2) settled_sound(2) [OF set] by (intro notI) simp
        with l that(2) show ?thesis by (intro exI [of _ l]) (simp add: files_at_def)
      qed
      from that consider "fst ref \<in> set (l0_files (current d))" | fs where "fs \<in> set (levels (current d))" "fst ref \<in> set fs"
        by (auto simp: all_refs_def lv the_ref_def)
      then show ?thesis using a b by cases
    qed
    then have "fm_number (fst ref) \<notin> set ns" using keep by blast
    then have "table_path (db_path d) (fm_number (fst ref)) \<notin> table_path (db_path d) ` set ns" by auto
    from keeps_sel(12) [OF k(1) this] have "ref_ok X G (db_env d') (db_path d) ref" by (intro ref_ok_grown [OF r]) simp_all
    then show ?thesis by (simp add: keeps_sel(1) [OF k(1)])
  qed
  then have "refs_ok X G d'"
    using o(1) by (simp add: readable_def refs_ok_def keeps_layers(5) [OF k(1)] keeps_sel(6) [OF k(1)])
  moreover have "caches_ok X G d'" using keeps_caches_ok [OF k(1,3)] o(1) by (simp add: readable_def)
  ultimately have "readable X G d'" using o(1) keeps_layers(1,4) [OF k(1)] by (simp add: readable_def)
  then have "db_ok X G d'"
    using o keeps_sel(1,11) [OF k(1)] by (simp add: db_ok_def wal_ok_def manifest_ok_def numbered_def k(2))
  then show "settled X G d'" using set keeps_sel(5,6) [OF k(1)] by (simp add: settled_def tables_match_def k(2))
qed

lemma written_out_no_inputs:
  assumes set: "settled X G d" and t: "task_ok (current d) t" and w: "written_out X G d t outs G' d'"
    and new: "\<forall>m\<in>set outs. G (fm_number m) = None"
    and l: "l < length (levels (current d'))" and f: "f \<in> set (files_at (current d') l)"
  shows "fm_number f \<notin> fm_number ` set (all_input_files t)"
proof
  note T = task_okD [OF t]
  from w have mv: "moved (current d) t outs (current d')" by (simp add: written_out_def)
  have l': "l < length (levels (current d))" using mv l by (simp add: moved_def)
  assume "fm_number f \<in> fm_number ` set (all_input_files t)"
  then obtain i where i: "i \<in> set (all_input_files t)" "fm_number f = fm_number i" by auto
  then consider "i \<in> set (ct_input_files t)" "i \<in> set (files_at (current d) (ct_input_level t))"
    | "i \<in> set (ct_overlap_files t)" "i \<in> set (files_at (current d) (ct_output_level t))"
    using T(4,5) by (auto simp: all_input_files_def)
  then obtain j where j: "j < length (levels (current d))" "i \<in> set (files_at (current d) j)"
    "j = ct_input_level t \<and> i \<in> set (ct_input_files t) \<or> j = ct_output_level t \<and> i \<in> set (ct_overlap_files t)"
    using T(2,3) by cases auto
  have dn: "distinct_numbers (current d)" using set by (simp add: settled_def)
  from moved_files [OF mv t l' f] show False
  proof
    assume "f \<in> set (files_at (current d) l) \<and> (l = ct_input_level t \<longrightarrow> f \<notin> set (ct_input_files t)) \<and>
      (l = ct_output_level t \<longrightarrow> f \<notin> set (ct_overlap_files t))"
    with distinct_numbersD [OF dn _ j(2) i(2) l' j(1)] j(3) show False by blast
  next
    assume "l = ct_output_level t \<and> f \<in> set outs"
    with new have "G (fm_number i) = None" by (simp add: i(2) [symmetric])
    with file_ok_known [OF settled_file_ok [OF set j(1,2)]] show False by simp
  qed
qed

lemma outputs_hold_ok:
  assumes h: "outputs_hold X G' d' n chunks outs" and c: "concat chunks = compact_entries (input_ents G t) w dt"
    and srt: "sorted_wrt keys_before chunks"
  shows "outputs_ok G G' t (map snd outs)" and "set (level_ents G' (map snd outs)) = set (compact_entries (input_ents G t) w dt)"
    and "distinct (map fm_number (map snd outs))" and "\<forall>m\<in>set (map snd outs). file_ok X G' d' m \<and> n \<le> fm_number m"
proof -
  let ?ms = "map snd outs"
  from h have m: "map (file_ents G') ?ms = chunks" and d: "distinct (map fm_number ?ms)"
    and r: "\<And>rd m. (rd, m) \<in> set outs \<Longrightarrow> n \<le> fm_number m \<and> ref_ok X G' (db_env d') (db_path d') (m, rd)"
    by (auto simp: outputs_hold_def case_prod_beta' comp_def)
  show "distinct (map fm_number (map snd outs))" by (rule d)
  show ok: "\<forall>m\<in>set ?ms. file_ok X G' d' m \<and> n \<le> fm_number m"
    using r ref_ok_the [of X G' "db_env d'" "db_path d'"] by (fastforce simp: file_ok_def)
  have "level_ents G' ?ms = compact_entries (input_ents G t) w dt" using m c by (simp add: level_ents_def)
  then show s: "set (level_ents G' ?ms) = set (compact_entries (input_ents G t) w dt)" by simp
  have "set (compact_entries (input_ents G t) w dt) \<subseteq> set (input_ents G t)"
    using set_compact_loop_subset by (fastforce simp: compact_entries_def)
  moreover have "sorted_wrt (\<lambda>a b. keys_before (file_ents G' a) (file_ents G' b)) ?ms"
    using srt unfolding m [symmetric] sorted_wrt_map .
  ultimately show "outputs_ok G G' t ?ms"
    using ok file_ok_meta s sorted_wrt_pairE [of "\<lambda>a b. keys_before (file_ents G' a) (file_ents G' b)" ?ms]
    unfolding outputs_ok_def keys_before_def by blast
qed

subsection \<open>The rewrite\<close>

text \<open>What a task and the database have to satisfy; the picker and the size of the store see to it.\<close>

definition entries_fit :: "entry set \<Rightarrow> bool" where
  "entries_fit S \<longleftrightarrow> (\<forall>e\<in>S. entry_ok e) \<and> card S * DEFAULT_BITS_PER_KEY < 2 ^ 32"

definition can_compact :: "'m externs \<Rightarrow> ghost \<Rightarrow> 'm db \<Rightarrow> compaction_task \<Rightarrow> bool \<Rightarrow> bool" where
  "can_compact X G d t dt \<longleftrightarrow> externals X \<and> settled X G d \<and> task_ok (current d) t \<and> whole_l0 (current d) t \<and>
     distinct (ct_input_files t) \<and> distinct (ct_overlap_files t) \<and> (dt \<longrightarrow> nothing_below (current d) t) \<and>
     (max_subcompactions (db_options d) \<le> 1 \<or> [] \<notin> (user_key \<circ> fst) ` set (db_entries X G d)) \<and>
     entries_fit (set (db_entries X G d)) \<and> unat (next_number d) + max (max_subcompactions (db_options d)) 1 < 2 ^ 64"

lemma can_compact_inputs:
  assumes "can_compact X G d t dt"
  shows "set (input_ents G t) \<subseteq> set (db_entries X G d)" and "distinct (map fst (input_ents G t))"
    and "sorted_entries (compact_entries (input_ents G t) w b)" and "table_fits (compact_entries (input_ents G t) w b)"
    and "\<forall>f\<in>set (all_input_files t). file_ok X G d f"
proof -
  from assms have set: "settled X G d" and t: "task_ok (current d) t" and dist: "distinct (ct_input_files t)" "distinct (ct_overlap_files t)"
    and fits: "entries_fit (set (db_entries X G d))" by (simp_all add: can_compact_def)
  note T = task_okD [OF t] and old = settled_sound [OF set]
  show files: "\<forall>f\<in>set (all_input_files t). file_ok X G d f"
    using settled_file_ok [OF set T(3)] settled_file_ok [OF set T(2)] T(4,5) by (auto simp: all_input_files_def)
  have "set (level_ents G (ct_input_files t)) \<subseteq> set (level_ents G (files_at (current d) (ct_input_level t)))"
    unfolding set_level_ents using T(4) by (intro UN_mono) auto
  also have "\<dots> = set (concat (input_layers G (current d) t))" by (simp add: level_ents_def input_layers_def files_at_def)
  finally have "set (level_ents G (ct_input_files t)) \<subseteq> set (concat (input_layers G (current d) t))" .
  moreover have "set (level_ents G (ct_overlap_files t)) \<subseteq> set (level_ents G (levels (current d) ! ct_output_level t))"
    unfolding set_level_ents using T(5,6) by (intro UN_mono) auto
  ultimately show sub: "set (input_ents G t) \<subseteq> set (db_entries X G d)"
    unfolding set_input_ents db_entries_def settled_layers [OF set] version_layers_split [OF T(1,2)] by auto
  show d: "distinct (map fst (input_ents G t))"
    using set by (intro distinct_inputs [OF old(4,1) t _ dist]) (simp add: settled_def)
  show srt: "sorted_entries (compact_entries (input_ents G t) w b)" by (rule sorted_compact_entries [OF d])
  have c: "set (compact_entries (input_ents G t) w b) \<subseteq> set (db_entries X G d)"
    using set_compact_loop_subset sub by (fastforce simp: compact_entries_def)
  have "distinct (compact_entries (input_ents G t) w b)" using srt by (simp add: strict_sorted_iff distinct_map)
  then have "length (compact_entries (input_ents G t) w b) = card (set (compact_entries (input_ents G t) w b))"
    by (simp add: distinct_card)
  also have "\<dots> \<le> card (set (db_entries X G d))" by (rule card_mono) (use c in auto)
  finally have "length (compact_entries (input_ents G t) w b) * DEFAULT_BITS_PER_KEY \<le> card (set (db_entries X G d)) * DEFAULT_BITS_PER_KEY"
    by (rule mult_le_mono1)
  from le_less_trans [OF this] fits c show "table_fits (compact_entries (input_ents G t) w b)"
    unfolding table_fits_def list_all_iff entries_fit_def by blast
qed

lemma input_number_old:
  assumes "can_compact X G d t dt" and "next_number d \<le> n"
  shows "n \<notin> fm_number ` set (all_input_files t)"
proof
  assume "n \<in> fm_number ` set (all_input_files t)"
  then obtain f where f: "f \<in> set (all_input_files t)" "n = fm_number f" by blast
  have "G n \<noteq> None"
    using can_compact_inputs(5) [OF assms(1)] f file_ok_known by blast
  with assms have "n < next_number d" unfolding can_compact_def settled_def db_ok_def numbered_def by blast
  with assms(2) show False by simp
qed

text \<open>Logging the edits and installing the new version, from the state in which the outputs are written.\<close>

lemma log_and_refresh_outcome:
  assumes set: "settled X G d" and t: "task_ok (current d) t" and st: "stable X G d G2 d2" and cur: "current d2 = current d"
    and outs: "outputs_ok G G2 t outs" "distinct (map fm_number outs)" "\<forall>m\<in>set outs. file_ok X G2 d2 m"
    and fresh: "\<forall>m\<in>set outs. \<forall>l<length (levels (current d)). \<forall>f\<in>set (files_at (current d) l).
      fm_number f = fm_number m \<longrightarrow> f \<in> set (all_input_files t)"
    and run: "op_then (log_edits X (map (delete_edit t) (all_input_files t) @ map (AddFile (ct_output_level t)) outs)) (\<lambda>_.
      refresh_tables_from_version X) d2 = (r, d4)"
  obtains (fail) e where "r = Inl e" and "stable X G d G2 d4" and "env_faults (db_env d2) \<noteq> []"
  | (installed) d5 where "r = Inr ()" and "written_out X G d t outs G2 d5"
      and "d4 = d5\<lparr>db_l0_tables := map (the_ref G2 (db_path d)) (l0_files (current d5)),
        db_level_tables := map (map (the_ref G2 (db_path d))) (levels (current d5))\<rparr>"
      and "env_faults (db_env d2) = [] \<longrightarrow> env_faults (db_env d4) = []"
proof -
  let ?eds = "map (delete_edit t) (all_input_files t) @ map (AddFile (ct_output_level t)) outs"
  obtain r3 d3 where s3: "log_edits X ?eds d2 = (r3, d3)" by fastforce
  note l = log_edits_stable [OF stable_sel(2) [OF st] s3]
  have st3: "stable X G d G2 d3" by (rule stable_trans [OF st l(1)])
  have ok3: "db_ok X G2 d3" by (rule stable_sel(2) [OF st3])
  obtain vs' where vs': "apply_edits ?eds (db_versions d2) = Inr vs'" "moved (current d2) t outs (vs_current vs')"
    "levels (vs_current vs') ! 0 = levels (current d2) ! 0"
    using compaction_edits [of "db_versions d2" t G outs] t set settled_sound(1) [OF set] outs(2) fresh cur
    by (auto simp: settled_def)
  note calm3 = log_edits_calm [OF s3 _ vs'(1)]
  show ?thesis
  proof (cases r3)
    case (Inl e)
    with run s3 have "r = Inl e" "d4 = d3" by (simp_all add: op_then_Inl)
    with that(1) st3 calm3 Inl show ?thesis by auto
  next
    case (Inr u)
    with vs' l(2) Inr have v3: "db_versions d3 = vs'" by simp
    have w3: "written_out X G d t outs G2 d3"
      unfolding written_out_def using st3 vs'(2,3) v3 cur outs fresh stable_file_ok [OF l(1)] by auto
    have files: "file_ok X G2 d3 f" if "i < length (levels (current d3))" "f \<in> set (files_at (current d3) i)" for i f
      by (rule written_out_file_ok [OF set t w3 that])
    have len3: "0 < length (levels (current d3))" and z3: "levels (current d3) ! 0 = []"
      using vs'(2,3) v3 cur set settled_sound(2) [OF set] by (auto simp: moved_def settled_def)
    have f1: "\<forall>f\<in>set (l0_files (current d3)). file_ok X G2 d3 f" using files [OF len3] by (simp add: files_at_def)
    have f2: "\<forall>fs\<in>set (levels (current d3)). \<forall>f\<in>set fs. file_ok X G2 d3 f"
    proof (intro ballI)
      fix fs f assume "fs \<in> set (levels (current d3))" "f \<in> set fs"
      then obtain i where i: "i < length (levels (current d3))" "f \<in> set (levels (current d3) ! i)" by (auto simp: in_set_conv_nth)
      then have "i \<noteq> 0" using z3 by (intro notI) simp
      with files [OF i(1)] i(2) show "file_ok X G2 d3 f" by (simp add: files_at_def)
    qed
    have caches3: "caches_ok X G2 d3" using ok3 by (simp add: db_ok_def readable_def)
    have s4: "refresh_tables_from_version X d3 = (r, d4)" using run s3 Inr by (simp add: op_then_Inr)
    from caches3 f1 f2 refl s4 show ?thesis
    proof (cases rule: refresh_cases)
      case (fail e)
      from that(1) [OF fail(1) stable_trans [OF st3 reads_to_stable [OF ok3 fail(2,3)]]] fail(4) calm3 show ?thesis by blast
    next
      case (installed d5)
      note st5 = stable_trans [OF st3 reads_to_stable [OF ok3 installed(2,3)]]
      have v5: "current d5 = current d3" "db_path d3 = db_path d"
        using reads_to_sel(9) [OF installed(2)] stable_sel(3) [OF st3] by simp_all
      have "written_out X G d t outs G2 d5"
        using w3 st5 file_ok_reads_to [OF installed(2), of X G2] by (simp add: written_out_def v5)
      moreover have "env_faults (db_env d2) = [] \<longrightarrow> env_faults (db_env d4) = []"
        using calm3 installed(2,4) by (auto simp: reads_to_def)
      ultimately show ?thesis using that(2) [OF installed(1)] installed(4) by (simp add: v5)
    qed
  qed
qed

lemma publish_compaction_outcome:
  assumes c: "can_compact X G d t dt" and st: "stable X G d G2 d2" and cur: "current d2 = current d"
    and h: "outputs_hold X G2 d2 (next_number d) chunks outs" and chunks: "concat chunks = compact_entries (input_ents G t) w dt"
      "sorted_wrt keys_before chunks"
    and run: "publish_compaction X t outs d2 = (r, d')"
  shows "\<exists>G'. reads_as X w G d G' d' \<and> (\<forall>b. r = Inr b \<longrightarrow> settled X G' d') \<and> (env_faults (db_env d2) = [] \<longrightarrow> (\<exists>b. r = Inr b))"
proof -
  from c have set: "settled X G d" and t: "task_ok (current d) t" "whole_l0 (current d) t" and dt: "dt \<longrightarrow> nothing_below (current d) t"
    by (simp_all add: can_compact_def)
  let ?ms = "map snd outs"
  note o = outputs_hold_ok [OF h chunks]
  have new: "\<forall>m\<in>set ?ms. G (fm_number m) = None"
  proof
    fix m assume "m \<in> set ?ms"
    with o(4) have "next_number d \<le> fm_number m" by blast
    with set show "G (fm_number m) = None" unfolding settled_def db_ok_def numbered_def by (metis not_le)
  qed
  have fresh: "\<forall>m\<in>set ?ms. \<forall>l<length (levels (current d)). \<forall>f\<in>set (files_at (current d) l).
      fm_number f = fm_number m \<longrightarrow> f \<in> set (all_input_files t)"
    using file_ok_known [OF settled_file_ok [OF set]] new by metis
  have adds: "map (\<lambda>(_, meta). AddFile (ct_output_level t) meta) outs = map (AddFile (ct_output_level t)) ?ms" by (simp add: case_prod_beta')
  let ?m = "op_then (log_edits X (map (delete_edit t) (all_input_files t) @ map (AddFile (ct_output_level t)) ?ms)) (\<lambda>_.
      refresh_tables_from_version X)"
  let ?k = "op_then (delete_obsolete_files (map fm_number (all_input_files t))) (\<lambda>_. op_lift (Inr True))"
  have run': "op_then ?m (\<lambda>_. ?k) d2 = (r, d')" using run unfolding op_then_assoc adds .
  obtain r4 d4 where s4: "?m d2 = (r4, d4)" by fastforce
  have files: "\<forall>m\<in>set ?ms. file_ok X G2 d2 m" using o(4) by blast
  from set t(1) st cur o(1,3) files fresh s4 show ?thesis
  proof (cases rule: log_and_refresh_outcome)
    case (fail e)
    with run' s4 stable_reads_as [OF fail(2) set] show ?thesis by (auto simp: op_then_Inl)
  next
    case (installed d5)
    note w5 = installed(2) and d4 = installed(3) and i = install_ok [OF set t installed(2,3)]
    obtain r6 d6 where s6: "delete_obsolete_files (map fm_number (all_input_files t)) d4 = (r6, d6)" by fastforce
    have "fm_number f \<notin> set (map fm_number (all_input_files t))"
      if "j < length (levels (current d4))" "f \<in> set (files_at (current d4) j)" for j f
      using written_out_no_inputs [OF set t(1) w5 new] that by (simp add: d4)
    then have rem: "settled X G2 d6" "layers X G2 d6 = layers X G2 d4"
      "keeps (table_path (db_path d4) ` set (map fm_number (all_input_files t))) d4 d6" using removed_ok [OF i(1) s6] by blast+
    have d': "d' = d6" using run' s4 installed(1) s6 by (auto simp: op_then_Inr op_then_def op_lift_def split: sum.splits)
    have mv: "moved (current d) t ?ms (current d5)" and st5: "stable X G d G2 d5" using w5 by (simp_all add: written_out_def)
    have "visible_value (lookup_at (db_entries X G2 d') k s) = visible_value (lookup_at (db_entries X G d) k s)" if "w \<le> s" for k s
      using moved_reads [OF mv t(1) settled_agrees [OF set st5] settled_sound(1) [OF set] t(2) _ dt that o(2),
          of "mem_layers X d" "db_last_sequence d" k] set
      by (simp add: db_entries_def d' rem(2) i(2) settled_layers [OF set] settled_def db_ok_def readable_def layers_ok_layered)
    moreover have "set (db_entries X G2 d') \<subseteq> set (db_entries X G d)"
    proof -
      have "set (compact_entries (input_ents G t) w dt) \<subseteq> set (input_ents G t)"
        using set_compact_loop_subset by (fastforce simp: compact_entries_def)
      then show ?thesis
        unfolding db_entries_def d' rem(2) i(2) settled_layers [OF set] moved_sets [OF mv t(1) settled_agrees [OF set st5]] o(2) by blast
    qed
    ultimately have "reads_as X w G d G2 d'"
      using rem(1) keeps_sel [OF rem(3)] stable_sel [OF st5] unfolding reads_as_def settled_def d' by (simp add: d4)
    moreover have "env_faults (db_env d2) = [] \<longrightarrow> (\<exists>b. r = Inr b)"
      using run' s4 installed(1,4) s6 delete_files_calm [OF s6] by (auto simp: op_then_Inr op_lift_def)
    ultimately show ?thesis using rem(1) unfolding d' by blast
  qed
qed

lemma rewrite_outcome:
  assumes c: "can_compact X G d t dt" and run: "rewrite_compaction X t w dt d = (r, d')"
    and fit: "\<And>n. next_number d \<le> n \<Longrightarrow> file_fits (db_env d') (table_path (db_path d) n)"
  shows "\<exists>G'. reads_as X w G d G' d' \<and> (\<forall>b. r = Inr b \<longrightarrow> settled X G' d') \<and> (healthy X d \<longrightarrow> (\<exists>b. r = Inr b))"
proof -
  from c have X: "externals X" and set: "settled X G d" and ok: "db_ok X G d" and caches: "caches_ok X G d"
    and few: "max_subcompactions (db_options d) \<le> 1 \<or> [] \<notin> (user_key \<circ> fst) ` set (db_entries X G d)"
    and num: "unat (next_number d) + max (max_subcompactions (db_options d)) 1 < 2 ^ 64"
    by (simp_all add: can_compact_def settled_def db_ok_def readable_def)
  note ins = can_compact_inputs [OF c]
  let ?es = "compact_entries (input_ents G t) w dt"
  obtain r1 d1 where s1: "read_inputs X (all_input_files t) d = (r1, d1)" by fastforce
  from yieldsD [OF yields_read_inputs [OF ins(5) caches] s1] have y: "reads_to d d1" "caches_ok X G d1"
    "r1 = Inr (input_ents G t) \<or> r1 = Inl (Io OtherIo) \<and> env_faults (db_env d) \<noteq> []" by (auto simp: input_ents_def)
  have st1: "stable X G d G d1" by (rule reads_to_stable [OF ok y(1,2)])
  from y(3) show ?thesis
  proof
    assume "r1 = Inl (Io OtherIo) \<and> env_faults (db_env d) \<noteq> []"
    with run s1 stable_reads_as [OF st1 set] show ?thesis by (auto simp: rewrite_compaction_def op_then_Inl healthy_def)
  next
    assume r1: "r1 = Inr (input_ents G t)"
    have v1: "db_versions d1 = db_versions d" "db_options d1 = db_options d" "db_path d1 = db_path d"
      using reads_to_sel(1,2,9) [OF y(1)] by simp_all
    obtain r2 d2 where s2: "write_compaction_outputs X ?es d1 = (r2, d2)" by fastforce
    have m2: "manifest_ok d2" "db_path d2 = db_path d"
      using write_outputs_writer [OF s2] ok by (simp_all add: manifest_ok_def db_ok_def v1)
    have fit2: "file_fits (db_env d2) (table_path (db_path d1) n)" if n: "next_number d1 \<le> n" for n
    proof (cases r2)
      case (Inl e)
      with run s1 r1 s2 have "d' = d2" by (simp add: rewrite_compaction_def op_then_Inr op_then_Inl)
      with fit n show ?thesis by (simp add: v1)
    next
      case (Inr outs)
      with run s1 r1 s2 have "publish_compaction X t outs d2 = (r, d')" by (simp add: rewrite_compaction_def op_then_Inr)
      from publish_compaction_files [OF this m2(1) input_number_old [OF c]] fit [of n] n show ?thesis
        by (simp add: v1 m2(2) file_fits_def content_of_def)
    qed
    have num1: "unat (next_number d1) + max (max_subcompactions (db_options d1)) 1 < 2 ^ 64" using num by (simp add: v1)
    define chunks where "chunks = (if ?es = [] then [] else
      split_compaction_entries ?es (target_file_size_base (db_options d)) (max_subcompactions (db_options d)))"
    from write_outputs_ok [OF X stable_sel(2) [OF st1] num1 ins(4,3) s2 fit2] obtain G2 where
      G2: "stable X G d1 G2 d2" "current d2 = current d" and h2: "healthy X d1 \<longrightarrow> healthy X d2 \<and> (\<exists>outs. r2 = Inr outs)"
      and held: "\<And>outs. r2 = Inr outs \<Longrightarrow> outputs_hold X G2 d2 (next_number d) chunks outs"
      unfolding v1 chunks_def [symmetric] by blast
    have st2: "stable X G d G2 d2" by (rule stable_trans [OF st1 G2(1)])
    have h1: "healthy X d \<longrightarrow> healthy X d1" using y(1) by (simp add: healthy_def v1 reads_to_def)
    show ?thesis
    proof (cases r2)
      case (Inl e)
      with run s1 r1 s2 have "r = Inl e" "d' = d2" by (simp_all add: rewrite_compaction_def op_then_Inr op_then_Inl)
      with stable_reads_as [OF st2 set] h1 h2 Inl show ?thesis by auto
    next
      case (Inr outs)
      note sp = split_compaction_parts [of ?es "target_file_size_base (db_options d)" "max_subcompactions (db_options d)"]
      have cc: "concat chunks = ?es" by (simp add: chunks_def sp(1))
      have "sorted_wrt keys_before chunks"
        using few
      proof
        assume "max_subcompactions (db_options d) \<le> 1"
        with sp(3) have "length chunks \<le> 1" by (simp add: chunks_def max_def split: if_splits)
        then show ?thesis by (cases chunks) auto
      next
        assume "[] \<notin> (user_key \<circ> fst) ` set (db_entries X G d)"
        moreover have "set ?es \<subseteq> set (db_entries X G d)"
          using set_compact_loop_subset ins(1) by (fastforce simp: compact_entries_def)
        ultimately show ?thesis using sp(4) [OF ins(3)] unfolding chunks_def by auto
      qed
      from publish_compaction_outcome [OF c st2 G2(2) held [OF Inr] cc this] run s1 r1 s2 Inr h1 h2 show ?thesis
        by (simp add: rewrite_compaction_def op_then_Inr) (unfold healthy_def, blast)
    qed
  qed
qed

subsection \<open>Trivial moves\<close>

abbreviation move_file :: "'m externs \<Rightarrow> compaction_task \<Rightarrow> file_meta \<Rightarrow> 'm db \<Rightarrow> bool result \<times> 'm db" where
  "move_file X t meta \<equiv>
     op_then (db_log_and_apply X (DeleteFile (ct_input_level t) (fm_number meta))) (\<lambda>_.
     op_then (db_log_and_apply X (AddFile (ct_output_level t) meta)) (\<lambda>_.
     op_then (refresh_tables_from_version X) (\<lambda>_. op_lift (Inr True))))"

lemma move_file_eq:
  "move_file X t f = op_then (op_then (log_edits X [DeleteFile (ct_input_level t) (fm_number f), AddFile (ct_output_level t) f]) (\<lambda>_.
     refresh_tables_from_version X)) (\<lambda>_. op_lift (Inr True))"
  by (simp add: op_then_assoc op_then_lift)

lemma move_outcome:
  assumes c: "can_compact X G d t dt" and triv: "is_trivial_move t" and st: "stable X G d G d1" and cur: "current d1 = current d"
    and run: "move_file X t (ct_input_files t ! 0) d1 = (r, d')"
  shows "\<exists>G'. reads_as X w G d G' d' \<and> (\<forall>b. r = Inr b \<longrightarrow> settled X G' d') \<and> (env_faults (db_env d1) = [] \<longrightarrow> (\<exists>b. r = Inr b))"
proof -
  from c have set: "settled X G d" and t: "task_ok (current d) t" "whole_l0 (current d) t" by (simp_all add: can_compact_def)
  obtain f where ins: "ct_input_files t = [f]" "all_input_files t = [f]"
    using triv by (cases "ct_input_files t") (auto simp: is_trivial_move_def all_input_files_def)
  have edits: "[DeleteFile (ct_input_level t) (fm_number f), AddFile (ct_output_level t) f] =
      map (delete_edit t) (all_input_files t) @ map (AddFile (ct_output_level t)) [f]"
    by (simp add: ins delete_edit_def)
  have f: "file_ok X G d f" using can_compact_inputs(5) [OF c] by (simp add: ins)
  have ents: "input_ents G t = level_ents G [f]" by (simp add: input_ents_def ins)
  have outs: "outputs_ok G G t [f]" "distinct (map fm_number [f])" "\<forall>m\<in>set [f]. file_ok X G d1 m"
    using file_ok_meta [OF f] stable_file_ok [OF st f] by (simp_all add: outputs_ok_def ents)
  have at: "f \<in> set (files_at (current d) (ct_input_level t))" using task_okD(4) [OF t(1), of f] by (simp add: ins)
  have dn: "distinct_numbers (current d)" using set by (simp add: settled_def)
  have fresh: "\<forall>m\<in>set [f]. \<forall>l<length (levels (current d)). \<forall>g\<in>set (files_at (current d) l).
      fm_number g = fm_number m \<longrightarrow> g \<in> set (all_input_files t)"
    using distinct_numbersD(2) [OF dn _ at _ _ task_okD(3) [OF t(1)]] by (simp add: ins)
  let ?m = "op_then (log_edits X (map (delete_edit t) (all_input_files t) @ map (AddFile (ct_output_level t)) [f])) (\<lambda>_.
      refresh_tables_from_version X)"
  obtain r4 d4 where s4: "?m d1 = (r4, d4)" by fastforce
  have run': "op_then ?m (\<lambda>_. op_lift (Inr True)) d1 = (r, d')" using run by (simp only: ins(1) nth_Cons_0 move_file_eq edits)
  from set t(1) st cur outs fresh s4 show ?thesis
  proof (cases rule: log_and_refresh_outcome)
    case (fail e)
    with run' s4 stable_reads_as [OF fail(2) set] show ?thesis by (auto simp: op_then_Inl)
  next
    case (installed d5)
    note i = install_ok [OF set t installed(2,3)]
    have d': "d' = d4" using run' s4 installed(1) by (simp add: op_then_Inr op_lift_def)
    have mv: "moved (current d) t [f] (current d5)" and st5: "stable X G d G d5" using installed(2) by (simp_all add: written_out_def)
    note sets = moved_sets [OF mv t(1) settled_agrees [OF set st5], of "mem_layers X d"]
    have same: "set (db_entries X G d4) = set (db_entries X G d)"
      unfolding db_entries_def i(2) settled_layers [OF set] sets ents ..
    moreover have "distinct_versions (set (db_entries X G d))"
      using set by (simp add: settled_def db_ok_def readable_def layers_ok_def)
    ultimately have "lookup_at (db_entries X G d') k s = lookup_at (db_entries X G d) k s" for k s
      unfolding d' by (intro lookup_at_cong_set) simp_all
    moreover have "set (db_entries X G d') \<subseteq> set (db_entries X G d)" using same unfolding d' by simp
    ultimately have "reads_as X w G d G d'"
      using i(1) stable_sel [OF st5] unfolding reads_as_def settled_def d' by (simp add: installed(3))
    moreover have "\<exists>b. r = Inr b" using run' s4 installed(1) by (auto simp: op_then_Inr op_lift_def)
    ultimately show ?thesis using i(1) unfolding d' by blast
  qed
qed

subsection \<open>Compactions\<close>

lemma execute_outcome:
  assumes c: "can_compact X G d t (can_drop_tombstones t d)" and run: "execute_compaction X t d = (r, d')"
    and fit: "\<And>n. next_number d \<le> n \<Longrightarrow> file_fits (db_env d') (table_path (db_path d) n)"
  shows "\<exists>G'. reads_as X (gc_watermark d) G d G' d' \<and> (\<forall>b. r = Inr b \<longrightarrow> settled X G' d') \<and> (healthy X d \<longrightarrow> (\<exists>b. r = Inr b))"
proof -
  let ?w = "gc_watermark d" and ?dt = "can_drop_tombstones t d"
  from c have set: "settled X G d" and ok: "db_ok X G d" and caches: "caches_ok X G d" and ne: "ct_input_files t \<noteq> []"
    by (simp_all add: can_compact_def settled_def db_ok_def readable_def task_ok_def)
  let ?body = "\<lambda>rewrite. if \<not> rewrite then move_file X t (ct_input_files t ! 0) else rewrite_compaction X t ?w ?dt"
  have run': "op_then (if is_trivial_move t then trivial_move_needs_rewrite X t ?w ?dt else op_lift (Inr True)) ?body d = (r, d')"
    using run unfolding execute_compaction_def Let_def if_not_P [OF ne] .
  show ?thesis
  proof (cases "is_trivial_move t")
    case False
    with run' have "rewrite_compaction X t ?w ?dt d = (r, d')" by (simp add: op_then_lift)
    from rewrite_outcome [OF c this fit] show ?thesis by simp
  next
    case True
    obtain r1 d1 where s1: "trivial_move_needs_rewrite X t ?w ?dt d = (r1, d1)" by fastforce
    have "file_ok X G d (ct_input_files t ! 0)"
      using can_compact_inputs(5) [OF c] ne by (simp add: all_input_files_def)
    from yieldsD [OF yields_needs_rewrite [OF this caches] s1] obtain b where y: "reads_to d d1" "caches_ok X G d1"
      "r1 = Inr b \<or> r1 = Inl (Io OtherIo) \<and> env_faults (db_env d) \<noteq> []" by blast
    have h1: "healthy X d \<longrightarrow> healthy X d1" using y(1) by (simp add: healthy_def reads_to_def)
    have st1: "stable X G d G d1" by (rule reads_to_stable [OF ok y(1,2)])
    have v1: "db_versions d1 = db_versions d" by (rule reads_to_sel(9) [OF y(1)])
    from y(3) consider "r1 = Inl (Io OtherIo)" "env_faults (db_env d) \<noteq> []" | "r1 = Inr False" | "r1 = Inr True" by (cases b) auto
    then show ?thesis
    proof cases
      case 1
      with run' True s1 have "r = Inl (Io OtherIo)" "d' = d1" by (simp_all add: op_then_Inl)
      with stable_reads_as [OF st1 set] 1(2) show ?thesis by (auto simp: healthy_def)
    next
      case 2
      have "move_file X t (ct_input_files t ! 0) d1 = (r, d')"
        using run' True s1 2 op_then_Inr [of "trivial_move_needs_rewrite X t ?w ?dt" d False d1 ?body] by simp
      from move_outcome [OF c True st1 _ this, of ?w] h1 show ?thesis by (auto simp: v1 healthy_def)
    next
      case 3
      with run' True s1 have rw: "rewrite_compaction X t ?w ?dt d1 = (r, d')" by (simp add: op_then_Inr)
      have sel: "db_options d1 = db_options d" "db_path d1 = db_path d" using reads_to_sel(1,2) [OF y(1)] by simp_all
      have "layers X G d1 = layers X G d" by (rule reads_to_ok(3) [OF y(1)])
      then have ents: "db_entries X G d1 = db_entries X G d" by (simp add: db_entries_def)
      have set1: "settled X G d1"
        using set db_ok_reads_to [OF ok y(1,2)] reads_to_sel(5,6) [OF y(1)] by (simp add: settled_def tables_match_def v1)
      have c1: "can_compact X G d1 t ?dt" using c set1 by (simp add: can_compact_def v1 sel ents)
      have fit1: "file_fits (db_env d') (table_path (db_path d1) n)" if "next_number d1 \<le> n" for n
        using fit that by (simp add: v1 sel)
      from rewrite_outcome [OF c1 rw fit1] show ?thesis
        unfolding reads_as_def ents using stable_sel [OF st1] h1 by auto
    qed
  qed
qed

lemma can_drop_nothing_below: "can_drop_tombstones t d \<Longrightarrow> nothing_below (current d) t"
  unfolding can_drop_tombstones_def nothing_below_def list_ex_iff
proof (intro allI impI ballI)
  fix l f assume no: "\<not> (\<exists>f\<in>set (concat (drop (ct_output_level t + 1) (levels (current d)))).
      user_key_overlaps_range f (ct_smallest_user_key t) (ct_largest_user_key t))"
    and l: "ct_output_level t < l" "l < length (levels (current d))" and f: "f \<in> set (levels (current d) ! l)"
  have "levels (current d) ! l \<in> set (drop (ct_output_level t + 1) (levels (current d)))"
    using nth_mem [of "l - (ct_output_level t + 1)" "drop (ct_output_level t + 1) (levels (current d))"] l by simp
  with no f show "\<not> user_key_overlaps f (ct_smallest_user_key t) (ct_largest_user_key t)"
    unfolding user_key_overlaps_range_def user_key_overlaps_def by auto
qed

lemma compact_range_outcome:
  assumes X: "externals X" and set: "settled X G d"
    and meets: "\<forall>f\<in>set (l0_files (current d)). \<forall>g\<in>set (l0_files (current d)). file_overlaps_range f lower upper \<longrightarrow> file_overlaps_range g lower upper"
    and few: "max_subcompactions (db_options d) \<le> 1 \<or> [] \<notin> (user_key \<circ> fst) ` set (db_entries X G d)"
    and fits: "entries_fit (set (db_entries X G d))" and num: "unat (next_number d) + max (max_subcompactions (db_options d)) 1 < 2 ^ 64"
    and run: "compact_range X lower upper d = (r, d')" and files: "\<forall>n. file_fits (db_env d') (table_path (db_path d) n)"
  shows "\<exists>G'. reads_as X (gc_watermark d) G d G' d' \<and> (r = Inr () \<longrightarrow> settled X G' d') \<and> (healthy X d \<longrightarrow> r = Inr ())"
proof -
  note sound = settled_sound [OF set]
  have len: "1 < length (levels (current d))" and disj: "\<forall>l. 0 < l \<and> l < length (levels (current d)) \<longrightarrow> level_disjoint (levels (current d) ! l)"
    using set sound(1) by (simp_all add: settled_def version_sound_def)
  obtain p where p: "pick_manual (current d) lower upper = Inr p" "\<And>t. p = Some t \<Longrightarrow> task_ok (current d) t \<and>
      (ct_input_level t = 0 \<longrightarrow> ct_input_files t = filter (\<lambda>f. file_overlaps_range f lower upper) (l0_files (current d)))"
    using pick_manual_ok [OF len disj, of lower upper] by blast
  show ?thesis
  proof (cases p)
    case None
    with run p(1) have "d' = d" "r = Inr ()" by (simp_all add: compact_range_def)
    with set show ?thesis by (auto intro!: exI [of _ G] simp: reads_as_def settled_def)
  next
    case (Some t)
    have t: "task_ok (current d) t" using p(2) [OF Some] by blast
    have "whole_l0 (current d) t"
      unfolding whole_l0_def
    proof
      assume "ct_input_level t = 0"
      with p(2) [OF Some] have i: "ct_input_files t = filter (\<lambda>f. file_overlaps_range f lower upper) (l0_files (current d))" by blast
      moreover have "ct_input_files t \<noteq> []" using t by (simp add: task_ok_def)
      ultimately obtain f where "f \<in> set (l0_files (current d))" "file_overlaps_range f lower upper"
        by (metis filter_empty_conv)
      with meets show "set (l0_files (current d)) \<subseteq> set (ct_input_files t)" by (auto simp: i)
    qed
    then have c: "can_compact X G d t (can_drop_tombstones t d)"
      using X set few fits num t pick_manual_distinct [OF p(1) [unfolded Some] sound(5) disj len] can_drop_nothing_below
      by (auto simp: can_compact_def)
    obtain r1 d1 where s1: "execute_compaction X t d = (r1, d1)" by fastforce
    with run p(1) Some have d1: "d' = d1" "r = Inr () \<longleftrightarrow> (\<exists>b. r1 = Inr b)"
      by (auto simp: compact_range_def op_then_def op_lift_def split: sum.splits)
    from execute_outcome [OF c s1] files d1 show ?thesis by auto
  qed
qed

subsection \<open>Properties\<close>


text \<open>A database with one table, at level 1, which a compaction moves to level 2.\<close>

definition demo_level_entries :: "entry list" where
  "demo_level_entries = [(InternalKey [1] 1 TypePut, Put [7])]"

definition demo_meta :: file_meta where
  "demo_meta = \<lparr>fm_number = 2, fm_file_size = 0, fm_smallest = InternalKey [1] 1 TypePut, fm_largest = InternalKey [1] 1 TypePut,
     fm_smallest_seq = 1, fm_largest_seq = 1\<rparr>"

definition demo_table_env :: env where
  "demo_table_env = snd (build_table demo_externs (table_path ''d'' 2) 64 NoCompression demo_level_entries demo_manifest_env)"

definition demo_levelled :: "sstable_reader \<Rightarrow> entry list db" where
  "demo_levelled rd = demo_full\<lparr>db_mutable := mem_new demo_externs KindBTree,
     db_level_tables := [[], [(demo_meta, rd)], [], [], [], [], []],
     db_versions := demo_version_set\<lparr>vs_current := \<lparr>l0_files = [], levels = [[], [demo_meta], [], [], [], [], []]\<rparr>, vs_next_file_number := 3\<rparr>,
     db_env := demo_table_env\<rparr>"

lemma demo_table:
  obtains c idx blks where "content_of demo_table_env (table_path ''d'' 2) = Some c" "table_with demo_externs c demo_level_entries idx blks"
    "length c < 2 ^ 64"
proof -
  have len: "case content_of demo_table_env (table_path ''d'' 2) of None \<Rightarrow> False | Some c \<Rightarrow> length c < 300"
    unfolding demo_table_env_def table_path_def by code_simp
  have "env_faults demo_manifest_env = []" by (simp add: demo_manifest_env_def)
  from calmE [OF calm_build_table [OF packs_NoCompression] this] obtain u where
    run: "build_table demo_externs (table_path ''d'' 2) 64 NoCompression demo_level_entries demo_manifest_env = (Inr u, demo_table_env)"
    unfolding demo_table_env_def by (metis snd_conv)
  have fits: "list_all entry_ok demo_level_entries" "length demo_level_entries * DEFAULT_BITS_PER_KEY < 2 ^ 32"
    by (simp_all add: demo_level_entries_def entry_ok_def DEFAULT_BITS_PER_KEY_def)
  have short: "length c < 2 ^ 64" if "content_of demo_table_env (table_path ''d'' 2) = Some c" for c using len that by simp
  from externals.build_table_file [OF demo_ok(1) fits run short] that short show ?thesis by (auto simp: table_file_def)
qed

lemma demo_table_other: "n \<noteq> 2 \<Longrightarrow> content_of demo_table_env (table_path ''d'' n) = None"
proof -
  assume n: "n \<noteq> 2"
  obtain r where run: "build_table demo_externs (table_path ''d'' 2) 64 NoCompression demo_level_entries demo_manifest_env = (r, demo_table_env)"
    unfolding demo_table_env_def by (metis prod.collapse)
  have "touches {table_path ''d'' 2} (build_table demo_externs (table_path ''d'' 2) 64 NoCompression demo_level_entries)"
    by (intro touch_intros) simp
  from touchesD [OF this run, of "table_path ''d'' n"] n have "env_files demo_table_env (table_path ''d'' n) = env_files demo_manifest_env (table_path ''d'' n)" by simp
  also have "last (table_file_name n) \<noteq> last ''CURRENT''" by (simp add: table_file_name_def)
  then have "table_file_name n \<noteq> ''CURRENT''" by metis
  then have "env_files demo_manifest_env (table_path ''d'' n) = None" by (simp add: demo_manifest_env_def table_path_def)
  finally show ?thesis by (simp add: content_of_def)
qed

lemma demo_table_calm: "env_faults demo_table_env = []"
proof -
  have "env_faults demo_manifest_env = []" by (simp add: demo_manifest_env_def)
  from calmE [OF calm_build_table [OF packs_NoCompression] this] show ?thesis unfolding demo_table_env_def by (metis snd_conv)
qed

lemma demo_levelled_sel:
  "db_path (demo_levelled rd) = ''d''" "db_options (demo_levelled rd) = demo_options" "db_immutables (demo_levelled rd) = []"
  "db_l0_tables (demo_levelled rd) = []" "db_level_tables (demo_levelled rd) = [[], [(demo_meta, rd)], [], [], [], [], []]"
  "current (demo_levelled rd) = \<lparr>l0_files = [], levels = [[], [demo_meta], [], [], [], [], []]\<rparr>" "next_number (demo_levelled rd) = 3"
  "db_last_sequence (demo_levelled rd) = 1" "db_env (demo_levelled rd) = demo_table_env" "db_watermark (demo_levelled rd) = watermark_new"
  "vs_manifest_writer (db_versions (demo_levelled rd)) = Some (path_join ''d'' (manifest_file_name 1))"
  "db_wal (demo_levelled rd) = path_join ''d'' (wal_file_name 0)" "mem_entries demo_externs (db_mutable (demo_levelled rd)) = []"
  "db_block_cache (demo_levelled rd) = block_cache_new (\<lambda>_. 0) 8" "db_table_cache (demo_levelled rd) = table_cache_new_with_env (\<lambda>_. 0) 8"
  by (simp_all add: demo_levelled_def demo_full_sel demo_version_set_def recovered_def externals.mem_entries_new [OF demo_ok(1)])
    (simp_all add: demo_full_def)

lemma demo_settled:
  obtains idx c where "settled demo_externs [2 \<mapsto> (c, idx, demo_level_entries)] (demo_levelled (reader_for demo_level_entries idx (table_path ''d'' 2)))"
proof -
  obtain c idx blks where c: "content_of demo_table_env (table_path ''d'' 2) = Some c" "table_with demo_externs c demo_level_entries idx blks"
    by (rule demo_table)
  let ?G = "[2 \<mapsto> (c, idx, demo_level_entries)]" and ?rd = "reader_for demo_level_entries idx (table_path ''d'' 2)"
  let ?d = "demo_levelled ?rd"
  have ents: "ents_of ?G 2 = demo_level_entries" by (simp add: ents_of_def)
  have "table_ok demo_externs ?G demo_table_env ''d'' 2"
    unfolding table_ok_def using c by (intro exI [of _ c] exI [of _ idx] exI [of _ demo_level_entries] exI [of _ blks])
      (simp add: demo_level_entries_def DEFAULT_BITS_PER_KEY_def)
  moreover have "meta_of demo_level_entries demo_meta" by (simp add: meta_of_def demo_level_entries_def demo_meta_def)
  ultimately have ref: "ref_ok demo_externs ?G demo_table_env ''d'' (demo_meta, ?rd)"
    using ents by (simp add: ref_ok_def reader_ok_def ref_ents_def demo_meta_def)
  have lay: "layers demo_externs ?G ?d = [[], demo_level_entries, [], [], [], [], []]"
    by (simp add: layers_def mem_layers_def l0_layers_def level_layers_def demo_levelled_sel ref_ents_def demo_meta_def ents)
  have "layered [[], demo_level_entries, [], [], [], [], []] 1" by (simp add: layered_def demo_level_entries_def distinct_versions_def)
  moreover have "level_disjoint [demo_meta]" "level_disjoint []" by (simp_all add: level_disjoint_def meta_ordered_def demo_meta_def)
  ultimately have "readable demo_externs ?G ?d"
    using ref by (simp add: readable_def mems_ok_def refs_ok_def all_refs_def caches_ok_def layers_ok_layered lay demo_levelled_sel
        cache_coherent_def block_cache_new_def table_cache_new_with_env_def)
  then have "db_ok demo_externs ?G ?d"
    by (auto simp: db_ok_def wal_ok_def manifest_ok_def numbered_def demo_levelled_sel meta_paths_def)
  moreover have "tables_match ?d" by (simp add: tables_match_def demo_levelled_sel)
  moreover have "distinct_numbers (current ?d)"
  proof -
    have "l = 1 \<and> f = demo_meta" if "l < length (levels (current ?d))" "f \<in> set (files_at (current ?d) l)" for l f
      using that by (auto simp: demo_levelled_sel files_at_def less_Suc_eq)
    then show ?thesis unfolding distinct_numbers_def by metis
  qed
  ultimately show ?thesis using that by (simp add: settled_def demo_levelled_sel)
qed

definition demo_task :: compaction_task where
  "demo_task = \<lparr>ct_input_level = 1, ct_output_level = 2, ct_input_files = [demo_meta], ct_overlap_files = [],
     ct_smallest_user_key = [1], ct_largest_user_key = [1], ct_is_manual = True\<rparr>"

lemma demo_pick: "pick_manual (current (demo_levelled rd)) Unbounded Unbounded = Inr (Some demo_task)"
  unfolding demo_levelled_sel by code_simp

lemma demo_move_fits:
  assumes set: "settled demo_externs G (demo_levelled rd)" and ents: "file_ents G demo_meta = demo_level_entries"
    and run: "compact_range demo_externs Unbounded Unbounded (demo_levelled rd) = (r, d')"
  shows "file_fits (db_env d') (table_path ''d'' n)"
proof -
  let ?d = "demo_levelled rd" and ?X = demo_externs
  let ?w = "gc_watermark ?d" and ?dt = "can_drop_tombstones demo_task ?d"
  have w: "?w = 1" by (simp add: gc_watermark_def demo_levelled_sel watermark_new_def watermark_oldest_def)
  have ok: "file_ok ?X G ?d demo_meta" by (rule settled_file_ok [OF set, of 1]) (simp_all add: demo_levelled_sel files_at_def)
  have caches: "caches_ok ?X G ?d" and man: "manifest_ok ?d" using set by (simp_all add: settled_def db_ok_def readable_def)
  have same: "length (compact_entries demo_level_entries 1 b) = length demo_level_entries" for b
    by (cases b) (simp_all add: demo_level_entries_def compact_entries_def)
  obtain r1 d1 where s1: "trivial_move_needs_rewrite ?X demo_task ?w ?dt ?d = (r1, d1)" by fastforce
  have head: "ct_input_files demo_task ! 0 = demo_meta" "is_trivial_move demo_task" "ct_input_files demo_task \<noteq> []"
    by (simp_all add: demo_task_def is_trivial_move_def)
  from yieldsD [OF yields_needs_rewrite [OF _ caches, of demo_task] s1] ok have y: "reads_to ?d d1" "r1 = Inr False \<or> r1 = Inl (Io OtherIo)"
    by (auto simp: head(1) ents same w)
  have table: "file_fits (db_env d1) (table_path ''d'' n)"
  proof -
    obtain c where "content_of demo_table_env (table_path ''d'' 2) = Some c" "length c < 2 ^ 64" by (rule demo_table)
    then show ?thesis
      using demo_table_other [of n] content_of_files [OF reads_to_sel(12) [OF y(1)], of "table_path ''d'' n"]
      by (cases "n = 2") (auto simp: file_fits_def demo_levelled_sel)
  qed
  have "env_files (db_env d') (table_path ''d'' n) = env_files (db_env d1) (table_path ''d'' n)"
    using y(2)
  proof
    assume "r1 = Inl (Io OtherIo)"
    then have "execute_compaction ?X demo_task ?d = (Inl (Io OtherIo), d1)"
      using s1 op_then_Inl [of "trivial_move_needs_rewrite ?X demo_task ?w ?dt" ?d "Io OtherIo" d1] unfolding execute_compaction_def Let_def
      by (simp add: head(2,3))
    with run demo_pick [of rd] show ?thesis by (simp add: compact_range_def op_then_Inl)
  next
    assume "r1 = Inr False"
    then have "execute_compaction ?X demo_task ?d = move_file ?X demo_task demo_meta d1"
      using s1 op_then_Inr [of "trivial_move_needs_rewrite ?X demo_task ?w ?dt" ?d False d1
        "\<lambda>rewrite. if \<not> rewrite then move_file ?X demo_task (ct_input_files demo_task ! 0) else rewrite_compaction ?X demo_task ?w ?dt"]
      unfolding execute_compaction_def Let_def
      by (simp add: head)
    moreover obtain r2 d2 where s2: "move_file ?X demo_task demo_meta d1 = (r2, d2)" by fastforce
    ultimately have d': "d' = d2" using run demo_pick [of rd] by (auto simp: compact_range_def op_then_def op_lift_def split: sum.splits)
    have m1: "manifest_ok d1" "db_path d1 = ''d''" using man reads_to_sel(1,9) [OF y(1)] by (simp_all add: manifest_ok_def demo_levelled_sel)
    have tn: "table_path ''d'' n \<notin> meta_paths (db_path d1)" using table_not_meta by (simp add: m1(2))
    show ?thesis
      using s2 unfolding move_file_eq op_then_assoc
    proof (cases rule: op_thenE)
      case (fail e)
      then have "keeps (meta_paths (db_path d1)) d1 d2" using log_edits_ok [OF fail(1) m1(1)] by blast
      from keeps_sel(12) [OF this tn] show ?thesis by (simp add: d')
    next
      case (ok u d3)
      then have "keeps (meta_paths (db_path d1)) d1 d3" using log_edits_ok [OF ok(1) m1(1)] by blast
      from keeps_sel(12) [OF this tn] have 3: "env_files (db_env d3) (table_path ''d'' n) = env_files (db_env d1) (table_path ''d'' n)" .
      obtain r4 d4 where s4: "refresh_tables_from_version ?X d3 = (r4, d4)" by fastforce
      with ok(2) have "d2 = d4" by (auto simp: op_then_def op_lift_def split: sum.splits)
      with refresh_files [OF s4] 3 show ?thesis by (simp add: d')
    qed
  qed
  with table show ?thesis by (simp add: file_fits_def content_of_def)
qed


end
