(* ===== verification/Compaction_Scores.thy ===== *)
theory Compaction_Scores
  imports Compaction Options
begin

section \<open>The automatic picker (compact/leveled.rs, compact/picker.rs)\<close>

text \<open>
  \<^verbatim>\<open>CompactionPicker::pick\<close> with the scores it compares: a level's size over its
  target (\<^verbatim>\<open>src/src/compact/leveled.rs\<close>), as floats.  The precision of
  \<^verbatim>\<open>f64::powi\<close> is unspecified, so it is a parameter, and nothing is assumed of it.
  Adding sizes beyond 64 bits is the panic of a checked addition.

  The lemmas show that the score of the chosen level is the highest one, that a level at or
  over its target is never missed whatever the rounding, and that below \<open>2 ^ 53\<close> bytes
  a task is picked only for a level that has reached its target.
\<close>

definition max_bytes_for_level :: "(f64 \<Rightarrow> int \<Rightarrow> f64) \<Rightarrow> options \<Rightarrow> nat \<Rightarrow> nat" where
  "max_bytes_for_level fpowi opts level =
     (if level \<le> 1 then max_bytes_for_level_base opts
      else let multiplier = fpowi (max_bytes_for_level_multiplier opts) (sint (word_of_nat (level - 1) :: 32 word))
           in f64_to_u64 (f64_mul (f64_of_nat (max_bytes_for_level_base opts)) multiplier))"

definition level_bytes :: "file_meta list \<Rightarrow> nat result" where
  "level_bytes files =
     (let total = sum_list (map (\<lambda>f. unat (fm_file_size f)) files)
      in if total \<ge> 2 ^ 64 then Inl (Panic ''attempt to add with overflow'') else Inr total)"

fun best_score_loop ::
  "(f64 \<Rightarrow> int \<Rightarrow> f64) \<Rightarrow> options \<Rightarrow> version \<Rightarrow> nat list \<Rightarrow> nat \<times> f64 \<Rightarrow> (nat \<times> f64) result" where
  "best_score_loop fpowi opts v [] best = Inr best"
| "best_score_loop fpowi opts v (level # ls) best =
     and_then (level_bytes (levels v ! level)) (\<lambda>n.
       let score = f64_div (f64_of_nat n) (f64_of_nat (max (max_bytes_for_level fpowi opts level) 1))
       in best_score_loop fpowi opts v ls (if f64_less (snd best) score then (level, score) else best))"

definition best_score :: "(f64 \<Rightarrow> int \<Rightarrow> f64) \<Rightarrow> options \<Rightarrow> version \<Rightarrow> (nat \<times> f64) option result" where
  "best_score fpowi opts v =
     (let l0_trigger = f64_of_nat (max (level0_file_num_compaction_trigger opts) 1);
          best = (0, f64_div (f64_of_nat (length (l0_files v))) l0_trigger)
      in and_then (best_score_loop fpowi opts v [1..<length (levels v) - 1] best) (\<lambda>b. Inr (Some b)))"

definition pick :: "(f64 \<Rightarrow> int \<Rightarrow> f64) \<Rightarrow> options \<Rightarrow> version \<Rightarrow> compaction_task option result" where
  "pick fpowi opts v =
     and_then (best_score fpowi opts v) (\<lambda>b.
       case b of
         None \<Rightarrow> Inr None
       | Some (level, score) \<Rightarrow>
           if f64_less score (f64_of_nat 1) then Inr None else pick_level v level False)"

subsection \<open>Scores\<close>

text \<open>What a level holds and what it may hold, in files for level 0 and in bytes below.\<close>

definition level_load :: "version \<Rightarrow> nat \<Rightarrow> nat" where
  "level_load v l =
     (if l = 0 then length (l0_files v) else sum_list (map (\<lambda>f. unat (fm_file_size f)) (levels v ! l)))"

definition level_limit :: "(f64 \<Rightarrow> int \<Rightarrow> f64) \<Rightarrow> options \<Rightarrow> nat \<Rightarrow> nat" where
  "level_limit fpowi opts l =
     max (if l = 0 then level0_file_num_compaction_trigger opts else max_bytes_for_level fpowi opts l) 1"

text \<open>The sizes are 64-bit integers: \<^verbatim>\<open>usize\<close> options and counts, no overflowing sum.\<close>

definition sizes_fit :: "options \<Rightarrow> version \<Rightarrow> bool" where
  "sizes_fit opts v \<longleftrightarrow> level0_file_num_compaction_trigger opts < 2 ^ 64 \<and> max_bytes_for_level_base opts < 2 ^ 64 \<and>
     list_all (\<lambda>l. level_load v l < 2 ^ 64) [0..<length (levels v) - 1]"

definition score_of :: "(f64 \<Rightarrow> int \<Rightarrow> f64) \<Rightarrow> options \<Rightarrow> version \<Rightarrow> nat \<Rightarrow> rat" where
  "score_of fpowi opts v l = f64_ratio (level_load v l) (level_limit fpowi opts l)"

lemma level_limit_fits:
  assumes "sizes_fit opts v"
  shows "1 \<le> level_limit fpowi opts l \<and> level_limit fpowi opts l < 2 ^ 64"
  using assms f64_to_u64_bound by (auto simp: level_limit_def max_bytes_for_level_def sizes_fit_def Let_def)

lemma fits_load: "sizes_fit opts v \<Longrightarrow> l < length (levels v) - 1 \<Longrightarrow> level_load v l < 2 ^ 64"
  by (simp add: sizes_fit_def list_all_iff)

lemma score_div:
  assumes "sizes_fit opts v" and "l < length (levels v) - 1"
  shows "f64_div (f64_of_nat (level_load v l)) (f64_of_nat (level_limit fpowi opts l)) =
    Finite False (score_of fpowi opts v l)"
  using assms level_limit_fits [OF assms(1), of fpowi l] unfolding score_of_def
  by (intro f64_div_of_nat fits_load) auto

lemma best_score_loop_step:
  assumes "sizes_fit opts v" and "0 < l" and "l < length (levels v) - 1"
  shows "best_score_loop fpowi opts v (l # ls) (b, Finite False s) =
    (if s < score_of fpowi opts v l
     then best_score_loop fpowi opts v ls (l, Finite False (score_of fpowi opts v l))
     else best_score_loop fpowi opts v ls (b, Finite False s))"
proof -
  have "level_bytes (levels v ! l) = Inr (level_load v l)"
    using fits_load [OF assms(1,3)] assms(2) by (simp add: level_bytes_def level_load_def Let_def)
  moreover have "max (max_bytes_for_level fpowi opts l) 1 = level_limit fpowi opts l"
    using assms by (simp add: level_limit_def)
  ultimately show ?thesis
    using score_div [OF assms(1,3), of fpowi] by (simp add: f64_signed_def del: One_nat_def)
qed

lemma best_score_loop_max:
  assumes "sizes_fit opts v" and "list_all (\<lambda>l. 0 < l \<and> l < length (levels v) - 1) ls"
  shows "\<exists>b s. best_score_loop fpowi opts v ls (b0, Finite False s0) = Inr (b, Finite False s) \<and>
    (b = b0 \<and> s = s0 \<or> b \<in> set ls \<and> s = score_of fpowi opts v b) \<and> s0 \<le> s \<and>
    list_all (\<lambda>l. score_of fpowi opts v l \<le> s) ls"
  using assms(2)
proof (induction ls arbitrary: b0 s0)
  case (Cons l ls)
  then have l: "0 < l" "l < length (levels v) - 1" and ls: "list_all (\<lambda>l. 0 < l \<and> l < length (levels v) - 1) ls"
    by auto
  note step = best_score_loop_step [OF assms(1) l, of fpowi ls b0 s0]
  show ?case
  proof (cases "s0 < score_of fpowi opts v l")
    case True
    with Cons.IH [OF ls, of l "score_of fpowi opts v l"] show ?thesis unfolding step by fastforce
  next
    case False
    with Cons.IH [OF ls, of b0 s0] show ?thesis unfolding step by fastforce
  qed
qed simp

lemma best_score_max:
  assumes "sizes_fit opts v" and "1 < length (levels v)"
  shows "\<exists>b. best_score fpowi opts v = Inr (Some (b, Finite False (score_of fpowi opts v b))) \<and>
    b < length (levels v) - 1 \<and>
    list_all (\<lambda>l. score_of fpowi opts v l \<le> score_of fpowi opts v b) [0..<length (levels v) - 1]"
proof -
  let ?n = "length (levels v) - 1" and ?sc = "score_of fpowi opts v"
  have ls: "list_all (\<lambda>l. 0 < l \<and> l < ?n) [1..<?n]" by (auto simp: list_all_iff)
  from best_score_loop_max [OF assms(1) ls, of fpowi 0 "?sc 0"] obtain b s where
    b: "best_score_loop fpowi opts v [1..<?n] (0, Finite False (?sc 0)) = Inr (b, Finite False s)"
    "b = 0 \<and> s = ?sc 0 \<or> b \<in> set [1..<?n] \<and> s = ?sc b" "?sc 0 \<le> s" "list_all (\<lambda>l. ?sc l \<le> s) [1..<?n]" by blast
  have "f64_div (f64_of_nat (length (l0_files v))) (f64_of_nat (max (level0_file_num_compaction_trigger opts) 1)) =
      Finite False (?sc 0)"
    using score_div [OF assms(1), of 0 fpowi] assms(2) by (simp add: level_load_def level_limit_def)
  then have "best_score fpowi opts v = Inr (Some (b, Finite False s))"
    using b(1) by (simp add: best_score_def)
  moreover have "s = ?sc b" "b < ?n" using b(2) assms(2) by auto
  moreover have "[0..<?n] = 0 # [1..<?n]" using assms(2) by (simp add: upt_conv_Cons)
  ultimately show ?thesis using b(3,4) by simp
qed

subsection \<open>The task\<close>

lemma f64_less_one: "f64_less (Finite False s) (f64_of_nat 1) \<longleftrightarrow> s < 1"
  using f64_round_of_nat [of 1] by (simp add: f64_of_nat_finite f64_signed_def del: One_nat_def)

lemma level_load_nonempty: "0 < level_load v l \<Longrightarrow> files_at v l \<noteq> []"
  by (auto simp: level_load_def files_at_def split: if_splits)

lemma score_nonempty:
  assumes "1 \<le> score_of fpowi opts v l"
  shows "files_at v l \<noteq> []"
proof (rule level_load_nonempty, rule ccontr)
  assume "\<not> 0 < level_load v l"
  then show False using assms by (simp add: score_of_def f64_ratio_def)
qed

lemma pick_level_ok:
  assumes "files_at v l \<noteq> []" and "l + 1 < length (levels v)" and "level_disjoint (levels v ! (l + 1))"
  shows "\<exists>t. pick_level v l m = Inr (Some t) \<and> task_ok v t \<and> ct_input_level t = l"
proof (cases l)
  case 0
  with assms task_for_files_ok [of "l0_files v" v 0 m] show ?thesis by (auto simp: pick_level_def files_at_def)
next
  case (Suc k)
  with assms obtain f fs where f: "levels v ! l = f # fs" by (auto simp: files_at_def neq_Nil_conv)
  then have "set [f] \<subseteq> set (files_at v l)" using Suc by (simp add: files_at_def)
  with assms f Suc task_for_files_ok [of "[f]" v l m] show ?thesis by (auto simp: pick_level_def)
qed

lemma pick_cases:
  assumes "sizes_fit opts v" and "1 < length (levels v)"
    and "list_all (\<lambda>l. level_disjoint (levels v ! l)) [1..<length (levels v)]"
  shows "(\<exists>b t. pick fpowi opts v = Inr (Some t) \<and> task_ok v t \<and> ct_input_level t = b \<and> b < length (levels v) - 1 \<and>
      1 \<le> score_of fpowi opts v b \<and>
      list_all (\<lambda>l. score_of fpowi opts v l \<le> score_of fpowi opts v b) [0..<length (levels v) - 1]) \<or>
    pick fpowi opts v = Inr None \<and> list_all (\<lambda>l. score_of fpowi opts v l < 1) [0..<length (levels v) - 1]"
proof -
  from best_score_max [OF assms(1,2), of fpowi] obtain b where
    b: "best_score fpowi opts v = Inr (Some (b, Finite False (score_of fpowi opts v b)))" "b < length (levels v) - 1"
    "list_all (\<lambda>l. score_of fpowi opts v l \<le> score_of fpowi opts v b) [0..<length (levels v) - 1]" by blast
  show ?thesis
  proof (cases "score_of fpowi opts v b < 1")
    case True
    then have "pick fpowi opts v = Inr None" using b(1) by (simp add: pick_def f64_less_one del: One_nat_def)
    then show ?thesis using True b(3) by (auto simp: list_all_iff)
  next
    case False
    then have full: "1 \<le> score_of fpowi opts v b" by simp
    have below: "b + 1 < length (levels v)" using b(2) by simp
    from pick_level_ok [OF score_nonempty [OF full], of False] below assms(3) obtain t where
      "pick_level v b False = Inr (Some t)" "task_ok v t" "ct_input_level t = b" by (auto simp: list_all_iff)
    with full show ?thesis
      using b False by (intro disjI1) (auto simp: pick_def f64_less_one simp del: One_nat_def)
  qed
qed

text \<open>
  C27: the automatic picker never panics.  It returns a task whenever level 0 has as many
  files as its trigger or a level above the last has as many bytes as its target, however
  the scores are rounded; the task is sound and starts at a level of the highest score.  As
  long as that level's size is below 2 ^ 53, it has reached its target; so no compaction
  starts without need.
\<close>

theorem pick_correct:
  assumes "sizes_fit opts v" and "1 < length (levels v)"
    and "\<forall>l. 0 < l \<and> l < length (levels v) \<longrightarrow> level_disjoint (levels v ! l)"
  shows "\<exists>r. pick fpowi opts v = Inr r \<and>
    (r = None \<longrightarrow> (\<forall>l<length (levels v) - 1. level_load v l < level_limit fpowi opts l)) \<and>
    (\<forall>t. r = Some t \<longrightarrow> task_ok v t \<and>
       (\<forall>l<length (levels v) - 1. score_of fpowi opts v l \<le> score_of fpowi opts v (ct_input_level t)) \<and>
       (level_limit fpowi opts (ct_input_level t) < 2 ^ 53 \<longrightarrow>
          level_limit fpowi opts (ct_input_level t) \<le> level_load v (ct_input_level t)))"
proof -
  have full: "1 \<le> score_of fpowi opts v l" if "level_limit fpowi opts l \<le> level_load v l" for l
    using that level_limit_fits [OF assms(1), of fpowi l] unfolding score_of_def by (intro f64_ratio_ge_1) auto
  have need: "level_limit fpowi opts l \<le> level_load v l"
    if "1 \<le> score_of fpowi opts v l" "level_limit fpowi opts l < 2 ^ 53" for l
    using that f64_ratio_less_1 [of "level_load v l" "level_limit fpowi opts l"] by (force simp: score_of_def)
  have "list_all (\<lambda>l. level_disjoint (levels v ! l)) [1..<length (levels v)]"
    using assms(3) by (simp add: list_all_iff)
  from pick_cases [OF assms(1,2) this, of fpowi] full need show ?thesis
    unfolding list_all_iff by (force simp: not_less [symmetric])
qed

theorem pick_correct_witness:
  "\<exists>t. pick (\<lambda>x n. x) (default_options\<lparr>level0_file_num_compaction_trigger := 2\<rparr>)
      \<lparr>l0_files = [demo_l0_new, demo_l0_old], levels = [[], [], []]\<rparr> = Inr (Some t) \<and>
    task_ok \<lparr>l0_files = [demo_l0_new, demo_l0_old], levels = [[], [], []]\<rparr> t"
proof -
  let ?v = "\<lparr>l0_files = [demo_l0_new, demo_l0_old], levels = [[], [], []]\<rparr>"
  let ?o = "default_options\<lparr>level0_file_num_compaction_trigger := 2\<rparr>"
  have "sizes_fit ?o ?v" by (simp add: sizes_fit_def default_options_def level_load_def upt_conv_Cons)
  moreover have "1 < length (levels ?v)" by simp
  moreover have "\<forall>l. 0 < l \<and> l < length (levels ?v) \<longrightarrow> level_disjoint (levels ?v ! l)"
    by (auto simp: level_disjoint_def less_Suc_eq)
  ultimately obtain r where r: "pick (\<lambda>x n. x) ?o ?v = Inr r" "\<forall>t. r = Some t \<longrightarrow> task_ok ?v t"
    "r = None \<longrightarrow> (\<forall>l<length (levels ?v) - 1. level_load ?v l < level_limit (\<lambda>x n. x) ?o l)"
    using pick_correct [of ?o ?v "\<lambda>x n. x"] by blast
  have "level_load ?v 0 = 2" "level_limit (\<lambda>x n. x) ?o 0 = 2"
    by (simp_all add: level_load_def level_limit_def default_options_def)
  with r(3) have "r \<noteq> None" by force
  with r(1,2) show ?thesis by auto
qed

end
