(* ===== verification/Rate_Limiter.thy ===== *)
theory Rate_Limiter
  imports Prelude Float64
begin

section \<open>The write rate limiter (util/rate_limiter.rs)\<close>

text \<open>
  \<^verbatim>\<open>src/src/util/rate_limiter.rs\<close> and its call in \<^verbatim>\<open>src/src/db.rs\<close>:
  a token bucket that refills with the time passed and answers how long a writer has to
  wait.  The clock reading \<^verbatim>\<open>Instant::now()\<close> is an argument; instants and
  durations are nanoseconds, an instant below \<open>2 ^ 63\<close> seconds and a duration below
  \<open>2 ^ 64\<close>.  The time is computed in floats (theory Float64).  Overflows are the panics
  of checked arithmetic; a panic poisons the lock, so that every later call panics as well.

  The lemmas bound the rounding errors; the theorem bounds what the limiter lets through in
  any sequence of calls.
\<close>

record rate_limiter =
  rl_bytes_per_sec :: u64
  rl_available :: u64
  rl_last_refill :: nat

definition nanos_per_sec :: nat where
  "nanos_per_sec = 10 ^ 9"

definition rate_limiter_new :: "u64 \<Rightarrow> nat \<Rightarrow> rate_limiter" where
  "rate_limiter_new bytes_per_sec now =
     \<lparr>rl_bytes_per_sec = max bytes_per_sec 1, rl_available = max bytes_per_sec 1, rl_last_refill = now\<rparr>"

text \<open>\<^verbatim>\<open>Duration::as_secs_f64\<close>, \<^verbatim>\<open>Duration::from_secs_f64\<close> and \<^verbatim>\<open>Instant + Duration\<close>.\<close>

definition as_secs_f64 :: "nat \<Rightarrow> f64" where
  "as_secs_f64 d =
     f64_add (f64_of_nat (d div nanos_per_sec))
       (f64_div (f64_of_nat (d mod nanos_per_sec)) (f64_of_nat nanos_per_sec))"

fun from_secs_f64 :: "f64 \<Rightarrow> nat result" where
  "from_secs_f64 (Finite neg x) =
     (if neg \<and> x \<noteq> 0 then Inl (Panic ''cannot convert float seconds to Duration: value is negative'')
      else if x \<ge> 2 ^ 64
      then Inl (Panic ''cannot convert float seconds to Duration: value is either too big or NaN'')
      else Inr (nat (round_even (x * of_nat nanos_per_sec))))"
| "from_secs_f64 (Infinite neg) =
     Inl (Panic (if neg then ''cannot convert float seconds to Duration: value is negative''
                 else ''cannot convert float seconds to Duration: value is either too big or NaN''))"
| "from_secs_f64 NaN = Inl (Panic ''cannot convert float seconds to Duration: value is either too big or NaN'')"

definition instant_add :: "nat \<Rightarrow> nat \<Rightarrow> nat result" where
  "instant_add i d =
     (if i + d \<ge> 2 ^ 63 * nanos_per_sec then Inl (Panic ''overflow when adding duration to instant'') else Inr (i + d))"

definition refill_bytes :: "rate_limiter \<Rightarrow> nat \<Rightarrow> nat" where
  "refill_bytes rl elapsed = f64_to_u64 (f64_mul (as_secs_f64 elapsed) (f64_of_nat (unat (rl_bytes_per_sec rl))))"

definition refill_bucket :: "nat \<Rightarrow> rate_limiter \<Rightarrow> rate_limiter result" where
  "refill_bucket now rl =
     (if now \<ge> rl_last_refill rl then
        let refill = refill_bytes rl (now - rl_last_refill rl)
        in and_then
             (if refill > 0 then
                (if unat (rl_available rl) + refill \<ge> 2 ^ 64 then Inl (Panic ''attempt to add with overflow'')
                 else Inr (rl\<lparr>rl_available := min (rl_available rl + word_of_nat refill) (rl_bytes_per_sec rl)\<rparr>))
              else Inr rl)
             (\<lambda>rl. Inr (rl\<lparr>rl_last_refill := now\<rparr>))
      else Inr rl)"

definition reserve :: "u64 \<Rightarrow> nat \<Rightarrow> rate_limiter \<Rightarrow> (nat \<times> rate_limiter) result" where
  "reserve n now rl =
     and_then (refill_bucket now rl) (\<lambda>rl.
       if n \<le> rl_available rl then Inr (0, rl\<lparr>rl_available := rl_available rl - n\<rparr>)
       else
         let missing = n - rl_available rl;
             rl = rl\<lparr>rl_available := 0\<rparr>
         in and_then (from_secs_f64 (f64_div (f64_of_nat (unat missing)) (f64_of_nat (unat (rl_bytes_per_sec rl))))) (\<lambda>wait.
            and_then (instant_add (rl_last_refill rl) wait) (\<lambda>last_refill.
              Inr (last_refill - now, rl\<lparr>rl_last_refill := last_refill\<rparr>))))"

text \<open>In \<^verbatim>\<open>db.rs\<close>: how long the writer sleeps, if there is a limiter.\<close>

definition apply_write_rate_limit ::
  "u64 \<Rightarrow> nat \<Rightarrow> rate_limiter option \<Rightarrow> (nat \<times> rate_limiter option) result" where
  "apply_write_rate_limit n now limiter =
     (case limiter of
        None \<Rightarrow> Inr (0, None)
      | Some rl \<Rightarrow> and_then (reserve n now rl) (\<lambda>(wait, rl). Inr (wait, Some rl)))"

text \<open>A sequence of writes, each of some bytes at some reading of the clock.\<close>

fun limit_writes :: "(u64 \<times> nat) list \<Rightarrow> rate_limiter option \<Rightarrow> (nat list \<times> rate_limiter option) result" where
  "limit_writes [] limiter = Inr ([], limiter)"
| "limit_writes ((n, now) # ws) limiter =
     and_then (apply_write_rate_limit n now limiter) (\<lambda>(wait, limiter).
       and_then (limit_writes ws limiter) (\<lambda>(waits, limiter). Inr (wait # waits, limiter)))"

subsection \<open>Rounding errors\<close>

text \<open>Zero or far from the subnormal range: where the relative error is bounded.\<close>

definition tame :: "rat \<Rightarrow> bool" where
  "tame x \<longleftrightarrow> x = 0 \<or> 2 powi - 100 \<le> x"

lemma tame_nonneg: "tame x \<Longrightarrow> 0 \<le> x"
  by (auto simp: tame_def intro: order_trans [rotated])

lemma tame_round_upper: "tame x \<Longrightarrow> f64_round x \<le> x * (1 + 1 / 2 ^ 53)"
  using powi_le_iff [of "- 1022" "- 100"] f64_round_upper [of x] order_trans by (auto simp: tame_def)

lemma tame_round_lower: "tame x \<Longrightarrow> x * (1 - 1 / 2 ^ 53) \<le> f64_round x"
  using powi_le_iff [of "- 1022" "- 100"] f64_round_lower [of x] order_trans by (auto simp: tame_def)

lemma tame_round: "tame x \<Longrightarrow> tame (f64_round x)"
  using f64_round_mono [of "2 powi - 100" x] f64_round_powi [of "- 100"] by (auto simp: tame_def)

lemma tame_add: "tame x \<Longrightarrow> tame y \<Longrightarrow> tame (x + y)"
  using tame_nonneg [of x] tame_nonneg [of y] by (auto simp: tame_def)

lemma tame_of_nat: "tame (of_nat n)"
  using powi_le_iff [of "- 100" 0] by (cases n) (auto simp: tame_def intro: order_trans)

lemma f64_mul_finite:
  "0 \<le> x \<Longrightarrow> 0 \<le> y \<Longrightarrow> x * y \<le> 2 ^ 1023 \<Longrightarrow> f64_mul (Finite False x) (Finite False y) = Finite False (f64_round (x * y))"
  by (simp add: f64_of_magnitude_finite)

lemma f64_add_finite:
  "0 \<le> x \<Longrightarrow> 0 \<le> y \<Longrightarrow> x + y \<le> 2 ^ 1023 \<Longrightarrow> f64_add (Finite False x) (Finite False y) = Finite False (f64_round (x + y))"
  by (simp add: f64_signed_def f64_of_magnitude_finite Let_def not_less)

text \<open>The seconds of a duration, with two roundings one upon the other.\<close>

lemma nanos_ratio: "n < nanos_per_sec \<Longrightarrow> f64_ratio n nanos_per_sec = f64_round (of_nat n / of_nat nanos_per_sec)"
  using f64_round_of_nat [of nanos_per_sec] by (simp add: f64_ratio_def f64_round_of_nat nanos_per_sec_def)

lemma tame_nanos: "tame (of_nat n / of_nat nanos_per_sec)"
proof (cases n)
  case (Suc m)
  have "(2 :: rat) powi - 100 \<le> 1 / of_nat nanos_per_sec" by (simp add: nanos_per_sec_def power_int_minus power_int_numeral)
  also have "\<dots> \<le> of_nat n / of_nat nanos_per_sec" by (intro divide_right_mono) (auto simp: Suc)
  finally show ?thesis by (simp add: tame_def)
qed (simp add: tame_def)

lemma as_secs_f64_bound:
  assumes "d < 2 ^ 63 * nanos_per_sec"
  shows "\<exists>s. as_secs_f64 d = Finite False s \<and> tame s \<and> s \<le> of_nat d / of_nat nanos_per_sec * (1 + 1 / 2 ^ 53) ^ 2 \<and> s \<le> 2 ^ 65"
proof -
  let ?S = "d div nanos_per_sec" and ?N = "d mod nanos_per_sec"
  have N: "?N < nanos_per_sec" by (simp add: nanos_per_sec_def)
  have S: "?S < 2 ^ 63" using assms by (simp add: less_mult_imp_div_less)
  define x y where "x = f64_round (of_nat ?S)" and "y = f64_round (of_nat ?N / of_nat nanos_per_sec)"
  have x: "f64_of_nat ?S = Finite False x" "tame x" "x \<le> of_nat ?S * (1 + 1 / 2 ^ 53)"
    unfolding x_def using S by (intro f64_of_nat_finite tame_of_nat tame_round tame_round_upper; simp)+
  have "?N < 2 ^ 64" "nanos_per_sec < 2 ^ 64" "1 \<le> nanos_per_sec" using N by (simp_all add: nanos_per_sec_def)
  then have "f64_div (f64_of_nat ?N) (f64_of_nat nanos_per_sec) = Finite False y"
    unfolding y_def nanos_ratio [OF N, symmetric] by (rule f64_div_of_nat)
  moreover have "tame y" "y \<le> of_nat ?N / of_nat nanos_per_sec * (1 + 1 / 2 ^ 53)"
    unfolding y_def by (intro tame_round tame_round_upper tame_nanos)+
  ultimately have y: "f64_div (f64_of_nat ?N) (f64_of_nat nanos_per_sec) = Finite False y" "tame y"
    "y \<le> of_nat ?N / of_nat nanos_per_sec * (1 + 1 / 2 ^ 53)" by blast+
  have "x \<le> 2 ^ 63"
    unfolding x_def using S by (intro f64_round_le_powi) (simp_all flip: of_nat_power)
  moreover have "y \<le> 2 ^ 0"
    unfolding y_def using N by (intro f64_round_le_powi) simp_all
  ultimately have xy: "x + y \<le> 2 ^ 64" by simp
  also have "\<dots> \<le> (2 :: rat) ^ 1023" by (intro power_increasing) auto
  finally have a: "as_secs_f64 d = Finite False (f64_round (x + y))"
    unfolding as_secs_f64_def x(1) y(1) by (intro f64_add_finite tame_nonneg x y)
  have d: "of_nat d = of_nat ?S * of_nat nanos_per_sec + (of_nat ?N :: rat)"
    by (metis div_mult_mod_eq of_nat_add of_nat_mult)
  have "f64_round (x + y) \<le> (x + y) * (1 + 1 / 2 ^ 53)"
    using x y by (intro tame_round_upper tame_add)
  also have "\<dots> \<le> (of_nat ?S + of_nat ?N / of_nat nanos_per_sec) * (1 + 1 / 2 ^ 53) * (1 + 1 / 2 ^ 53)"
    using add_mono [OF x(3) y(3)] unfolding distrib_right [symmetric] by (rule mult_right_mono) simp
  also have "of_nat ?S + of_nat ?N / of_nat nanos_per_sec = (of_nat d / of_nat nanos_per_sec :: rat)"
    unfolding d by (simp add: nanos_per_sec_def add_divide_distrib)
  finally have up: "f64_round (x + y) \<le> of_nat d / of_nat nanos_per_sec * (1 + 1 / 2 ^ 53) ^ 2"
    by (simp only: power2_eq_square mult.assoc)
  have "f64_round (x + y) \<le> 2 ^ 65"
    using xy x y tame_nonneg by (intro f64_round_le_powi) auto
  then show ?thesis using a up x y tame_round tame_add by blast
qed

text \<open>What is refilled is at most the rate times the time passed, up to a relative error.\<close>

lemma round_excess: "((1 + 1 / 2 ^ 53) ^ 2 * (1 + 1 / 2 ^ 53)) * (1 + 1 / 2 ^ 53) \<le> (1 + 1 / 2 ^ 50 :: rat)"
  by (simp add: power2_eq_square field_simps)

lemma refill_bytes_le:
  assumes "d < 2 ^ 63 * nanos_per_sec"
  shows "of_nat (refill_bytes rl d) \<le>
    (1 + 1 / 2 ^ 50) * (of_nat (unat (rl_bytes_per_sec rl)) * (of_nat d / of_nat nanos_per_sec) :: rat)"
proof -
  obtain s where s: "as_secs_f64 d = Finite False s" "tame s"
    "s \<le> of_nat d / of_nat nanos_per_sec * (1 + 1 / 2 ^ 53) ^ 2" "s \<le> 2 ^ 65"
    using as_secs_f64_bound [OF assms] by blast
  define n where "n = unat (rl_bytes_per_sec rl)"
  define r :: rat where "r = f64_round (of_nat n)"
  have n: "n < 2 ^ 64" using unsigned_less [of "rl_bytes_per_sec rl"] by (simp add: n_def)
  have fr: "f64_of_nat n = Finite False r" and r64: "r \<le> 2 ^ 64"
    unfolding r_def using n by (intro f64_of_nat_finite f64_round_le_powi u64_le_powi; simp)+
  have r: "0 \<le> r" "r \<le> of_nat n * (1 + 1 / 2 ^ 53)"
    unfolding r_def by (simp, rule tame_round_upper [OF tame_of_nat])
  have r1: "r = 0 \<or> 1 \<le> r"
    using f64_round_ge_1 [of "of_nat n"] by (cases n) (auto simp: r_def)
  have t: "tame (s * r)"
    using s(2) r1 mult_mono [of "2 powi - 100" s 1 r] by (auto simp: tame_def)
  have "s * r \<le> 2 ^ 65 * 2 ^ 64" using s(4) r64 r(1) tame_nonneg [OF s(2)] by (intro mult_mono) auto
  also have "\<dots> \<le> (2 :: rat) ^ 1023" by (subst power_add [symmetric], intro power_increasing) auto
  finally have "of_nat (refill_bytes rl d) \<le> f64_round (s * r)"
    using s fr r tame_nonneg f64_to_u64_le [of "f64_round (s * r)" False]
    by (simp add: refill_bytes_def f64_of_magnitude_finite n_def [symmetric] del: f64_to_u64.simps)
  also have "\<dots> \<le> s * r * (1 + 1 / 2 ^ 53)" using tame_round_upper [OF t] .
  also have "\<dots> \<le> (of_nat d / of_nat nanos_per_sec * (1 + 1 / 2 ^ 53) ^ 2) * (of_nat n * (1 + 1 / 2 ^ 53)) * (1 + 1 / 2 ^ 53)"
    using s(3) r tame_nonneg [OF s(2)] by (intro mult_right_mono mult_mono) auto
  also have "\<dots> = of_nat n * (of_nat d / of_nat nanos_per_sec) * ((1 + 1 / 2 ^ 53) ^ 2 * (1 + 1 / 2 ^ 53) * (1 + 1 / 2 ^ 53))"
    by (simp only: mult_ac)
  also have "\<dots> \<le> of_nat n * (of_nat d / of_nat nanos_per_sec) * (1 + 1 / 2 ^ 50)"
    using round_excess by (intro mult_left_mono) auto
  finally show ?thesis by (simp only: mult.commute n_def)
qed

text \<open>A wait is long enough for what is missing, up to half a nanosecond and the same relative error.\<close>

lemma round_deficit: "(1 + 1 / 2 ^ 53 :: rat) \<le> (1 + 1 / 2 ^ 50) * ((1 - 1 / 2 ^ 53) * (1 - 1 / 2 ^ 53))"
  by (simp add: field_simps)

lemma ratio_lower:
  assumes "1 \<le> m" "1 \<le> r" "r < 2 ^ 64"
  shows "of_nat m \<le> (1 + 1 / 2 ^ 50) * (of_nat r * f64_ratio m r)"
proof -
  define x y where "x = f64_round (of_nat m)" and "y = f64_round (of_nat r)"
  have y: "1 \<le> y" "y \<le> 2 ^ 64" "y \<le> of_nat r * (1 + 1 / 2 ^ 53)"
    unfolding y_def using assms by (intro f64_round_ge_1 f64_round_le_powi tame_round_upper tame_of_nat u64_le_powi; simp)+
  have x: "1 \<le> x" "of_nat m * (1 - 1 / 2 ^ 53) \<le> x"
    unfolding x_def using assms by (intro f64_round_ge_1 tame_round_lower tame_of_nat; simp)+
  have "(2 :: rat) powi - 100 \<le> 1 / 2 ^ 64" by (simp add: power_int_minus power_int_numeral)
  also have "\<dots> \<le> x / y" using x y by (intro frac_le) auto
  finally have q: "x / y * (1 - 1 / 2 ^ 53) \<le> f64_ratio m r"
    unfolding f64_ratio_def x_def [symmetric] y_def [symmetric] by (intro tame_round_lower) (simp add: tame_def)
  have "of_nat m * (1 - 1 / 2 ^ 53) * (1 - 1 / 2 ^ 53) \<le> x * (1 - 1 / 2 ^ 53)"
    using x(2) by (rule mult_right_mono) simp
  also have "\<dots> = y * (x / y * (1 - 1 / 2 ^ 53))" using y(1) by simp
  also have "\<dots> \<le> y * f64_ratio m r" using q y(1) by (intro mult_left_mono) auto
  also have "\<dots> \<le> of_nat r * (1 + 1 / 2 ^ 53) * f64_ratio m r"
    using y(3) f64_ratio_nonneg by (intro mult_right_mono)
  also have "\<dots> = of_nat r * f64_ratio m r * (1 + 1 / 2 ^ 53)" by (simp only: mult_ac)
  also have "\<dots> \<le> of_nat r * f64_ratio m r * ((1 + 1 / 2 ^ 50) * ((1 - 1 / 2 ^ 53) * (1 - 1 / 2 ^ 53)))"
    using round_deficit f64_ratio_nonneg by (intro mult_left_mono) auto
  finally have "of_nat m * ((1 - 1 / 2 ^ 53) * (1 - 1 / 2 ^ 53)) \<le>
      (1 + 1 / 2 ^ 50) * (of_nat r * f64_ratio m r) * ((1 - 1 / 2 ^ 53) * (1 - 1 / 2 ^ 53))"
    by (simp only: mult_ac)
  then show ?thesis by (rule mult_right_le_imp_le) simp
qed

lemma wait_covers:
  assumes "from_secs_f64 (f64_div (f64_of_nat m) (f64_of_nat r)) = Inr wait"
    and m: "1 \<le> m" "m < 2 ^ 64" and r: "1 \<le> r" "r < 2 ^ 64"
  shows "of_nat m \<le> (1 + 1 / 2 ^ 50) * (of_nat r * ((of_nat wait + 1 / 2) / of_nat nanos_per_sec) :: rat)"
proof -
  let ?w = "f64_ratio m r * of_nat nanos_per_sec"
  have wait: "wait = nat (round_even ?w)"
    using assms(1) unfolding f64_div_of_nat [OF m(2) r(2,1)] by (auto split: if_splits)
  have "?w \<le> of_int (round_even ?w) + 1 / 2" using round_even_close [of ?w] by linarith
  also have "of_int (round_even ?w) \<le> (of_nat wait :: rat)" unfolding wait by simp
  finally have "f64_ratio m r \<le> (of_nat wait + 1 / 2) / of_nat nanos_per_sec"
    by (simp add: pos_le_divide_eq nanos_per_sec_def)
  then have "(1 + 1 / 2 ^ 50) * (of_nat r * f64_ratio m r) \<le> (1 + 1 / 2 ^ 50) * (of_nat r * ((of_nat wait + 1 / 2) / of_nat nanos_per_sec))"
    by (intro mult_left_mono) auto
  with ratio_lower [OF m(1) r] show ?thesis by (rule order_trans)
qed

subsection \<open>Accounting\<close>

text \<open>The tokens that flow per nanosecond, the relative error included.\<close>

definition flow :: "rate_limiter \<Rightarrow> rat" where
  "flow rl = (1 + 1 / 2 ^ 50) * (of_nat (unat (rl_bytes_per_sec rl)) / of_nat nanos_per_sec)"

definition tokens :: "rate_limiter \<Rightarrow> rat" where
  "tokens rl = of_nat (unat (rl_available rl))"

lemma flow_nonneg: "0 \<le> flow rl"
  unfolding flow_def by (intro mult_nonneg_nonneg divide_nonneg_nonneg of_nat_0_le_iff) simp

text \<open>Either the last refill lies in the past or the bucket is empty and all is promised.\<close>

definition promised :: "nat \<Rightarrow> rate_limiter \<Rightarrow> bool" where
  "promised now rl \<longleftrightarrow> rl_last_refill rl \<le> now \<or> rl_available rl = 0"

definition clock_ok :: "nat \<Rightarrow> bool" where
  "clock_ok t \<longleftrightarrow> t < 2 ^ 63 * nanos_per_sec"

lemma unat_u64_power: "unat (x :: u64) < 2 ^ 64"
  by simp

lemma tokens_add_min:
  assumes "unat a + k < 2 ^ 64"
  shows "(of_nat (unat (min (a + word_of_nat k :: u64) b)) :: rat) \<le> of_nat (unat a) + of_nat k"
proof -
  have "unat (a + word_of_nat k) = unat a + k"
    using assms by (simp add: unat_word_ariths unsigned_of_nat take_bit_nat_eq_self)
  then have "unat (min (a + word_of_nat k) b) \<le> unat a + k"
    by (simp add: min_def word_le_nat_alt)
  then show ?thesis by (metis of_nat_add of_nat_le_iff)
qed

lemma refill_account:
  assumes "refill_bucket now rl = Inr rl'" and "clock_ok now"
  shows "rl_bytes_per_sec rl' = rl_bytes_per_sec rl" and "rl_last_refill rl' = max (rl_last_refill rl) now"
    and "tokens rl' \<le> tokens rl + flow rl * (of_nat (rl_last_refill rl') - of_nat (rl_last_refill rl))"
    and "promised now rl \<Longrightarrow> promised now rl'"
proof -
  let ?d = "now - rl_last_refill rl"
  have "tokens rl' \<le> tokens rl + flow rl * of_nat ?d" if "rl_last_refill rl \<le> now"
  proof -
    have "?d < 2 ^ 63 * nanos_per_sec" using assms(2) by (simp add: clock_ok_def)
    from refill_bytes_le [OF this, of rl] have r: "of_nat (refill_bytes rl ?d) \<le> flow rl * of_nat ?d"
      by (simp add: flow_def)
    have "tokens rl' \<le> tokens rl + of_nat (refill_bytes rl ?d)"
      using assms(1) that tokens_add_min [of "rl_available rl" "refill_bytes rl ?d" "rl_bytes_per_sec rl"]
      by (auto simp: refill_bucket_def tokens_def Let_def split: if_splits)
    with r show ?thesis by linarith
  qed
  moreover show l: "rl_last_refill rl' = max (rl_last_refill rl) now" "rl_bytes_per_sec rl' = rl_bytes_per_sec rl"
    using assms(1) by (auto simp: refill_bucket_def Let_def split: if_splits)
  moreover have "rl' = rl" if "\<not> rl_last_refill rl \<le> now"
    using assms(1) that by (simp add: refill_bucket_def)
  ultimately show "tokens rl' \<le> tokens rl + flow rl * (of_nat (rl_last_refill rl') - of_nat (rl_last_refill rl))"
    by (cases "rl_last_refill rl \<le> now") (auto simp: max_def of_nat_diff)
  show "promised now rl'" if "promised now rl"
    using that l \<open>\<not> rl_last_refill rl \<le> now \<Longrightarrow> rl' = rl\<close> by (cases "rl_last_refill rl \<le> now") (auto simp: promised_def)
qed

lemma grant_account:
  assumes "refill_bucket now rl = Inr rl1" and "n \<le> rl_available rl1"
  shows "reserve n now rl = Inr (0, rl1\<lparr>rl_available := rl_available rl1 - n\<rparr>)"
    and "of_nat (unat n) + tokens (rl1\<lparr>rl_available := rl_available rl1 - n\<rparr>) = tokens rl1"
proof -
  show "reserve n now rl = Inr (0, rl1\<lparr>rl_available := rl_available rl1 - n\<rparr>)" using assms by (simp add: reserve_def)
  have "unat n + unat (rl_available rl1 - n) = unat (rl_available rl1)"
    using assms(2) by (simp add: unat_sub word_le_nat_alt)
  then show "of_nat (unat n) + tokens (rl1\<lparr>rl_available := rl_available rl1 - n\<rparr>) = tokens rl1"
    unfolding tokens_def by (metis of_nat_add rate_limiter.select_convs(2) rate_limiter.update_convs(2) rate_limiter.surjective)
qed

lemma wait_account:
  assumes "refill_bucket now rl = Inr rl1" and "rl_available rl1 < n" and "reserve n now rl = Inr (wait, rl')"
    and "1 \<le> rl_bytes_per_sec rl1"
  shows "rl_available rl' = 0" and "rl_bytes_per_sec rl' = rl_bytes_per_sec rl1" and "rl_last_refill rl1 \<le> rl_last_refill rl'"
    and "wait = rl_last_refill rl' - now" and "clock_ok (rl_last_refill rl')"
    and "of_nat (unat n) \<le> tokens rl1 + flow rl1 * (of_nat (rl_last_refill rl') - of_nat (rl_last_refill rl1) + 1 / 2)"
proof -
  let ?m = "n - rl_available rl1"
  from assms(1-3) obtain w where
    w: "from_secs_f64 (f64_div (f64_of_nat (unat ?m)) (f64_of_nat (unat (rl_bytes_per_sec rl1)))) = Inr w"
    and fits: "rl_last_refill rl1 + w < 2 ^ 63 * nanos_per_sec" and wait: "wait = rl_last_refill rl1 + w - now"
    and rl': "rl' = rl1\<lparr>rl_available := 0, rl_last_refill := rl_last_refill rl1 + w\<rparr>"
    by (auto simp: reserve_def Let_def instant_add_def result_simps split: if_splits)
  show "rl_available rl' = 0" "rl_bytes_per_sec rl' = rl_bytes_per_sec rl1" "rl_last_refill rl1 \<le> rl_last_refill rl'"
    "wait = rl_last_refill rl' - now" "clock_ok (rl_last_refill rl')"
    using fits wait by (simp_all add: rl' clock_ok_def)
  have m: "unat n = unat (rl_available rl1) + unat ?m"
    using unat_sub [of "rl_available rl1" n] assms(2) by (simp add: word_less_nat_alt word_le_nat_alt)
  have "1 \<le> unat ?m" "1 \<le> unat (rl_bytes_per_sec rl1)"
    using assms(2,4) m by (auto simp: word_less_nat_alt word_le_nat_alt)
  with wait_covers [OF w _ unat_u64_power _ unat_u64_power] have "of_nat (unat ?m) \<le> flow rl1 * (of_nat w + 1 / 2)"
    unfolding flow_def by (simp only: times_divide_eq_left times_divide_eq_right mult.assoc)
  then show "of_nat (unat n) \<le> tokens rl1 + flow rl1 * (of_nat (rl_last_refill rl') - of_nat (rl_last_refill rl1) + 1 / 2)"
    unfolding m tokens_def by (simp add: rl')
qed

text \<open>One call: the bytes it admits are paid for by the bucket and the time up to the new refill mark.\<close>

lemma reserve_account:
  assumes "reserve n now rl = Inr (wait, rl')" and "clock_ok now" and "1 \<le> rl_bytes_per_sec rl" and "promised now rl"
  shows "rl_bytes_per_sec rl' = rl_bytes_per_sec rl \<and> promised now rl' \<and>
    of_nat (unat n) + tokens rl' \<le> tokens rl + flow rl * (of_nat (rl_last_refill rl') - of_nat (rl_last_refill rl) + 1 / 2) \<and>
    (0 < n \<longrightarrow> rl_last_refill rl' = now + wait)"
proof -
  from assms(1) obtain rl1 where rl1: "refill_bucket now rl = Inr rl1" by (auto simp: reserve_def result_simps)
  note R = refill_account [OF rl1 assms(2)]
  have fl: "flow rl1 = flow rl" using R(1) by (simp add: flow_def)
  have pos: "0 \<le> flow rl * (1 / 2)" using flow_nonneg [of rl] by simp
  show ?thesis
  proof (cases "n \<le> rl_available rl1")
    case True
    note G = grant_account [OF rl1 True]
    have rl': "rl' = rl1\<lparr>rl_available := rl_available rl1 - n\<rparr>" "wait = 0" using G(1) assms(1) by auto
    have "promised now rl'" using R(4) [OF assms(4)] True by (auto simp: rl' promised_def)
    moreover have "rl_last_refill rl' = now" if "0 < n"
      using R(2) R(4) [OF assms(4)] True that by (auto simp: rl' promised_def)
    moreover have "of_nat (unat n) + tokens rl' \<le> tokens rl + flow rl * (of_nat (rl_last_refill rl') - of_nat (rl_last_refill rl) + 1 / 2)"
      using G(2) R(3) pos unfolding rl' distrib_left by simp
    ultimately show ?thesis using R(1) by (simp add: rl')
  next
    case False
    then have lt: "rl_available rl1 < n" by simp
    have "1 \<le> rl_bytes_per_sec rl1" using assms(3) R(1) by simp
    note W = wait_account [OF rl1 lt assms(1) this]
    have "of_nat (unat n) \<le> tokens rl + flow rl * (of_nat (rl_last_refill rl') - of_nat (rl_last_refill rl) + 1 / 2)"
      using W(6) R(3) unfolding fl by (simp add: algebra_simps)
    moreover have "now \<le> rl_last_refill rl'" using W(3) R(2) by simp
    ultimately show ?thesis using W R(1) by (simp add: promised_def tokens_def)
  qed
qed

definition admitted :: "(u64 \<times> nat) list \<Rightarrow> nat" where
  "admitted ws = sum_list (map (\<lambda>(n, now). unat n) ws)"

lemma promised_later: "promised t rl \<Longrightarrow> t \<le> t' \<Longrightarrow> promised t' rl"
  by (auto simp: promised_def)

lemma limit_writes_account:
  assumes "limit_writes ws (Some rl) = Inr (waits, limiter)" and "sorted (map snd ws)" and "list_all clock_ok (map snd ws)"
    and "1 \<le> rl_bytes_per_sec rl" and "list_all (\<lambda>t. promised t rl) (map snd ws)"
  shows "\<exists>rl'. limiter = Some rl' \<and> length waits = length ws \<and>
    of_nat (admitted ws) + tokens rl' \<le>
      tokens rl + flow rl * (of_nat (rl_last_refill rl') - of_nat (rl_last_refill rl) + of_nat (length ws) / 2) \<and>
    (ws \<noteq> [] \<and> 0 < fst (last ws) \<longrightarrow> rl_last_refill rl' = snd (last ws) + last waits)"
  using assms
proof (induction ws arbitrary: rl waits)
  case (Cons w ws)
  obtain n now where w: "w = (n, now)" by force
  from Cons.prems(1) obtain wait rl1 waits1 where r: "reserve n now rl = Inr (wait, rl1)"
    and rest: "limit_writes ws (Some rl1) = Inr (waits1, limiter)" and waits: "waits = wait # waits1"
    by (auto simp: w apply_write_rate_limit_def result_simps)
  have now: "clock_ok now" "promised now rl" "list_all (\<lambda>t. now \<le> t) (map snd ws)"
    using Cons.prems by (auto simp: w list_all_iff)
  have A: "rl_bytes_per_sec rl1 = rl_bytes_per_sec rl" "promised now rl1"
    "of_nat (unat n) + tokens rl1 \<le> tokens rl + flow rl * (of_nat (rl_last_refill rl1) - of_nat (rl_last_refill rl) + 1 / 2)"
    "0 < n \<Longrightarrow> rl_last_refill rl1 = now + wait"
    using reserve_account [OF r now(1) Cons.prems(4) now(2)] by blast+
  have "list_all (\<lambda>t. promised t rl1) (map snd ws)"
    using now(3) promised_later [OF A(2)] by (auto simp: list_all_iff)
  with Cons.IH [OF rest] Cons.prems A(1) obtain rl' where rl': "limiter = Some rl'" "length waits1 = length ws"
    "of_nat (admitted ws) + tokens rl' \<le>
       tokens rl1 + flow rl1 * (of_nat (rl_last_refill rl') - of_nat (rl_last_refill rl1) + of_nat (length ws) / 2)"
    "ws \<noteq> [] \<and> 0 < fst (last ws) \<longrightarrow> rl_last_refill rl' = snd (last ws) + last waits1"
    by (auto simp: w)
  have fl: "flow rl1 = flow rl" using A(1) by (simp add: flow_def)
  have adm: "of_nat (admitted (w # ws)) = of_nat (unat n) + (of_nat (admitted ws) :: rat)"
    unfolding admitted_def w by (simp del: of_nat_unat)
  have "of_nat (admitted (w # ws)) + tokens rl' \<le>
      tokens rl + flow rl * (of_nat (rl_last_refill rl') - of_nat (rl_last_refill rl) + of_nat (length (w # ws)) / 2)"
    using A(3) rl'(3) unfolding fl adm by (simp add: algebra_simps add_divide_distrib del: of_nat_unat)
  then show ?case using rl' A(4) waits rest by (cases "ws = []") (auto simp: w)
qed (auto simp: admitted_def)

subsection \<open>Concrete calls\<close>

lemma refill_none: "refill_bytes rl 0 = 0"
  using refill_bytes_le [of 0 rl] by (simp add: nanos_per_sec_def)

lemma half_ratio: "f64_ratio 5 10 = 1 / 2"
  using f64_round_of_nat [of 5] f64_round_of_nat [of 10] f64_round_powi [of "- 1"]
  by (simp add: f64_ratio_def power_int_minus)

lemma half_second: "from_secs_f64 (f64_div (f64_of_nat 5) (f64_of_nat 10)) = Inr 500000000"
proof -
  have "round_even 500000000 = 500000000" using round_even_of_int [of 500000000] by simp
  then show ?thesis using f64_div_of_nat [of 5 10] by (simp add: half_ratio nanos_per_sec_def)
qed

lemma demo_reserve:
  "reserve 15 0 (rate_limiter_new 10 0) =
    Inr (500000000, \<lparr>rl_bytes_per_sec = 10, rl_available = 0, rl_last_refill = 500000000\<rparr>)"
  by (simp add: reserve_def refill_bucket_def rate_limiter_new_def refill_none half_second instant_add_def
      nanos_per_sec_def Let_def)

text \<open>
  The sum of the bucket and the refill is not checked: with a rate of \<open>2 ^ 63\<close> bytes a
  second, two idle seconds make the next call panic.
\<close>

lemma reserve_overflow:
  "reserve 0 (2 * nanos_per_sec) (rate_limiter_new (2 ^ 63) 0) = Inl (Panic ''attempt to add with overflow'')"
proof -
  have two: "f64_of_nat 2 = Finite False 2" "f64_of_nat (2 ^ 63) = Finite False (2 ^ 63)" "f64_round (2 ^ 64) = 2 ^ 64" "f64_round 2 = 2"
    using f64_round_of_nat [of 2] f64_round_powi [of 63] f64_round_powi [of 64] f64_of_nat_finite [of "2 ^ 63"]
    by (simp_all add: f64_of_nat_finite)
  have "f64_div (f64_of_nat 0) (f64_of_nat nanos_per_sec) = Finite False 0"
    using f64_div_of_nat [of 0 nanos_per_sec] by (simp add: nanos_per_sec_def f64_ratio_def)
  then have "as_secs_f64 (2 * nanos_per_sec) = f64_add (Finite False 2) (Finite False 0)"
    using two by (simp add: as_secs_f64_def nanos_per_sec_def)
  also have "\<dots> = Finite False 2" using two f64_add_finite [of 2 0] by simp
  finally have "refill_bytes (rate_limiter_new (2 ^ 63) 0) (2 * nanos_per_sec) = 2 ^ 64 - 1"
    using two f64_mul_finite [of 2 "2 ^ 63"] by (simp add: refill_bytes_def rate_limiter_new_def max_def word_le_nat_alt)
  then show ?thesis
    by (simp add: reserve_def refill_bucket_def rate_limiter_new_def max_def word_le_nat_alt Let_def)
qed

text \<open>
  C28: what the rate limiter lets through.  However the writes are spread over time, when a
  write goes on after its wait, the bytes of all the writes so far are at most one second's
  worth plus the rate times the time since the limiter was made; the float arithmetic adds
  a relative error below 2 ^ - 50 and half a nanosecond of rate per write.
\<close>

theorem rate_limit_bound:
  assumes "limit_writes ws (Some (rate_limiter_new rate start)) = Inr (waits, limiter)"
    and "sorted (start # map snd ws)" and "\<forall>t\<in>set (map snd ws). clock_ok t"
    and "ws \<noteq> []" and "0 < fst (last ws)"
  shows "(of_nat (admitted ws) :: rat) \<le> of_nat (unat (max rate 1)) +
    (1 + 1 / 2 ^ 50) * (of_nat (unat (max rate 1)) / of_nat nanos_per_sec) *
      (of_nat (snd (last ws) + last waits) - of_nat start + of_nat (length ws) / 2)"
proof -
  let ?rl = "rate_limiter_new rate start"
  have "1 \<le> rl_bytes_per_sec ?rl" "list_all (\<lambda>t. promised t ?rl) (map snd ws)" "list_all clock_ok (map snd ws)"
    "sorted (map snd ws)"
    using assms(2,3) by (auto simp: rate_limiter_new_def promised_def list_all_iff)
  then obtain rl' where rl': "of_nat (admitted ws) + tokens rl' \<le>
      tokens ?rl + flow ?rl * (of_nat (rl_last_refill rl') - of_nat (rl_last_refill ?rl) + of_nat (length ws) / 2)"
    "rl_last_refill rl' = snd (last ws) + last waits"
    using limit_writes_account [OF assms(1)] assms(4,5) by blast
  have "0 \<le> tokens rl'" unfolding tokens_def by (rule of_nat_0_le_iff)
  then have "of_nat (admitted ws) \<le>
      tokens ?rl + flow ?rl * (of_nat (rl_last_refill rl') - of_nat (rl_last_refill ?rl) + of_nat (length ws) / 2)"
    using rl'(1) by linarith
  then show ?thesis by (simp only: rl'(2) flow_def tokens_def rate_limiter_new_def rate_limiter.simps)
qed

theorem rate_limit_bound_witness:
  "limit_writes [(15, 0)] (Some (rate_limiter_new 10 0)) =
      Inr ([500000000], Some \<lparr>rl_bytes_per_sec = 10, rl_available = 0, rl_last_refill = 500000000\<rparr>) \<and>
    (of_nat (admitted [(15, 0)]) :: rat) \<le> of_nat (unat (max (10 :: u64) 1)) +
      (1 + 1 / 2 ^ 50) * (of_nat (unat (max (10 :: u64) 1)) / of_nat nanos_per_sec) *
        (of_nat (snd (last [(15 :: u64, 0 :: nat)]) + last [500000000]) - of_nat 0 + of_nat (length [(15 :: u64, 0 :: nat)]) / 2)"
proof -
  have run: "limit_writes [(15, 0)] (Some (rate_limiter_new 10 0)) =
      Inr ([500000000], Some \<lparr>rl_bytes_per_sec = 10, rl_available = 0, rl_last_refill = 500000000\<rparr>)"
    by (simp add: apply_write_rate_limit_def demo_reserve)
  moreover have "sorted (0 # map snd [(15 :: u64, 0 :: nat)])" "\<forall>t\<in>set (map snd [(15 :: u64, 0)]). clock_ok t"
    "[(15 :: u64, 0 :: nat)] \<noteq> []" "0 < fst (last [(15 :: u64, 0 :: nat)])"
    by (simp_all add: clock_ok_def nanos_per_sec_def)
  ultimately show ?thesis using rate_limit_bound by blast
qed

end
