(* ===== verification/Disk_Frames.thy ===== *)
theory Disk_Frames
  imports Recovery Database_Api Database_Compaction
begin

section \<open>What stays of the log and the manifest\<close>

text \<open>
  The files a recovery reads are \<^verbatim>\<open>CURRENT\<close>, the manifest and the log.  Writing
  tables, reading them and removing them leaves these files alone, and changes neither the
  directories nor an environment without faults; this theory has the frames that say so.
\<close>

named_theorems steady_intros \<open>operations that keep directories and the absence of faults\<close>

subsection \<open>The environment\<close>

definition steady :: "(env, 'a) op \<Rightarrow> bool" where
  "steady m \<longleftrightarrow> (\<forall>e r e'. m e = (r, e') \<longrightarrow> env_dirs e' = env_dirs e \<and> (env_faults e = [] \<longrightarrow> env_faults e' = []))"

lemma steadyD:
  "steady m \<Longrightarrow> m e = (r, e') \<Longrightarrow> env_dirs e' = env_dirs e"
  "steady m \<Longrightarrow> m e = (r, e') \<Longrightarrow> env_faults e = [] \<Longrightarrow> env_faults e' = []"
  by (auto simp: steady_def)

lemma steady_lift [steady_intros]: "steady (op_lift r)"
  by (simp add: steady_def op_lift_def)

lemma steady_then [steady_intros]:
  assumes "steady m" and "\<And>x. steady (f x)"
  shows "steady (op_then m f)"
  unfolding steady_def
proof (intro allI impI)
  fix e r e' assume "op_then m f e = (r, e')"
  then show "env_dirs e' = env_dirs e \<and> (env_faults e = [] \<longrightarrow> env_faults e' = [])"
  proof (cases rule: op_thenE)
    case (fail x)
    with steadyD [OF assms(1) fail(1)] show ?thesis by simp
  next
    case (ok x e1)
    with steadyD [OF assms(1) ok(1)] steadyD [OF assms(2) ok(2)] show ?thesis by simp
  qed
qed

lemma steady_then_pair [steady_intros]:
  "steady m \<Longrightarrow> (\<And>x y. steady (f x y)) \<Longrightarrow> steady (op_then m (\<lambda>(x, y). f x y))"
  by (rule steady_then) auto

lemma take_fault_steady: "take_fault e = (f, e') \<Longrightarrow> env_dirs e' = env_dirs e \<and> (env_faults e = [] \<longrightarrow> env_faults e' = [])"
  by (auto simp: take_fault_def split: list.splits)

lemma steady_faultable: "steady m \<Longrightarrow> steady (faultable m)"
  by (fastforce simp: steady_def faultable_def split: prod.splits option.splits dest: take_fault_steady)

lemma steady_write_all [steady_intros]: "steady (write_all p bs)"
  by (fastforce simp: steady_def write_all_def append_bytes_def set_file_def split: prod.splits option.splits
      dest: take_fault_steady)

lemma steady_calls [steady_intros]:
  "steady (open_writable p opts)" "steady (sync_all p)" "steady (metadata_len p)" "steady (open_readable p)"
  "steady (env_rename from to)" "steady (remove_file p)"
  unfolding open_writable_def sync_all_def metadata_len_def open_readable_def env_rename_def remove_file_def
  by (rule steady_faultable; auto simp: steady_def set_file_def split: option.splits if_splits)+

lemma steady_wal [steady_intros]:
  "steady (wal_append crc p payload)" "steady (wal_sync p)" "steady (wal_writer_create p)" "steady (manifest_append crc p edit)"
  unfolding wal_append_def wal_sync_def wal_writer_create_def manifest_append_def Let_def by (intro steady_intros)+

lemma steady_write_block [steady_intros]: "steady (write_block X b blk)"
  unfolding write_block_def Let_def by (intro steady_intros)

lemma steady_flush_block [steady_intros]: "steady (flush_current_block X b)"
  unfolding flush_current_block_def Let_def by (auto intro!: steady_intros split: option.split)

lemma steady_builder_add [steady_intros]: "steady (builder_add X b k v)"
  unfolding builder_add_def Let_def by (auto intro!: steady_intros)

lemma steady_builder_add_all [steady_intros]: "steady (builder_add_all X b es)"
  by (induction es arbitrary: b) (auto intro!: steady_intros)

lemma steady_build_table [steady_intros]: "steady (build_table X p bs cm es)"
  unfolding build_table_def builder_create_with_env_def builder_finish_def Let_def by (intro steady_intros)

lemma steady_reader_open [steady_intros]: "steady (reader_open_with_env X p)"
  unfolding reader_open_with_env_def Let_def by (auto intro!: steady_intros)

lemma steady_file_meta [steady_intros]: "steady (file_meta_from_table X n file_size rd)"
proof -
  have "steady (reader_entries X rd)"
    using steadyD [OF steady_calls(4)]
    by (fastforce simp: steady_def reader_entries_def entries_with_cache_def with_file_def split: prod.splits sum.splits)
  then show ?thesis unfolding file_meta_from_table_def by (intro steady_intros)
qed

subsection \<open>The database\<close>

definition log_files :: "path \<Rightarrow> path set" where
  "log_files dir = insert (path_join dir ''CURRENT'')
     (range (\<lambda>n. path_join dir (manifest_file_name n)) \<union> range (\<lambda>n. path_join dir (wal_file_name n)))"

definition same_memory :: "'m db \<Rightarrow> 'm db \<Rightarrow> bool" where
  "same_memory d d' \<longleftrightarrow> db_path d' = db_path d \<and> db_options d' = db_options d \<and> db_watermark d' = db_watermark d \<and>
     db_mutable d' = db_mutable d \<and> db_immutables d' = db_immutables d \<and> db_l0_tables d' = db_l0_tables d \<and>
     db_level_tables d' = db_level_tables d \<and> db_last_sequence d' = db_last_sequence d \<and> db_closed d' = db_closed d"

lemma same_memory_refl [simp]: "same_memory d d"
  by (simp add: same_memory_def)

lemma same_memory_trans: "same_memory d d1 \<Longrightarrow> same_memory d1 d2 \<Longrightarrow> same_memory d d2"
  by (simp add: same_memory_def)

lemma same_memoryD:
  assumes "same_memory d d'"
  shows "db_path d' = db_path d" and "db_options d' = db_options d" and "db_watermark d' = db_watermark d"
    and "db_mutable d' = db_mutable d" and "db_immutables d' = db_immutables d" and "db_l0_tables d' = db_l0_tables d"
    and "db_level_tables d' = db_level_tables d" and "db_last_sequence d' = db_last_sequence d" and "db_closed d' = db_closed d"
  using assms by (simp_all add: same_memory_def)

definition aside :: "'m db \<Rightarrow> 'm db \<Rightarrow> bool" where
  "aside d d' \<longleftrightarrow> same_memory d d' \<and> db_wal d' = db_wal d \<and> env_dirs (db_env d') = env_dirs (db_env d) \<and>
     (env_faults (db_env d) = [] \<longrightarrow> env_faults (db_env d') = []) \<and>
     (\<forall>p\<in>log_files (db_path d). env_files (db_env d') p = env_files (db_env d) p) \<and>
     current d' = current d \<and> vs_last_sequence (db_versions d') = vs_last_sequence (db_versions d) \<and>
     vs_log_number (db_versions d') = vs_log_number (db_versions d) \<and>
     vs_manifest_number (db_versions d') = vs_manifest_number (db_versions d) \<and>
     vs_manifest_writer (db_versions d') = vs_manifest_writer (db_versions d)"

lemma aside_refl [simp]: "aside d d"
  by (simp add: aside_def)

lemma aside_trans: "aside d d1 \<Longrightarrow> aside d1 d2 \<Longrightarrow> aside d d2"
  unfolding aside_def by (simp add: same_memory_def)

lemma aside_path: "aside d d' \<Longrightarrow> db_path d' = db_path d" "aside d d' \<Longrightarrow> db_options d' = db_options d"
  by (simp_all add: aside_def same_memory_def)

definition gentle :: "('m db, 'a) op \<Rightarrow> bool" where
  "gentle m \<longleftrightarrow> (\<forall>d r d'. m d = (r, d') \<longrightarrow> aside d d')"

lemma gentleD: "gentle m \<Longrightarrow> m d = (r, d') \<Longrightarrow> aside d d'"
  by (simp add: gentle_def)

lemma aside_then:
  assumes "op_then m f d = (r, d')" and "\<And>r1 d1. m d = (r1, d1) \<Longrightarrow> aside d d1"
    and "\<And>x d1. m d = (Inr x, d1) \<Longrightarrow> f x d1 = (r, d') \<Longrightarrow> aside d1 d'"
  shows "aside d d'"
  using assms(1)
proof (cases rule: op_thenE)
  case (fail x)
  with assms(2) show ?thesis by metis
next
  case (ok x d1)
  with assms(2,3) aside_trans show ?thesis by metis
qed

lemma gentle_then [steady_intros]: "gentle m \<Longrightarrow> (\<And>x. gentle (f x)) \<Longrightarrow> gentle (op_then m f)"
  unfolding gentle_def using aside_then by metis

lemma gentle_lift [steady_intros]: "gentle (op_lift r)"
  by (simp add: gentle_def op_lift_def)

lemma gentle_metric [steady_intros]: "gentle (metric f)"
  by (auto simp: gentle_def metric_def aside_def same_memory_def)

lemma gentle_allocate [steady_intros]: "gentle db_allocate_file_number"
  by (auto simp: gentle_def db_allocate_file_number_def allocate_file_number_def aside_def same_memory_def)

lemma aside_on_env:
  assumes "on_env m d = (r, d')" and "steady m" and "touches P m" and "P \<inter> log_files (db_path d) = {}"
  shows "aside d d'"
proof -
  obtain e where e: "m (db_env d) = (r, e)" "d' = d\<lparr>db_env := e\<rparr>" using assms(1) by (auto simp: on_env_def split: prod.splits)
  have "env_files e p = env_files (db_env d) p" if "p \<in> log_files (db_path d)" for p
    using touchesD [OF assms(3) e(1), of p] that assms(4) by blast
  then show ?thesis using steadyD [OF assms(2) e(1)] by (simp add: aside_def same_memory_def e(2))
qed

lemma gentle_on_env: "steady m \<Longrightarrow> touches {} m \<Longrightarrow> gentle (on_env m)"
  unfolding gentle_def using aside_on_env by (metis Int_empty_left)

lemma gentle_get_or_open [steady_intros]: "gentle (on_tables (get_or_open X n p) :: ('k db, sstable_reader) op)"
  unfolding gentle_def
proof (intro allI impI)
  fix d d' :: "'k db" and r assume run: "on_tables (get_or_open X n p) d = (r, d')"
  then have e: "db_env d' = db_env d \<or> (\<exists>r1. reader_open_with_env X p (db_env d) = (r1, db_env d'))"
    by (auto simp: on_tables_def get_or_open_def split: prod.splits sum.splits option.splits)
  have "same_memory d d'" "db_wal d' = db_wal d" "db_versions d' = db_versions d"
    using run by (auto simp: on_tables_def same_memory_def split: prod.splits)
  moreover from e have "env_files (db_env d') = env_files (db_env d) \<and> env_dirs (db_env d') = env_dirs (db_env d) \<and>
      (env_faults (db_env d) = [] \<longrightarrow> env_faults (db_env d') = [])"
  proof
    assume "\<exists>r1. reader_open_with_env X p (db_env d) = (r1, db_env d')"
    then obtain r1 where r1: "reader_open_with_env X p (db_env d) = (r1, db_env d')" by blast
    show ?thesis
      using touchesD [OF touches_reader_open [of "{}" X p] r1] steadyD [OF steady_reader_open r1] by (simp add: fun_eq_iff)
  qed simp
  ultimately show "aside d d'" by (simp add: aside_def)
qed

lemma gentle_open_new [steady_intros]: "gentle (open_new_table X n p f)"
  by (intro steady_intros gentle_on_env touch_intros)

lemma table_not_log: "table_path dir n \<notin> log_files dir" "path_join dir (table_file_name n @ ''.tmp'') \<notin> log_files dir"
proof -
  have "last (wal_file_name m) \<noteq> last (table_file_name n @ ''.tmp'')" for m
    by (simp add: wal_file_name_def)
  then have tw: "wal_file_name m \<noteq> table_file_name n @ ''.tmp''" for m by metis
  have "hd (table_file_name n @ ''.tmp'') = hd (table_file_name n)" by (simp add: table_file_name_def)
  moreover obtain k where "k < 10" "hd (table_file_name n) = char_of (48 + k :: nat)"
    using pad6_chars [of "hd (pad6 (unat n))" "unat n"] by (auto simp: table_file_name_def)
  ultimately have d: "char_digit (hd (table_file_name n @ ''.tmp'')) \<noteq> None" "char_digit (hd (table_file_name n)) \<noteq> None" by simp_all
  have "char_digit (hd (manifest_file_name m)) = None" for m
    unfolding manifest_file_name_def by simp code_simp
  with d have tm: "manifest_file_name m \<noteq> table_file_name n @ ''.tmp''" for m by metis
  have "char_digit (hd ''CURRENT'') = None" by code_simp
  with d have tc: "''CURRENT'' \<noteq> table_file_name n @ ''.tmp''" "''CURRENT'' \<noteq> table_file_name n" by metis+
  show "path_join dir (table_file_name n @ ''.tmp'') \<notin> log_files dir"
    using tw tm tc(1) by (auto simp: log_files_def dest: sym)
  show "table_path dir n \<notin> log_files dir"
    using tc(2) by (auto simp: log_files_def table_path_def dest: sym)
qed

subsection \<open>Writing and reading tables\<close>

lemma aside_write_table:
  assumes "write_table X n (db_path d) bs cm es f d = (r, d')"
  shows "aside d d'"
proof -
  let ?tmp = "path_join (db_path d) (table_file_name n @ ''.tmp'')" and ?p = "table_path (db_path d) n"
  have out: "{?tmp, ?p} \<inter> log_files (db_path d) = {}" using table_not_log by auto
  have t: "touches {?tmp, ?p} (build_table X ?tmp bs cm es)" "touches {?tmp, ?p} (env_rename ?tmp ?p)"
    by (intro touch_intros; simp)+
  have same: "db_path d1 = db_path d" if "on_env m d = (x, d1)" for m x d1
    using that by (auto simp: on_env_def split: prod.splits)
  show ?thesis
  proof (rule aside_then [OF assms])
    show "aside d d1" if "on_env (build_table X ?tmp bs cm es) d = (r1, d1)" for r1 d1
      using that steady_build_table t(1) out by (rule aside_on_env)
    fix x d1 assume b: "on_env (build_table X ?tmp bs cm es) d = (Inr x, d1)"
      and run: "op_then (on_env (env_rename ?tmp ?p)) (\<lambda>_. open_new_table X n ?p f) d1 = (r, d')"
    show "aside d1 d'"
    proof (rule aside_then [OF run])
      show "aside d1 d2" if "on_env (env_rename ?tmp ?p) d1 = (r1, d2)" for r1 d2
        using that steady_calls(5) t(2) by (rule aside_on_env) (use out same [OF b] in simp)
    qed (rule gentleD [OF gentle_open_new])
  qed
qed

lemma aside_write_l0: "write_l0_table X mem n d = (r, d') \<Longrightarrow> aside d d'"
  using aside_write_table [where f = record_sst_write and es = "mem_entries X mem" and X = X and n = n and d = d]
  by (auto simp: write_l0_table_def Let_def table_path_def split: if_splits)

lemma aside_worker: "op_then db_allocate_file_number (\<lambda>n. write_compaction_output X n es) d = (r, d') \<Longrightarrow> aside d d'"
proof (erule aside_then)
  show "aside d d1" if "db_allocate_file_number d = (r1, d1)" for r1 d1
    using that by (rule gentleD [OF gentle_allocate])
  show "aside d1 d'" if "write_compaction_output X n es d1 = (r, d')" for n d1
    using that unfolding write_compaction_output_eq by (rule aside_write_table)
qed

lemma aside_run_workers: "run_workers X chunks d = (rs, d') \<Longrightarrow> aside d d'"
proof (induction chunks arbitrary: d rs)
  case (Cons c chunks)
  then show ?case by (fastforce dest: aside_worker intro: aside_trans split: prod.splits)
qed simp

lemma aside_write_outputs: "write_compaction_outputs X es d = (r, d') \<Longrightarrow> aside d d'"
  unfolding write_compaction_outputs_def Let_def
  by (auto elim!: aside_then intro: gentleD [OF gentle_metric] dest: aside_run_workers split: if_splits prod.splits)

lemma reads_to_aside:
  assumes "reads_to d d'"
  shows "env_faults (db_env d) = [] \<Longrightarrow> aside d d'"
  using assms by (simp add: reads_to_def aside_def same_memory_def)

lemma aside_delete: "delete_obsolete_files ns d = (r, d') \<Longrightarrow> aside d d'"
proof (induction ns arbitrary: d)
  case (Cons n ns)
  obtain r1 d1 where s1: "on_env (remove_file (table_path (db_path d) n)) d = (r1, d1)" by fastforce
  have "touches {table_path (db_path d) n} (remove_file (table_path (db_path d) n))" by (intro touch_intros) simp
  with s1 steady_calls(6) have "aside d d1" by (rule aside_on_env) (use table_not_log in auto)
  moreover have "delete_obsolete_files ns d1 = (r, d') \<or> d' = d1"
    using Cons.prems s1 by (auto simp: table_path_def split: sum.splits error.splits io_kind.splits)
  ultimately show ?case using Cons.IH aside_trans by blast
qed simp

subsection \<open>Reading\<close>

text \<open>Operations that leave all files and the version set alone, the next file number with it.\<close>

definition quiet :: "('m db, 'a) op \<Rightarrow> bool" where
  "quiet m \<longleftrightarrow> gentle m \<and> (\<forall>d r d'. m d = (r, d') \<longrightarrow> db_versions d' = db_versions d \<and> env_files (db_env d') = env_files (db_env d))"

lemma quietD:
  "quiet m \<Longrightarrow> m d = (r, d') \<Longrightarrow> aside d d'"
  "quiet m \<Longrightarrow> m d = (r, d') \<Longrightarrow> db_versions d' = db_versions d"
  "quiet m \<Longrightarrow> m d = (r, d') \<Longrightarrow> env_files (db_env d') = env_files (db_env d)"
  by (auto simp: quiet_def gentle_def)

lemma quiet_then [steady_intros]: "quiet m \<Longrightarrow> (\<And>x. quiet (f x)) \<Longrightarrow> quiet (op_then m f)"
  unfolding quiet_def by (auto intro: gentle_then elim!: op_thenE) (metis+)?

lemma quiet_basic [steady_intros]: "quiet (op_lift r)" "quiet (metric f)"
  using gentle_lift gentle_metric by (auto simp: quiet_def op_lift_def metric_def)

lemma quiet_get_or_open [steady_intros]: "quiet (on_tables (get_or_open X n p))"
  using gentle_get_or_open by (auto simp: quiet_def on_tables_def split: prod.splits dest: no_writeD [OF no_write_get_or_open])

lemma open_readable_env_files:
  assumes "open_readable p e = (r, e')"
  shows "env_files e' = env_files e"
proof -
  have "env_files e1 = env_files e" if "take_fault e = (f, e1)" for f e1
    using that by (auto simp: take_fault_def split: list.splits)
  with assms show ?thesis by (auto simp: open_readable_def faultable_def split: prod.splits option.splits)
qed

lemma quiet_entries [steady_intros]: "quiet (on_blocks (entries_with_cache X rd n fill) :: ('k db, entry list) op)"
  unfolding quiet_def gentle_def
proof (intro conjI allI impI)
  fix d d' :: "'k db" and r assume run: "on_blocks (entries_with_cache X rd n fill) d = (r, d')"
  then show "db_versions d' = db_versions d" by (auto simp: on_blocks_def split: prod.splits)
  show "env_files (db_env d') = env_files (db_env d)"
    using run by (auto simp: on_blocks_def entries_with_cache_def with_file_def split: prod.splits sum.splits dest: open_readable_env_files)
  from run obtain r1 where r1: "open_readable (rd_path rd) (db_env d) = (r1, db_env d')"
    by (auto simp: on_blocks_def entries_with_cache_def with_file_def split: prod.splits sum.splits)
  have "same_memory d d'" "db_wal d' = db_wal d" using run by (auto simp: on_blocks_def same_memory_def split: prod.splits)
  moreover have "env_files (db_env d') = env_files (db_env d)"
    by (rule open_readable_env_files [OF r1])
  ultimately show "aside d d'"
    using steadyD [OF steady_calls(4) r1] \<open>db_versions d' = db_versions d\<close> by (simp add: aside_def)
qed

lemma quiet_open_input: "quiet (open_input X f)"
proof -
  have q: "quiet (op_then (on_tables (get_or_open X (fm_number f) p)) (\<lambda>table. on_blocks (entries_with_cache X table (fm_number f) True)))" for p
    by (intro quiet_then quiet_get_or_open quiet_entries)
  show ?thesis
    unfolding quiet_def gentle_def open_input_def using quietD [OF q] by blast
qed

lemma quiet_inputs [steady_intros]: "quiet (read_inputs X fs)"
  by (induction fs) (simp_all add: quiet_basic quiet_then quiet_open_input)

lemma quiet_needs_rewrite: "quiet (trivial_move_needs_rewrite X t w dt)"
  unfolding trivial_move_needs_rewrite_def by (intro quiet_then quiet_open_input quiet_basic)

lemma on_tables_then: "on_tables (op_then m f) = op_then (on_tables m) (\<lambda>x. on_tables (f x))"
  by (auto simp: on_tables_def op_then_def fun_eq_iff split: prod.splits sum.splits)

lemma on_tables_lift: "on_tables (op_lift r) = op_lift r"
  by (simp add: on_tables_def op_lift_def fun_eq_iff)

lemma quiet_open_tables [steady_intros]: "quiet (on_tables (open_tables X dir fs))" "quiet (on_tables (open_levels X dir ls))"
proof -
  show t: "quiet (on_tables (open_tables X dir fs))" for fs
    by (induction fs) (simp_all add: on_tables_then on_tables_lift quiet_basic quiet_then quiet_get_or_open)
  show "quiet (on_tables (open_levels X dir ls))"
    by (induction ls) (simp_all add: on_tables_then on_tables_lift quiet_basic quiet_then t)
qed

lemma quiet_open_version [steady_intros]: "quiet (on_tables (open_version_tables X dir v))"
  by (simp add: open_version_tables_def on_tables_then on_tables_lift quiet_basic quiet_then quiet_open_tables)

lemma refresh_success:
  assumes "refresh_tables_from_version X d = (Inr (), d')"
  obtains d1 l0 lv where "aside d d1" and "db_versions d1 = db_versions d"
    and "d' = d1\<lparr>db_l0_tables := l0, db_level_tables := lv\<rparr>"
  using assms quietD [OF quiet_open_version] unfolding refresh_tables_from_version_def
  by (fastforce elim!: op_thenE)

subsection \<open>The numbers of new tables\<close>

lemma write_table_versions: "write_table X n dir bs cm es f d = (r, d') \<Longrightarrow> db_versions d' = db_versions d"
  by (auto elim!: op_thenE simp: on_env_def metric_def on_tables_def op_lift_def split: prod.splits)

lemma run_workers_next: "run_workers X chunks d = (rs, d') \<Longrightarrow> next_number d' = next_number d + word_of_nat (length chunks)"
proof (induction chunks arbitrary: d rs)
  case (Cons c chunks)
  obtain r1 d1 where s1: "op_then db_allocate_file_number (\<lambda>n. write_compaction_output X n c) d = (r1, d1)" by fastforce
  then have "next_number d1 = next_number d + 1"
  proof (cases rule: op_thenE)
    case (ok n d2)
    from write_table_versions [OF ok(2) [unfolded write_compaction_output_eq]] ok(1) show ?thesis
      by (auto simp: db_allocate_file_number_def allocate_file_number_def)
  qed (simp add: db_allocate_file_number_def allocate_file_number_def)
  with Cons.IH [of d1] Cons.prems s1 show ?case by (auto split: prod.splits)
qed simp

lemma write_outputs_next:
  assumes "write_compaction_outputs X es d = (r, d')" and "unat (next_number d) + max (max_subcompactions (db_options d)) 1 < 2 ^ 64"
  shows "next_number d \<le> next_number d'"
proof (cases "es = []")
  case False
  let ?chunks = "split_compaction_entries es (target_file_size_base (db_options d)) (max_subcompactions (db_options d))"
  from assms(1) False obtain rs d1 where d1: "run_workers X ?chunks d1 = (rs, d')" "next_number d1 = next_number d"
    by (auto simp: write_compaction_outputs_def Let_def op_then_def metric_def split: prod.splits)
  have "length ?chunks \<le> max (max_subcompactions (db_options d)) 1" by (rule split_compaction_parts(3))
  then have "unat (next_number d) + length ?chunks < 2 ^ 64" using assms(2) by linarith
  with run_workers_next [OF d1(1)] d1(2) show ?thesis by (simp add: word_le_nat_alt unat_word_ariths unat_of_nat)
qed (use assms in \<open>simp add: write_compaction_outputs_def\<close>)

subsection \<open>The tables on disk\<close>

definition tabled :: "'m db \<Rightarrow> u64 set" where
  "tabled d = {n. env_exists (table_path (db_path d) n) (db_env d)}"

text \<open>No file has the name of a table that the version does not list, and no directory that of a table.\<close>

definition tidy :: "'m db \<Rightarrow> bool" where
  "tidy d \<longleftrightarrow> tabled d \<subseteq> fm_number ` version_files (current d) \<and> (\<forall>n. table_path (db_path d) n \<notin> set (env_dirs (db_env d)))"

lemma tidy_same:
  assumes "db_path d' = db_path d" and "env_dirs (db_env d') = env_dirs (db_env d)" and "current d' = current d"
    and "\<And>n. env_files (db_env d') (table_path (db_path d) n) = env_files (db_env d) (table_path (db_path d) n)"
  shows "tidy d' = tidy d"
  by (simp add: tidy_def tabled_def env_exists_def assms)

lemma tabled_mono:
  assumes "db_path d' = db_path d" and "env_dirs (db_env d') = env_dirs (db_env d)"
    and "\<And>n. n \<notin> S \<Longrightarrow> env_files (db_env d') (table_path (db_path d) n) = env_files (db_env d) (table_path (db_path d) n)"
  shows "tabled d' \<subseteq> tabled d \<union> S"
  using assms(3) by (auto simp: tabled_def env_exists_def assms(1,2))

lemma write_l0_files:
  assumes "write_l0_table X mem n d = (r, d')" and "m \<noteq> n"
  shows "env_files (db_env d') (table_path (db_path d) m) = env_files (db_env d) (table_path (db_path d) m)"
  using assms write_table_files [where X = X and n = n and dir = "db_path d" and es = "mem_entries X mem" and f = record_sst_write
      and d = d and r = r and d' = d' and q = "table_path (db_path d) m"]
  by (auto simp: write_l0_table_def Let_def table_path_def split: if_splits)

lemma join_workers_numbers:
  "run_workers X chunks d = (rs, d') \<Longrightarrow> join_workers rs = Inr outs \<Longrightarrow> i < length chunks \<Longrightarrow>
    next_number d + word_of_nat i \<in> fm_number ` set (map snd outs)"
proof (induction chunks arbitrary: d rs outs i)
  case (Cons c chunks)
  obtain r1 d1 where s1: "op_then db_allocate_file_number (\<lambda>n. write_compaction_output X n c) d = (r1, d1)" by fastforce
  obtain rs1 where s2: "run_workers X chunks d1 = (rs1, d')" "rs = r1 # rs1" using Cons.prems(1) s1 by (auto split: prod.splits)
  from Cons.prems(2) s2(2) obtain rd m outs1 where o: "r1 = Inr (rd, m)" "join_workers rs1 = Inr outs1" "outs = (rd, m) # outs1"
    by (auto simp: result_simps)
  from s1 [unfolded o(1)] have m: "fm_number m = next_number d" "next_number d1 = next_number d + 1"
    unfolding write_compaction_output_def Let_def
    by (auto elim!: op_thenE simp: op_lift_def on_env_def metric_def on_tables_def db_allocate_file_number_def allocate_file_number_def
        file_meta_from_table_def split: prod.splits option.splits)
  show ?case
  proof (cases i)
    case 0
    with m(1) o(3) show ?thesis by simp
  next
    case (Suc j)
    with Cons.IH [OF s2(1) o(2), of j] Cons.prems(3) m(2) o(3) show ?thesis by (simp add: add.assoc)
  qed
qed simp

lemma write_outputs_tabled:
  assumes "write_compaction_outputs X es d = (Inr outs, d')"
  shows "tabled d' \<subseteq> tabled d \<union> fm_number ` set (map snd outs)"
proof (cases "es = []")
  case False
  let ?chunks = "split_compaction_entries es (target_file_size_base (db_options d)) (max_subcompactions (db_options d))"
  from assms False obtain rs d1 where w: "run_workers X ?chunks d1 = (rs, d')" "join_workers rs = Inr outs"
    and d1: "next_number d1 = next_number d" "db_path d1 = db_path d" "db_env d1 = db_env d"
    by (auto simp: write_compaction_outputs_def Let_def op_then_def metric_def split: prod.splits)
  note a = aside_run_workers [OF w(1)]
  show ?thesis
  proof (rule tabled_mono)
    fix n assume n: "n \<notin> fm_number ` set (map snd outs)"
    show "env_files (db_env d') (table_path (db_path d) n) = env_files (db_env d) (table_path (db_path d) n)"
      unfolding d1(2,3) [symmetric]
    proof (rule run_workers_files [OF w(1)])
      show "table_path (db_path d1) n \<noteq> table_path (db_path d1) (next_number d1 + word_of_nat i)" if "i < length ?chunks" for i
        using join_workers_numbers [OF w that] n by (auto simp: table_path_def)
    qed (simp add: table_path_def)
  qed (use a aside_path(1) [OF a] d1 in \<open>simp_all add: aside_def\<close>)
qed (use assms in \<open>simp add: write_compaction_outputs_def\<close>)

lemma delete_files_tabled:
  assumes "delete_obsolete_files ns d = (r, d')" and "env_faults (db_env d) = []"
    and "\<And>n. table_path (db_path d) n \<notin> set (env_dirs (db_env d))"
  shows "tabled d' \<subseteq> tabled d - set ns"
  using assms
proof (induction ns arbitrary: d)
  case (Cons n ns)
  obtain r1 d1 where s1: "on_env (remove_file (table_path (db_path d) n)) d = (r1, d1)" by fastforce
  then have d1: "db_path d1 = db_path d" "env_dirs (db_env d1) = env_dirs (db_env d)" "env_faults (db_env d1) = []"
    "env_files (db_env d1) = (env_files (db_env d))(table_path (db_path d) n := None)" "r1 = Inr () \<or> r1 = Inl (Io NotFound)"
    using Cons.prems(2)
    by (auto simp: on_env_def remove_file_def faultable_def take_fault_def set_file_def fun_upd_idem split: option.splits)
  from d1(5) have "delete_obsolete_files ns d1 = (r, d')" using Cons.prems(1) s1 by (auto simp: table_path_def)
  from Cons.IH [OF this d1(3)] Cons.prems(3) have "tabled d' \<subseteq> tabled d1 - set ns" by (simp add: d1(1,2))
  moreover have "tabled d1 \<subseteq> tabled d - {n}" using Cons.prems(3) by (auto simp: tabled_def env_exists_def d1(1,2,4))
  ultimately show ?case by auto
qed simp

end
