(* ===== verification/Durability.thy ===== *)
theory Durability
  imports Disk_Frames
begin

section \<open>What a database on disk holds\<close>

text \<open>
  The state of an open database whose files are enough to open it again: the manifest
  records its version, the log its memtable.  Each call of the interface that succeeds keeps
  it so, and opening the files again gives a database with the same entries in the same
  state.
\<close>

subsection \<open>The sizes of edits\<close>

definition short_key :: "internal_key \<Rightarrow> bool" where
  "short_key k \<longleftrightarrow> length (user_key k) < 2 ^ 30"

lemma length_put_var: "length (put_var_u64 dst v) \<le> length dst + 10" "length (put_var_u32 dst w) \<le> length dst + 10"
  using length_put_var_u64_le [of v] length_put_var_u64_le [of "ucast w"]
  by (simp_all add: put_var_append [of dst] put_var_u32_def)

lemma length_encode_key: "length (encode_internal_key k dst) \<le> length dst + length (user_key k) + 21"
  using length_put_var(1) [of "put_var_u32 dst (len_u32 (user_key k)) @ user_key k" "sequence k"]
    length_put_var(2) [of dst "len_u32 (user_key k)"]
  by (simp add: encode_internal_key_def)

lemma edit_ok_add:
  assumes "short_key (fm_smallest m)" and "short_key (fm_largest m)" and "l < 2 ^ 32"
  shows "edit_ok (AddFile l m)"
proof -
  let ?a = "put_var_u32 (put_var_u32 [] TAG_ADD_FILE) (word_of_nat l)"
  let ?b = "put_var_u64 (put_var_u64 ?a (fm_number m)) (fm_file_size m)"
  let ?c = "encode_internal_key (fm_largest m) (encode_internal_key (fm_smallest m) ?b)"
  have "length ?b \<le> 40"
    using length_put_var(2) [of "[]" TAG_ADD_FILE] length_put_var(2) [of "put_var_u32 [] TAG_ADD_FILE" "word_of_nat l"]
      length_put_var(1) [of ?a "fm_number m"] length_put_var(1) [of "put_var_u64 ?a (fm_number m)" "fm_file_size m"] by simp
  then have "length ?c \<le> 82 + length (user_key (fm_smallest m)) + length (user_key (fm_largest m))"
    using length_encode_key [of "fm_smallest m" ?b] length_encode_key [of "fm_largest m" "encode_internal_key (fm_smallest m) ?b"] by simp
  then have "length (edit_encode (AddFile l m)) \<le> 102 + length (user_key (fm_smallest m)) + length (user_key (fm_largest m))"
    using length_put_var(1) [of ?c "fm_smallest_seq m"] length_put_var(1) [of "put_var_u64 ?c (fm_smallest_seq m)" "fm_largest_seq m"]
    by (simp add: encode_file_meta_def Let_def)
  then show ?thesis
    using assms by (simp add: edit_ok_def meta_encodable_def key_encodable_def short_key_def)
qed

lemma edit_ok_other: "edit_ok (LastSequence s)" "edit_ok (LogNumber n)" "l < 2 ^ 32 \<Longrightarrow> edit_ok (DeleteFile l n)"
proof -
  have a: "length (put_var_u64 (put_var_u32 [] t) v) \<le> 20" for t v
    using length_put_var(1) [of "put_var_u32 [] t" v] length_put_var(2) [of "[]" t] by simp
  have b: "length (put_var_u64 (put_var_u32 (put_var_u32 [] t) w) v) \<le> 30" for t v w
    using length_put_var(1) [of "put_var_u32 (put_var_u32 [] t) w" v] length_put_var(2) [of "put_var_u32 [] t" w]
      length_put_var(2) [of "[]" t] by simp
  show "edit_ok (LastSequence s)" "edit_ok (LogNumber n)"
    using a [of TAG_LAST_SEQUENCE s] a [of TAG_LOG_NUMBER n] by (simp_all add: edit_ok_def)
  show "edit_ok (DeleteFile l n)" if "l < 2 ^ 32"
    using b [of TAG_DELETE_FILE "word_of_nat l" n] that by (simp add: edit_ok_def)
qed

lemma meta_of_short:
  assumes "meta_of es m" and "\<forall>e\<in>set es. short_key (fst e)"
  shows "short_key (fm_smallest m)" and "short_key (fm_largest m)"
  using assms by (auto simp: meta_of_def)

subsection \<open>The manifest\<close>

text \<open>
  The manifest holds the edits \<open>eds\<close>, from which a recovery makes the version set \<open>vs0\<close>; it hands
  out only numbers that no table of the version and no log file has.
\<close>

definition logged :: "'m externs \<Rightarrow> version_edit list \<Rightarrow> version_set \<Rightarrow> 'm db \<Rightarrow> bool" where
  "logged X eds vs0 d \<longleftrightarrow>
     manifest_holds (crc32c X) (db_path d) (max_levels (db_options d)) eds (db_versions d) (db_env d) \<and>
     apply_edits eds (recovered (max_levels (db_options d)) (vs_manifest_number (db_versions d))) = Inr vs0 \<and>
     (\<forall>f\<in>version_files (vs_current vs0). fm_number f < vs_next_file_number vs0)"

abbreviation log_file :: "'m db \<Rightarrow> u64 \<Rightarrow> _" where
  "log_file d n \<equiv> env_files (db_env d) (path_join (db_path d) (wal_file_name n))"

definition recorded :: "'m externs \<Rightarrow> version_edit list \<Rightarrow> 'm db \<Rightarrow> bool" where
  "recorded X eds d \<longleftrightarrow> (\<exists>vs0. logged X eds vs0 d \<and> (\<forall>n. vs_next_file_number vs0 \<le> n \<longrightarrow> log_file d n = None))"

lemma logged_state:
  "logged X eds vs0 d \<Longrightarrow> vs_current vs0 = current d \<and> vs_last_sequence vs0 = vs_last_sequence (db_versions d) \<and>
    vs_log_number vs0 = vs_log_number (db_versions d) \<and> vs_next_file_number vs0 \<le> next_number d"
  by (auto simp: logged_def manifest_holds_def same_state_def)

text \<open>The frame of operations that may log files added and deleted.\<close>

definition beside :: "'m db \<Rightarrow> 'm db \<Rightarrow> bool" where
  "beside d d' \<longleftrightarrow> db_path d' = db_path d \<and> db_options d' = db_options d \<and> db_watermark d' = db_watermark d \<and>
     db_mutable d' = db_mutable d \<and> db_immutables d' = db_immutables d \<and> db_last_sequence d' = db_last_sequence d \<and>
     db_closed d' = db_closed d \<and> db_wal d' = db_wal d \<and> env_dirs (db_env d') = env_dirs (db_env d) \<and>
     (env_faults (db_env d) = [] \<longrightarrow> env_faults (db_env d') = []) \<and>
     (\<forall>n. env_files (db_env d') (path_join (db_path d) (wal_file_name n)) = log_file d n) \<and>
     vs_last_sequence (db_versions d') = vs_last_sequence (db_versions d) \<and>
     vs_log_number (db_versions d') = vs_log_number (db_versions d)"

lemma beside_refl [simp]: "beside d d"
  by (simp add: beside_def)

lemma beside_trans: "beside d d1 \<Longrightarrow> beside d1 d2 \<Longrightarrow> beside d d2"
  unfolding beside_def by simp

lemma aside_beside: "aside d d' \<Longrightarrow> beside d d'"
proof -
  have "path_join (db_path d) (wal_file_name n) \<in> log_files (db_path d)" for n by (simp add: log_files_def)
  then show "aside d d' \<Longrightarrow> beside d d'" unfolding aside_def beside_def same_memory_def by blast
qed

lemma logged_aside:
  assumes "logged X eds vs0 d" and "aside d d'" and "next_number d \<le> next_number d'"
  shows "logged X eds vs0 d'"
  using assms by (auto simp: logged_def aside_def same_memory_def manifest_holds_def current_names_def same_state_def log_files_def)

lemma recorded_aside:
  assumes "recorded X eds d" and "aside d d'" and "next_number d \<le> next_number d'"
  shows "recorded X eds d'"
  using assms(1) logged_aside [OF _ assms(2,3)] aside_beside [OF assms(2)]
  by (auto simp: recorded_def beside_def)

lemma wal_not_manifest [simp]:
  "wal_file_name m \<noteq> manifest_file_name n" "manifest_file_name n \<noteq> wal_file_name m"
  "wal_file_name m \<noteq> ''CURRENT''" "''CURRENT'' \<noteq> wal_file_name m"
proof -
  obtain k where "k < 10" "hd (wal_file_name m) = char_of (48 + k :: nat)"
    using pad6_chars [of "hd (pad6 (unat m))" "unat m"] by (auto simp: wal_file_name_def)
  then have "char_digit (hd (wal_file_name m)) \<noteq> None" by simp
  moreover have "char_digit (hd (manifest_file_name n)) = None"
    unfolding manifest_file_name_def by simp code_simp
  moreover have "char_digit (hd ''CURRENT'') = None" by code_simp
  ultimately show "wal_file_name m \<noteq> manifest_file_name n" "manifest_file_name n \<noteq> wal_file_name m"
    "wal_file_name m \<noteq> ''CURRENT''" "''CURRENT'' \<noteq> wal_file_name m" by metis+
qed

lemma u64_less_Suc: "(k :: u64) < n \<Longrightarrow> k < k + 1"
proof -
  assume "k < n"
  then have "unat k < unat n" by (simp add: word_less_nat_alt)
  then have "unat k + 1 < 18446744073709551616" using unat_u64_less [of n] by linarith
  then show ?thesis using u64_Suc(1) [of k 0] by simp
qed

definition number_ok :: "version_edit \<Rightarrow> bool" where
  "number_ok ed \<longleftrightarrow> (case ed of AddFile l m \<Rightarrow> fm_number m < fm_number m + 1 | _ \<Rightarrow> True)"

lemma apply_edit_next: "apply_edit ed vs = Inr vs' \<Longrightarrow> vs_next_file_number vs \<le> vs_next_file_number vs'"
  by (cases ed) (auto simp: result_simps Let_def)

lemma apply_edit_known:
  assumes "apply_edit ed vs = Inr vs'" and "\<forall>f\<in>version_files (vs_current vs). fm_number f < vs_next_file_number vs"
    and "number_ok ed"
  shows "\<forall>f\<in>version_files (vs_current vs'). fm_number f < vs_next_file_number vs'"
proof (rule apply_edit_numbers [OF assms(1,2)])
  have "f \<in> version_files (vs_current vs) \<or> (\<exists>l. ed = AddFile l f)" if "f \<in> version_files (vs_current vs')" for f
    using assms(1) that version_files_add version_files_delete by (cases ed) (fastforce simp: result_simps Let_def)+
  with assms(2,3) show "\<forall>f\<in>version_files (vs_current vs'). fm_number f < fm_number f + 1"
    using u64_less_Suc by (fastforce simp: number_ok_def)
qed

text \<open>An edit that was logged: the manifest holds it as well, the logs are as they were.\<close>

definition logs_to :: "version_edit \<Rightarrow> 'm db \<Rightarrow> 'm db \<Rightarrow> bool" where
  "logs_to ed d d' \<longleftrightarrow> apply_edit ed (db_versions d) = Inr (db_versions d') \<and> same_memory d d' \<and> db_wal d' = db_wal d \<and>
     env_dirs (db_env d') = env_dirs (db_env d) \<and> (env_faults (db_env d) = [] \<longrightarrow> env_faults (db_env d') = []) \<and>
     (\<forall>n. env_files (db_env d') (path_join (db_path d) (wal_file_name n)) = log_file d n)"

lemma logs_toD:
  assumes "logs_to ed d d'"
  shows "apply_edit ed (db_versions d) = Inr (db_versions d')" and "same_memory d d'" and "db_path d' = db_path d"
    and "db_wal d' = db_wal d" and "env_dirs (db_env d') = env_dirs (db_env d)"
    and "env_faults (db_env d) = [] \<Longrightarrow> env_faults (db_env d') = []"
    and "env_files (db_env d') (path_join (db_path d) (wal_file_name n)) = log_file d n"
  using assms by (simp_all add: logs_to_def same_memory_def)

lemma db_log_and_apply_logged:
  assumes rec: "logged X eds vs0 d" and ed: "edit_ok ed" "number_ok ed" and run: "db_log_and_apply X ed d = (Inr (), d')"
  obtains vs1 where "logged X (eds @ [ed]) vs1 d'" and "apply_edit ed vs0 = Inr vs1" and "logs_to ed d d'"
proof -
  let ?crc = "crc32c X" and ?p = "db_path d" and ?L = "max_levels (db_options d)"
  from rec have man: "manifest_holds ?crc ?p ?L eds (db_versions d) (db_env d)"
    and vs0: "apply_edits eds (recovered ?L (vs_manifest_number (db_versions d))) = Inr vs0"
      "\<forall>f\<in>version_files (vs_current vs0). fm_number f < vs_next_file_number vs0"
    by (auto simp: logged_def)
  obtain e vs where l: "log_and_apply_state ?crc ed (db_env d, db_versions d) = (Inr (), (e, vs))"
    and d': "d' = d\<lparr>db_env := e, db_versions := vs\<rparr>"
    using run by (auto simp: db_log_and_apply_def on_versions_def split: prod.splits)
  from log_and_apply_state_eq [OF l] have la: "log_and_apply ?crc ed (db_versions d) (db_env d) = (Inr vs, e)" by auto
  note h = log_and_apply_holds [OF man ed(1) la]
  have "steady (log_and_apply ?crc ed (db_versions d))"
    unfolding log_and_apply_def by (intro steady_intros) (auto intro!: steady_intros split: option.split)
  from steadyD [OF this la] h(2) h(3) have to: "logs_to ed d d'" by (simp add: logs_to_def same_memory_def d')
  have num: "vs_manifest_number vs = vs_manifest_number (db_versions d)"
    using h(2) by (cases ed) (auto simp: result_simps Let_def)
  from h(1) obtain vs1 where vs1: "apply_edits (eds @ [ed]) (recovered ?L (vs_manifest_number vs)) = Inr vs1"
    by (auto simp: manifest_holds_def)
  then have app0: "apply_edit ed vs0 = Inr vs1" using vs0(1) by (simp add: num apply_edits_append result_simps)
  from apply_edit_known [OF app0 vs0(2) ed(2)] vs1 h(1) have "logged X (eds @ [ed]) vs1 d'"
    unfolding logged_def by (simp add: d')
  from that [OF this app0 to] show ?thesis .
qed

subsection \<open>Publishing a flushed table\<close>

text \<open>
  The three edits of \<^verbatim>\<open>publish_l0_table\<close>: the manifest holds them, and the log is a new
  empty file, whose number no earlier log has.
\<close>

lemma publish_recorded:
  assumes rec: "recorded X eds d" and meta: "edit_ok (AddFile 0 meta)" "fm_number meta < next_number d"
    and num: "unat (next_number d) + 1 < 2 ^ 64" and seq: "vs_last_sequence (db_versions d) \<le> s"
    and run: "publish_l0_table X meta s d = (Inr (), d')"
  shows "recorded X (eds @ [AddFile 0 meta, LastSequence s, LogNumber (next_number d)]) d'"
    and "same_memory d d'"
    and "db_wal d' = path_join (db_path d) (wal_file_name (vs_log_number (db_versions d')))"
    and "content_of (db_env d') (db_wal d') = Some []" and "vs_last_sequence (db_versions d') = s"
    and "current d' = (current d)\<lparr>l0_files := meta # l0_files (current d)\<rparr>"
    and "env_dirs (db_env d') = env_dirs (db_env d)" and "env_faults (db_env d) = [] \<Longrightarrow> env_faults (db_env d') = []"
proof -
  let ?k = "next_number d" and ?dir = "db_path d"
  let ?w = "path_join ?dir (wal_file_name ?k)"
  from rec obtain vs0 where vs0: "logged X eds vs0 d" "\<forall>n. vs_next_file_number vs0 \<le> n \<longrightarrow> log_file d n = None"
    by (auto simp: recorded_def)
  from run obtain d1 d2 d3 d4 d5 w where s: "db_log_and_apply X (AddFile 0 meta) d = (Inr (), d1)"
    "db_log_and_apply X (LastSequence s) d1 = (Inr (), d2)" "db_allocate_file_number d2 = (Inr (next_number d2), d3)"
    "on_env (wal_writer_create (path_join (db_path d3) (wal_file_name (next_number d2)))) d3 = (Inr w, d4)"
    "db_log_and_apply X (LogNumber (next_number d2)) d4 = (Inr (), d5)" and d': "d' = d5\<lparr>db_wal := w\<rparr>"
    unfolding publish_l0_table_def
    by (auto elim!: op_thenE simp: db_allocate_file_number_def allocate_file_number_def)
  have n: "number_ok (AddFile 0 meta)" using u64_less_Suc [OF meta(2)] by (simp add: number_ok_def)
  obtain vs1 where l1: "logged X (eds @ [AddFile 0 meta]) vs1 d1" "apply_edit (AddFile 0 meta) vs0 = Inr vs1"
    "logs_to (AddFile 0 meta) d d1" by (rule db_log_and_apply_logged [OF vs0(1) meta(1) n s(1)])
  have n2: "number_ok (LastSequence s)" by (simp add: number_ok_def)
  obtain vs2 where l2: "logged X ((eds @ [AddFile 0 meta]) @ [LastSequence s]) vs2 d2" "apply_edit (LastSequence s) vs1 = Inr vs2"
    "logs_to (LastSequence s) d1 d2" by (rule db_log_and_apply_logged [OF l1(1) edit_ok_other(1) n2 s(2)])
  have v1: "db_versions d1 = (db_versions d)\<lparr>vs_current := (current d)\<lparr>l0_files := meta # l0_files (current d)\<rparr>\<rparr>"
    using logs_toD(1) [OF l1(3)] less_next_le [OF meta(2)] by (auto simp: result_simps add_file_def Let_def max_absorb1)
  have v2: "db_versions d2 = (db_versions d1)\<lparr>vs_last_sequence := s\<rparr>"
    using logs_toD(1) [OF l2(3)] seq by (auto simp: v1 max_absorb2)
  have k2: "next_number d2 = ?k" by (simp add: v1 v2)
  have d3: "d3 = d2\<lparr>db_versions := (db_versions d2)\<lparr>vs_next_file_number := ?k + 1\<rparr>\<rparr>"
    using s(3) by (simp add: db_allocate_file_number_def allocate_file_number_def k2)
  have a3: "aside d2 d3" "next_number d2 \<le> next_number d3" using next_less [OF num] by (simp_all add: aside_def same_memory_def d3 k2)
  have dirs: "db_path d3 = ?dir" using logs_toD(3) [OF l1(3)] logs_toD(3) [OF l2(3)] by (simp add: d3)
  have wal: "on_env (wal_writer_create ?w) d3 = (Inr w, d4)" using s(4) by (simp add: dirs k2)
  then obtain e where e: "wal_writer_create ?w (db_env d3) = (Inr w, e)" "d4 = d3\<lparr>db_env := e\<rparr>"
    by (auto simp: on_env_def split: prod.splits)
  have none: "env_files (db_env d3) ?w = None"
    using vs0(2) logged_state [OF vs0(1)] logs_toD(3,7) [OF l1(3)] logs_toD(7) [OF l2(3)] by (simp add: d3)
  have w: "w = ?w" "content_of e ?w = Some []" "\<And>q. q \<noteq> ?w \<Longrightarrow> env_files e q = env_files (db_env d3) q"
    using e(1) none
    by (auto simp: wal_writer_create_def open_writable_def faultable_def options_append_def set_file_def content_of_def
        empty_file_def take_fault_def split: prod.splits option.splits if_splits list.splits)
  note st = steadyD [OF steady_wal(3) e(1)]
  have l4: "logged X ((eds @ [AddFile 0 meta]) @ [LastSequence s]) vs2 d4"
    using logged_aside [OF l2(1) a3] w(3)
    by (auto simp: logged_def manifest_holds_def current_names_def e(2) dirs)
  have n5: "number_ok (LogNumber ?k)" by (simp add: number_ok_def)
  obtain vs3 where l5: "logged X (((eds @ [AddFile 0 meta]) @ [LastSequence s]) @ [LogNumber ?k]) vs3 d5"
    "apply_edit (LogNumber ?k) vs2 = Inr vs3" "logs_to (LogNumber ?k) d4 d5"
    by (rule db_log_and_apply_logged [OF l4 edit_ok_other(2) n5 s(5) [unfolded k2]])
  have v5: "db_versions d5 = (db_versions d3)\<lparr>vs_log_number := ?k, vs_next_file_number := ?k + 1\<rparr>"
    using logs_toD(1) [OF l5(3)] by (auto simp: e(2) d3)
  note eqs = logs_toD [OF l1(3)] logs_toD [OF l2(3)] logs_toD [OF l5(3)]
  have "same_memory d4 d'" "same_memory d2 d4" using eqs(16) by (simp_all add: same_memory_def d' e(2) d3)
  with eqs(2,9) show "same_memory d d'" by (metis same_memory_trans)
  show log: "db_wal d' = path_join ?dir (wal_file_name (vs_log_number (db_versions d')))" by (simp add: d' v5 w(1))
  have same: "log_file d5 n = log_file d4 n" for n using eqs(17,21) by simp
  show "content_of (db_env d') (db_wal d') = Some []"
    using same [of ?k] w(2) eqs(17) by (simp add: d' w(1) content_of_def e(2) dirs)
  show "vs_last_sequence (db_versions d') = s"
    and "current d' = (current d)\<lparr>l0_files := meta # l0_files (current d)\<rparr>"
    by (simp_all add: d' v5 d3 v2 v1)
  show "env_dirs (db_env d') = env_dirs (db_env d)" using eqs(5,12,19) st(1) by (simp add: d' e(2) d3)
  show "env_faults (db_env d') = []" if "env_faults (db_env d) = []"
    using eqs(6,13,20) st(2) that by (simp add: d' e(2) d3)
  have "log_file d5 n = None" if "vs_next_file_number vs3 \<le> n" for n
  proof -
    have "?k + 1 \<le> n" "vs_next_file_number vs0 \<le> n"
      using that l5(2) apply_edit_next [OF l1(2)] apply_edit_next [OF l2(2)] by auto
    moreover from this(1) have "n \<noteq> ?k" using next_less [OF num] by auto
    ultimately show ?thesis
      using vs0(2) same [of n] w(3) eqs(3,7,10,14,17) by (auto simp: e(2) d3 dirs)
  qed
  then show "recorded X (eds @ [AddFile 0 meta, LastSequence s, LogNumber ?k]) d'"
    unfolding recorded_def using l5(1) by (intro exI [of _ vs3]) (auto simp: d' logged_def)
qed

subsection \<open>A durable database\<close>

text \<open>
  The files agree with the memory, and nothing stands in the way of the next call; then the
  part that a flush ends: the log holds the memtable, and no memtable is frozen.
\<close>

definition filed :: "'m externs \<Rightarrow> ghost \<Rightarrow> version_edit list \<Rightarrow> 'm db \<Rightarrow> bool" where
  "filed X G eds d \<longleftrightarrow> settled X G d \<and> recorded X eds d \<and>
     db_wal d = path_join (db_path d) (wal_file_name (vs_log_number (db_versions d))) \<and>
     db_path d \<in> set (env_dirs (db_env d)) \<and> \<not> db_closed d \<and> env_faults (db_env d) = [] \<and>
     length (levels (current d)) < 2 ^ 32"

definition durable :: "'m externs \<Rightarrow> ghost \<Rightarrow> 'm db \<Rightarrow> bool" where
  "durable X G d \<longleftrightarrow> (\<exists>eds bs. filed X G eds d \<and> db_immutables d = [] \<and> replays X d bs)"

lemma durable_stored: "durable X G d \<Longrightarrow> \<exists>eds bs. stored X G eds bs d"
  by (auto simp: durable_def filed_def settled_def db_ok_def recorded_def logged_def stored_def)

definition short_keys :: "'m externs \<Rightarrow> ghost \<Rightarrow> 'm db \<Rightarrow> bool" where
  "short_keys X G d \<longleftrightarrow> (\<forall>e\<in>set (db_entries X G d). short_key (fst e))"

subsection \<open>Flushes\<close>

lemma write_l0_number: "write_l0_table X mem n d = (Inr (rd, m), d') \<Longrightarrow> fm_number m = n"
  unfolding write_l0_table_def Let_def
  by (auto simp: file_meta_from_table_def on_env_def op_lift_def elim!: op_thenE split: if_splits prod.splits option.splits)

lemma distinct_numbers_flush:
  assumes "distinct_numbers v" and "\<And>l f. l < length (levels v) \<Longrightarrow> f \<in> set (files_at v l) \<Longrightarrow> fm_number f \<noteq> fm_number m"
  shows "distinct_numbers (v\<lparr>l0_files := m # l0_files v\<rparr>)"
proof -
  have at: "files_at (v\<lparr>l0_files := m # l0_files v\<rparr>) l = (if l = 0 then m # files_at v 0 else files_at v l)" for l
    by (simp add: files_at_def)
  show ?thesis
    unfolding distinct_numbers_def at
  proof (intro allI impI ballI)
    fix l l' f f' assume a: "l < length (levels (v\<lparr>l0_files := m # l0_files v\<rparr>))" "l' < length (levels (v\<lparr>l0_files := m # l0_files v\<rparr>))"
      "f \<in> set (if l = 0 then m # files_at v 0 else files_at v l)" "f' \<in> set (if l' = 0 then m # files_at v 0 else files_at v l')"
      "fm_number f = fm_number f'"
    from a(3,4) consider "l = 0" "f = m" "l' = 0" "f' = m" | "l = 0" "f = m" "f' \<in> set (files_at v l')"
      | "l' = 0" "f' = m" "f \<in> set (files_at v l)" | "f \<in> set (files_at v l)" "f' \<in> set (files_at v l')"
      by (auto split: if_splits)
    then show "l = l' \<and> f = f'"
    proof cases
      case 2
      with assms(2) [of l' f'] a show ?thesis by simp
    next
      case 3
      with assms(2) [of l f] a show ?thesis by simp
    next
      case 4
      with distinct_numbersD [OF assms(1) 4 a(5)] a show ?thesis by simp
    qed simp
  qed
qed

lemma flush_success:
  assumes "\<not> db_closed d" and "take_oldest_flushable_memtable X d = (Some (mem, source), d1)" and "db_flush X d = (Inr (), d')"
  obtains d2 d3 d4 rd meta where "db_allocate_file_number d1 = (Inr (next_number d1), d2)"
    and "write_l0_table X mem (next_number d1) d2 = (Inr (rd, meta), d3)"
    and "publish_l0_table X meta (db_last_sequence d3) d3 = (Inr (), d4)"
    and "d' = d4\<lparr>db_l0_tables := (meta, rd) # db_l0_tables d4\<rparr>"
proof -
  let ?d2 = "d1\<lparr>db_versions := (db_versions d1)\<lparr>vs_next_file_number := next_number d1 + 1\<rparr>\<rparr>"
  have s2: "db_allocate_file_number d1 = (Inr (next_number d1), ?d2)"
    by (simp add: db_allocate_file_number_def allocate_file_number_def)
  obtain r3 d3 where s3: "write_l0_table X mem (next_number d1) ?d2 = (r3, d3)" by fastforce
  then obtain rd meta where r3: "r3 = Inr (rd, meta)"
    using assms(3) unfolding db_flush_take [OF assms(1,2)] by (cases r3) (auto simp: op_then_def s2)
  obtain r4 d4 where s4: "publish_l0_table X meta (db_last_sequence d3) d3 = (r4, d4)" by fastforce
  from assms(3) have "r4 = Inr ()" "d' = d4\<lparr>db_l0_tables := (meta, rd) # db_l0_tables d4\<rparr>"
    unfolding db_flush_take [OF assms(1,2)] by (cases r4; simp add: op_then_def s2 s3 r3 s4)+
  with that s2 s3 r3 s4 show ?thesis by blast
qed

text \<open>The table of a successful flush, its number and its short keys.\<close>

lemma flushed_table:
  assumes "db_ok X G' d'" and "d' = d4\<lparr>db_l0_tables := (meta, rd) # db_l0_tables d4\<rparr>" and "short_keys X G' d'"
  shows "edit_ok (AddFile 0 meta)"
proof -
  have "ref_ok X G' (db_env d') (db_path d') (meta, rd)"
    using assms(1) by (simp add: db_ok_def readable_def refs_ok_def all_refs_def assms(2))
  then have "meta_of (ref_ents G' (meta, rd)) meta" by (simp add: ref_ok_def)
  moreover have "set (ref_ents G' (meta, rd)) \<subseteq> set (db_entries X G' d')"
    by (auto simp: db_entries_def layers_def l0_layers_def assms(2))
  ultimately show ?thesis
    using assms(3) meta_of_short [of "ref_ents G' (meta, rd)" meta] by (intro edit_ok_add) (auto simp: short_keys_def)
qed

text \<open>The manifest and the log after a flush that leaves an empty memtable.\<close>

lemma flush_recorded:
  assumes rec: "recorded X eds d" and d1: "d1 = with_mems mem' [] d" and num: "unat (next_number d) + 2 < 2 ^ 64"
    and seq: "vs_last_sequence (db_versions d) \<le> db_last_sequence d"
    and s2: "db_allocate_file_number d1 = (Inr (next_number d), d2)"
    and s3: "write_l0_table X mem (next_number d) d2 = (Inr (rd, meta), d3)"
    and s4: "publish_l0_table X meta (db_last_sequence d3) d3 = (Inr (), d4)" and ed: "edit_ok (AddFile 0 meta)"
  shows "\<exists>eds'. recorded X eds' d4" and "same_memory d1 d4"
    and "db_wal d4 = path_join (db_path d) (wal_file_name (vs_log_number (db_versions d4)))"
    and "content_of (db_env d4) (db_wal d4) = Some []" and "vs_last_sequence (db_versions d4) = db_last_sequence d"
    and "current d4 = (current d)\<lparr>l0_files := meta # l0_files (current d)\<rparr>" and "env_dirs (db_env d4) = env_dirs (db_env d)"
    and "env_faults (db_env d) = [] \<Longrightarrow> env_faults (db_env d4) = []" and "fm_number meta = next_number d"
proof -
  let ?n = "next_number d"
  have d2: "d2 = d1\<lparr>db_versions := (db_versions d1)\<lparr>vs_next_file_number := ?n + 1\<rparr>\<rparr>"
    using s2 by (simp add: db_allocate_file_number_def allocate_file_number_def d1)
  have lt: "?n < ?n + 1" "unat (?n + 1) + 1 < 2 ^ 64" using u64_Suc [of ?n 0] num by simp_all
  have a: "aside d1 d2" "aside d2 d3" using gentleD [OF gentle_allocate s2] aside_write_l0 [OF s3] .
  have v3: "db_versions d3 = db_versions d2" using write_l0_versions [OF s3] by simp
  have n2: "next_number d1 = ?n" "next_number d2 = ?n + 1" "next_number d3 = ?n + 1" by (simp_all add: d1 d2 v3)
  have "recorded X eds d1" using rec by (simp add: recorded_def logged_def d1)
  then have "recorded X eds d2" by (rule recorded_aside [OF _ a(1)]) (use lt in \<open>simp add: n2\<close>)
  then have rec3: "recorded X eds d3" by (rule recorded_aside [OF _ a(2)]) (simp add: n2)
  have mem3: "same_memory d1 d3" using a by (auto simp: aside_def intro: same_memory_trans)
  note m3 = same_memoryD [OF mem3]
  show meta: "fm_number meta = ?n" by (rule write_l0_number [OF s3])
  have "fm_number meta < next_number d3" "vs_last_sequence (db_versions d3) \<le> db_last_sequence d3"
    "unat (next_number d3) + 1 < 2 ^ 64" using lt seq m3(8) by (simp_all add: meta n2 v3 d2 d1)
  note p = publish_recorded [OF rec3 ed this(1,3,2) s4]
  show "\<exists>eds'. recorded X eds' d4" using p(1) by blast
  show "same_memory d1 d4" by (rule same_memory_trans [OF mem3 p(2)])
  show "db_wal d4 = path_join (db_path d) (wal_file_name (vs_log_number (db_versions d4)))"
    and "vs_last_sequence (db_versions d4) = db_last_sequence d"
    and "current d4 = (current d)\<lparr>l0_files := meta # l0_files (current d)\<rparr>"
    using p(3,5,6) m3(1,8) by (simp_all add: v3 d2 d1)
  show "content_of (db_env d4) (db_wal d4) = Some []" by (rule p(4))
  show "env_dirs (db_env d4) = env_dirs (db_env d)" "env_faults (db_env d) = [] \<Longrightarrow> env_faults (db_env d4) = []"
    using p(7,8) a by (simp_all add: aside_def d1)
qed

lemma flush_filed:
  assumes X: "externals X" and ok: "filed X G eds d" and fits: "mems_fit X d" "frozen_full X d" and short: "short_keys X G d"
    and num: "unat (next_number d) + 2 < 2 ^ 64" and seq: "vs_last_sequence (db_versions d) \<le> db_last_sequence d"
    and run: "db_flush X d = (Inr (), d')" and fit: "file_fits (db_env d') (table_path (db_path d) (next_number d))"
    and mems: "db_immutables d = [] \<and> replays X d bs \<or>
      (\<exists>m. db_immutables d = [m] \<and> db_mutable d = mem_new X (opt_memtable_kind (db_options d)))"
  shows "\<exists>G'. durable X G' d' \<and> db_entries X G' d' = db_entries X G d \<and> db_last_sequence d' = db_last_sequence d \<and>
    db_path d' = db_path d \<and> db_options d' = db_options d \<and> db_watermark d' = db_watermark d \<and> (tidy d \<longrightarrow> tidy d')"
proof -
  from ok have opened: "\<not> db_closed d" and set: "settled X G d" and rec: "recorded X eds d" and dbok: "db_ok X G d"
    by (simp_all add: filed_def settled_def)
  from flush_outcome [OF X dbok fits num run fit opened] obtain G' where G': "db_ok X G' d'" "db_entries X G' d' = db_entries X G d"
    "db_last_sequence d' = db_last_sequence d" by blast
  obtain t d1 where take: "take_oldest_flushable_memtable X d = (t, d1)" by fastforce
  show ?thesis
  proof (cases t)
    case None
    with take mems X have "d1 = d" "db_immutables d = []" by (auto elim: take_oldest_cases)
    with None run take opened have "d' = d" by (simp add: db_flush_def)
    with ok mems \<open>db_immutables d = []\<close> show ?thesis by (auto simp: durable_def intro!: exI [of _ G])
  next
    case (Some ms)
    then obtain mem source where t: "t = Some (mem, source)" by (cases ms) auto
    let ?new = "mem_new X (opt_memtable_kind (db_options d))"
    have d1: "d1 = with_mems ?new [] d" "next_number d1 = next_number d"
      using take mems t by (auto simp: take_oldest_flushable_memtable_def with_mems_def split: if_splits)
    obtain d2 d3 d4 rd meta where s: "db_allocate_file_number d1 = (Inr (next_number d), d2)"
      "write_l0_table X mem (next_number d) d2 = (Inr (rd, meta), d3)"
      "publish_l0_table X meta (db_last_sequence d3) d3 = (Inr (), d4)"
      and d': "d' = d4\<lparr>db_l0_tables := (meta, rd) # db_l0_tables d4\<rparr>"
      by (rule flush_success [OF opened take [unfolded t] run, unfolded d1(2)])
    have "short_keys X G' d'" using short by (simp add: short_keys_def G'(2))
    note p = flush_recorded [OF rec d1(1) num seq s flushed_table [OF G'(1) d' this]]
    note m = same_memoryD [OF p(2)]
    obtain eds' where eds': "recorded X eds' d4" using p(1) by blast
    have "distinct_numbers (current d4)"
      unfolding p(6)
    proof (rule distinct_numbers_flush)
      fix l f assume "l < length (levels (current d))" "f \<in> set (files_at (current d) l)"
      from file_ok_known [OF settled_file_ok [OF set this]] show "fm_number f \<noteq> fm_number meta"
        using dbok unfolding db_ok_def numbered_def p(9) by (metis less_irrefl)
    qed (use set in \<open>simp add: settled_def\<close>)
    then have "settled X G' d'"
      using G'(1) set m(6,7) p(6) by (simp add: settled_def tables_match_def d' d1)
    then have "filed X G' eds' d'"
      using ok eds' m(1,2,9) p(3,6-8) by (simp add: filed_def recorded_def logged_def d' d1)
    moreover have "replays X d' []" "db_immutables d' = []"
      using p(4,5) m(2,4,5,8) by (simp_all add: replays_def replay_def d' d1)
    moreover have "tidy d'" if "tidy d"
    proof -
      have d2: "db_path d2 = db_path d" "db_env d2 = db_env d" "vs_manifest_writer (db_versions d2) = vs_manifest_writer (db_versions d)"
        using s(1) by (auto simp: db_allocate_file_number_def allocate_file_number_def d1(1))
      have "manifest_ok d3" using dbok write_l0_versions [OF s(2)] d2 by (simp add: db_ok_def manifest_ok_def)
      with write_l0_files [OF s(2)] publish_files [OF s(3)] write_l0_versions [OF s(2)] d2
      have "env_files (db_env d') (table_path (db_path d) n) = env_files (db_env d) (table_path (db_path d) n)" if "n \<noteq> next_number d" for n
        using that by (simp add: d')
      then have "tabled d' \<subseteq> tabled d \<union> {next_number d}" using m(1) p(7) by (intro tabled_mono) (auto simp: d' d1)
      with that p(6,7,9) m(1) show ?thesis by (auto simp: tidy_def d' d1 version_files_def)
    qed
    ultimately show ?thesis using G'(2,3) m(1-3) by (auto simp: durable_def d' d1)
  qed
qed

subsection \<open>Writes\<close>

definition db_steady :: "('m db, 'a) op \<Rightarrow> bool" where
  "db_steady m \<longleftrightarrow> (\<forall>d r d'. m d = (r, d') \<longrightarrow> env_dirs (db_env d') = env_dirs (db_env d) \<and>
     (env_faults (db_env d) = [] \<longrightarrow> env_faults (db_env d') = []))"

lemma db_steadyD:
  "db_steady m \<Longrightarrow> m d = (r, d') \<Longrightarrow> env_dirs (db_env d') = env_dirs (db_env d)"
  "db_steady m \<Longrightarrow> m d = (r, d') \<Longrightarrow> env_faults (db_env d) = [] \<Longrightarrow> env_faults (db_env d') = []"
  by (auto simp: db_steady_def)

lemma db_steady_intros [steady_intros]:
  "steady m \<Longrightarrow> db_steady (on_env m)" "db_steady (metric f)" "db_steady (op_lift r)"
  by (auto simp: db_steady_def on_env_def metric_def op_lift_def steady_def split: prod.splits)

lemma db_steady_then [steady_intros]:
  assumes "db_steady m" and "\<And>x. db_steady (f x)"
  shows "db_steady (op_then m f)"
  unfolding db_steady_def
proof (intro allI impI)
  fix d r d' assume "op_then m f d = (r, d')"
  then show "env_dirs (db_env d') = env_dirs (db_env d) \<and> (env_faults (db_env d) = [] \<longrightarrow> env_faults (db_env d') = [])"
  proof (cases rule: op_thenE)
    case (fail x)
    with db_steadyD [OF assms(1) fail(1)] show ?thesis by simp
  next
    case (ok x e1)
    with db_steadyD [OF assms(1) ok(1)] db_steadyD [OF assms(2) ok(2)] show ?thesis by simp
  qed
qed

lemma db_steady_at: "(\<And>d. db_steady (f d)) \<Longrightarrow> db_steady (\<lambda>d. f d d)"
  by (auto simp: db_steady_def)

lemma db_steady_append_group [steady_intros]: "db_steady (append_group X items sync)"
proof (induction items arbitrary: sync)
  case (Cons i items)
  have "db_steady (\<lambda>d. (if wo_disable_wal (gw_opts i) then append_group X items sync
      else op_then (metric (record_wal_write (wal_record_bytes (encode_with_sequence (gw_batch i) (gw_start_sequence i))))) (\<lambda>_.
        op_then (on_env (wal_append (crc32c X) (db_wal d) (encode_with_sequence (gw_batch i) (gw_start_sequence i)))) (\<lambda>_.
          append_group X items (sync \<or> wo_sync (gw_opts i) \<or> wal_sync_opt (db_options d) = PerWrite)))) d)"
    by (rule db_steady_at) (auto intro!: steady_intros Cons.IH)
  then show ?case by (simp add: db_steady_def Let_def split: if_splits)
qed (simp add: db_steady_def)

lemma db_steady_log_group: "db_steady (log_group X items)"
  by (rule db_steady_at) (auto intro!: steady_intros)

lemma replay_last: "snd st \<le> snd (replay X bs st)"
proof (induction bs arbitrary: st)
  case (Cons b bs)
  have "snd st \<le> snd (apply_batch X s rs st)" for s rs
    by (induction X s rs st rule: apply_batch.induct) (auto intro: order_trans)
  from order_trans [OF this [of "fst b" "records (snd b)"] Cons.IH] show ?case by (simp add: replay_def case_prod_beta')
qed (simp add: replay_def)

lemma replays_last:
  assumes "replays X d bs"
  shows "vs_last_sequence (db_versions d) \<le> db_last_sequence d"
proof -
  let ?st = "(mem_new X (opt_memtable_kind (db_options d)), vs_last_sequence (db_versions d))"
  have "snd (replay X bs ?st) = db_last_sequence d" using assms unfolding replays_def by (metis snd_conv)
  with replay_last [of ?st X bs] show ?thesis by simp
qed

text \<open>A group in the log: the files still agree with the memory but for the memtable.\<close>

lemma write_group_filed:
  assumes X: "externals X" and ok: "filed X G eds d" and log: "content_of (db_env d) (db_wal d) \<noteq> None"
    and few: "unat (db_last_sequence d) + length (group_records items) < 2 ^ 64"
    and run: "apply_write_group_to_memtable X items d = (Inr flush, d')"
  shows "filed X G eds d'" and "env_dirs (db_env d') = env_dirs (db_env d)"
proof -
  from ok have opened: "\<not> db_closed d" and rd: "readable X G d" "wal_ok d" and set: "settled X G d" and rec: "recorded X eds d"
    by (simp_all add: filed_def settled_def db_ok_def)
  note out = write_group_outcome [OF X rd few run opened]
  from run opened obtain d1 where l: "log_group X (assign_sequences (db_last_sequence d + 1) items) d = (Inr (), d1)"
    and i: "apply_items X (assign_sequences (db_last_sequence d + 1) items) False d1 = (flush, d')"
    by (auto elim: write_group_split)
  have k: "keeps {db_wal d} d d1" using log_group_ok [OF l] by blast
  note st = db_steadyD [OF db_steady_log_group l] and ss = same_store_sel [OF apply_items_store [OF i]]
  have lv: "db_level_tables d' = db_level_tables d" using keeps_sel(6) [OF k] ss(4) by simp
  have "db_ok X G d'" using out set by (simp add: settled_def db_ok_def manifest_ok_def numbered_def)
  then have set': "settled X G d'" using out set lv by (simp add: settled_def tables_match_def)
  from rec obtain vs0 where vs0: "logged X eds vs0 d" "\<forall>n. vs_next_file_number vs0 \<le> n \<longrightarrow> log_file d n = None"
    by (auto simp: recorded_def)
  have wal: "db_wal d = path_join (db_path d) (wal_file_name (vs_log_number (db_versions d)))" using ok by (simp add: filed_def)
  have files: "q \<noteq> db_wal d \<Longrightarrow> env_files (db_env d') q = env_files (db_env d) q" for q using out by blast
  have "logged X eds vs0 d'"
    using vs0(1) out files by (auto simp: logged_def manifest_holds_def current_names_def wal)
  moreover have "log_file d' n = None" if n: "vs_next_file_number vs0 \<le> n" for n
  proof -
    have "log_file d n = None" using vs0(2) n by blast
    with log have "path_join (db_path d) (wal_file_name n) \<noteq> db_wal d" by (auto simp: content_of_def)
    with files \<open>log_file d n = None\<close> out show ?thesis by simp
  qed
  ultimately have "recorded X eds d'" by (auto simp: recorded_def)
  then show "filed X G eds d'" using ok set' out st ss(11) by (simp add: filed_def)
  show "env_dirs (db_env d') = env_dirs (db_env d)" using st(1) ss(11) by simp
qed

text \<open>One batch: it stays in the memtable, or the memtable with it is the one that is frozen.\<close>

lemma write_one_mems:
  assumes "apply_write_group_to_memtable X (group_items [(batch, opts)]) d = (Inr flush, d')"
  shows "if flush then \<exists>m. db_immutables d' = db_immutables d @ [m] \<and> db_mutable d' = mem_new X (opt_memtable_kind (db_options d'))
    else db_immutables d' = db_immutables d"
proof -
  let ?items = "assign_sequences (db_last_sequence d + 1) (group_items [(batch, opts)])"
  have "\<not> db_closed d" using assms by (auto simp: apply_write_group_to_memtable_def)
  with assms obtain d1 where l: "log_group X ?items d = (Inr (), d1)" and i: "apply_items X ?items False d1 = (flush, d')"
    by (auto elim: write_group_split)
  have "keeps {db_wal d} d d1" using log_group_ok [OF l] by blast
  from keeps_sel(2,4) [OF this] i show ?thesis
    by (auto simp: group_items_def freeze_mutable_if_needed_def db_apply_batch_def split: if_splits prod.splits)
qed

definition short_batch :: "batch_record list \<Rightarrow> bool" where
  "short_batch rs \<longleftrightarrow> (\<forall>r\<in>set rs. length (case r of BatchPut k v \<Rightarrow> k | BatchDelete k \<Rightarrow> k) < 2 ^ 30)"

lemma short_batch_entries: "short_batch rs \<Longrightarrow> e \<in> set (batch_entries s rs) \<Longrightarrow> short_key (fst e)"
  by (induction rs arbitrary: s) (auto simp: short_batch_def short_key_def split: batch_record.splits)

lemma write_and_flush_durable:
  assumes X: "externals X" and ok: "durable X G d" and room: "room X (records batch) d" and short: "short_keys X G d" "short_batch (records batch)"
    and log: "wal_enabled (db_options d)" "\<not> wo_disable_wal opts" "loggable (db_last_sequence d + 1, batch)"
    and num: "unat (next_number d) + 2 < 2 ^ 64" and run: "write_and_flush X (group_items [(batch, opts)]) d = (Inr (), d')"
    and fit: "file_fits (db_env d') (table_path (db_path d) (next_number d))"
  shows "\<exists>G'. durable X G' d' \<and> written X G (records batch) d G' d' \<and> short_keys X G' d' \<and>
    db_path d' = db_path d \<and> db_options d' = db_options d \<and> db_watermark d' = db_watermark d \<and> (tidy d \<longrightarrow> tidy d')"
proof -
  let ?items = "group_items [(batch, opts)]" and ?new = "batch_entries (db_last_sequence d + 1) (records batch)"
  from ok obtain eds bs where f: "filed X G eds d" and imm: "db_immutables d = []" and rep: "replays X d bs" by (auto simp: durable_def)
  from f have opened: "\<not> db_closed d" and rd: "readable X G d" "wal_ok d" by (simp_all add: filed_def settled_def db_ok_def)
  from run obtain flush d1 where w: "apply_write_group_to_memtable X ?items d = (Inr flush, d1)"
    and fl: "(if flush then db_flush X else op_lift (Inr ())) d1 = (Inr (), d')" by (auto elim: op_thenE)
  have few: "unat (db_last_sequence d) + length (group_records ?items) < 2 ^ 64" using room by (simp add: room_def)
  note out = write_group_outcome [OF X rd few w opened]
  have logd: "content_of (db_env d) (db_wal d) \<noteq> None" using rep by (auto simp: replays_def)
  note f1 = write_group_filed(1) [OF X f logd few w]
  have wr: "written X G (records batch) d G d1" using out by (simp add: written_def)
  have short1: "short_keys X G d1"
    using wr short short_batch_entries by (fastforce simp: short_keys_def written_def)
  have sel: "db_path d1 = db_path d" "db_options d1 = db_options d" "db_watermark d1 = db_watermark d" "db_versions d1 = db_versions d"
    using out by simp_all
  have tidy1: "tidy d1 = tidy d"
    using out wal_not_table_path [OF rd(2)] by (intro tidy_same write_group_filed(2) [OF X f logd few w]) (auto simp: sel)
  show ?thesis
  proof (cases flush)
    case False
    have new: "map (\<lambda>i. (gw_start_sequence i, gw_batch i)) (assign_sequences (db_last_sequence d + 1) ?items) = [(db_last_sequence d + 1, batch)]"
      by (simp add: group_items_def)
    have w': "apply_write_group_to_memtable X ?items d = (Inr False, d1)" using w False by simp
    have "replays X d1 (bs @ [(db_last_sequence d + 1, batch)])"
      using write_group_replays [OF rep w' log(1)] log(2,3) unfolding new by (simp add: group_items_def)
    moreover have "db_immutables d1 = []" using write_one_mems [OF w'] imm by simp
    moreover have "d' = d1" using fl False by (simp add: op_lift_def)
    ultimately show ?thesis using f1 wr short1 sel tidy1 by (auto simp: durable_def)
  next
    case True
    from write_one_mems [OF w] True imm obtain m where m: "db_immutables d1 = [m]"
      "db_mutable d1 = mem_new X (opt_memtable_kind (db_options d1))" by auto
    have "frozen_full X d" by (simp add: frozen_full_def imm)
    from write_group_mems [OF X this _ w opened] room out have mems: "frozen_full X d1" "mems_fit X d1"
      by (simp_all add: readable_def)
    have "db_last_sequence d \<le> db_last_sequence d1"
      using wr few by (simp add: written_def word_le_nat_alt unat_word_ariths unat_of_nat)
    with replays_last [OF rep] have "vs_last_sequence (db_versions d1) \<le> db_last_sequence d1" by (simp add: sel)
    note seq = this
    have fl': "db_flush X d1 = (Inr (), d')" using fl True by simp
    have "unat (next_number d1) + 2 < 2 ^ 64" "file_fits (db_env d') (table_path (db_path d1) (next_number d1))"
      using num fit by (simp_all add: sel)
    note flush_filed [OF X f1 mems(2,1) short1 this(1) seq fl' this(2) disjI2]
    with m obtain G' where "durable X G' d'" "db_entries X G' d' = db_entries X G d1" "db_last_sequence d' = db_last_sequence d1"
      "db_path d' = db_path d1" "db_options d' = db_options d1" "db_watermark d' = db_watermark d1"
      "tidy d1 \<longrightarrow> tidy d'" by blast
    with wr short1 sel tidy1 show ?thesis by (intro exI [of _ G']) (simp add: written_def short_keys_def)
  qed
qed

end
