(* ===== verification/Durable_Calls.thy ===== *)
theory Durable_Calls
  imports Durability
begin

section \<open>Every call keeps a database durable\<close>

text \<open>
  Compactions and opening, and then the calls of the interface: a call that succeeds leaves a
  database whose files are enough to open it again.
\<close>

subsection \<open>The edits of a compaction\<close>

definition file_edit :: "version_edit \<Rightarrow> bool" where
  "file_edit ed \<longleftrightarrow> (case ed of AddFile l m \<Rightarrow> True | DeleteFile l n \<Rightarrow> True | _ \<Rightarrow> False)"

lemma apply_edit_file:
  "apply_edit ed vs = Inr vs' \<Longrightarrow> file_edit ed \<Longrightarrow> vs_last_sequence vs' = vs_last_sequence vs \<and> vs_log_number vs' = vs_log_number vs"
  by (auto simp: file_edit_def result_simps Let_def split: version_edit.splits)

lemma logs_to_beside:
  assumes "logs_to ed d d'" and "file_edit ed"
  shows "beside d d'"
proof -
  note l = logs_toD [OF assms(1)]
  from l same_memoryD [OF l(2)] apply_edit_file [OF l(1) assms(2)] show ?thesis by (simp add: beside_def)
qed

lemma db_log_and_apply_recorded:
  assumes "recorded X eds d" and "edit_ok ed" "number_ok ed" and "db_log_and_apply X ed d = (Inr (), d')"
  shows "recorded X (eds @ [ed]) d'" and "logs_to ed d d'"
proof -
  from assms(1) obtain vs0 where vs0: "logged X eds vs0 d" "\<forall>n. vs_next_file_number vs0 \<le> n \<longrightarrow> log_file d n = None"
    by (auto simp: recorded_def)
  obtain vs1 where l: "logged X (eds @ [ed]) vs1 d'" "apply_edit ed vs0 = Inr vs1" "logs_to ed d d'"
    by (rule db_log_and_apply_logged [OF vs0(1) assms(2-4)])
  have "log_file d' n = None" if "vs_next_file_number vs1 \<le> n" for n
    using order_trans [OF apply_edit_next [OF l(2)] that] vs0(2) logs_toD(3,7) [OF l(3)] by simp
  with l(1) show "recorded X (eds @ [ed]) d'" by (auto simp: recorded_def)
  show "logs_to ed d d'" by (rule l(3))
qed

lemma log_edits_recorded:
  assumes "recorded X eds d" and "\<forall>ed\<in>set es. edit_ok ed \<and> number_ok ed \<and> file_edit ed" and "log_edits X es d = (Inr (), d')"
  shows "(\<exists>eds'. recorded X eds' d') \<and> beside d d'"
  using assms
proof (induction es arbitrary: eds d)
  case (Cons ed es)
  from Cons.prems(3) obtain d1 where s: "db_log_and_apply X ed d = (Inr (), d1)" "log_edits X es d1 = (Inr (), d')"
    by (auto elim: op_thenE)
  from db_log_and_apply_recorded [OF Cons.prems(1) _ _ s(1)] Cons.prems(2)
  have "recorded X (eds @ [ed]) d1" "beside d d1" by (auto intro: logs_to_beside)
  with Cons.IH [OF this(1) _ s(2)] Cons.prems(2) show ?case by (auto intro: beside_trans)
qed (auto simp: op_lift_def)

subsection \<open>The steps of a compaction that succeeds\<close>

definition finishes :: "'m db \<Rightarrow> 'm db \<Rightarrow> bool" where
  "finishes d d' \<longleftrightarrow> (\<exists>d1 l0 lv. aside d d1 \<and> db_versions d1 = db_versions d \<and>
     aside (d1\<lparr>db_l0_tables := l0, db_level_tables := lv\<rparr>) d' \<and> db_versions d' = db_versions d)"

lemma finishes_recorded:
  assumes "finishes d d'" and "recorded X eds d"
  shows "recorded X eds d'" and "beside d d'"
proof -
  from assms(1) obtain d1 l0 lv where a: "aside d d1" "db_versions d1 = db_versions d"
    "aside (d1\<lparr>db_l0_tables := l0, db_level_tables := lv\<rparr>) d'" "db_versions d' = db_versions d" by (auto simp: finishes_def)
  let ?d = "d1\<lparr>db_l0_tables := l0, db_level_tables := lv\<rparr>"
  have "recorded X eds d1" by (rule recorded_aside [OF assms(2) a(1)]) (simp add: a(2))
  then have "recorded X eds ?d" by (simp add: recorded_def logged_def)
  then show "recorded X eds d'" by (rule recorded_aside [OF _ a(3)]) (simp add: a(2,4))
  have "beside d1 ?d" by (simp add: beside_def)
  with aside_beside [OF a(1)] aside_beside [OF a(3)] show "beside d d'" by (blast intro: beside_trans)
qed

abbreviation task_edits :: "compaction_task \<Rightarrow> file_meta list \<Rightarrow> version_edit list" where
  "task_edits t outs \<equiv> map (delete_edit t) (all_input_files t) @ map (AddFile (ct_output_level t)) outs"

text \<open>The tables on disk after a compaction: its inputs are gone, its outputs have come.\<close>

definition exchanges :: "compaction_task \<Rightarrow> file_meta list \<Rightarrow> 'm db \<Rightarrow> 'm db \<Rightarrow> bool" where
  "exchanges t outs d d' \<longleftrightarrow> (manifest_ok d \<longrightarrow> env_faults (db_env d) = [] \<longrightarrow> (\<forall>n. table_path (db_path d) n \<notin> set (env_dirs (db_env d))) \<longrightarrow>
     tabled d' \<subseteq> tabled d - fm_number ` set (all_input_files t) \<union> fm_number ` set outs)"

lemma db_steady_log_edit [steady_intros]: "db_steady (db_log_and_apply X ed)"
  using steadyD [OF steady_wal(4)]
  by (auto simp: db_steady_def db_log_and_apply_def on_versions_def log_and_apply_state_def split: prod.splits sum.splits option.splits)

lemma db_steady_log_edits [steady_intros]: "db_steady (log_edits X eds)"
  by (induction eds) (auto intro!: steady_intros)

lemma log_edits_tabled:
  assumes "log_edits X eds d = (r, d')" and "manifest_ok d"
  shows "tabled d' = tabled d" and "db_path d' = db_path d" and "env_dirs (db_env d') = env_dirs (db_env d)"
    and "env_faults (db_env d) = [] \<Longrightarrow> env_faults (db_env d') = []"
proof -
  from log_edits_ok [OF assms] have k: "keeps (meta_paths (db_path d)) d d'" by blast
  show d: "db_path d' = db_path d" "env_dirs (db_env d') = env_dirs (db_env d)" by (rule keeps_sel(1) [OF k], rule db_steadyD(1) [OF db_steady_log_edits assms(1)])
  show "env_faults (db_env d) = [] \<Longrightarrow> env_faults (db_env d') = []" by (rule db_steadyD(2) [OF db_steady_log_edits assms(1)])
  show "tabled d' = tabled d" using keeps_sel(12) [OF k table_not_meta] by (simp add: tabled_def env_exists_def d)
qed

lemma quiet_tabled:
  assumes "aside d d'" and "env_files (db_env d') = env_files (db_env d)"
  shows "tabled d' = tabled d"
  using assms aside_path(1) [OF assms(1)] by (simp add: tabled_def env_exists_def aside_def)

lemma rewrite_success:
  assumes run: "rewrite_compaction X t w dt d = (Inr b, d')"
    and num: "unat (next_number d) + max (max_subcompactions (db_options d)) 1 < 2 ^ 64"
  obtains outs d2 d3 where "aside d d2" and "next_number d \<le> next_number d2" and "log_edits X (task_edits t outs) d2 = (Inr (), d3)"
    and "finishes d3 d'" and "exchanges t outs d d'"
proof -
  from run obtain es d1 where s1: "read_inputs X (all_input_files t) d = (Inr es, d1)"
    and r1: "op_then (write_compaction_outputs X (compact_entries es w dt)) (\<lambda>outs. publish_compaction X t outs) d1 = (Inr b, d')"
    unfolding rewrite_compaction_def by (auto elim: op_thenE)
  from r1 obtain outs d2 where s2: "write_compaction_outputs X (compact_entries es w dt) d1 = (Inr outs, d2)"
    and r2: "publish_compaction X t outs d2 = (Inr b, d')" by (auto elim: op_thenE)
  from r2 obtain d3 d4 where s3: "log_edits X (map (delete_edit t) (all_input_files t) @
      map (\<lambda>(_, meta). AddFile (ct_output_level t) meta) outs) d2 = (Inr (), d3)"
    and s4: "refresh_tables_from_version X d3 = (Inr (), d4)"
    and s5: "delete_obsolete_files (map fm_number (all_input_files t)) d4 = (Inr (), d')"
    by (auto elim!: op_thenE simp: op_lift_def)
  have a: "aside d d1" "db_versions d1 = db_versions d" "env_files (db_env d1) = env_files (db_env d)" using quietD [OF quiet_inputs s1] .
  have "next_number d1 \<le> next_number d2" using num by (intro write_outputs_next [OF s2]) (simp add: a(2) aside_path(2) [OF a(1)])
  then have n: "next_number d \<le> next_number d2" by (simp add: a(2))
  have a2: "aside d d2" by (rule aside_trans [OF a(1) aside_write_outputs [OF s2]])
  have l: "log_edits X (task_edits t (map snd outs)) d2 = (Inr (), d3)" using s3 by (simp add: case_prod_beta' comp_def)
  from s4 obtain d5 l0 lv where d5: "aside d3 d5" "db_versions d5 = db_versions d3"
    "d4 = d5\<lparr>db_l0_tables := l0, db_level_tables := lv\<rparr>" by (rule refresh_success)
  have "aside d4 d'" "db_versions d' = db_versions d4" using aside_delete [OF s5] delete_files_keeps [OF s5] by blast+
  with d5 have "finishes d3 d'" by (auto simp: finishes_def)
  moreover have "exchanges t (map snd outs) d d'"
    unfolding exchanges_def
  proof (intro impI)
    assume m: "manifest_ok d" "env_faults (db_env d) = []" "\<forall>n. table_path (db_path d) n \<notin> set (env_dirs (db_env d))"
    have m2: "manifest_ok d2" using m(1) a2 aside_path(1) [OF a2] by (simp add: manifest_ok_def aside_def)
    note lt = log_edits_tabled [OF l m2]
    have s4': "env_dirs (db_env d4) = env_dirs (db_env d3)" "env_faults (db_env d3) = [] \<Longrightarrow> env_faults (db_env d4) = []"
      "env_files (db_env d4) = env_files (db_env d3)" "db_path d4 = db_path d3"
      using d5 refresh_files [OF s4] by (simp_all add: aside_def)
    have t4: "tabled d4 = tabled d3" by (simp add: tabled_def env_exists_def s4')
    have "tabled d' \<subseteq> tabled d4 - fm_number ` set (all_input_files t)"
      using delete_files_tabled [OF s5] m a2 aside_path(1) [OF a2] lt s4' by (simp add: aside_def)
    then show "tabled d' \<subseteq> tabled d - fm_number ` set (all_input_files t) \<union> fm_number ` set (map snd outs)"
      using write_outputs_tabled [OF s2] quiet_tabled [OF a(1,3)] lt(1) t4 by auto
  qed
  ultimately show ?thesis using that [OF a2 n l] by blast
qed

lemma move_success:
  assumes "move_file X t (ct_input_files t ! 0) d = (Inr b, d')" and triv: "is_trivial_move t"
  obtains outs d3 where "log_edits X (task_edits t outs) d = (Inr (), d3)" and "finishes d3 d'" and "exchanges t outs d d'"
proof -
  obtain f where ins: "ct_input_files t = [f]" "all_input_files t = [f]"
    using triv by (cases "ct_input_files t") (auto simp: is_trivial_move_def all_input_files_def)
  have edits: "[DeleteFile (ct_input_level t) (fm_number f), AddFile (ct_output_level t) f] = task_edits t [f]"
    by (simp add: ins delete_edit_def)
  have "op_then (op_then (log_edits X (task_edits t [f])) (\<lambda>_. refresh_tables_from_version X)) (\<lambda>_. op_lift (Inr True)) d = (Inr b, d')"
    using assms(1) by (simp only: ins(1) nth_Cons_0 move_file_eq edits)
  then obtain d3 where s3: "log_edits X (task_edits t [f]) d = (Inr (), d3)" and s4: "refresh_tables_from_version X d3 = (Inr (), d')"
    by (auto elim!: op_thenE simp: op_lift_def simp del: map_append log_edits.simps)
  from s4 obtain d5 l0 lv where d5: "aside d3 d5" "db_versions d5 = db_versions d3"
    "d' = d5\<lparr>db_l0_tables := l0, db_level_tables := lv\<rparr>" by (rule refresh_success)
  then have "finishes d3 d'" unfolding finishes_def by (intro exI [of _ d5] exI [of _ l0] exI [of _ lv]) simp
  moreover have "exchanges t [f] d d'"
    unfolding exchanges_def
  proof (intro impI)
    assume "manifest_ok d"
    note lt = log_edits_tabled [OF s3 this]
    have "tabled d' = tabled d3"
      using d5 refresh_files [OF s4] by (simp add: tabled_def env_exists_def aside_def)
    with lt(1) show "tabled d' \<subseteq> tabled d - fm_number ` set (all_input_files t) \<union> fm_number ` set [f]" by (auto simp: ins)
  qed
  ultimately show ?thesis using that [OF s3] by blast
qed

lemma execute_success:
  assumes run: "execute_compaction X t d = (Inr b, d')" and ne: "ct_input_files t \<noteq> []"
    and num: "unat (next_number d) + max (max_subcompactions (db_options d)) 1 < 2 ^ 64"
  obtains outs d2 d3 where "aside d d2" and "next_number d \<le> next_number d2" and "log_edits X (task_edits t outs) d2 = (Inr (), d3)"
    and "finishes d3 d'" and "exchanges t outs d d'"
proof -
  let ?w = "gc_watermark d" and ?dt = "can_drop_tombstones t d"
  let ?body = "\<lambda>rewrite. if \<not> rewrite then move_file X t (ct_input_files t ! 0) else rewrite_compaction X t ?w ?dt"
  have run': "op_then (if is_trivial_move t then trivial_move_needs_rewrite X t ?w ?dt else op_lift (Inr True)) ?body d = (Inr b, d')"
    using run unfolding execute_compaction_def Let_def if_not_P [OF ne] .
  then obtain rewrite d1 where s1: "(if is_trivial_move t then trivial_move_needs_rewrite X t ?w ?dt else op_lift (Inr True)) d = (Inr rewrite, d1)"
    and r1: "?body rewrite d1 = (Inr b, d')" by (rule op_thenE) simp_all
  have a: "aside d d1" "db_versions d1 = db_versions d" "env_files (db_env d1) = env_files (db_env d)"
    using s1 quietD [OF quiet_needs_rewrite] by (auto simp: op_lift_def split: if_splits)
  have ex: "exchanges t outs d d'" if "exchanges t outs d1 d'" for outs
    using that quiet_tabled [OF a(1,3)] a aside_path(1) [OF a(1)] unfolding exchanges_def manifest_ok_def aside_def by simp
  show ?thesis
  proof (cases rewrite)
    case True
    with r1 have "rewrite_compaction X t ?w ?dt d1 = (Inr b, d')" by simp
    moreover have "unat (next_number d1) + max (max_subcompactions (db_options d1)) 1 < 2 ^ 64"
      using num by (simp add: a(2) aside_path(2) [OF a(1)])
    ultimately obtain outs d2 d3 where "aside d1 d2" "next_number d1 \<le> next_number d2"
      "log_edits X (task_edits t outs) d2 = (Inr (), d3)" "finishes d3 d'" "exchanges t outs d1 d'" by (rule rewrite_success)
    with that [of d2] a ex show ?thesis by (auto intro: aside_trans)
  next
    case False
    with s1 have triv: "is_trivial_move t" by (auto simp: op_lift_def split: if_splits)
    from r1 False have "move_file X t (ct_input_files t ! 0) d1 = (Inr b, d')" by simp
    from move_success [OF this triv] that [OF a(1)] a(2) ex show ?thesis by auto
  qed
qed

subsection \<open>Compactions\<close>

lemma apply_edits_levels: "apply_edits es vs = Inr vs' \<Longrightarrow> length (levels (vs_current vs')) = length (levels (vs_current vs))"
proof (induction es arbitrary: vs)
  case (Cons ed es)
  then obtain vs1 where v: "apply_edit ed vs = Inr vs1" "apply_edits es vs1 = Inr vs'" by (auto simp: result_simps)
  have "length (levels (vs_current vs1)) = length (levels (vs_current vs))"
    using v(1) by (cases ed) (auto simp: result_simps Let_def add_file_def delete_file_def split: if_splits)
  with Cons.IH [OF v(2)] show ?case by simp
qed simp

lemma apply_adds_in:
  assumes "apply_edits (map (AddFile l) ms) vs = Inr vs'" and "l < length (levels (vs_current vs))"
  shows "set ms \<union> set (files_at (vs_current vs) l) \<subseteq> set (files_at (vs_current vs') l)"
  using assms
proof (induction ms arbitrary: vs)
  case (Cons m ms)
  then obtain vs1 where v: "apply_edit (AddFile l m) vs = Inr vs1" "apply_edits (map (AddFile l) ms) vs1 = Inr vs'"
    by (auto simp: result_simps simp del: apply_edit.simps)
  have "insert m (set (files_at (vs_current vs) l)) \<subseteq> set (files_at (vs_current vs1) l)"
    using v(1) Cons.prems(2) by (auto simp: result_simps Let_def add_file_def files_at_def split: if_splits)
  moreover have "l < length (levels (vs_current vs1))"
    using apply_edits_levels [of "[AddFile l m]" vs vs1] v(1) Cons.prems(2) by (simp add: result_simps)
  ultimately show ?case using Cons.IH [OF v(2)] by auto
qed simp

text \<open>What a compaction leaves listed: all but its inputs, and its outputs.\<close>

lemma version_files_nth: "f \<in> version_files v \<longleftrightarrow> f \<in> set (l0_files v) \<or> (\<exists>i<length (levels v). f \<in> set (levels v ! i))"
  by (auto simp: version_files_def in_set_conv_nth) (metis in_set_conv_nth nth_mem)+

lemma edit_version_files:
  "apply_edit (AddFile l m) vs = Inr vs' \<Longrightarrow> insert m (version_files (vs_current vs)) \<subseteq> version_files (vs_current vs')"
  "apply_edit (DeleteFile l n) vs = Inr vs' \<Longrightarrow> {f \<in> version_files (vs_current vs). fm_number f \<noteq> n} \<subseteq> version_files (vs_current vs')"
  by (auto simp: result_simps Let_def add_file_def delete_file_def version_files_nth nth_list_update split: if_splits)

lemma task_edits_numbers:
  assumes "apply_edits (task_edits t outs) vs = Inr vs'"
  shows "fm_number ` version_files (vs_current vs) - fm_number ` set (all_input_files t) \<union> fm_number ` set outs
    \<subseteq> fm_number ` version_files (vs_current vs')"
proof -
  have del: "{f \<in> version_files (vs_current v). fm_number f \<notin> fm_number ` set fs} \<subseteq> version_files (vs_current v')"
    if "apply_edits (map (delete_edit t) fs) v = Inr v'" for fs v v'
    using that
  proof (induction fs arbitrary: v)
    case (Cons f fs)
    then obtain v1 where v1: "apply_edit (delete_edit t f) v = Inr v1" "apply_edits (map (delete_edit t) fs) v1 = Inr v'"
      by (auto simp: result_simps simp del: apply_edit.simps)
    from edit_version_files(2) [OF v1(1) [unfolded delete_edit_def]] Cons.IH [OF v1(2)] show ?case by auto
  qed simp
  have add: "version_files (vs_current v) \<union> set ms \<subseteq> version_files (vs_current v')"
    if "apply_edits (map (AddFile (ct_output_level t)) ms) v = Inr v'" for ms v v'
    using that
  proof (induction ms arbitrary: v)
    case (Cons m ms)
    then obtain v1 where v1: "apply_edit (AddFile (ct_output_level t) m) v = Inr v1" "apply_edits (map (AddFile (ct_output_level t)) ms) v1 = Inr v'"
      by (auto simp: result_simps simp del: apply_edit.simps)
    from edit_version_files(1) [OF v1(1)] Cons.IH [OF v1(2)] show ?case by auto
  qed simp
  from assms obtain v1 where "apply_edits (map (delete_edit t) (all_input_files t)) vs = Inr v1"
    "apply_edits (map (AddFile (ct_output_level t)) outs) v1 = Inr vs'" by (auto simp: apply_edits_append result_simps)
  from del [OF this(1)] add [OF this(2)] show ?thesis by blast
qed

lemma file_short:
  assumes "settled X G d" and "short_keys X G d" and "l < length (levels (current d))" and "f \<in> set (files_at (current d) l)"
  shows "short_key (fm_smallest f)" and "short_key (fm_largest f)" and "fm_number f < next_number d"
proof -
  have f: "file_ok X G d f" by (rule settled_file_ok [OF assms(1,3,4)])
  from file_ok_known [OF f] assms(1) show "fm_number f < next_number d" unfolding settled_def db_ok_def numbered_def by blast
  have "set (file_ents G f) \<subseteq> set (concat (version_layers G (current d)))"
  proof (cases "l = 0")
    case True
    with assms(4) show ?thesis by (auto simp: files_at_def version_layers_def)
  next
    case False
    then have "levels (current d) ! l \<in> set (drop 1 (levels (current d)))"
      using nth_mem [of "l - 1" "drop 1 (levels (current d))"] assms(3) by simp
    with assms(4) False show ?thesis by (fastforce simp: files_at_def version_layers_def set_level_ents)
  qed
  then have "\<forall>e\<in>set (file_ents G f). short_key (fst e)"
    using assms(2) by (auto simp: short_keys_def db_entries_def settled_layers [OF assms(1)])
  with file_ok_meta [OF f] show "short_key (fm_smallest f)" "short_key (fm_largest f)" using meta_of_short by blast+
qed

lemma execute_filed:
  assumes ok: "filed X G eds d" and t: "task_ok (current d) t" and run: "execute_compaction X t d = (Inr b, d')"
    and num: "unat (next_number d) + max (max_subcompactions (db_options d)) 1 < 2 ^ 64"
    and ok': "settled X G' d'" "short_keys X G' d'"
  shows "(\<exists>eds'. filed X G' eds' d') \<and> beside d d' \<and> (tidy d \<longrightarrow> tidy d')"
proof -
  let ?l = "ct_output_level t"
  note T = task_okD [OF t]
  from ok have set: "settled X G d" and rec: "recorded X eds d" and small: "length (levels (current d)) < 2 ^ 32" by (simp_all add: filed_def)
  have ne: "ct_input_files t \<noteq> []" using t by (simp add: task_ok_def)
  obtain outs d2 d3 where a: "aside d d2" "next_number d \<le> next_number d2" and l: "log_edits X (task_edits t outs) d2 = (Inr (), d3)"
    and fin: "finishes d3 d'" and ex: "exchanges t outs d d'" by (rule execute_success [OF run ne num])
  have "manifest_ok d2" using set a(1) aside_path(1) [OF a(1)] by (simp add: settled_def db_ok_def manifest_ok_def aside_def)
  with log_edits_ok [OF l] have app: "apply_edits (task_edits t outs) (db_versions d2) = Inr (db_versions d3)" by blast
  have cur: "current d2 = current d" using a(1) by (simp add: aside_def)
  have v': "db_versions d' = db_versions d3" using fin by (auto simp: finishes_def)
  have len: "length (levels (current d')) = length (levels (current d))" using apply_edits_levels [OF app] by (simp add: v' cur)
  from app obtain vs1 where vs1: "apply_edits (map (delete_edit t) (all_input_files t)) (db_versions d2) = Inr vs1"
    "apply_edits (map (AddFile ?l) outs) vs1 = Inr (db_versions d')" by (auto simp: apply_edits_append result_simps v')
  have "?l < length (levels (vs_current vs1))" using apply_edits_levels [OF vs1(1)] T(2) cur by simp
  from apply_adds_in [OF vs1(2) this] have outs: "m \<in> set (files_at (current d') ?l)" if "m \<in> set outs" for m using that by blast
  have "edit_ok (AddFile ?l m) \<and> number_ok (AddFile ?l m)" if "m \<in> set outs" for m
    using file_short [OF ok' _ outs [OF that]] T(2) small len u64_less_Suc
    by (fastforce simp: number_ok_def intro!: edit_ok_add)
  moreover have "edit_ok (delete_edit t f) \<and> number_ok (delete_edit t f)" for f
    using T(2,3) small by (auto simp: delete_edit_def number_ok_def intro!: edit_ok_other(3))
  ultimately have "\<forall>ed\<in>set (task_edits t outs). edit_ok ed \<and> number_ok ed \<and> file_edit ed"
    by (auto simp: file_edit_def delete_edit_def)
  from log_edits_recorded [OF recorded_aside [OF rec a] this l] obtain eds' where r: "recorded X eds' d3" "beside d2 d3" by blast
  have b: "beside d d'"
    using beside_trans [OF aside_beside [OF a(1)] beside_trans [OF r(2) finishes_recorded(2) [OF fin r(1)]]] .
  have "filed X G' eds' d'"
    using ok b ok'(1) finishes_recorded(1) [OF fin r(1)] len unfolding filed_def beside_def by simp
  moreover have "tidy d'" if "tidy d"
  proof -
    have dirs: "db_path d' = db_path d" "env_dirs (db_env d') = env_dirs (db_env d)" using b by (simp_all add: beside_def)
    have "manifest_ok d" "env_faults (db_env d) = []" using ok by (simp_all add: filed_def settled_def db_ok_def)
    with ex that have t: "tabled d' \<subseteq> tabled d - fm_number ` set (all_input_files t) \<union> fm_number ` set outs"
      unfolding exchanges_def tidy_def by blast
    have d: "tabled d \<subseteq> fm_number ` version_files (current d)" "\<forall>n. table_path (db_path d) n \<notin> set (env_dirs (db_env d))"
      using that by (simp_all add: tidy_def)
    from t have "tabled d' \<subseteq> fm_number ` version_files (current d) - fm_number ` set (all_input_files t) \<union> fm_number ` set outs"
      by (rule subset_trans [OF _ Un_mono [OF Diff_mono [OF d(1) subset_refl] subset_refl]])
    also note task_edits_numbers [OF app, unfolded cur]
    finally show ?thesis using d(2) by (simp add: tidy_def dirs v')
  qed
  ultimately show ?thesis using b by blast
qed

lemma beside_replays: "beside d d' \<Longrightarrow> wal_ok d \<Longrightarrow> replays X d bs \<Longrightarrow> replays X d' bs"
  by (auto simp: beside_def replays_def wal_ok_def content_of_def)

lemma compact_range_durable:
  assumes X: "externals X" and ok: "durable X G d" and short: "short_keys X G d"
    and meets: "\<forall>f\<in>set (l0_files (current d)). \<forall>g\<in>set (l0_files (current d)). file_overlaps_range f lower upper \<longrightarrow> file_overlaps_range g lower upper"
    and few: "max_subcompactions (db_options d) \<le> 1 \<or> [] \<notin> (user_key \<circ> fst) ` set (db_entries X G d)"
    and fits: "entries_fit (set (db_entries X G d))" and num: "unat (next_number d) + max (max_subcompactions (db_options d)) 1 < 2 ^ 64"
    and run: "compact_range X lower upper d = (Inr (), d')" and files: "\<forall>n. file_fits (db_env d') (table_path (db_path d) n)"
  shows "\<exists>G'. durable X G' d' \<and> reads_as X (gc_watermark d) G d G' d' \<and> (tidy d \<longrightarrow> tidy d')"
proof -
  from ok obtain eds bs where f: "filed X G eds d" and imm: "db_immutables d = []" and rep: "replays X d bs" by (auto simp: durable_def)
  then have set: "settled X G d" and wal: "wal_ok d" by (simp_all add: filed_def settled_def db_ok_def)
  from compact_range_outcome [OF X set meets few fits num run files] obtain G' where G': "reads_as X (gc_watermark d) G d G' d'" "settled X G' d'"
    by blast
  have len: "1 < length (levels (current d))" and disj: "\<forall>l. 0 < l \<and> l < length (levels (current d)) \<longrightarrow> level_disjoint (levels (current d) ! l)"
    using set settled_sound(1) [OF set] by (simp_all add: settled_def version_sound_def)
  obtain p where p: "pick_manual (current d) lower upper = Inr p" "\<And>t. p = Some t \<Longrightarrow> task_ok (current d) t"
    using pick_manual_ok [OF len disj, of lower upper] by blast
  have "(\<exists>eds'. filed X G' eds' d') \<and> beside d d' \<and> (tidy d \<longrightarrow> tidy d')"
  proof (cases p)
    case None
    with run p(1) have "d' = d" by (simp add: compact_range_def)
    with f G'(2) show ?thesis by (auto simp: filed_def)
  next
    case (Some t)
    then obtain b where "execute_compaction X t d = (Inr b, d')"
      using run p(1) by (auto simp: compact_range_def op_lift_def elim!: op_thenE)
    moreover have "short_keys X G' d'" using short G'(1) by (auto simp: short_keys_def reads_as_def)
    ultimately show ?thesis using execute_filed [OF f p(2) [OF Some] _ num G'(2)] by blast
  qed
  then obtain eds' where "filed X G' eds' d'" "beside d d'" "tidy d \<longrightarrow> tidy d'" by blast
  with beside_replays [OF _ wal rep] imm G'(1) show ?thesis by (auto simp: durable_def beside_def)
qed

end
