(* ===== verification/Reopening.thy ===== *)
theory Reopening
  imports Durable_Calls
begin

section \<open>Opening a durable database again\<close>

text \<open>
  Opening the files of a durable database gives a durable database with the same entries.  A
  number that a lost table had may be given out again; what is known of the tables is
  therefore cut down to those of the version.
\<close>

definition version_ghost :: "ghost \<Rightarrow> version \<Rightarrow> ghost" where
  "version_ghost G v = G |` (fm_number ` version_files v)"

lemma version_ghost_ref:
  assumes "tables_match d" and "ref \<in> set (all_refs d)"
  shows "version_ghost G (current d) (fm_number (fst ref)) = G (fm_number (fst ref))"
proof -
  have l: "l0_files (current d) = map fst (db_l0_tables d)" "levels (current d) = map (map fst) (db_level_tables d)"
    using assms(1) by (simp_all add: tables_match_def)
  have "fst ref \<in> version_files (current d)"
    using assms(2) unfolding version_files_def l all_refs_def by auto
  then show ?thesis by (simp add: version_ghost_def restrict_map_def)
qed

lemma version_ghost_ok:
  assumes "tables_match d" and "refs_ok X G d" and "layers_ok X G d"
  shows "refs_ok X (version_ghost G (current d)) d" and "layers X (version_ghost G (current d)) d = layers X G d"
    and "layers_ok X (version_ghost G (current d)) d"
proof -
  let ?G = "version_ghost G (current d)"
  note same = version_ghost_ref [OF assms(1), of _ G]
  have ents: "ref_ents ?G ref = ref_ents G ref" if "ref \<in> set (all_refs d)" for ref
    using same [OF that] by (simp add: ref_ents_def ents_of_def)
  have "ref_ok X ?G (db_env d) (db_path d) ref" if "ref \<in> set (all_refs d)" for ref
    using assms(2) that same [OF that] ents [OF that] by (auto simp: refs_ok_def ref_ok_def table_ok_def reader_ok_def)
  with assms(2) show "refs_ok X ?G d" by (simp add: refs_ok_def)
  have "level \<in> set (drop 1 (db_level_tables d)) \<Longrightarrow> ref \<in> set level \<Longrightarrow> ref_ents ?G ref = ref_ents G ref" for level ref
    by (rule ents) (use in_set_dropD [of level 1 "db_level_tables d"] in \<open>auto simp: all_refs_def\<close>)
  then have "level_layers ?G d = level_layers G d" by (auto simp: level_layers_def intro!: arg_cong [of _ _ concat])
  moreover have "l0_layers ?G d = l0_layers G d" using ents by (auto simp: l0_layers_def all_refs_def)
  ultimately show l: "layers X ?G d = layers X G d" by (simp add: layers_def)
  with assms(3) show "layers_ok X ?G d" by (simp add: layers_ok_def db_entries_def)
qed

lemma reopen_durable:
  assumes ok: "durable X G d" and fresh: "\<not> error_if_exists (db_options d)"
  shows "\<exists>d' G'. db_open X pick_block pick_table (db_path d) (db_options d) (db_env d) = (Inr d', db_env d) \<and> durable X G' d' \<and>
    db_entries X G' d' = db_entries X G d \<and> db_last_sequence d' = db_last_sequence d \<and> db_path d' = db_path d \<and>
    db_options d' = db_options d \<and> db_watermark d' = watermark_new \<and> db_env d' = db_env d \<and> current d' = current d"
proof -
  from ok obtain eds bs where f: "filed X G eds d" and imm: "db_immutables d = []" and rep: "replays X d bs" by (auto simp: durable_def)
  let ?G = "version_ghost G (current d)"
  from f have set: "settled X G d" and rec: "recorded X eds d" and dir: "db_path d \<in> set (env_dirs (db_env d))" "env_faults (db_env d) = []"
    and wal: "db_wal d = path_join (db_path d) (wal_file_name (vs_log_number (db_versions d)))" by (simp_all add: filed_def)
  from rec obtain vs1 where vs1: "logged X eds vs1 d" "\<forall>n. vs_next_file_number vs1 \<le> n \<longrightarrow> log_file d n = None" by (auto simp: recorded_def)
  from set have rd: "mems_ok X d" "refs_ok X G d" "layers_ok X G d" and tm: "tables_match d"
    by (simp_all add: settled_def db_ok_def readable_def)
  note g = version_ghost_ok [OF tm rd(2,3)]
  have man: "manifest_holds (crc32c X) (db_path d) (max_levels (db_options d)) eds (db_versions d) (db_env d)"
    using vs1(1) by (simp add: logged_def)
  obtain vs0 d' where o: "apply_edits eds (recovered (max_levels (db_options d)) (vs_manifest_number (db_versions d))) = Inr vs0"
    "same_state vs0 (db_versions d)" "db_versions d' = vs0\<lparr>vs_manifest_writer := vs_manifest_writer (db_versions d)\<rparr>"
    "db_open X pick_block pick_table (db_path d) (db_options d) (db_env d) = (Inr d', db_env d)"
    "readable X ?G d'" "db_entries X ?G d' = db_entries X ?G d" "db_last_sequence d' = db_last_sequence d"
    "db_wal d' = db_wal d" "\<not> db_closed d'" "tables_match d'" "replays X d' bs" "db_immutables d' = []"
    "db_path d' = db_path d" "db_options d' = db_options d" "db_watermark d' = watermark_new" "db_env d' = db_env d"
    by (rule reopen_outcome [OF rd(1) g(1,3) imm tm rep man wal dir fresh])
  have vs: "vs1 = vs0" using vs1(1) o(1) by (simp add: logged_def)
  have st: "vs_current vs0 = current d" "vs_log_number vs0 = vs_log_number (db_versions d)"
    "vs_manifest_number vs0 = vs_manifest_number (db_versions d)" using o(2) by (simp_all add: same_state_def)
  have "numbered ?G d'"
    using vs1(1) unfolding numbered_def
    by (auto simp: version_ghost_def restrict_map_def o(3) logged_def vs st split: if_splits)
  moreover have "wal_ok d'" "manifest_ok d'"
    using wal set by (auto simp: wal_ok_def manifest_ok_def o settled_def db_ok_def)
  ultimately have "settled X ?G d'" using o(5,10) set by (simp add: settled_def db_ok_def o(3) st)
  moreover have "logged X eds vs0 d'"
    using vs1(1) o(1,2) unfolding logged_def manifest_holds_def vs by (simp add: o(3,13,14,16) st same_state_def)
  then have "recorded X eds d'" using vs1(2) by (auto simp: recorded_def vs o(13,16))
  ultimately have "filed X ?G eds d'" using f by (simp add: filed_def o st)
  then have "durable X ?G d'" using o(11,12) by (auto simp: durable_def)
  moreover have "db_entries X ?G d' = db_entries X G d" using o(6) g(2) by (simp add: db_entries_def)
  moreover have "current d' = current d" by (simp add: o(3) st(1))
  ultimately show ?thesis using o(4,7,13-16) by blast
qed

subsection \<open>Opening an empty directory\<close>

abbreviation first_edits :: "version_edit list" where
  "first_edits \<equiv> [NextFileNumber 2, LogNumber 1, LastSequence 0]"

lemma create_dir_all_ok:
  "create_dir_all p e = (Inr u, e') \<Longrightarrow> env_faults e = [] \<Longrightarrow> e' = e\<lparr>env_dirs := List.insert p (env_dirs e)\<rparr>"
  by (auto simp: create_dir_all_def faultable_def take_fault_def)

lemma manifest_append_grows:
  assumes "manifest_append crc p ed e = (Inr (), e')" and "env_files e p = Some f" and "file_content f = manifest_image crc eds"
  shows "\<exists>f'. env_files e' = (env_files e)(p \<mapsto> f') \<and> file_content f' = manifest_image crc (eds @ [ed])"
  by (rule manifest_append_outcome [OF assms(1,2), of "()"]) (use assms(3) in \<open>auto simp: manifest_image_def\<close>)

lemma steady_set_current: "steady (set_current_with_env dir name)"
  unfolding set_current_with_env_def sync_directory_def Let_def
  by (intro steady_intros steady_faultable) (simp add: steady_def)

lemma path_join_self: "path_join p name \<noteq> p" if "name \<noteq> []"
  using that by (simp add: path_join_def)

lemma edit_ok_next: "edit_ok (NextFileNumber n)"
  using length_put_var(1) [of "put_var_u32 [] TAG_NEXT_FILE_NUMBER" n] length_put_var(2) [of "[]" TAG_NEXT_FILE_NUMBER]
  by (simp add: edit_ok_def)

lemma create_holds:
  assumes run: "version_set_create crc p opts e = (Inr vs, e')" and calm: "env_faults e = []"
  shows "manifest_holds crc p (max_levels opts) first_edits vs e'"
    and "vs = (recovered (max_levels opts) 1)\<lparr>vs_manifest_writer := Some (path_join p (manifest_file_name 1))\<rparr>"
    and "env_faults e' = []" and "env_dirs e' = List.insert p (env_dirs e)"
    and "env_files e' (path_join p (wal_file_name n)) = env_files e (path_join p (wal_file_name n))"
    and "env_files e' (table_path p n) = env_files e (table_path p n)"
proof -
  let ?m = "path_join p (manifest_file_name 1)"
  from run obtain e1 e2 w e3 e4 e5 where s: "create_dir_all p e = (Inr (), e1)" "open_writable ?m options_create e1 = (Inr w, e2)"
    "manifest_append crc w (NextFileNumber 2) e2 = (Inr (), e3)" "manifest_append crc w (LogNumber 1) e3 = (Inr (), e4)"
    "manifest_append crc w (LastSequence 0) e4 = (Inr (), e5)" "set_current_with_env p (manifest_file_name 1) e5 = (Inr (), e')"
    and vs: "vs = \<lparr>vs_current = version_new (max_levels opts), vs_next_file_number = 2, vs_last_sequence = 0, vs_log_number = 1,
      vs_manifest_number = 1, vs_manifest_writer = Some w\<rparr>"
    unfolding version_set_create_def Let_def manifest_create_with_env_def by (auto elim!: op_thenE simp: op_lift_def)
  have e1: "e1 = e\<lparr>env_dirs := List.insert p (env_dirs e)\<rparr>" by (rule create_dir_all_ok [OF s(1) calm])
  from open_writable_create [OF s(2)] have w: "w = ?m" "env_files e2 = (env_files e1)(?m \<mapsto> empty_file)" by simp_all
  from manifest_append_grows [OF s(3), of empty_file "[]"] obtain f3 where f3: "env_files e3 = (env_files e2)(?m \<mapsto> f3)"
    "file_content f3 = manifest_image crc [NextFileNumber 2]" by (auto simp: w manifest_image_def)
  from manifest_append_grows [OF s(4), of f3 "[NextFileNumber 2]"] f3 obtain f4 where f4: "env_files e4 = (env_files e3)(?m \<mapsto> f4)"
    "file_content f4 = manifest_image crc [NextFileNumber 2, LogNumber 1]" by (auto simp: w)
  from manifest_append_grows [OF s(5), of f4 "[NextFileNumber 2, LogNumber 1]"] f4 obtain f5 where f5: "env_files e5 = (env_files e4)(?m \<mapsto> f5)"
    "file_content f5 = manifest_image crc first_edits" by (auto simp: w)
  note cur = set_current_cases [OF s(6)]
  show vs': "vs = (recovered (max_levels opts) 1)\<lparr>vs_manifest_writer := Some ?m\<rparr>" by (simp add: vs recovered_def w)
  have "steady (manifest_append crc w ed)" for ed by (rule steady_wal)
  note st = steadyD [OF steady_calls(1) s(2)] steadyD [OF this s(3)] steadyD [OF this s(4)] steadyD [OF this s(5)] steadyD [OF steady_set_current s(6)]
  show "env_faults e' = []" "env_dirs e' = List.insert p (env_dirs e)" using st calm by (simp_all add: e1)
  have "last (wal_file_name n) \<noteq> last ''CURRENT.tmp''" for n by (simp add: wal_file_name_def)
  then have wt: "wal_file_name n \<noteq> ''CURRENT.tmp''" for n by metis
  have names: "manifest_file_name 1 \<noteq> ''CURRENT''" "manifest_file_name 1 \<noteq> ''CURRENT.tmp''"
    by (simp_all add: manifest_file_name_def)
  show "env_files e' (path_join p (wal_file_name n)) = env_files e (path_join p (wal_file_name n))"
    using cur wt by (simp add: f5(1) f4(1) f3(1) w(2) e1)
  have "last (table_file_name n) \<noteq> last ''CURRENT.tmp''" by (simp add: table_file_name_def)
  then have "table_file_name n \<noteq> ''CURRENT.tmp''" by metis
  moreover have "table_path p n \<noteq> path_join p ''CURRENT''" "table_path p n \<noteq> ?m"
    using table_not_log(1) [of p n] by (auto simp: log_files_def)
  ultimately show "env_files e' (table_path p n) = env_files e (table_path p n)"
    using cur by (simp add: f5(1) f4(1) f3(1) w(2) e1) (simp add: table_path_def)
  have "env_files e' ?m = Some f5" using cur names by (simp add: f5(1))
  moreover have "current_names p 1 e'" using cur by (auto simp: current_names_def)
  moreover have "list_all edit_ok first_edits" using edit_ok_next edit_ok_other(1,2) by simp
  moreover have "apply_edits first_edits (recovered (max_levels opts) 1) = Inr (recovered (max_levels opts) 1)"
    by (simp add: recovered_def result_simps)
  ultimately show "manifest_holds crc p (max_levels opts) first_edits vs e'"
    using f5(2) unfolding manifest_holds_def by (simp add: vs') (simp add: recovered_def same_state_def)
qed

lemma open_no_tables: "open_version_tables X p (version_new n) (e, tc) = (Inr ([], replicate n []), (e, tc))"
proof -
  have "open_levels X p (replicate n []) (e, tc) = (Inr (replicate n []), (e, tc))"
    by (induction n) (simp_all add: op_then_def op_lift_def)
  then show ?thesis by (simp add: open_version_tables_def version_new_def op_then_def op_lift_def)
qed

lemma open_fresh_run:
  assumes run: "db_open X pick_block pick_table p opts e = (Inr d, e')" and calm: "env_faults e = []"
    and empty: "\<And>name. name \<noteq> [] \<Longrightarrow> \<not> env_exists (path_join p name) e"
  obtains vs e2 where "version_set_create (crc32c X) p opts (e\<lparr>env_dirs := List.insert p (env_dirs e)\<rparr>) = (Inr vs, e2)"
    and "wal_writer_create (path_join p (wal_file_name 1)) e2 = (Inr (path_join p (wal_file_name 1)), e')"
    and "d = \<lparr>db_path = p, db_options = opts, db_mutable = mem_new X (opt_memtable_kind opts), db_immutables = [],
      db_l0_tables = [], db_level_tables = replicate (max_levels opts) [], db_last_sequence = 0, db_closed = False, db_versions = vs,
      db_block_cache = block_cache_new pick_block (block_cache_capacity opts),
      db_table_cache = table_cache_new_with_env pick_table 512, db_watermark = watermark_new, db_metrics = metrics_new,
      db_wal = path_join p (wal_file_name 1), db_env = e'\<rparr>"
proof -
  let ?e1 = "e\<lparr>env_dirs := List.insert p (env_dirs e)\<rparr>" and ?w = "path_join p (wal_file_name 1)" and ?tc = "table_cache_new_with_env pick_table 512"
  have mkdir: "create_dir_all p e = (Inr (), ?e1)" using calm by (simp add: create_dir_all_def faultable_def take_fault_def)
  have no: "\<not> env_exists (path_join p name) ?e1" if "name \<noteq> []" for name
    using empty [OF that] path_join_self [OF that, of p] by (simp add: env_exists_def)
  obtain r e2 where c: "version_set_create (crc32c X) p opts ?e1 = (r, e2)" by fastforce
  have notcur: "\<not> env_exists (path_join p ''CURRENT'') ?e1" by (rule no) simp
  obtain vs where r: "r = Inr vs" using run c notcur by (cases r) (auto simp: db_open_def op_then_def mkdir split: if_splits)
  have calm1: "env_faults ?e1 = []" using calm by simp
  note h = create_holds [OF c [unfolded r] calm1]
  have vs: "vs_current vs = version_new (max_levels opts)" "vs_log_number vs = 1" "vs_last_sequence vs = 0"
    by (simp_all add: h(2) recovered_def)
  have ne: "wal_file_name 1 \<noteq> []" by (simp add: wal_file_name_def)
  have wal: "\<not> env_exists ?w e2"
    using no [OF ne] path_join_self [OF ne, of p] h(4) h(5) [of 1] by (simp add: env_exists_def)
  obtain r3 e3 where w: "wal_writer_create ?w e2 = (r3, e3)" by fastforce
  obtain w' where r3: "r3 = Inr w'"
    using run c notcur wal w by (cases r3) (auto simp: db_open_def op_then_def op_lift_def mkdir r vs open_no_tables split: if_splits)
  have w': "w' = ?w" using w r3 by (auto simp: wal_writer_create_def dest: open_writable_append)
  show ?thesis
  proof (rule that [of vs e2])
    show "wal_writer_create ?w e2 = (Inr ?w, e')" and "d = \<lparr>db_path = p, db_options = opts, db_mutable = mem_new X (opt_memtable_kind opts), db_immutables = [],
      db_l0_tables = [], db_level_tables = replicate (max_levels opts) [], db_last_sequence = 0, db_closed = False, db_versions = vs,
      db_block_cache = block_cache_new pick_block (block_cache_capacity opts),
      db_table_cache = ?tc, db_watermark = watermark_new, db_metrics = metrics_new, db_wal = ?w, db_env = e'\<rparr>"
      using run c notcur wal w r3 w'
      by (auto simp: db_open_def op_then_def op_lift_def mkdir r vs open_no_tables split: if_splits)
  qed (use c r in simp)
qed

text \<open>Without faults it does open, unless the options forbid it.\<close>

lemma calm_create_dir [calm_intros]: "calm (create_dir_all p) (\<lambda>_. True)"
  by (simp add: calm_def create_dir_all_def faultable_def take_fault_def)

lemma calm_set_current [calm_intros]: "calm (set_current_with_env dir name) (\<lambda>_. True)"
  by (auto simp: calm_def set_current_with_env_def Let_def op_then_def open_writable_def faultable_def take_fault_def set_file_def
      options_create_def write_all_def append_bytes_def sync_all_def env_rename_def sync_directory_def split: option.splits)

lemma calm_version_set_create: "calm (version_set_create crc p opts) (\<lambda>_. True)"
  unfolding version_set_create_def manifest_create_with_env_def Let_def
  by (intro calm_then [OF calm_create_dir] calm_then [OF calm_create] calm_then [OF calm_manifest_append] calm_then [OF calm_set_current]
      calm_lift) simp

lemma open_fresh_success:
  assumes calm: "env_faults e = []" and none: "\<forall>name. name \<noteq> [] \<longrightarrow> \<not> env_exists (path_join p name) e"
    and opts: "\<not> error_if_exists opts" "create_if_missing opts"
  shows "\<exists>d e'. db_open X pick_block pick_table p opts e = (Inr d, e')"
proof -
  let ?e1 = "e\<lparr>env_dirs := List.insert p (env_dirs e)\<rparr>" and ?w = "path_join p (wal_file_name 1)"
  have mkdir: "create_dir_all p e = (Inr (), ?e1)" using calm by (simp add: create_dir_all_def faultable_def take_fault_def)
  have no: "\<not> env_exists (path_join p name) ?e1" if "name \<noteq> []" for name
    using none that path_join_self [OF that, of p] by (simp add: env_exists_def)
  have notcur: "\<not> env_exists (path_join p ''CURRENT'') ?e1" by (rule no) simp
  have calm1: "env_faults ?e1 = []" using calm by simp
  obtain vs e2 where c: "version_set_create (crc32c X) p opts ?e1 = (Inr vs, e2)" "env_faults e2 = []"
    by (rule calmE [OF calm_version_set_create calm1])
  note h = create_holds [OF c(1) calm1]
  have vs: "vs_current vs = version_new (max_levels opts)" "vs_log_number vs = 1" "vs_last_sequence vs = 0"
    by (simp_all add: h(2) recovered_def)
  have ne: "wal_file_name 1 \<noteq> []" by (simp add: wal_file_name_def)
  have wal: "\<not> env_exists ?w e2"
    using no [OF ne] path_join_self [OF ne, of p] h(4) h(5) [of 1] by (simp add: env_exists_def)
  obtain w e3 where "wal_writer_create ?w e2 = (Inr w, e3)" by (rule calmE [OF calm_wal_create c(2)])
  with c(1) notcur wal mkdir opts show ?thesis
    by (auto simp: db_open_def op_then_def op_lift_def vs open_no_tables)
qed

text \<open>
  A new database, whose files are the first manifest, \<^verbatim>\<open>CURRENT\<close> and an empty log,
  is durable and empty.
\<close>

lemma open_fresh_durable:
  assumes X: "externals X" and run: "db_open X pick_block pick_table p opts e = (Inr d, e')" and calm: "env_faults e = []"
    and none: "\<forall>name. name \<noteq> [] \<longrightarrow> \<not> env_exists (path_join p name) e"
    and lv: "1 < max_levels opts" "max_levels opts < 2 ^ 32"
  shows "durable X Map.empty d" and "db_entries X Map.empty d = []" and "db_last_sequence d = 0" and "db_path d = p"
    and "db_options d = opts" and "db_watermark d = watermark_new" and "db_env d = e'"
    and "env_files e' (table_path p n) = None" and "next_number d = 2" and "db_l0_tables d = []"
    and "db_mutable d = mem_new X (opt_memtable_kind opts)" and "db_wal d = path_join p (wal_file_name 1)" and "tidy d"
proof -
  have empty: "\<not> env_exists (path_join p name) e" if "name \<noteq> []" for name using none that by blast
  let ?w = "path_join p (wal_file_name 1)"
  obtain vs e2 where c: "version_set_create (crc32c X) p opts (e\<lparr>env_dirs := List.insert p (env_dirs e)\<rparr>) = (Inr vs, e2)"
    and w: "wal_writer_create ?w e2 = (Inr ?w, e')"
    and d: "d = \<lparr>db_path = p, db_options = opts, db_mutable = mem_new X (opt_memtable_kind opts), db_immutables = [],
      db_l0_tables = [], db_level_tables = replicate (max_levels opts) [], db_last_sequence = 0, db_closed = False, db_versions = vs,
      db_block_cache = block_cache_new pick_block (block_cache_capacity opts),
      db_table_cache = table_cache_new_with_env pick_table 512, db_watermark = watermark_new, db_metrics = metrics_new,
      db_wal = ?w, db_env = e'\<rparr>"
    by (rule open_fresh_run [OF run calm empty])
  show "db_last_sequence d = 0" "db_path d = p" "db_options d = opts" "db_watermark d = watermark_new" "db_env d = e'"
    "db_l0_tables d = []" "db_mutable d = mem_new X (opt_memtable_kind opts)" "db_wal d = ?w" by (simp_all add: d)
  note h = create_holds [OF c]
  have none: "env_files e2 (path_join p (wal_file_name n)) = None" for n
    using empty [of "wal_file_name n"] h(5) [of n] calm by (simp add: env_exists_def wal_file_name_def)
  from w have e': "env_files e' = (env_files e2)(?w \<mapsto> empty_file)"
    using none by (auto simp: wal_writer_create_def dest!: open_writable_append)
  have tne: "table_file_name m \<noteq> []" for m by (simp add: table_file_name_def)
  have tab: "env_files e' (table_path p m) = None" for m
  proof -
    have "table_path p m \<noteq> ?w" using table_not_log(1) [of p m] by (auto simp: log_files_def)
    then show ?thesis
      using empty [OF tne] h(6) [of m] calm by (simp add: e') (simp add: env_exists_def table_path_def)
  qed
  then show "env_files e' (table_path p n) = None" .
  have "env_dirs e' = List.insert p (env_dirs e)" using steadyD [OF steady_wal(3) w] h(4) calm by simp
  moreover have "table_path p m \<noteq> p" "\<not> env_exists (table_path p m) e" for m
    using path_join_self [OF tne, of p] empty [OF tne] by (simp_all add: table_path_def)
  ultimately show "tidy d" using tab by (auto simp: tidy_def tabled_def env_exists_def d)
  show "next_number d = 2" using h(2) calm by (simp add: d recovered_def)
  have st: "env_dirs e' = env_dirs e2" "env_faults e' = []" using steadyD [OF steady_wal(3) w] h(3) calm by simp_all
  have layers: "concat (layers X Map.empty d) = []" "layers X Map.empty d = [] # replicate (max_levels opts - 1) []"
    using externals.mem_entries_new [OF X] by (simp_all add: layers_def mem_layers_def l0_layers_def level_layers_def d)
  show es: "db_entries X Map.empty d = []" by (simp add: db_entries_def layers(1))
  have "readable X Map.empty d"
    unfolding readable_def mems_ok_def refs_ok_def caches_ok_def layers_ok_def es layers(2)
    using externals.mem_entries_new [OF X]
    by (auto simp: d all_refs_def list_all_iff level_disjoint_def cache_coherent_def block_cache_new_def table_cache_new_with_env_def
        newest_first_def older_than_def distinct_versions_def sorted_wrt_iff_nth_less simp del: sorted_wrt.simps)
  moreover have "wal_ok d" "manifest_ok d" "numbered Map.empty d"
    using h(2) calm by (auto simp: wal_ok_def manifest_ok_def numbered_def meta_paths_def d)
  ultimately have ok: "db_ok X Map.empty d" by (simp add: db_ok_def)
  have vs: "vs = (recovered (max_levels opts) 1)\<lparr>vs_manifest_writer := Some (path_join p (manifest_file_name 1))\<rparr>" using h(2) calm by simp
  have at: "files_at (version_new (max_levels opts)) l = []" if "l < max_levels opts" for l
    using that by (simp add: files_at_def version_new_def)
  have set: "settled X Map.empty d"
    using ok lv at by (simp add: settled_def tables_match_def distinct_numbers_def d vs recovered_def) (simp add: version_new_def)
  have "logged X first_edits (recovered (max_levels opts) 1) d"
    using h(1) calm unfolding logged_def manifest_holds_def current_names_def
    by (auto simp: d e' vs) (auto simp: recovered_def version_new_def version_files_def result_simps)
  moreover have "\<not> (2 :: u64) \<le> 1" by (simp add: word_le_nat_alt)
  ultimately have "recorded X first_edits d"
    using none unfolding recorded_def
    by (intro exI [of _ "recovered (max_levels opts) 1"]) (auto simp: d e' recovered_def)
  then have "filed X Map.empty first_edits d"
    using set st h(4) calm lv by (simp add: filed_def d vs) (simp add: recovered_def version_new_def)
  moreover have "replays X d []" by (simp add: replays_def replay_def d e' content_of_def vs recovered_def)
  ultimately show "durable X Map.empty d" unfolding durable_def by (intro exI [of _ first_edits] exI [of _ "[]"]) (simp add: d)
qed

end
