(* ===== verification/Api_Durability.thy ===== *)
theory Api_Durability
  imports Reopening
begin

section \<open>The calls of the interface on a durable database\<close>

text \<open>
  \<^verbatim>\<open>write\<close> with the compaction that write pressure starts before it, \<^verbatim>\<open>flush\<close>,
  \<^verbatim>\<open>compact_range\<close> of everything and reopening: what each leaves on disk and what the
  database then reads.
\<close>

subsection \<open>Resources\<close>

text \<open>File numbers are left, and no table has grown past what its offsets can say.\<close>

definition ample :: "path \<Rightarrow> 'm db \<Rightarrow> bool" where
  "ample dir d \<longleftrightarrow> unat (next_number d) + max (max_subcompactions (db_options d)) 2 < 2 ^ 64 \<and>
     (\<forall>n. file_fits (db_env d) (table_path dir n))"

text \<open>The entries are small, few, and no key is empty where a compaction may split its output.\<close>

definition holds_little :: "'m externs \<Rightarrow> ghost \<Rightarrow> 'm db \<Rightarrow> bool" where
  "holds_little X G d \<longleftrightarrow> entries_fit (set (db_entries X G d)) \<and> short_keys X G d \<and>
     (max_subcompactions (db_options d) \<le> 1 \<or> [] \<notin> (user_key \<circ> fst) ` set (db_entries X G d))"

lemma entries_fit_subset: "entries_fit S \<Longrightarrow> T \<subseteq> S \<Longrightarrow> finite S \<Longrightarrow> entries_fit T"
  unfolding entries_fit_def by (metis card_mono le_less_trans mult_le_mono1 subsetD)

lemma holds_little_subset:
  assumes "holds_little X G d" and "set (db_entries X G' d') \<subseteq> set (db_entries X G d)" and "db_options d' = db_options d"
  shows "holds_little X G' d'"
  using assms entries_fit_subset [OF _ assms(2)] unfolding holds_little_def short_keys_def by (auto dest: subsetD)

lemma ample_num: "ample dir d \<Longrightarrow> unat (next_number d) + 2 < 2 ^ 64" "ample dir d \<Longrightarrow> unat (next_number d) + max (max_subcompactions (db_options d)) 1 < 2 ^ 64"
  by (auto simp: ample_def)

lemma durable_metrics [simp]: "durable X G (d\<lparr>db_metrics := m\<rparr>) = durable X G d"
proof -
  have "settled X G (d\<lparr>db_metrics := m\<rparr>) = settled X G d" by (simp add: settled_def tables_match_def)
  then show ?thesis by (simp add: durable_def filed_def recorded_def logged_def replays_def)
qed

lemma durable_mems:
  assumes "durable X G d"
  shows "db_immutables d = []" and "frozen_full X d" and "db_ok X G d" and "\<not> db_closed d" and "readable X G d" and "mems_ok X d"
  using assms by (auto simp: durable_def filed_def settled_def db_ok_def readable_def frozen_full_def)

text \<open>The memtable fits a table, as it is part of the entries.\<close>

lemma durable_mems_fit:
  assumes "durable X G d" and "entries_fit (set (db_entries X G d))"
  shows "mems_fit X d"
proof -
  have s: "sorted_entries (mem_entries X (db_mutable d))" using durable_mems(6) [OF assms(1)] by (simp add: mems_ok_def)
  then have "distinct (mem_entries X (db_mutable d))" by (simp add: strict_sorted_iff distinct_map)
  then have "length (mem_entries X (db_mutable d)) = card (set (mem_entries X (db_mutable d)))" by (simp add: distinct_card)
  moreover have "set (mem_entries X (db_mutable d)) \<subseteq> set (db_entries X G d)" by (auto simp: db_entries_def layers_def mem_layers_def)
  then have "entries_fit (set (mem_entries X (db_mutable d)))" using entries_fit_subset [OF assms(2)] by blast
  ultimately show ?thesis
    using durable_mems(1) [OF assms(1)] by (auto simp: mems_fit_def table_fits_def entries_fit_def list_all_iff)
qed

subsection \<open>Flushes and compactions\<close>

lemma flush_durable:
  assumes X: "externals X" and ok: "durable X G d" and little: "holds_little X G d" and ample: "ample (db_path d) d" "ample (db_path d) d'"
    and run: "db_flush X d = (Inr (), d')"
  shows "\<exists>G'. durable X G' d' \<and> db_entries X G' d' = db_entries X G d \<and> db_last_sequence d' = db_last_sequence d \<and>
    db_path d' = db_path d \<and> db_options d' = db_options d \<and> db_watermark d' = db_watermark d \<and> (tidy d \<longrightarrow> tidy d')"
proof -
  from ok obtain eds bs where f: "filed X G eds d" and imm: "db_immutables d = []" and rep: "replays X d bs" by (auto simp: durable_def)
  from little have fits: "entries_fit (set (db_entries X G d))" and short: "short_keys X G d" by (simp_all add: holds_little_def)
  show ?thesis
    using flush_filed [OF X f durable_mems_fit [OF ok fits] durable_mems(2) [OF ok] short ample_num(1) [OF ample(1)] replays_last [OF rep] run _ disjI1]
      ample(2) imm rep by (simp add: ample_def)
qed

lemma compact_all_durable:
  assumes X: "externals X" and ok: "durable X G d" and little: "holds_little X G d" and ample: "ample (db_path d) d" "ample (db_path d) d'"
    and run: "compact_range X Unbounded Unbounded d = (Inr (), d')"
  shows "\<exists>G'. durable X G' d' \<and> reads_as X (gc_watermark d) G d G' d' \<and> (tidy d \<longrightarrow> tidy d')"
  using compact_range_durable [OF X ok _ _ _ _ ample_num(2) [OF ample(1)] run] little ample(2)
  by (simp add: holds_little_def ample_def file_overlaps_range_def)

subsection \<open>Writes\<close>

text \<open>The state between the compaction that write pressure starts and the write.\<close>

definition pressed :: "'m externs \<Rightarrow> write_batch \<Rightarrow> 'm db \<Rightarrow> 'm db" where
  "pressed X batch d = snd (apply_write_pressure X (d\<lparr>db_metrics := record_user_write (batch_user_write_bytes batch) (db_metrics d)\<rparr>))"

lemma db_write_success:
  assumes "db_write X batch opts d = (Inr (), d')" and "records batch \<noteq> []"
  shows "apply_write_pressure X (d\<lparr>db_metrics := record_user_write (batch_user_write_bytes batch) (db_metrics d)\<rparr>) = (Inr (), pressed X batch d)"
    and "write_and_flush X (group_items [(batch, opts)]) (pressed X batch d) = (Inr (), d')"
proof -
  let ?d = "d\<lparr>db_metrics := record_user_write (batch_user_write_bytes batch) (db_metrics d)\<rparr>"
  obtain r1 d1 where p: "apply_write_pressure X ?d = (r1, d1)" by fastforce
  obtain r2 d2 where w: "write_and_flush X (group_items [(batch, opts)]) d1 = (r2, d2)" by fastforce
  have items: "sum_list (map gw_user_write_bytes (group_items [(batch, opts)])) = batch_user_write_bytes batch" by (simp add: group_items_def)
  from assms have run: "(case op_then (apply_write_pressure X) (\<lambda>_. write_and_flush X (group_items [(batch, opts)])) ?d of
      (Inl err, d) \<Rightarrow> (hd (repeat_group_error X err 1), d) | (Inr _, d) \<Rightarrow> (Inr (), d)) = (Inr (), d')"
    unfolding db_write_def apply_write_group_def Let_def items
    by (auto simp: write_batch_is_empty_def op_then_def metric_def split: prod.splits sum.splits)
  have r1: "r1 = Inr ()"
    using run p repeat_group_error_one(1) by (cases r1) (auto simp: op_then_def)
  then have "r2 = Inr () \<and> d2 = d'"
    using run p w repeat_group_error_one(1) by (cases r2) (auto simp: op_then_Inr)
  with p w r1 show "apply_write_pressure X ?d = (Inr (), pressed X batch d)"
    "write_and_flush X (group_items [(batch, opts)]) (pressed X batch d) = (Inr (), d')" by (simp_all add: pressed_def)
qed

text \<open>The database as a map, and a batch as a change of it.\<close>

definition view :: "'m externs \<Rightarrow> ghost \<Rightarrow> 'm db \<Rightarrow> bytes \<Rightarrow> bytes option" where
  "view X G d k = visible_value (lookup_at (db_entries X G d) k (db_last_sequence d))"

definition write_view :: "batch_record list \<Rightarrow> (bytes \<Rightarrow> bytes option) \<Rightarrow> bytes \<Rightarrow> bytes option" where
  "write_view rs m k = (case latest_record k rs of Some v \<Rightarrow> into_visible_value v | None \<Rightarrow> m k)"

definition takes :: "'m externs \<Rightarrow> ghost \<Rightarrow> 'm db \<Rightarrow> write_batch \<Rightarrow> bool" where
  "takes X G d batch \<longleftrightarrow> (\<forall>e\<in>set (batch_entries (db_last_sequence d + 1) (records batch)). entry_ok e \<and> user_key (fst e) \<noteq> []) \<and>
     (card (set (db_entries X G d)) + length (records batch)) * DEFAULT_BITS_PER_KEY < 2 ^ 32 \<and> short_batch (records batch) \<and>
     unat (db_last_sequence d) + length (records batch) < 2 ^ 64 \<and> loggable (db_last_sequence d + 1, batch)"

lemma length_batch_entries [simp]: "length (batch_entries s rs) = length rs"
  by (induction rs arbitrary: s) simp_all

lemma takes_room:
  assumes "durable X G d" and "holds_little X G d" and "takes X G d batch"
  shows "room X (records batch) d"
proof -
  let ?m = "mem_entries X (db_mutable d)" and ?new = "batch_entries (db_last_sequence d + 1) (records batch)"
  have "sorted_entries ?m" using durable_mems(6) [OF assms(1)] by (simp add: mems_ok_def)
  then have "distinct ?m" by (simp add: strict_sorted_iff distinct_map)
  then have "length ?m = card (set ?m)" by (simp add: distinct_card)
  also have "\<dots> \<le> card (set (db_entries X G d))" by (rule card_mono) (auto simp: db_entries_def layers_def mem_layers_def)
  finally have "(length ?m + length (records batch)) * DEFAULT_BITS_PER_KEY \<le> (card (set (db_entries X G d)) + length (records batch)) * DEFAULT_BITS_PER_KEY"
    by simp
  then have "(length ?m + length (records batch)) * DEFAULT_BITS_PER_KEY < 2 ^ 32" using assms(3) unfolding takes_def by linarith
  moreover have "\<forall>e\<in>set ?m \<union> set ?new. entry_ok e"
    using assms(2,3) by (auto simp: holds_little_def entries_fit_def takes_def db_entries_def layers_def mem_layers_def)
  ultimately show ?thesis
    using assms(3) durable_mems(1) [OF assms(1)] by (simp add: room_def table_fits_def list_all_iff takes_def)
qed

lemma written_view:
  assumes "db_ok X G d" and "db_ok X G' d'" and "unat (db_last_sequence d) + length rs < 2 ^ 64" and "written X G rs d G' d'"
  shows "view X G' d' = write_view rs (view X G d)"
proof
  fix k
  show "view X G' d' k = write_view rs (view X G d) k"
    using written_reads(1) [OF assms, of k] by (simp add: view_def write_view_def visible_value_def split: option.splits)
qed

lemma reads_as_view: "reads_as X w G d G' d' \<Longrightarrow> w \<le> db_last_sequence d \<Longrightarrow> view X G' d' = view X G d"
  by (auto simp: reads_as_def view_def fun_eq_iff)

lemma write_durable:
  assumes X: "externals X" and ok: "durable X G d" and little: "holds_little X G d" and takes: "takes X G d batch"
    and ne: "records batch \<noteq> []" and log: "wal_enabled (db_options d)" "\<not> wo_disable_wal opts"
    and gc: "gc_watermark d \<le> db_last_sequence d"
    and ample: "ample (db_path d) d" "ample (db_path d) (pressed X batch d)" "ample (db_path d) d'"
    and run: "db_write X batch opts d = (Inr (), d')"
  shows "\<exists>G'. durable X G' d' \<and> view X G' d' = write_view (records batch) (view X G d) \<and>
    set (db_entries X G' d') \<subseteq> set (db_entries X G d) \<union> set (batch_entries (db_last_sequence d + 1) (records batch)) \<and>
    db_last_sequence d' = db_last_sequence d + word_of_nat (length (records batch)) \<and>
    db_path d' = db_path d \<and> db_options d' = db_options d \<and> db_watermark d' = db_watermark d \<and> (tidy d \<longrightarrow> tidy d')"
proof -
  let ?d = "d\<lparr>db_metrics := record_user_write (batch_user_write_bytes batch) (db_metrics d)\<rparr>" and ?d1 = "pressed X batch d"
  note s = db_write_success [OF run ne]
  have tidy: "tidy ?d = tidy d" by (rule tidy_same) simp_all
  have "\<exists>G1. durable X G1 ?d1 \<and> reads_as X (gc_watermark d) G d G1 ?d1 \<and> (tidy d \<longrightarrow> tidy ?d1)"
  proof (cases "length (db_l0_tables d) \<ge> level0_stop_writes_trigger (db_options d)")
    case True
    then have c: "compact_range X Unbounded Unbounded ?d = (Inr (), ?d1)" using s(1) by (simp add: apply_write_pressure_def)
    have "holds_little X G ?d" "ample (db_path ?d) ?d" "ample (db_path ?d) ?d1" "durable X G ?d" "gc_watermark ?d = gc_watermark d"
      using little ample ok by (simp_all add: holds_little_def short_keys_def ample_def gc_watermark_def split: option.split)
    from compact_all_durable [OF X this(4,1-3) c] this(5) tidy show ?thesis by (simp add: reads_as_def)
  next
    case False
    then have "?d1 = ?d" using s(1) by (simp add: apply_write_pressure_def)
    with ok durable_mems(3) [OF ok] tidy show ?thesis by (intro exI [of _ G]) (simp add: reads_as_def)
  qed
  then obtain G1 where G1: "durable X G1 ?d1" and ra: "reads_as X (gc_watermark d) G d G1 ?d1" and tidy1: "tidy d \<longrightarrow> tidy ?d1" by blast
  from ra have sub: "set (db_entries X G1 ?d1) \<subseteq> set (db_entries X G d)" and sel: "db_last_sequence ?d1 = db_last_sequence d"
    "db_path ?d1 = db_path d" "db_options ?d1 = db_options d" "db_watermark ?d1 = db_watermark d" by (simp_all add: reads_as_def)
  have little1: "holds_little X G1 ?d1" by (rule holds_little_subset [OF little sub sel(3)])
  have "card (set (db_entries X G1 ?d1)) \<le> card (set (db_entries X G d))" using sub by (rule card_mono [rotated]) simp
  then have takes1: "takes X G1 ?d1 batch"
    using takes unfolding takes_def sel by (meson add_le_mono1 le_less_trans mult_le_mono1)
  have short: "short_keys X G1 ?d1" "short_batch (records batch)" using little1 takes by (simp_all add: holds_little_def takes_def)
  have "wal_enabled (db_options ?d1)" "loggable (db_last_sequence ?d1 + 1, batch)" "file_fits (db_env d') (table_path (db_path ?d1) (next_number ?d1))"
    using log takes ample(3) by (simp_all add: sel takes_def ample_def)
  from write_and_flush_durable [OF X G1 takes_room [OF G1 little1 takes1] short this(1) log(2) this(2) ample_num(1) [OF ample(2)] s(2) this(3)]
  obtain G' where G': "durable X G' d'" "written X G1 (records batch) ?d1 G' d'" "db_path d' = db_path ?d1" "db_options d' = db_options ?d1"
    "db_watermark d' = db_watermark ?d1" "tidy ?d1 \<longrightarrow> tidy d'" by blast
  have "view X G' d' = write_view (records batch) (view X G1 ?d1)"
    by (rule written_view [OF durable_mems(3) [OF G1] durable_mems(3) [OF G'(1)] _ G'(2)]) (use takes in \<open>simp add: sel takes_def\<close>)
  with G' sub reads_as_view [OF ra gc] tidy1 show ?thesis by (intro exI [of _ G']) (auto simp: sel written_def)
qed

subsection \<open>Reads\<close>

lemma durable_reads:
  assumes ok: "durable X G d" and r: "reads_to d d'" and c: "caches_ok X G d'"
  shows "durable X G d'" and "view X G d' = view X G d" and "db_entries X G d' = db_entries X G d"
proof -
  from ok obtain eds bs where f: "filed X G eds d" and imm: "db_immutables d = []" and rep: "replays X d bs" by (auto simp: durable_def)
  note sel = reads_to_sel [OF r]
  have e: "db_env d' = db_env d" using r f by (simp add: reads_to_def filed_def)
  have "settled X G d'"
    using f db_ok_reads_to [OF _ r c] sel by (simp add: filed_def settled_def tables_match_def)
  then have "filed X G eds d'" using f r by (simp add: filed_def recorded_def logged_def e reads_to_def)
  moreover have "replays X d' bs" "db_immutables d' = []" using rep imm r by (simp_all add: replays_def e reads_to_def)
  ultimately show "durable X G d'" by (auto simp: durable_def)
  show es: "db_entries X G d' = db_entries X G d" by (simp add: db_entries_def reads_to_ok(3) [OF r])
  then show "view X G d' = view X G d" using r by (simp add: view_def fun_eq_iff reads_to_def)
qed

lemma distinct_layers:
  "newest_first ls \<Longrightarrow> \<forall>l\<in>set ls. distinct l \<Longrightarrow> distinct (concat ls)"
proof (induction ls)
  case (Cons l ls)
  have "older_than m l" if "m \<in> set ls" for m using Cons.prems(1) that by (simp add: newest_first_def)
  then have "set l \<inter> set m = {}" if "m \<in> set ls" for m using that by (fastforce simp: older_than_def)
  with Cons show ?case by (auto simp: newest_first_def)
qed simp

lemma settled_distinct:
  assumes "settled X G d"
  shows "distinct (db_entries X G d)"
  unfolding db_entries_def settled_layers [OF assms]
proof (rule distinct_layers [OF settled_sound(3) [OF assms]], intro ballI)
  let ?v = "current d"
  note s = settled_sound [OF assms]
  have sorted: "sorted_entries (file_ents G f)" if "l < length (levels ?v)" "f \<in> set (files_at ?v l)" for f l
    using s(1) that by (simp add: version_sound_def)
  fix l assume "l \<in> set (mem_layers X d @ version_layers G ?v)"
  then consider "l \<in> set (mem_layers X d)" | f where "f \<in> set (l0_files ?v)" "l = file_ents G f"
    | fs where "fs \<in> set (drop 1 (levels ?v))" "l = level_ents G fs"
    by (auto simp: version_layers_def simp del: One_nat_def)
  then show "distinct l"
  proof cases
    case 1
    then have "sorted_entries l" using assms by (auto simp: settled_def db_ok_def readable_def mems_ok_def mem_layers_def)
    then show ?thesis by (simp add: strict_sorted_iff distinct_map)
  next
    case 2
    have "0 < length (levels ?v)" using assms unfolding settled_def by linarith
    from sorted [OF this, of f] 2 have "sorted_entries l" by (simp add: files_at_def)
    then show ?thesis by (simp add: strict_sorted_iff distinct_map)
  next
    case 3
    then obtain j where j: "j < length (drop 1 (levels ?v))" "fs = drop 1 (levels ?v) ! j" unfolding in_set_conv_nth by blast
    have i: "Suc j < length (levels ?v)" and fs: "files_at ?v (Suc j) = fs" using j by (simp_all add: files_at_def)
    have "distinct fs" using s(1) i j(2) level_disjoint_distinct by (simp add: version_sound_def)
    then have "distinct (map fst (level_ents G fs))"
      using sorted [OF i] files_disjoint [OF s(4,1) _ _ i i] unfolding fs by (intro distinct_level_ents) blast+
    with 3 show ?thesis by (simp add: distinct_map)
  qed
qed

subsection \<open>Properties\<close>


text \<open>A batch of one small record.\<close>

definition small_record :: "batch_record \<Rightarrow> bool" where
  "small_record r \<longleftrightarrow> (case r of BatchPut k v \<Rightarrow> k \<noteq> [] \<and> length k \<le> 100 \<and> length v \<le> 100 | BatchDelete k \<Rightarrow> k \<noteq> [] \<and> length k \<le> 100)"

lemma small_record_loggable:
  assumes "small_record r"
  shows "loggable (s, \<lparr>records = [r]\<rparr>)"
proof -
  let ?h = "put_var_u64 (put_var_u32 [] 1) s"
  have h: "length ?h \<le> 20" using length_put_var(1) [of "put_var_u32 [] 1" s] length_put_var(2) [of "[]" 1] by simp
  have "length (encode_batch_record ?h r) \<le> 300"
  proof (cases r)
    case (BatchPut k v)
    with assms h length_put_var(2) [of "put_var_u32 (?h @ [1]) (len_u32 k) @ k" "len_u32 v"] length_put_var(2) [of "?h @ [1]" "len_u32 k"]
    show ?thesis by (simp add: small_record_def)
  next
    case (BatchDelete k)
    with assms h length_put_var(2) [of "put_var_u32 (?h @ [2]) (len_u32 k) @ k" 0] length_put_var(2) [of "?h @ [2]" "len_u32 k"]
    show ?thesis by (simp add: small_record_def)
  qed
  then show ?thesis
    using assms by (cases r) (simp_all add: loggable_def batch_payload_def encode_with_sequence_def batch_encodable_def small_record_def)
qed

lemma small_record_entry:
  assumes "small_record r" and "e \<in> set (batch_entries s [r])"
  shows "entry_ok e" and "user_key (fst e) \<noteq> []" and "short_key (fst e)"
  using assms by (cases r; auto simp: small_record_def entry_ok_def short_key_def)+

text \<open>A write that the memtable takes without being frozen.\<close>

lemma write_in_memtable:
  assumes run: "db_write X batch opts d = (r, d')" and ne: "records batch \<noteq> []"
    and sel: "\<not> db_closed d" "length (db_l0_tables d) < level0_stop_writes_trigger (db_options d)"
    and small: "\<forall>d1. db_mutable d1 = db_mutable d \<longrightarrow> db_options d1 = db_options d \<longrightarrow>
      \<not> fst (apply_items X (assign_sequences (db_last_sequence d + 1) (group_items [(batch, opts)])) False d1)"
  shows "db_versions d' = db_versions d" and "db_options d' = db_options d"
    and "q \<noteq> db_wal d \<Longrightarrow> env_files (db_env d') q = env_files (db_env d) q"
    and "env_faults (db_env d) = [] \<Longrightarrow> r = Inr ()"
proof -
  let ?items = "assign_sequences (db_last_sequence d + 1) (group_items [(batch, opts)])"
  from run ne sel(2) obtain m r' where w: "write_and_flush X (group_items [(batch, opts)]) (d\<lparr>db_metrics := m\<rparr>) = (r', d')"
    and r': "r' = Inr () \<longleftrightarrow> r = Inr ()" by (rule db_write_steps)
  let ?d = "d\<lparr>db_metrics := m\<rparr>"
  obtain r1 d1 where g: "apply_write_group_to_memtable X (group_items [(batch, opts)]) ?d = (r1, d1)" by fastforce
  have opened: "\<not> db_closed ?d" using sel(1) by simp
  have "d' = d1 \<and> (\<exists>d2. keeps {db_wal ?d} ?d d2 \<and> db_versions d2 = db_versions ?d \<and> db_env d1 = db_env d2 \<and> db_versions d1 = db_versions d2 \<and>
      db_options d1 = db_options d2) \<and> (env_faults (db_env d) = [] \<longrightarrow> r' = Inr ())"
    using g opened
  proof (cases rule: write_group_split)
    case (fail e)
    have "env_faults (db_env d) \<noteq> []"
    proof
      assume "env_faults (db_env d) = []"
      then have "env_faults (db_env ?d) = []" by simp
      from log_group_faultless [OF this] fail(1) show False by (metis Inl_Inr_False prod.inject)
    qed
    with log_group_ok [OF fail(1)] g fail(2) w show ?thesis by (auto simp: op_then_Inl)
  next
    case (ok b d2)
    from log_group_ok [OF ok(1)] have k: "keeps {db_wal ?d} ?d d2" "db_versions d2 = db_versions ?d" by simp_all
    have "\<not> b" using small [rule_format, of d2] ok(2) keeps_sel(2,3,7) [OF k(1)] by simp
    then have "d' = d1" "r' = Inr ()" using w g ok(3) by (simp_all add: op_then_Inr op_lift_def)
    with k same_store_sel(2,6,11) [OF apply_items_store [OF ok(2)]] show ?thesis by auto
  qed
  then obtain d2 where d2: "d' = d1" "keeps {db_wal ?d} ?d d2" "db_versions d2 = db_versions ?d" "db_env d1 = db_env d2" "db_versions d1 = db_versions d2"
    "db_options d1 = db_options d2" and "env_faults (db_env d) = [] \<longrightarrow> r' = Inr ()" by blast
  then show "db_versions d' = db_versions d" "db_options d' = db_options d" "env_faults (db_env d) = [] \<Longrightarrow> r = Inr ()"
    using r' keeps_sel(2) [OF d2(2)] by simp_all
  show "env_files (db_env d') q = env_files (db_env d) q" if "q \<noteq> db_wal d"
    using keeps_sel(12) [OF d2(2), of q] that d2(1,4) by simp
qed

text \<open>A database that was just opened on an empty log.\<close>

definition demo_kept :: "entry list db" where
  "demo_kept = demo_fresh\<lparr>db_wal := path_join ''d'' (wal_file_name 1),
     db_env := set_file (path_join ''d'' (wal_file_name 1)) (Some empty_file) demo_manifest_env\<rparr>"

lemma demo_kept_sel:
  "db_path demo_kept = ''d''" "db_options demo_kept = default_options" "db_mutable demo_kept = mem_new demo_externs KindBTree"
  "db_immutables demo_kept = []" "db_l0_tables demo_kept = []" "db_level_tables demo_kept = replicate 7 []"
  "db_last_sequence demo_kept = 0" "\<not> db_closed demo_kept" "db_versions demo_kept = demo_version_set"
  "db_wal demo_kept = path_join ''d'' (wal_file_name 1)" "db_watermark demo_kept = watermark_new" "env_faults (db_env demo_kept) = []"
  by (simp_all add: demo_kept_def demo_fresh_sel demo_fresh_def demo_db_def demo_manifest_env_def set_file_def numeral_eq_Suc)

lemma demo_kept_durable: "durable demo_externs Map.empty demo_kept" "db_entries demo_externs Map.empty demo_kept = []"
proof -
  let ?w = "path_join ''d'' (wal_file_name 1)"
  note new = externals.mem_entries_new [OF demo_ok(1)]
  have layers: "layers demo_externs Map.empty demo_kept = [] # replicate 6 []"
    using new by (simp add: layers_def mem_layers_def l0_layers_def level_layers_def demo_kept_sel)
  show es: "db_entries demo_externs Map.empty demo_kept = []" by (simp add: db_entries_def layers)
  have cache: "caches_ok demo_externs Map.empty demo_kept"
    by (simp add: caches_ok_def demo_kept_def demo_fresh_def demo_db_def cache_coherent_def block_cache_new_def table_cache_new_with_env_def)
  have "layers_ok demo_externs Map.empty demo_kept"
    unfolding layers_ok_def es layers
    by (auto simp: newest_first_def older_than_def distinct_versions_def sorted_wrt_iff_nth_less simp del: sorted_wrt.simps)
  moreover have "mems_ok demo_externs demo_kept" "refs_ok demo_externs Map.empty demo_kept"
    using new by (auto simp: mems_ok_def refs_ok_def all_refs_def demo_kept_sel level_disjoint_def list_all_iff)
  ultimately have "readable demo_externs Map.empty demo_kept" using cache by (simp add: readable_def)
  moreover have "wal_ok demo_kept" "manifest_ok demo_kept" "numbered Map.empty demo_kept"
    by (auto simp: wal_ok_def manifest_ok_def numbered_def demo_kept_sel demo_version_set_def meta_paths_def)
  ultimately have ok: "db_ok demo_externs Map.empty demo_kept" by (simp add: db_ok_def)
  have cur: "vs_current demo_version_set = version_new 7" by (simp add: demo_version_set_def recovered_def)
  have at: "files_at (version_new 7) l = []" if "l < 7" for l using that by (simp add: files_at_def version_new_def)
  have set: "settled demo_externs Map.empty demo_kept"
    using ok at by (simp add: settled_def tables_match_def distinct_numbers_def cur demo_kept_sel) (simp add: version_new_def)
  have env: "env_files (db_env demo_kept) = (env_files demo_manifest_env)(?w \<mapsto> empty_file)" "env_dirs (db_env demo_kept) = [''d'']"
    by (simp_all add: demo_kept_def demo_manifest_env_def set_file_def)
  have man: "manifest_holds (crc32c demo_externs) ''d'' 7 [] demo_version_set (db_env demo_kept)"
    using demo_manifest_holds [of "crc32c demo_externs"] by (auto simp: manifest_holds_def current_names_def env)
  have "logged demo_externs [] (recovered 7 1) demo_kept"
    using man by (simp add: logged_def demo_kept_sel default_options_def demo_version_set_def) (simp add: recovered_def version_new_def version_files_def)
  moreover have "env_files demo_manifest_env (path_join ''d'' (wal_file_name n)) = None" for n
    by (simp add: demo_manifest_env_def)
  moreover have "\<not> (2 :: u64) \<le> 1" by (simp add: word_le_nat_alt)
  ultimately have "recorded demo_externs [] demo_kept"
    unfolding recorded_def by (intro exI [of _ "recovered 7 1"]) (auto simp: env demo_kept_sel recovered_def)
  then have "filed demo_externs Map.empty [] demo_kept"
    using set by (simp add: filed_def demo_kept_sel env cur) (simp add: demo_version_set_def recovered_def version_new_def)
  moreover have "replays demo_externs demo_kept []"
    by (simp add: replays_def replay_def demo_kept_sel env content_of_def demo_version_set_def recovered_def default_options_def)
  ultimately show "durable demo_externs Map.empty demo_kept" by (auto simp: durable_def demo_kept_sel)
qed

lemma demo_kept_write:
  obtains d' where "db_write demo_externs \<lparr>records = [BatchPut [1] [7]]\<rparr> default_write_options demo_kept = (Inr (), d')"
    and "ample ''d'' demo_kept" and "ample ''d'' (pressed demo_externs \<lparr>records = [BatchPut [1] [7]]\<rparr> demo_kept)" and "ample ''d'' d'"
proof -
  let ?b = "\<lparr>records = [BatchPut [1] [7]]\<rparr>"
  obtain r d' where run: "db_write demo_externs ?b default_write_options demo_kept = (r, d')" by fastforce
  have l0: "length (db_l0_tables demo_kept) < level0_stop_writes_trigger (db_options demo_kept)"
    by (simp add: demo_kept_sel default_options_def)
  have "\<forall>d1. db_mutable d1 = db_mutable demo_kept \<longrightarrow> db_options d1 = db_options demo_kept \<longrightarrow>
    \<not> fst (apply_items demo_externs (assign_sequences (db_last_sequence demo_kept + 1) (group_items [(?b, default_write_options)])) False d1)"
    by (auto simp: demo_kept_sel group_items_def freeze_mutable_if_needed_def db_apply_batch_def mem_new_def bt_defs
        size_of_internal_key_def default_options_def)
  note m = write_in_memtable [OF run _ demo_kept_sel(8) l0 this]
  have t: "table_path ''d'' n \<noteq> db_wal demo_kept" for n using table_not_log(1) [of "''d''" n] by (auto simp: log_files_def demo_kept_sel)
  have none: "env_files (db_env demo_kept) (table_path ''d'' n) = None" for n
  proof -
    have "last (table_file_name n) \<noteq> last ''CURRENT''" by (simp add: table_file_name_def)
    then have "table_file_name n \<noteq> ''CURRENT''" by metis
    with t [of n] show ?thesis by (simp add: demo_kept_sel demo_kept_def set_file_def demo_manifest_env_def table_path_def)
  qed
  have "vs_next_file_number demo_version_set = 2" by (simp add: demo_version_set_def recovered_def)
  then have kept: "ample ''d'' demo_kept" using none by (simp add: ample_def file_fits_def content_of_def demo_kept_sel default_options_def)
  then have "ample ''d'' (pressed demo_externs ?b demo_kept)"
    by (simp add: pressed_def apply_write_pressure_def ample_def demo_kept_sel default_options_def)
  moreover have "ample ''d'' d'"
    using kept m(1,2) m(3) t by (simp add: ample_def file_fits_def content_of_def)
  ultimately show ?thesis using that run m(4) kept by (simp add: demo_kept_sel)
qed


end
