(* ===== verification/Call_Progress.thy ===== *)
theory Call_Progress
  imports Api_Durability
begin

section \<open>The calls of the interface make progress\<close>

text \<open>
  On a durable and tidy database the calls of the interface succeed when no call of the
  environment fails: \<^verbatim>\<open>flush\<close>, \<^verbatim>\<open>compact_range\<close> and \<^verbatim>\<open>write\<close>, with the
  flush and the compaction a write may start.  A flush refuses to overwrite a table, so it
  matters that a database which has only seen calls that succeeded leaves no table behind that
  its version does not list.
\<close>

lemma tidy_next_free:
  assumes "settled X G d" and "tidy d"
  shows "\<not> env_exists (table_path (db_path d) (next_number d)) (db_env d)"
proof
  assume "env_exists (table_path (db_path d) (next_number d)) (db_env d)"
  then have "next_number d \<in> tabled d" by (simp add: tabled_def)
  then have "next_number d \<in> fm_number ` version_files (current d)" using assms(2) unfolding tidy_def by (rule subsetD [OF conjunct1, rotated])
  then obtain f where f: "next_number d = fm_number f" "f \<in> version_files (current d)" by (rule imageE)
  have z: "levels (current d) ! 0 = []" by (rule settled_sound(2) [OF assms(1)])
  have len: "0 < length (levels (current d))" using assms(1) unfolding settled_def by linarith
  have "\<exists>l<length (levels (current d)). f \<in> set (files_at (current d) l)"
    using f(2) unfolding version_files_nth
  proof (elim disjE exE conjE)
    assume "f \<in> set (l0_files (current d))"
    with len show ?thesis by (intro exI [of _ 0]) (simp add: files_at_def)
  next
    fix i assume i: "i < length (levels (current d))" "f \<in> set (levels (current d) ! i)"
    then have "i \<noteq> 0" using z by (intro notI) simp
    with i show ?thesis by (intro exI [of _ i]) (simp add: files_at_def)
  qed
  then obtain l where l: "l < length (levels (current d))" "f \<in> set (files_at (current d) l)" by blast
  have "G (fm_number f) \<noteq> None" by (rule file_ok_known [OF settled_file_ok [OF assms(1) l]])
  moreover have "numbered G d" using assms(1) by (simp add: settled_def db_ok_def)
  ultimately have "fm_number f < next_number d" unfolding numbered_def by blast
  with f(1) show False by simp
qed

subsection \<open>Flushes\<close>

lemma flush_taken_progress:
  assumes X: "externals X" and ok: "db_ok X G d" and opened: "\<not> db_closed d" and h: "healthy X d"
    and take: "take_oldest_flushable_memtable X d = (Some (mem, source), d1)" "d1 = with_mems a b d"
    and es: "table_fits (mem_entries X mem)" "sorted_entries (mem_entries X mem)" "mem_entries X mem \<noteq> []"
    and new: "\<not> env_exists (table_path (db_path d) (next_number d)) (db_env d)"
    and run: "db_flush X d = (r, d')" and fit: "file_fits (db_env d') (table_path (db_path d) (next_number d))"
  shows "r = Inr ()"
proof -
  let ?n = "next_number d" and ?p = "table_path (db_path d) (next_number d)"
  define d2 where "d2 = d1\<lparr>db_versions := (db_versions d)\<lparr>vs_next_file_number := ?n + 1\<rparr>\<rparr>"
  have 1: "db_allocate_file_number d1 = (Inr ?n, d2)"
    by (simp add: db_allocate_file_number_def allocate_file_number_def d2_def take(2))
  have sel: "db_path d2 = db_path d" "db_options d2 = db_options d" "db_env d2 = db_env d" "vs_manifest_writer (db_versions d2) = vs_manifest_writer (db_versions d)"
    by (simp_all add: d2_def take(2))
  have calm: "env_faults (db_env d2) = []" "packs X (table_compression (db_options d2))" using h by (simp_all add: healthy_def sel)
  have n: "G ?n = None" using ok unfolding db_ok_def numbered_def by (metis less_irrefl)
  have caches: "caches_ok X G d2" using db_ok_with_mems(2) [OF ok take(2)] by (simp add: d2_def caches_ok_def)
  obtain r3 d3 where 3: "write_l0_table X mem ?n d2 = (r3, d3)" by fastforce
  have w: "write_table X ?n (db_path d2) (block_size (db_options d2)) (table_compression (db_options d2)) (mem_entries X mem) record_sst_write d2 = (r3, d3)"
    using 3 new by (simp add: write_l0_table_def Let_def table_path_def sel)
  have v3: "manifest_ok d3" "db_path d3 = db_path d"
    using ok write_l0_versions [OF 3] by (simp_all add: db_ok_def manifest_ok_def sel)
  note run' = run [unfolded db_flush_take [OF opened take(1)], unfolded op_then_Inr [of db_allocate_file_number d1 ?n d2, OF 1]]
  have same: "env_files (db_env d') ?p = env_files (db_env d3) ?p"
    using run' 3 publish_files [OF _ v3(1)] by (auto simp: env_restore v3(2) split: sum.splits prod.splits)
  with fit have "file_fits (db_env d3) (table_path (db_path d2) ?n)" by (simp add: file_fits_def content_of_def sel)
  from write_table_calm [OF X caches n es calm(2,1) w this] obtain rd meta where r3: "r3 = Inr (rd, meta)" "env_faults (db_env d3) = []" by metis
  obtain d4 where "publish_l0_table X meta (db_last_sequence d3) d3 = (Inr (), d4)" by (rule publish_calm [OF r3(2)])
  with run' 3 r3(1) show ?thesis by simp
qed

lemma flush_progress:
  assumes X: "externals X" and set: "settled X G d" and tidy: "tidy d" and opened: "\<not> db_closed d" and h: "healthy X d"
    and fits: "mems_fit X d" "frozen_full X d" and run: "db_flush X d = (r, d')"
    and fit: "file_fits (db_env d') (table_path (db_path d) (next_number d))"
  shows "r = Inr ()"
proof -
  have ok: "db_ok X G d" using set by (simp add: settled_def)
  then have mems: "sorted_entries (mem_entries X (db_mutable d))" "\<forall>m\<in>set (db_immutables d). sorted_entries (mem_entries X m)"
    by (auto simp: db_ok_def readable_def mems_ok_def)
  note step = flush_taken_progress [OF X ok opened h _ _ _ _ _ tidy_next_free [OF set tidy] run fit]
  obtain t d1 where take: "take_oldest_flushable_memtable X d = (t, d1)" by fastforce
  from X take show ?thesis
  proof (cases rule: take_oldest_cases)
    case none
    with opened take run show ?thesis by (simp add: db_flush_def)
  next
    case (oldest m ms)
    with fits mems(2) have "table_fits (mem_entries X m)" "sorted_entries (mem_entries X m)" "mem_entries X m \<noteq> []"
      by (simp_all add: mems_fit_def frozen_full_def)
    from step [OF take [unfolded oldest(2)] oldest(3) this] show ?thesis .
  next
    case (mutable m)
    have "table_fits (mem_entries X (db_mutable d))" using fits by (simp add: mems_fit_def)
    from step [OF take [unfolded mutable(3)] mutable(4) this mems(1) mutable(2)] show ?thesis .
  qed
qed

text \<open>A durable database that tidiness and the lack of faults let go on.\<close>

definition lively :: "'m externs \<Rightarrow> ghost \<Rightarrow> 'm db \<Rightarrow> bool" where
  "lively X G d \<longleftrightarrow> durable X G d \<and> tidy d \<and> packs X (table_compression (db_options d))"

lemma lively_sel:
  assumes "lively X G d"
  shows "durable X G d" and "tidy d" and "healthy X d" and "settled X G d"
  using assms by (auto simp: lively_def durable_def filed_def healthy_def)

lemma lively_metrics [simp]: "lively X G (d\<lparr>db_metrics := m\<rparr>) = lively X G d"
proof -
  have "tidy (d\<lparr>db_metrics := m\<rparr>) = tidy d" by (rule tidy_same) simp_all
  then show ?thesis by (simp add: lively_def)
qed

lemma lively_reads:
  assumes "lively X G d" and "reads_to d d'" and "caches_ok X G d'"
  shows "lively X G d'"
proof -
  have "env_faults (db_env d) = []" using lively_sel(3) [OF assms(1)] by (simp add: healthy_def)
  then have "db_env d' = db_env d" using assms(2) by (simp add: reads_to_def)
  then have "tidy d'" using tidy_same [of d' d] lively_sel(2) [OF assms(1)] reads_to_sel(1,9) [OF assms(2)] by simp
  then show ?thesis using assms durable_reads(1) [OF _ assms(2,3)] reads_to_sel(2) [OF assms(2)] by (simp add: lively_def)
qed

lemma flush_returns:
  assumes X: "externals X" and ok: "lively X G d" and little: "holds_little X G d" and ample: "ample (db_path d) d'"
    and run: "db_flush X d = (r, d')"
  shows "r = Inr ()"
proof -
  note l = lively_sel [OF ok]
  have "mems_fit X d" using little by (intro durable_mems_fit [OF l(1)]) (simp add: holds_little_def)
  with flush_progress [OF X l(4,2) durable_mems(4) [OF l(1)] l(3) _ durable_mems(2) [OF l(1)] run] ample show ?thesis
    by (simp add: ample_def)
qed

subsection \<open>Compactions and writes\<close>

lemma compact_returns:
  assumes X: "externals X" and ok: "lively X G d" and little: "holds_little X G d" and ample: "ample (db_path d) d" "ample (db_path d) d'"
    and run: "compact_range X Unbounded Unbounded d = (r, d')"
  shows "r = Inr ()"
proof -
  note l = lively_sel [OF ok]
  from compact_range_outcome [OF X l(4) _ _ _ ample_num(2) [OF ample(1)] run] little ample(2) l(3) show ?thesis
    by (auto simp: holds_little_def ample_def file_overlaps_range_def)
qed

lemma write_and_flush_returns:
  assumes X: "externals X" and ok: "lively X G d" and room: "room X (records batch) d"
    and run: "write_and_flush X (group_items [(batch, opts)]) d = (r, d')"
    and fit: "file_fits (db_env d') (table_path (db_path d) (next_number d))"
  shows "r = Inr ()"
proof -
  let ?items = "group_items [(batch, opts)]"
  note l = lively_sel [OF ok]
  from l(1) obtain eds bs where f: "filed X G eds d" and imm: "db_immutables d = []" and rep: "replays X d bs" by (auto simp: durable_def)
  from f have opened: "\<not> db_closed d" and rd: "readable X G d" "wal_ok d" and calm: "env_faults (db_env d) = []"
    by (simp_all add: filed_def settled_def db_ok_def)
  have few: "unat (db_last_sequence d) + length (group_records ?items) < 2 ^ 64" using room by (simp add: room_def)
  obtain r1 d1 where w: "apply_write_group_to_memtable X ?items d = (r1, d1)" by fastforce
  note out = write_group_outcome [OF X rd few w opened]
  obtain flush where r1: "r1 = Inr flush" using out calm by (cases r1) auto
  have logd: "content_of (db_env d) (db_wal d) \<noteq> None" using rep by (auto simp: replays_def)
  note f1 = write_group_filed [OF X f logd few w [unfolded r1]]
  have sel: "db_path d1 = db_path d" "db_options d1 = db_options d" "db_versions d1 = db_versions d" using out by simp_all
  have tidy1: "tidy d1"
    using out wal_not_table_path [OF rd(2)] l(2) tidy_same [OF sel(1) f1(2)] by (auto simp: sel)
  have h1: "healthy X d1" "settled X G d1" "\<not> db_closed d1" using f1(1) l(3) by (simp_all add: healthy_def filed_def sel)
  show ?thesis
  proof (cases flush)
    case True
    have "frozen_full X d" by (simp add: frozen_full_def imm)
    from write_group_mems [OF X this _ w [unfolded r1] opened] room out have mems: "frozen_full X d1" "mems_fit X d1"
      by (simp_all add: readable_def)
    have "db_flush X d1 = (r, d')" using run w r1 True by (simp add: op_then_Inr)
    from flush_progress [OF X h1(2) tidy1 h1(3,1) mems(2,1) this] fit show ?thesis by (simp add: sel)
  next
    case False
    with run w r1 show ?thesis by (simp add: op_then_Inr op_lift_def)
  qed
qed

lemma write_returns:
  assumes X: "externals X" and ok: "lively X G d" and little: "holds_little X G d" and takes: "takes X G d batch"
    and ne: "records batch \<noteq> []" and ample: "ample (db_path d) d" "ample (db_path d) (pressed X batch d)" "ample (db_path d) d'"
    and run: "db_write X batch opts d = (r, d')"
  shows "r = Inr ()"
proof -
  let ?d = "d\<lparr>db_metrics := record_user_write (batch_user_write_bytes batch) (db_metrics d)\<rparr>" and ?d1 = "pressed X batch d"
  have ok': "lively X G ?d" using ok by simp
  have little': "holds_little X G ?d" and ample': "ample (db_path ?d) ?d" "ample (db_path ?d) ?d1"
    using little ample by (simp_all add: holds_little_def short_keys_def ample_def)
  obtain r1 where p: "apply_write_pressure X ?d = (r1, ?d1)" unfolding pressed_def by (metis prod.collapse)
  have p1: "r1 = Inr () \<and> (\<exists>G1. lively X G1 ?d1 \<and> holds_little X G1 ?d1 \<and> takes X G1 ?d1 batch \<and> db_path ?d1 = db_path d)"
  proof (cases "length (db_l0_tables d) \<ge> level0_stop_writes_trigger (db_options d)")
    case True
    then have c: "compact_range X Unbounded Unbounded ?d = (r1, ?d1)" using p by (simp add: apply_write_pressure_def)
    have r1: "r1 = Inr ()" by (rule compact_returns [OF X ok' little' ample' c])
    from compact_all_durable [OF X lively_sel(1) [OF ok'] little' ample' c [unfolded r1]] lively_sel(2) [OF ok'] obtain G1 where
      G1: "durable X G1 ?d1" "reads_as X (gc_watermark ?d) G ?d G1 ?d1" "tidy ?d1" by blast
    then have sub: "set (db_entries X G1 ?d1) \<subseteq> set (db_entries X G d)" and sel: "db_last_sequence ?d1 = db_last_sequence d"
      "db_path ?d1 = db_path d" "db_options ?d1 = db_options d" by (simp_all add: reads_as_def)
    have "card (set (db_entries X G1 ?d1)) \<le> card (set (db_entries X G d))" using sub by (rule card_mono [rotated]) simp
    then have "takes X G1 ?d1 batch"
      using takes unfolding takes_def sel by (meson add_le_mono1 le_less_trans mult_le_mono1)
    moreover have "lively X G1 ?d1" using G1 ok by (simp add: lively_def sel)
    ultimately show ?thesis using r1 holds_little_subset [OF little sub sel(3)] sel(2) by blast
  next
    case False
    then have "?d1 = ?d" "r1 = Inr ()" using p by (simp_all add: apply_write_pressure_def)
    moreover have "takes X G ?d batch" using takes by (simp add: takes_def)
    ultimately show ?thesis using ok' little' by auto
  qed
  then obtain G1 where G1: "lively X G1 ?d1" "holds_little X G1 ?d1" "takes X G1 ?d1 batch" "db_path ?d1 = db_path d" by blast
  obtain r2 d2 where w: "write_and_flush X (group_items [(batch, opts)]) ?d1 = (r2, d2)" by fastforce
  have items: "sum_list (map gw_user_write_bytes (group_items [(batch, opts)])) = batch_user_write_bytes batch" by (simp add: group_items_def)
  have run': "(case op_then (apply_write_pressure X) (\<lambda>_. write_and_flush X (group_items [(batch, opts)])) ?d of
      (Inl err, d) \<Rightarrow> (hd (repeat_group_error X err 1), d) | (Inr _, d) \<Rightarrow> (Inr (), d)) = (r, d')"
    using run ne unfolding db_write_def apply_write_group_def Let_def items
    by (auto simp: write_batch_is_empty_def op_then_def metric_def split: prod.splits sum.splits)
  have p': "apply_write_pressure X ?d = (Inr (), ?d1)" using p p1 by simp
  note go = op_then_Inr [of "apply_write_pressure X" ?d "()" ?d1, OF p']
  have d2: "d2 = d'" using run' w by (auto simp: go split: sum.splits)
  have "file_fits (db_env d') (table_path (db_path ?d1) (next_number ?d1))" using ample(3) by (simp add: ample_def G1(4))
  from write_and_flush_returns [OF X G1(1) takes_room [OF lively_sel(1) [OF G1(1)] G1(2,3)] w [unfolded d2] this] run' w
  show ?thesis by (simp add: go)
qed

end
