(* ===== verification/Fuzz_Model.thy ===== *)
theory Fuzz_Model
  imports Call_Progress
begin

unbundle bit_operations_syntax

section \<open>The fuzz driver against the map (bin/fuzz\_model.rs)\<close>

text \<open>
  \<^verbatim>\<open>run_case\<close> reads its input as a program: three bytes are an operation, a key and a
  value.  It runs the program on a database and on an ordered map, and panics when a read
  or the scan after an operation tells them apart.  The operations span the interface:
  writes with the flushes and compactions they start, reads, scans, flushes, and a compaction
  followed by closing the database and opening its files again.
\<close>

subsection \<open>The driver\<close>

text \<open>How a run ends: with the environment it leaves, with an error of a call, or with a failed assertion.\<close>

datatype fuzz_end = FuzzDone env | FuzzError error | FuzzPanic

definition fuzz_options :: options where
  "fuzz_options = default_options\<lparr>opt_memtable_kind := KindSkipList, table_compression := Zstd, memtable_size := 256,
     block_size := 256, target_file_size_base := 512, max_subcompactions := 3\<rparr>"

definition pad_digits :: "nat \<Rightarrow> nat \<Rightarrow> string" where
  "pad_digits w n = (let ds = dec_digits n in replicate (w - length ds) CHR ''0'' @ ds)"

definition fuzz_key :: "u8 \<Rightarrow> bytes" where
  "fuzz_key key_id = string_bytes (''fk-'' @ pad_digits 2 (unat key_id))"

definition fuzz_value :: "u8 \<Rightarrow> bytes" where
  "fuzz_value value_id = string_bytes (''fv-'' @ pad_digits 3 (unat value_id))"

text \<open>\<^verbatim>\<open>{hash:016x}\<close>, sixteen lower case hexadecimal digits.\<close>

definition hex_digit :: "nat \<Rightarrow> char" where
  "hex_digit n = (if n < 10 then char_of (48 + n) else char_of (87 + n))"

definition hex16 :: "u64 \<Rightarrow> string" where
  "hex16 w = map (\<lambda>i. hex_digit (unat w div 16 ^ i mod 16)) (rev [0..<16])"

definition fuzz_hash :: "bytes \<Rightarrow> u64" where
  "fuzz_hash input = fold (\<lambda>byte hash. hash * 0x100000001b3 XOR ucast byte) input 0xcbf29ce484222325"

definition fuzz_dir :: "u32 \<Rightarrow> bytes \<Rightarrow> path" where
  "fuzz_dir pid input =
     path_join (path_join ''target'' ''tylsmdb-fuzz'') (''fuzz-model-'' @ dec_digits (unat pid) @ ''-'' @ hex16 (fuzz_hash input))"

text \<open>
  \<^verbatim>\<open>fs::remove_dir_all\<close> of the standard library, on the files the database sees.  The
  driver ignores its result, so that a missing directory need not be told from an empty one.
\<close>

definition beneath :: "path \<Rightarrow> path \<Rightarrow> bool" where
  "beneath p q \<longleftrightarrow> take (length p + 1) q = p @ ''/''"

definition remove_dir_all :: "path \<Rightarrow> (env, unit) op" where
  "remove_dir_all p = faultable (\<lambda>e.
     (Inr (), e\<lparr>env_files := (\<lambda>q. if q = p \<or> beneath p q then None else env_files e q),
        env_dirs := filter (\<lambda>q. q \<noteq> p \<and> \<not> beneath p q) (env_dirs e)\<rparr>))"

fun chunks3 :: "bytes \<Rightarrow> bytes list" where
  "chunks3 (a # b # c # rest) = [a, b, c] # chunks3 rest"
| "chunks3 [] = []"
| "chunks3 chunk = [chunk]"

definition byte_at :: "nat \<Rightarrow> bytes \<Rightarrow> u8" where
  "byte_at i chunk = (if i < length chunk then chunk ! i else 0)"

type_synonym oracle_map = "(bytes \<times> bytes) list"

definition oracle_remove :: "bytes \<Rightarrow> oracle_map \<Rightarrow> oracle_map" where
  "oracle_remove key omap = filter (\<lambda>(k, v). k \<noteq> key) omap"

text \<open>
  The value of a step is the state it leaves, or how the run ends; without one the fuel of a
  scan was not enough.
\<close>

definition assert_scan_matches :: "'m externs \<Rightarrow> nat \<Rightarrow> 'm db \<times> oracle_map \<Rightarrow> (fuzz_end + 'm db \<times> oracle_map) option" where
  "assert_scan_matches X fuel = (\<lambda>(d, omap).
     case db_scan X fuel Unbounded Unbounded d of
       None \<Rightarrow> None
     | Some (Inl e, d) \<Rightarrow> Some (Inl (FuzzError e))
     | Some (Inr rows, d) \<Rightarrow> Some (if rows = omap then Inr (d, omap) else Inl FuzzPanic))"

definition fuzz_op :: "'m externs \<Rightarrow> ((u64 \<times> u64) list \<Rightarrow> nat) \<Rightarrow> (u64 list \<Rightarrow> nat) \<Rightarrow> nat \<Rightarrow> path \<Rightarrow> bytes \<Rightarrow>
  'm db \<times> oracle_map \<Rightarrow> (fuzz_end + 'm db \<times> oracle_map) option" where
  "fuzz_op X pick_block pick_table fuel p chunk = (\<lambda>(d, omap).
     let op = byte_at 0 chunk mod 7;
         key = fuzz_key (byte_at 1 chunk mod 32);
         val = fuzz_value (byte_at 2 chunk)
     in if op = 0 \<or> op = 1 then
          (case db_put X key val d of
             (Inl e, d) \<Rightarrow> Some (Inl (FuzzError e))
           | (Inr _, d) \<Rightarrow> Some (Inr (d, btree_insert key val omap)))
        else if op = 2 then
          (case db_delete X key d of
             (Inl e, d) \<Rightarrow> Some (Inl (FuzzError e))
           | (Inr _, d) \<Rightarrow> Some (Inr (d, oracle_remove key omap)))
        else if op = 3 then
          (case db_get X key d of
             (Inl e, d) \<Rightarrow> Some (Inl (FuzzError e))
           | (Inr v, d) \<Rightarrow> Some (if v = btree_get omap key then Inr (d, omap) else Inl FuzzPanic))
        else if op = 4 then assert_scan_matches X fuel (d, omap)
        else if op = 5 then
          (case db_flush X d of
             (Inl e, d) \<Rightarrow> Some (Inl (FuzzError e))
           | (Inr _, d) \<Rightarrow> Some (Inr (d, omap)))
        else
          (case compact_range X Unbounded Unbounded d of
             (Inl e, d) \<Rightarrow> Some (Inl (FuzzError e))
           | (Inr _, d) \<Rightarrow>
               (case db_open X pick_block pick_table p fuzz_options (db_env d) of
                  (Inl e, _) \<Rightarrow> Some (Inl (FuzzError e))
                | (Inr d, _) \<Rightarrow> Some (Inr (d, omap)))))"

fun fuzz_loop :: "'m externs \<Rightarrow> ((u64 \<times> u64) list \<Rightarrow> nat) \<Rightarrow> (u64 list \<Rightarrow> nat) \<Rightarrow> nat \<Rightarrow> path \<Rightarrow> bytes list \<Rightarrow>
  'm db \<times> oracle_map \<Rightarrow> (fuzz_end + 'm db \<times> oracle_map) option" where
  "fuzz_loop X pick_block pick_table fuel p [] st = Some (Inr st)"
| "fuzz_loop X pick_block pick_table fuel p (chunk # chunks) st =
     (case fuzz_op X pick_block pick_table fuel p chunk st of
        None \<Rightarrow> None
      | Some (Inl fin) \<Rightarrow> Some (Inl fin)
      | Some (Inr st) \<Rightarrow>
          (case assert_scan_matches X fuel st of
             None \<Rightarrow> None
           | Some (Inl fin) \<Rightarrow> Some (Inl fin)
           | Some (Inr st) \<Rightarrow> fuzz_loop X pick_block pick_table fuel p chunks st))"

definition run_case :: "'m externs \<Rightarrow> ((u64 \<times> u64) list \<Rightarrow> nat) \<Rightarrow> (u64 list \<Rightarrow> nat) \<Rightarrow> nat \<Rightarrow> u32 \<Rightarrow> bytes \<Rightarrow>
  env \<Rightarrow> fuzz_end option" where
  "run_case X pick_block pick_table fuel pid input e =
     (let p = fuzz_dir pid input;
          e = snd (remove_dir_all p e)
      in case create_dir_all p e of
           (Inl err, e) \<Rightarrow> Some (FuzzError err)
         | (Inr _, e) \<Rightarrow>
             (case db_open X pick_block pick_table p fuzz_options e of
                (Inl err, e) \<Rightarrow> Some (FuzzError err)
              | (Inr d, e) \<Rightarrow>
                  map_option (case_sum (\<lambda>fin. fin) (\<lambda>(d, omap). FuzzDone (snd (remove_dir_all p (db_env d)))))
                    (fuzz_loop X pick_block pick_table fuel p (chunks3 input) (d, []))))"

subsection \<open>The states of a run\<close>

text \<open>The states a step goes through, in which a table may have been written.\<close>

definition op_states :: "'m externs \<Rightarrow> bytes \<Rightarrow> 'm db \<Rightarrow> 'm db list" where
  "op_states X chunk d =
     (let op = byte_at 0 chunk mod 7;
          key = fuzz_key (byte_at 1 chunk mod 32);
          val = fuzz_value (byte_at 2 chunk)
      in if op = 0 \<or> op = 1 then [pressed X (write_batch_put write_batch_new key val) d, snd (db_put X key val d)]
         else if op = 2 then [pressed X (write_batch_delete write_batch_new key) d, snd (db_delete X key d)]
         else if op = 3 \<or> op = 4 then []
         else if op = 5 then [snd (db_flush X d)]
         else [snd (compact_range X Unbounded Unbounded d)])"

fun loop_states :: "'m externs \<Rightarrow> ((u64 \<times> u64) list \<Rightarrow> nat) \<Rightarrow> (u64 list \<Rightarrow> nat) \<Rightarrow> nat \<Rightarrow> path \<Rightarrow> bytes list \<Rightarrow>
  'm db \<times> oracle_map \<Rightarrow> 'm db list" where
  "loop_states X pick_block pick_table fuel p [] st = []"
| "loop_states X pick_block pick_table fuel p (chunk # chunks) st =
     fst st # op_states X chunk (fst st) @
       (case fuzz_op X pick_block pick_table fuel p chunk st of
          Some (Inr st) \<Rightarrow>
            (case assert_scan_matches X fuel st of
               Some (Inr st) \<Rightarrow> loop_states X pick_block pick_table fuel p chunks st
             | _ \<Rightarrow> [])
        | _ \<Rightarrow> [])"

definition run_states :: "'m externs \<Rightarrow> ((u64 \<times> u64) list \<Rightarrow> nat) \<Rightarrow> (u64 list \<Rightarrow> nat) \<Rightarrow> nat \<Rightarrow> u32 \<Rightarrow> bytes \<Rightarrow>
  env \<Rightarrow> 'm db list" where
  "run_states X pick_block pick_table fuel pid input e =
     (let p = fuzz_dir pid input in
      case db_open X pick_block pick_table p fuzz_options (snd (create_dir_all p (snd (remove_dir_all p e)))) of
        (Inl err, e) \<Rightarrow> []
      | (Inr d, e) \<Rightarrow> loop_states X pick_block pick_table fuel p (chunks3 input) (d, []))"

subsection \<open>Keys, values and their batches\<close>

lemma length_dec_digits: "length (dec_digits n) \<le> 3" if "n < 1000"
proof -
  have "n div 10 div 10 < 10" using that by linarith
  then show ?thesis
    by (simp add: dec_digits.simps [of n] dec_digits.simps [of "n div 10"] dec_digits.simps [of "n div 10 div 10"])
qed

lemma length_pad: "n < 1000 \<Longrightarrow> length (pad_digits w n) \<le> w + 3"
  using length_dec_digits [of n] by (simp add: pad_digits_def Let_def)

lemma fuzz_lengths: "length (fuzz_key i) \<le> 8" "length (fuzz_value j) \<le> 9" "fuzz_key i \<noteq> []"
proof -
  have "unat (i :: u8) < 1000" for i using unsigned_less [of i, where 'a = nat] by simp
  from length_pad [OF this, of 2] length_pad [OF this, of 3] show "length (fuzz_key i) \<le> 8" "length (fuzz_value j) \<le> 9"
    by (simp_all add: fuzz_key_def fuzz_value_def string_bytes_def numeral_eq_Suc)
  show "fuzz_key i \<noteq> []" by (simp add: fuzz_key_def string_bytes_def)
qed

subsection \<open>The invariant of the run\<close>

definition fuzz_inv :: "'m externs \<Rightarrow> path \<Rightarrow> nat \<Rightarrow> 'm db \<times> oracle_map \<Rightarrow> bool" where
  "fuzz_inv X p n = (\<lambda>(d, omap). db_path d = p \<and> db_options d = fuzz_options \<and> db_watermark d = watermark_new \<and>
     sorted_wrt (<) (map fst omap) \<and> unat (db_last_sequence d) \<le> n \<and>
     (\<exists>G. lively X G d \<and> map_of omap = view X G d \<and> card (set (db_entries X G d)) \<le> n \<and>
        (\<forall>e\<in>set (db_entries X G d). entry_ok e \<and> user_key (fst e) \<noteq> [] \<and> short_key (fst e))))"

lemma fuzz_inv_little:
  assumes "n < 2 ^ 28" and "card (set (db_entries X G d)) \<le> n"
    and "\<forall>e\<in>set (db_entries X G d). entry_ok e \<and> user_key (fst e) \<noteq> [] \<and> short_key (fst e)"
  shows "holds_little X G d"
  using assms by (auto simp: holds_little_def entries_fit_def short_keys_def DEFAULT_BITS_PER_KEY_def)

lemma scan_matches:
  assumes inv: "fuzz_inv X p n (d, omap)" and fuel: "n + 2 \<le> fuel"
  shows "\<exists>d'. assert_scan_matches X fuel (d, omap) = Some (Inr (d', omap)) \<and> fuzz_inv X p n (d', omap)"
proof -
  from inv obtain G where live: "lively X G d" and G: "durable X G d" "map_of omap = view X G d" "card (set (db_entries X G d)) \<le> n"
    and small: "\<forall>e\<in>set (db_entries X G d). entry_ok e \<and> user_key (fst e) \<noteq> [] \<and> short_key (fst e)"
    and srt: "sorted_wrt (<) (map fst omap)" by (auto simp: fuzz_inv_def lively_def)
  have set: "settled X G d" and calm: "env_faults (db_env d) = []" using G(1) by (auto simp: durable_def filed_def)
  have "length (db_entries X G d) + 1 < fuel" using G(3) fuel settled_distinct [OF set] by (simp add: distinct_card)
  from scan_opt_outcome [OF durable_mems(5) [OF G(1)] this, of Unbounded Unbounded default_read_options]
  obtain r d' where run: "db_scan X fuel Unbounded Unbounded d = Some (r, d')" and d': "reads_to d d'" "caches_ok X G d'"
    and r: "r = Inr (scan_rows (db_entries X G d) Unbounded Unbounded (db_last_sequence d))"
    using durable_mems(4) [OF G(1)] calm by (auto simp: db_scan_def read_sequence_def default_read_options_def)
  have "(k, v) \<in> set omap \<longleftrightarrow> visible_value (lookup_at (db_entries X G d) k (db_last_sequence d)) = Some v" for k v
  proof -
    have "distinct (map fst omap)" using srt by (simp add: strict_sorted_iff)
    then have "(k, v) \<in> set omap \<longleftrightarrow> map_of omap k = Some v" by simp
    then show ?thesis using G(2) by (simp add: view_def)
  qed
  then have "omap = scan_rows (db_entries X G d) Unbounded Unbounded (db_last_sequence d)"
    by (intro scan_rows_unique [OF srt]) (simp add: within_bounds_def)
  moreover note r' = durable_reads [OF G(1) d'] and live' = lively_reads [OF live d']
  have "fuzz_inv X p n (d', omap)"
    using inv reads_to_sel(1,2,7,10) [OF d'(1)] r' live' G small unfolding fuzz_inv_def by (auto intro!: exI [of _ G])
  ultimately show ?thesis using run r by (auto simp: assert_scan_matches_def)
qed

subsection \<open>The steps of the run\<close>

lemma gc_new: "db_watermark d = watermark_new \<Longrightarrow> gc_watermark d = db_last_sequence d"
  by (simp add: gc_watermark_def watermark_oldest_def watermark_new_def)

lemma unat_add_one: "unat (s :: u64) \<le> n \<Longrightarrow> n < 2 ^ 28 \<Longrightarrow> unat (s + 1) = unat s + 1"
  using u64_Suc(2) [of s 0] by simp

text \<open>A write of one small record, and the same change of the map.\<close>

lemma fuzz_write:
  assumes X: "externals X" and inv: "fuzz_inv X p n (d, omap)" and n: "n < 2 ^ 28" and r: "small_record r"
    and ample: "ample p d" "ample p (pressed X \<lparr>records = [r]\<rparr> d)" "ample p d'"
    and run: "db_write X \<lparr>records = [r]\<rparr> default_write_options d = (res, d')"
    and omap': "sorted_wrt (<) (map fst omap')" "map_of omap' = write_view [r] (map_of omap)"
  shows "res = Inr () \<and> fuzz_inv X p (n + 1) (d', omap')"
proof -
  let ?b = "\<lparr>records = [r]\<rparr>" and ?new = "batch_entries (db_last_sequence d + 1) [r]"
  from inv obtain G where live: "lively X G d" and G: "durable X G d" "map_of omap = view X G d" "card (set (db_entries X G d)) \<le> n"
    and small: "\<forall>e\<in>set (db_entries X G d). entry_ok e \<and> user_key (fst e) \<noteq> [] \<and> short_key (fst e)"
    and sel: "db_path d = p" "db_options d = fuzz_options" "db_watermark d = watermark_new" "unat (db_last_sequence d) \<le> n"
    by (auto simp: fuzz_inv_def lively_def)
  have little: "holds_little X G d" by (rule fuzz_inv_little [OF n G(3) small])
  have "short_batch [r]" using r by (auto simp: short_batch_def small_record_def split: batch_record.splits)
  then have takes: "takes X G d ?b"
    using small_record_entry [OF r, of _ "db_last_sequence d + 1"] small_record_loggable [OF r] G(3) n sel(4)
    by (simp add: takes_def DEFAULT_BITS_PER_KEY_def)
  have log: "wal_enabled (db_options d)" "\<not> wo_disable_wal default_write_options"
    by (simp_all add: sel fuzz_options_def default_options_def default_write_options_def)
  have ample': "ample (db_path d) d" "ample (db_path d) (pressed X ?b d)" "ample (db_path d) d'" using ample by (simp_all add: sel)
  have ne: "records ?b \<noteq> []" and gc: "gc_watermark d \<le> db_last_sequence d" using gc_new [OF sel(3)] by simp_all
  have res: "res = Inr ()" by (rule write_returns [OF X live little takes ne ample' run])
  from write_durable [OF X G(1) little takes ne log gc ample' run [unfolded res]] lively_sel(2) [OF live] obtain G' where G': "durable X G' d'"
    "view X G' d' = write_view [r] (view X G d)" "set (db_entries X G' d') \<subseteq> set (db_entries X G d) \<union> set ?new"
    "db_last_sequence d' = db_last_sequence d + 1" "db_path d' = db_path d" "db_options d' = db_options d" "db_watermark d' = db_watermark d"
    "tidy d'" by auto
  have live': "lively X G' d'" using live G'(1,6,8) by (simp add: lively_def)
  have "card (set (db_entries X G' d')) \<le> card (set (db_entries X G d) \<union> set ?new)" using G'(3) by (intro card_mono) auto
  also have "\<dots> \<le> n + 1" using card_Un_le [of "set (db_entries X G d)" "set ?new"] G(3) by simp
  finally have "card (set (db_entries X G' d')) \<le> n + 1" .
  moreover have "\<forall>e\<in>set (db_entries X G' d'). entry_ok e \<and> user_key (fst e) \<noteq> [] \<and> short_key (fst e)"
    using G'(3) small small_record_entry [OF r] by blast
  ultimately show ?thesis
    using res live' G' G(2) omap' sel unat_add_one [OF sel(4) n] unfolding fuzz_inv_def by (auto intro!: exI [of _ G'])
qed

lemma fuzz_put:
  assumes "externals X" and "fuzz_inv X p n (d, omap)" and "n < 2 ^ 28"
    and "ample p d" "ample p (pressed X (write_batch_put write_batch_new (fuzz_key i) (fuzz_value j)) d)" "ample p d'"
    and "db_put X (fuzz_key i) (fuzz_value j) d = (res, d')"
  shows "res = Inr () \<and> fuzz_inv X p (n + 1) (d', btree_insert (fuzz_key i) (fuzz_value j) omap)"
proof (rule fuzz_write [OF assms(1-3) _ assms(4)])
  let ?r = "BatchPut (fuzz_key i) (fuzz_value j)"
  have b: "write_batch_put write_batch_new (fuzz_key i) (fuzz_value j) = \<lparr>records = [?r]\<rparr>"
    by (simp add: write_batch_put_def write_batch_new_def)
  show "small_record ?r" using fuzz_lengths(1) [of i] fuzz_lengths(2) [of j] fuzz_lengths(3) [of i] by (simp add: small_record_def)
  show "ample p (pressed X \<lparr>records = [?r]\<rparr> d)" "ample p d'" "db_write X \<lparr>records = [?r]\<rparr> default_write_options d = (res, d')"
    using assms(5-7) by (simp_all add: db_put_def b)
  have s: "sorted_wrt (<) (map fst omap)" using assms(2) by (simp add: fuzz_inv_def)
  then show "sorted_wrt (<) (map fst (btree_insert (fuzz_key i) (fuzz_value j) omap))" by (rule sorted_btree_insert)
  show "map_of (btree_insert (fuzz_key i) (fuzz_value j) omap) = write_view [?r] (map_of omap)"
    by (auto simp: map_of_btree_insert [OF s] write_view_def fun_eq_iff)
qed

lemma fuzz_delete:
  assumes "externals X" and "fuzz_inv X p n (d, omap)" and "n < 2 ^ 28"
    and "ample p d" "ample p (pressed X (write_batch_delete write_batch_new (fuzz_key i)) d)" "ample p d'"
    and "db_delete X (fuzz_key i) d = (res, d')"
  shows "res = Inr () \<and> fuzz_inv X p (n + 1) (d', oracle_remove (fuzz_key i) omap)"
proof (rule fuzz_write [OF assms(1-3) _ assms(4)])
  let ?r = "BatchDelete (fuzz_key i)"
  have b: "write_batch_delete write_batch_new (fuzz_key i) = \<lparr>records = [?r]\<rparr>"
    by (simp add: write_batch_delete_def write_batch_new_def)
  show "small_record ?r" using fuzz_lengths(1,3) [of i] by (simp add: small_record_def)
  show "ample p (pressed X \<lparr>records = [?r]\<rparr> d)" "ample p d'" "db_write X \<lparr>records = [?r]\<rparr> default_write_options d = (res, d')"
    using assms(5-7) by (simp_all add: db_delete_def b)
  have "sorted_wrt (<) (map fst omap)" using assms(2) by (simp add: fuzz_inv_def)
  then show "sorted_wrt (<) (map fst (oracle_remove (fuzz_key i) omap))" unfolding oracle_remove_def by (rule sorted_wrt_filter_fst)
  have "map_of (oracle_remove k omap) = (map_of omap)(k := None)" for k
    by (induction omap) (auto simp: oracle_remove_def fun_eq_iff)
  then show "map_of (oracle_remove (fuzz_key i) omap) = write_view [?r] (map_of omap)" by (auto simp: write_view_def fun_eq_iff)
qed

text \<open>A step that leaves the map alone and adds no entry.\<close>

lemma fuzz_inv_same:
  assumes inv: "fuzz_inv X p n (d, omap)" and G: "lively X G d" "map_of omap = view X G d" "card (set (db_entries X G d)) \<le> n"
      "\<forall>e\<in>set (db_entries X G d). entry_ok e \<and> user_key (fst e) \<noteq> [] \<and> short_key (fst e)"
    and G': "lively X G' d'" "view X G' d' = view X G d" "set (db_entries X G' d') \<subseteq> set (db_entries X G d)"
    and sel: "db_path d' = db_path d" "db_options d' = db_options d" "db_watermark d' = watermark_new" "db_last_sequence d' = db_last_sequence d"
  shows "fuzz_inv X p (n + 1) (d', omap)"
proof -
  have "card (set (db_entries X G' d')) \<le> n + 1" using card_mono [OF _ G'(3)] G(3) by simp
  with inv G G' sel show ?thesis unfolding fuzz_inv_def by (auto intro!: exI [of _ G'])
qed

lemma fuzz_invE:
  assumes "fuzz_inv X p n (d, omap)"
  obtains G where "lively X G d" and "map_of omap = view X G d" and "card (set (db_entries X G d)) \<le> n"
    and "\<forall>e\<in>set (db_entries X G d). entry_ok e \<and> user_key (fst e) \<noteq> [] \<and> short_key (fst e)"
    and "db_path d = p" and "db_options d = fuzz_options" and "db_watermark d = watermark_new"
  using assms by (auto simp: fuzz_inv_def)

lemma fuzz_get:
  assumes X: "externals X" and inv: "fuzz_inv X p n (d, omap)" and run: "db_get X key d = (r, d')"
  shows "r = Inr (btree_get omap key) \<and> fuzz_inv X p (n + 1) (d', omap)"
proof -
  from inv obtain G where G: "lively X G d" "map_of omap = view X G d" "card (set (db_entries X G d)) \<le> n"
    "\<forall>e\<in>set (db_entries X G d). entry_ok e \<and> user_key (fst e) \<noteq> [] \<and> short_key (fst e)"
    and sel: "db_path d = p" "db_options d = fuzz_options" "db_watermark d = watermark_new" by (rule fuzz_invE)
  note live = lively_sel [OF G(1)]
  have calm: "env_faults (db_env d) = []" using live(3) by (simp add: healthy_def)
  from get_opt_outcome [OF X durable_mems(5) [OF live(1)] run [unfolded db_get_def]] durable_mems(4) [OF live(1)] calm
  have d': "reads_to d d'" "caches_ok X G d'" and r: "r = Inr (view X G d key)"
    by (simp_all add: read_sequence_def default_read_options_def view_def)
  note rd = durable_reads [OF live(1) d']
  have "fuzz_inv X p (n + 1) (d', omap)"
    using rd reads_to_sel(1,2,7,10) [OF d'(1)] sel by (intro fuzz_inv_same [OF inv G lively_reads [OF G(1) d']]) simp_all
  with r G(2) show ?thesis by (simp add: btree_get_map_of)
qed

lemma fuzz_flush:
  assumes X: "externals X" and inv: "fuzz_inv X p n (d, omap)" and n: "n < 2 ^ 28" and ample: "ample p d" "ample p d'"
    and run: "db_flush X d = (res, d')"
  shows "res = Inr () \<and> fuzz_inv X p (n + 1) (d', omap)"
proof -
  from inv obtain G where G: "lively X G d" "map_of omap = view X G d" "card (set (db_entries X G d)) \<le> n"
    "\<forall>e\<in>set (db_entries X G d). entry_ok e \<and> user_key (fst e) \<noteq> [] \<and> short_key (fst e)"
    and sel: "db_path d = p" "db_options d = fuzz_options" "db_watermark d = watermark_new" by (rule fuzz_invE)
  have ample': "ample (db_path d) d" "ample (db_path d) d'" using ample by (simp_all add: sel)
  have res: "res = Inr ()" by (rule flush_returns [OF X G(1) fuzz_inv_little [OF n G(3,4)] ample'(2) run])
  from flush_durable [OF X lively_sel(1) [OF G(1)] fuzz_inv_little [OF n G(3,4)] ample' run [unfolded res]] lively_sel(2) [OF G(1)] obtain G' where G': "durable X G' d'"
    "db_entries X G' d' = db_entries X G d" "db_last_sequence d' = db_last_sequence d" "db_path d' = db_path d"
    "db_options d' = db_options d" "db_watermark d' = db_watermark d" "tidy d'" by blast
  then have v: "view X G' d' = view X G d" by (simp add: view_def fun_eq_iff)
  have "lively X G' d'" using G(1) G'(1,5,7) by (simp add: lively_def)
  from fuzz_inv_same [OF inv G this v] G' sel res show ?thesis by simp
qed

lemma fuzz_compact:
  assumes X: "externals X" and inv: "fuzz_inv X p n (d, omap)" and n: "n < 2 ^ 28" and ample: "ample p d" "ample p d1"
    and run: "compact_range X Unbounded Unbounded d = (res, d1)"
  shows "res = Inr () \<and> (\<exists>d2. db_open X pick_block pick_table p fuzz_options (db_env d1) = (Inr d2, db_env d1) \<and> fuzz_inv X p (n + 1) (d2, omap))"
proof -
  from inv obtain G where G: "lively X G d" "map_of omap = view X G d" "card (set (db_entries X G d)) \<le> n"
    "\<forall>e\<in>set (db_entries X G d). entry_ok e \<and> user_key (fst e) \<noteq> [] \<and> short_key (fst e)"
    and sel: "db_path d = p" "db_options d = fuzz_options" "db_watermark d = watermark_new" by (rule fuzz_invE)
  have ample': "ample (db_path d) d" "ample (db_path d) d1" using ample by (simp_all add: sel)
  have res: "res = Inr ()" by (rule compact_returns [OF X G(1) fuzz_inv_little [OF n G(3,4)] ample' run])
  from compact_all_durable [OF X lively_sel(1) [OF G(1)] fuzz_inv_little [OF n G(3,4)] ample' run [unfolded res]] lively_sel(2) [OF G(1)]
  obtain G1 where G1: "durable X G1 d1" and ra: "reads_as X (gc_watermark d) G d G1 d1" and tidy1: "tidy d1" by blast
  have v1: "view X G1 d1 = view X G d" using reads_as_view [OF ra] gc_new [OF sel(3)] by simp
  have s1: "set (db_entries X G1 d1) \<subseteq> set (db_entries X G d)" "db_path d1 = p" "db_options d1 = fuzz_options"
    "db_last_sequence d1 = db_last_sequence d" using ra sel by (simp_all add: reads_as_def)
  have "\<not> error_if_exists (db_options d1)" by (simp add: s1 fuzz_options_def default_options_def)
  from reopen_durable [OF G1 this, of pick_block pick_table] obtain d2 G2 where d2: "durable X G2 d2"
    "db_open X pick_block pick_table p fuzz_options (db_env d1) = (Inr d2, db_env d1)" "db_entries X G2 d2 = db_entries X G1 d1"
    "db_last_sequence d2 = db_last_sequence d1" "db_path d2 = p" "db_options d2 = fuzz_options" "db_watermark d2 = watermark_new"
    "db_env d2 = db_env d1" "current d2 = current d1" by (auto simp: s1)
  have "tidy d2" using tidy1 tidy_same [of d2 d1] by (simp add: d2(5,8,9) s1(2))
  then have live2: "lively X G2 d2" using d2(1,6) G(1) by (simp add: lively_def sel)
  have "view X G2 d2 = view X G d" using d2(3,4) v1 by (simp add: view_def fun_eq_iff)
  from fuzz_inv_same [OF inv G live2 this] d2 s1 sel have "fuzz_inv X p (n + 1) (d2, omap)" by simp
  with d2(2) res show ?thesis by blast
qed

lemma fuzz_inv_mono: "fuzz_inv X p n st \<Longrightarrow> fuzz_inv X p (n + 1) st"
  by (auto simp: fuzz_inv_def le_SucI)

text \<open>Every step goes on, and keeps the invariant.\<close>

lemma fuzz_op_ok:
  assumes X: "externals X" and inv: "fuzz_inv X p n (d, omap)" and n: "n < 2 ^ 28" and fuel: "n + 2 \<le> fuel"
    and ample: "\<forall>s\<in>set (d # op_states X chunk d). ample p s"
  shows "\<exists>d' omap'. fuzz_op X pick_block pick_table fuel p chunk (d, omap) = Some (Inr (d', omap')) \<and> fuzz_inv X p (n + 1) (d', omap')"
proof -
  let ?op = "byte_at 0 chunk mod 7" and ?i = "byte_at 1 chunk mod 32" and ?j = "byte_at 2 chunk"
  have d: "ample p d" using ample by simp
  consider "?op = 0 \<or> ?op = 1" | "?op = 2" | "?op = 3" | "?op = 4" | "?op = 5" | "?op \<notin> {0, 1, 2, 3, 4, 5}" by blast
  then show ?thesis
  proof cases
    case 1
    obtain r d' where run: "db_put X (fuzz_key ?i) (fuzz_value ?j) d = (r, d')" by fastforce
    have "ample p (pressed X (write_batch_put write_batch_new (fuzz_key ?i) (fuzz_value ?j)) d)" "ample p d'"
      using ample 1 run by (simp_all add: op_states_def Let_def)
    from fuzz_put [OF X inv n d this run] run 1 show ?thesis by (auto simp: fuzz_op_def Let_def)
  next
    case 2
    obtain r d' where run: "db_delete X (fuzz_key ?i) d = (r, d')" by fastforce
    have "ample p (pressed X (write_batch_delete write_batch_new (fuzz_key ?i)) d)" "ample p d'"
      using ample 2 run by (simp_all add: op_states_def Let_def)
    from fuzz_delete [OF X inv n d this run] run 2 show ?thesis by (auto simp: fuzz_op_def Let_def)
  next
    case 3
    obtain r d' where run: "db_get X (fuzz_key ?i) d = (r, d')" by fastforce
    with fuzz_get [OF X inv run] 3 show ?thesis by (auto simp: fuzz_op_def Let_def)
  next
    case 4
    with scan_matches [OF inv fuel] fuzz_inv_mono [of X p n] show ?thesis by (auto simp: fuzz_op_def Let_def)
  next
    case 5
    obtain r d' where run: "db_flush X d = (r, d')" by fastforce
    have "ample p d'" using ample 5 run by (simp add: op_states_def Let_def)
    from fuzz_flush [OF X inv n d this run] run 5 show ?thesis by (auto simp: fuzz_op_def Let_def)
  next
    case 6
    obtain r d' where run: "compact_range X Unbounded Unbounded d = (r, d')" by fastforce
    have "ample p d'" using ample 6 run by (simp add: op_states_def Let_def)
    from fuzz_compact [OF X inv n d this run, of pick_block pick_table] run 6 show ?thesis by (auto simp: fuzz_op_def Let_def)
  qed
qed

lemma fuzz_loop_ok:
  assumes X: "externals X" and "fuzz_inv X p n (d, omap)" and "n + length chunks \<le> 2 ^ 28" and "n + length chunks + 2 \<le> fuel"
    and "\<forall>s\<in>set (loop_states X pick_block pick_table fuel p chunks (d, omap)). ample p s"
  shows "\<exists>st. fuzz_loop X pick_block pick_table fuel p chunks (d, omap) = Some (Inr st) \<and> fuzz_inv X p (n + length chunks) st"
  using assms(2-)
proof (induction chunks arbitrary: n d omap)
  case (Cons chunk chunks)
  have n: "n < 2 ^ 28" and fuel: "n + 2 \<le> fuel" using Cons.prems(2,3) by simp_all
  have ample: "\<forall>s\<in>set (d # op_states X chunk d). ample p s" using Cons.prems(4) by simp
  from fuzz_op_ok [OF X Cons.prems(1) n fuel ample, of pick_block pick_table] obtain d1 omap1 where
    s1: "fuzz_op X pick_block pick_table fuel p chunk (d, omap) = Some (Inr (d1, omap1))" and inv1: "fuzz_inv X p (n + 1) (d1, omap1)" by blast
  have "n + 1 + 2 \<le> fuel" using Cons.prems(3) by simp
  from scan_matches [OF inv1 this] obtain d2 where s2: "assert_scan_matches X fuel (d1, omap1) = Some (Inr (d2, omap1))"
    and inv2: "fuzz_inv X p (n + 1) (d2, omap1)" by blast
  have "\<forall>s\<in>set (loop_states X pick_block pick_table fuel p chunks (d2, omap1)). ample p s"
    using Cons.prems(4) by (simp add: s1 s2)
  with Cons.IH [OF inv2] Cons.prems(2,3) s1 s2 show ?case by simp
qed simp

subsection \<open>The whole run\<close>

lemma hex_digit_slash: "n < 16 \<Longrightarrow> hex_digit n \<noteq> CHR ''/''"
proof
  assume "n < 16" "hex_digit n = CHR ''/''"
  then have "of_char (hex_digit n) = (47 :: nat)" by simp
  with \<open>n < 16\<close> show False by (auto simp: hex_digit_def split: if_splits)
qed

lemma fuzz_dir_join: "path_join (fuzz_dir pid input) name = fuzz_dir pid input @ ''/'' @ name"
proof -
  have "last (hex16 w) = hex_digit (unat w mod 16)" "hex16 w \<noteq> []" for w by (simp_all add: hex16_def last_map upt_rec)
  then have "last (fuzz_dir pid input) \<noteq> CHR ''/''" "fuzz_dir pid input \<noteq> []"
    using hex_digit_slash [of "unat (fuzz_hash input) mod 16"] by (simp_all add: fuzz_dir_def path_join_def)
  then show ?thesis by (simp add: path_join_def)
qed

lemma removed_dir_empty:
  assumes "remove_dir_all (fuzz_dir pid input) e = (r, e1)" and "env_faults e = []" and "create_dir_all (fuzz_dir pid input) e1 = (r', e2)"
  shows "\<forall>name. name \<noteq> [] \<longrightarrow> \<not> env_exists (path_join (fuzz_dir pid input) name) e2" and "env_faults e2 = []" and "r' = Inr ()"
proof -
  let ?p = "fuzz_dir pid input"
  have e1: "e1 = e\<lparr>env_files := (\<lambda>q. if q = ?p \<or> beneath ?p q then None else env_files e q),
      env_dirs := filter (\<lambda>q. q \<noteq> ?p \<and> \<not> beneath ?p q) (env_dirs e)\<rparr>"
    using assms(1,2) by (simp add: remove_dir_all_def faultable_def take_fault_def)
  have e2: "e2 = e1\<lparr>env_dirs := List.insert ?p (env_dirs e1)\<rparr>" "r' = Inr ()"
    using assms(2,3) by (simp_all add: create_dir_all_def faultable_def take_fault_def e1)
  show "r' = Inr ()" "env_faults e2 = []" using assms(2) by (simp_all add: e2 e1)
  have "beneath ?p (path_join ?p name)" for name unfolding fuzz_dir_join by (simp add: beneath_def)
  then show "\<forall>name. name \<noteq> [] \<longrightarrow> \<not> env_exists (path_join ?p name) e2"
    using path_join_self [of _ ?p] by (simp add: env_exists_def e2 e1)
qed

lemma length_chunks3: "length (chunks3 bs) \<le> length bs"
  by (induction bs rule: chunks3.induct) simp_all

subsection \<open>Properties\<close>

text \<open>
  C1: the database is the map, through every call, and no call fails.  Take any program of
  fuzz operations, up to 2^28 bytes, an environment without faults, and a compressor that does
  not fail.  The driver then runs to its end: every put, delete, flush, and compaction followed
  by a restart from the files succeeds, after every operation the scan of the database gives the
  rows of the ordered map, every get its value, and at the end no file of the database is left.
  (The resources are assumed to last: no table of 2^64 bytes, no last file number.)
\<close>

theorem fuzz_run_passes:
  assumes "externals X" and "packs X Zstd" and "env_faults e = []" and "length input \<le> 2 ^ 28" and "length input + 2 \<le> fuel"
    and "\<forall>s\<in>set (run_states X pick_block pick_table fuel pid input e). ample (fuzz_dir pid input) s"
  shows "\<exists>e'. run_case X pick_block pick_table fuel pid input e = Some (FuzzDone e') \<and>
    (\<forall>name. env_files e' (path_join (fuzz_dir pid input) name) = None)"
proof -
  let ?p = "fuzz_dir pid input"
  obtain r1 e1 where rm: "remove_dir_all ?p e = (r1, e1)" by fastforce
  obtain r2 e2 where mk: "create_dir_all ?p e1 = (r2, e2)" by fastforce
  note empty = removed_dir_empty [OF rm assms(3) mk]
  have e2: "env_faults e2 = []" "r2 = Inr ()" using empty(2,3) .
  have opts: "\<not> error_if_exists fuzz_options" "create_if_missing fuzz_options" "1 < max_levels fuzz_options" "max_levels fuzz_options < 2 ^ 32"
    by (simp_all add: fuzz_options_def default_options_def)
  obtain d e3 where op: "db_open X pick_block pick_table ?p fuzz_options e2 = (Inr d, e3)"
    using open_fresh_success [OF e2(1) empty(1) opts(1,2)] by blast
  note o = open_fresh_durable [OF assms(1) op e2(1) empty(1) opts(3,4)]
  have "lively X Map.empty d" using o(1,13) assms(2) by (simp add: lively_def o(5)) (simp add: fuzz_options_def)
  then have "fuzz_inv X ?p 0 (d, [])"
    unfolding fuzz_inv_def using o by (auto simp: view_def lookup_at_def visible_value_def intro!: exI [of _ Map.empty])
  moreover have "0 + length (chunks3 input) \<le> 2 ^ 28" "0 + length (chunks3 input) + 2 \<le> fuel"
    using length_chunks3 [of input] assms(4,5) by simp_all
  moreover have "\<forall>s\<in>set (loop_states X pick_block pick_table fuel ?p (chunks3 input) (d, [])). ample ?p s"
    using assms(6) rm mk op by (simp add: run_states_def Let_def)
  ultimately obtain d' omap where l: "fuzz_loop X pick_block pick_table fuel ?p (chunks3 input) (d, []) = Some (Inr (d', omap))"
    and inv: "fuzz_inv X ?p (0 + length (chunks3 input)) (d', omap)" using fuzz_loop_ok [OF assms(1)] by (metis surj_pair)
  from inv obtain G where "lively X G d'" by (auto simp: fuzz_inv_def)
  from lively_sel(3) [OF this] have "env_faults (db_env d') = []" by (simp add: healthy_def)
  then have "env_files (snd (remove_dir_all ?p (db_env d'))) (path_join ?p name) = None" for name
    unfolding fuzz_dir_join by (simp add: remove_dir_all_def faultable_def take_fault_def beneath_def)
  with rm mk e2 op l show ?thesis by (simp add: run_case_def Let_def)
qed

text \<open>A put into a new database, from an empty file system; the scan after it finds the value.\<close>

lemma put_in_memtable:
  assumes run: "db_put demo_externs k v d = (r, d')" and small: "length k + length v \<le> 100"
    and sel: "\<not> db_closed d" "db_mutable d = mem_new demo_externs KindSkipList" "db_options d = fuzz_options" "db_l0_tables d = []"
  shows "db_versions d' = db_versions d" and "db_options d' = fuzz_options"
    and "q \<noteq> db_wal d \<Longrightarrow> env_files (db_env d') q = env_files (db_env d) q"
proof -
  let ?b = "write_batch_put write_batch_new k v"
  have ne: "records ?b \<noteq> []" "length (db_l0_tables d) < level0_stop_writes_trigger (db_options d)"
    by (simp_all add: write_batch_put_def write_batch_new_def sel fuzz_options_def default_options_def)
  have "\<forall>d1. db_mutable d1 = db_mutable d \<longrightarrow> db_options d1 = db_options d \<longrightarrow>
    \<not> fst (apply_items demo_externs (assign_sequences (db_last_sequence d + 1) (group_items [(?b, default_write_options)])) False d1)"
    using small sel(2,3)
    by (auto simp: group_items_def freeze_mutable_if_needed_def db_apply_batch_def mem_new_def sk_defs arena_new_def
        write_batch_put_def write_batch_new_def fuzz_options_def sk_approximate_size_def demo_externs_def btree_externs_def
        size_of_internal_key_def)
  note m = write_in_memtable [OF run [unfolded db_put_def] ne(1) sel(1) ne(2) this]
  show "db_versions d' = db_versions d" "db_options d' = fuzz_options" using m(1,2) sel(3) by simp_all
  show "env_files (db_env d') q = env_files (db_env d) q" if "q \<noteq> db_wal d" using m(3) that by blast
qed

definition blank_env :: env where
  "blank_env = \<lparr>env_files = Map.empty, env_dirs = [], env_faults = [], read_chunk = (\<lambda>_ n. n)\<rparr>"

lemma demo_run_states:
  "\<forall>s\<in>set (run_states demo_externs (\<lambda>_. 0) (\<lambda>_. 0) 9 7 [0, 1, 5] blank_env). ample (fuzz_dir 7 [0, 1, 5]) s"
proof -
  let ?X = demo_externs and ?p = "fuzz_dir 7 [0, 1, 5]" and ?k = "fuzz_key 1" and ?v = "fuzz_value 5"
  obtain r1 e1 where rm: "remove_dir_all ?p blank_env = (r1, e1)" by fastforce
  obtain r2 e2 where mk: "create_dir_all ?p e1 = (r2, e2)" by fastforce
  have calm: "env_faults blank_env = []" by (simp add: blank_env_def)
  note empty = removed_dir_empty [OF rm calm mk]
  have e2: "env_faults e2 = []" by (rule empty(2))
  obtain r3 e3 where op: "db_open ?X (\<lambda>_. 0) (\<lambda>_. 0) ?p fuzz_options e2 = (r3, e3)" by fastforce
  have lv: "1 < max_levels fuzz_options" "max_levels fuzz_options < 2 ^ 32" by (simp_all add: fuzz_options_def default_options_def)
  have "ample ?p s" if r3: "r3 = Inr d" and s: "s \<in> {d, pressed ?X (write_batch_put write_batch_new ?k ?v) d, snd (db_put ?X ?k ?v d)}" for d s
  proof -
    note o = open_fresh_durable [OF demo_ok(1) op [unfolded r3] e2 empty(1) lv]
    have kind: "opt_memtable_kind fuzz_options = KindSkipList" by (simp add: fuzz_options_def)
    obtain r d' where put: "db_put ?X ?k ?v d = (r, d')" by fastforce
    have "length ?k + length ?v \<le> 100" using fuzz_lengths(1) [of 1] fuzz_lengths(2) [of 5] by simp
    note m = put_in_memtable [OF put this durable_mems(4) [OF o(1)] o(11) [unfolded kind] o(5,10)]
    have t: "table_path ?p n \<noteq> db_wal d" for n using table_not_log(1) [of ?p n] o(12) by (auto simp: log_files_def)
    have "pressed ?X (write_batch_put write_batch_new ?k ?v) d =
        d\<lparr>db_metrics := record_user_write (batch_user_write_bytes (write_batch_put write_batch_new ?k ?v)) (db_metrics d)\<rparr>"
      using o(5,10) by (simp add: pressed_def apply_write_pressure_def fuzz_options_def default_options_def)
    with s put m(1,2) m(3) [OF t] o(5,7-9) show ?thesis
      by (auto simp: ample_def file_fits_def content_of_def fuzz_options_def default_options_def)
  qed
  then show ?thesis
    using rm mk op by (auto simp: run_states_def Let_def op_states_def byte_at_def split: sum.splits)
qed

theorem fuzz_run_passes_witness:
  "\<exists>e'. run_case demo_externs (\<lambda>_. 0) (\<lambda>_. 0) 9 7 [0, 1, 5] blank_env = Some (FuzzDone e') \<and>
    env_files e' (path_join (fuzz_dir 7 [0, 1, 5]) ''CURRENT'') = None"
proof -
  have "env_faults blank_env = []" by (simp add: blank_env_def)
  moreover have "packs demo_externs Zstd" by (simp add: packs_def compress_block_def demo_externs_def btree_externs_def)
  ultimately show ?thesis using fuzz_run_passes [OF demo_ok(1) _ _ _ _ demo_run_states] by auto
qed

end
