(* ===== verification/Spec2Isabelle.thy ===== *)
theory Spec2Isabelle
  imports Batch Memtable Wal Bloom Block Cache SSTable Iterators Table_Iterator Options Version
    Compaction Snapshots Metrics Database Database_Reads Frames
    Database_Writes Database_Flush Database_Progress Database_Api Transactions
    Serializability Transaction_Reads Group_Commit Recovery Database_Compaction
    Compaction_Scores Rate_Limiter Fuzz_Model
begin

text \<open>
  \<^bold>\<open>Verification of TyLsmDB\<close>, an embedded key-value store organised as a
  log-structured merge tree (\<^verbatim>\<open>src/src/\<close>, Rust).

  \<^bold>\<open>The program.\<close>  A write goes to a log file and to a memtable of versioned entries;
  a full memtable is frozen and written as a sorted table file of level 0; compactions merge
  table files into the levels below, dropping versions no snapshot can see.  A manifest logs
  which files make up each level.  Reads consult the memtables, the files of level 0 from new
  to old, and one file per deeper level; scans merge iterators over all of them.
  Snapshots fix a sequence number to read at; transactions read at a snapshot, buffer their
  writes and validate at commit that nothing they read has changed.

  \<^bold>\<open>Theories and the code they model.\<close>
  \<^item> Prelude: bytes, machine integers as words, results (\<^verbatim>\<open>error.rs\<close>), collections of
    simplification rules and list lemmas shared by all.
  \<^item> Coding: variable-length integers (\<^verbatim>\<open>util/coding.rs\<close>).
  \<^item> Keys: internal keys and their order (\<^verbatim>\<open>key/\<close>), bounds, and the reference
    semantics of reading: \<open>lookup_at\<close> is the newest version of a key at a sequence in a bag of
    entries, \<open>scan_rows\<close> the visible rows.
  \<^item> Batch: write batches and their log payload (\<^verbatim>\<open>batch.rs\<close>).
  \<^item> Env: the file system behind \<^verbatim>\<open>env/fs.rs\<close>, with injected faults, and file names
    (\<^verbatim>\<open>env/file.rs\<close>).
  \<^item> Wal: the record log (\<^verbatim>\<open>wal/\<close>).
  \<^item> Externs: third-party crates as parameters with their documented laws as a locale.
  \<^item> Memtable: both memtables (\<^verbatim>\<open>memtable/\<close>).
  \<^item> Bloom: \<^verbatim>\<open>util/bloom.rs\<close>, \<^verbatim>\<open>table/filter.rs\<close>.
  \<^item> Table_Format, Block, SSTable, Table_Iterator: table files (\<^verbatim>\<open>table/\<close>), with the
    block and table caches in Cache and SSTable (\<^verbatim>\<open>cache/\<close>).
  \<^item> Iterators: the iterator trait and its implementations (\<^verbatim>\<open>iterator/\<close>).
  \<^item> Options: \<^verbatim>\<open>options.rs\<close>.
  \<^item> Version: versions, edits, manifest and version set (\<^verbatim>\<open>version/\<close>).
  \<^item> Compaction: \<^verbatim>\<open>compact/\<close> and the splitting of outputs of \<^verbatim>\<open>db.rs\<close>.
  \<^item> Float64: the double precision arithmetic of the two theories that follow.
    Compaction_Scores: the automatic picker and its scores (\<^verbatim>\<open>compact/leveled.rs\<close>,
    \<^verbatim>\<open>compact/picker.rs\<close>).  Rate_Limiter: \<^verbatim>\<open>util/rate_limiter.rs\<close>.
  \<^item> Snapshots: \<^verbatim>\<open>mvcc/watermark.rs\<close>, \<^verbatim>\<open>mvcc/snapshot.rs\<close>.
  \<^item> Metrics: \<^verbatim>\<open>metrics.rs\<close>.
  \<^item> Database: \<^verbatim>\<open>db.rs\<close>; Database_Reads: the invariant of an open database and its reads.
  \<^item> Group_Commit: concurrent calls of \<^verbatim>\<open>DB::write\<close>, their queue and the waiting of
    followers for their leader, as a step relation.
  \<^item> Transactions: \<^verbatim>\<open>mvcc/transaction.rs\<close> and the commit path of \<^verbatim>\<open>db.rs\<close>.
  \<^item> Frames: which files each operation touches.  Database_Writes: group writes, the log and
    its replay.  Database_Flush: flushes under failing calls.  Database_Progress: a flush succeeds
    when no call fails.  Database_Api: \<^verbatim>\<open>DB::write\<close>, \<^verbatim>\<open>DB::put\<close> and reading after
    writing.  Serializability: validation and commit of transactions.  Transaction_Reads: what a
    transaction sees.  Table_Opening and Recovery: opening the
    files of a database again.  Compacted_Versions: what a compaction does to a version and its
    layers; Compaction_Steps and Database_Compaction: \<^verbatim>\<open>DB::compact_range\<close> under failing
    calls.  Disk_Frames: what each operation leaves of the environment besides its files, and
    of memory.  Durability: the invariant \<open>durable\<close>, under which the files alone give the
    database back, kept by writes and flushes; Durable_Calls: by compactions; Reopening: by
    \<^verbatim>\<open>DB::open\<close> on a new directory and on old files; Api_Durability: by the calls of the
    interface; Call_Progress: these calls succeed when nothing fails.  These hold no definitions of the code, only of invariants and frames.
  \<^item> Fuzz_Model: the fuzz driver \<^verbatim>\<open>bin/fuzz_model.rs\<close>, which compares the database with an
    ordered map.

  \<^bold>\<open>Conventions.\<close>  A struct is a record, an enum a datatype, \<^verbatim>\<open>u8\<close> to
  \<^verbatim>\<open>u64\<close> are words and wrap, \<^verbatim>\<open>usize\<close> is a natural number, a
  \<^verbatim>\<open>Vec\<close> a list, a \<^verbatim>\<open>BTreeMap\<close> or \<^verbatim>\<open>BTreeSet\<close> a sorted list.
  A \<^verbatim>\<open>Result\<close> is a sum with the error on the left; a panic (a failed index, an
  \<^verbatim>\<open>expect\<close>) is the error \<open>Panic\<close>.  Code with effects is an operation
  \<open>('s, 'a) op\<close>, from a state to a result and the state after it, so the state left behind by
  an error is visible.  The environment carries a list of faults, one per call, that make the
  call fail, a write after a part of its bytes; a theorem over all environments therefore
  covers every pattern of I/O failures.

  \<^bold>\<open>Loops and fuel.\<close>  Loops over lists and bytes are structural or have a measure.  The
  loops of the database iterator end because the iterator below them does, which only its
  invariant shows: they take fuel, and the theorems show that more fuel than there are entries
  is enough.

  \<^bold>\<open>What the lemmas show.\<close>  Each codec round-trips and rejects cut input.  Each component
  with a contract has a locale: \<open>sorted_map\<close> and \<open>externals\<close> for third-party maps and codecs,
  \<open>version_table\<close> for memtables, \<open>iterating\<close> for iterators (a merge of iterators is again one),
  \<open>snapshot_registry\<close> for the watermark; each is interpreted on the model's definitions.  Table
  files are characterised by \<open>table_with\<close>: a successful build establishes it, opening and
  reading rely on it, through coherent caches.  A manifest that holds a list of edits recovers
  the version set in memory, also when the last append failed part-way.  The invariant
  \<open>readable\<close> of the database orders its layers from new to old; under it point lookups and
  scans agree with the reference semantics over all entries.  \<open>db_ok\<close> adds what writes and
  flushes rely on (the log, the manifest and the numbers of tables); a write is atomic and a
  flush changes no entry whatever call fails, and a flush succeeds when none does.  The log of
  acknowledged batches replays to the memtable, and a log cut anywhere replays to a prefix.  A
  commit is validated against exactly the versions newer than its snapshot, so a transaction
  that commits could have run at its commit.  Concurrent writes take effect exactly once, as if
  their groups had run one after the other, and every call returns.  Opening the files of a
  database gives it back.  \<open>durable\<close> ties the invariant of memory to the files: the manifest
  recovers to the version in memory and the log replays to the memtable.  Every call keeps it,
  so an acknowledged write is there after a restart, whatever flushes and compactions came
  with it.  Together with \<open>tidy\<close>, that no table is left behind which the version does not list,
  it makes every call succeed when nothing fails: the fuzz driver, which runs any program of
  calls against an ordered map, runs to its end and finds no difference.  Compaction is a refinement: merging entries changes no read at
  or above the watermark, and a compaction of the database neither, whatever call fails.
  Rounding to the nearest float is monotone, exact on integers below \<open>2 ^ 53\<close> and has a
  bounded relative error elsewhere; so the automatic picker misses no full level, and the rate
  limiter admits no more than its rate, up to that error.

  \<^bold>\<open>Not modelled.\<close>  Interleavings of threads inside one call other than those of a group
  commit (elsewhere a call of the model runs alone and a writer leads its own group; the
  subcompactions of one compaction run in the order of their chunks); poisoned
  locks; sleeping itself (the rate limiter computes how long, and the write path of the model
  goes on without the wait, which changes no data); the loss of bytes that were written and
  not synced when the machine itself fails (a restart finds what was written); the checksum and
  compression crates; \<^verbatim>\<open>main.rs\<close>, which opens a database and prints its path.
\<close>

end
